(* ===== verification/Prelude.thy ===== *)
theory Prelude
  imports Main "HOL-Library.Word" "HOL-Library.Char_ord" "HOL-Library.List_Lexorder"
    "HOL-Library.Finite_Map" "HOL-Library.Sublist"
begin

text \<open>
  Shared vocabulary of the development: the types Go's built-in types are modelled by, the
  collections of rewrite rules the components fill, and generic facts about lists that
  several components use.

  Go's \<open>string\<close> and \<open>[]byte\<close> are both byte sequences; both are modelled by HOL's
  \<open>string\<close>, whose characters are exactly the 256 byte values, ordered bytewise
  (Char_ord), so Go's \<open><\<close> on strings and \<open>bytes.Compare\<close> are the
  lexicographic \<open><\<close> of List_Lexorder. Go's \<open>int64\<close> and \<open>uint64\<close> are
  \<open>64 word\<close>; Go's \<open>int\<close>, wherever the code bounds it, is \<open>int\<close> or
  \<open>nat\<close>; a Go map is a finite map.
\<close>

type_synonym byte = char
type_synonym bytes = string
type_synonym int64 = "64 word"
type_synonym uint64 = "64 word"

named_theorems merge_simps \<open>equations that evaluate the merge policies\<close>

section \<open>Slices\<close>

text \<open>\<open>slice i j xs\<close> is Go's \<open>xs[i:j]\<close> for \<open>i \<le> j \<le> len(xs)\<close>.\<close>

definition slice :: "nat \<Rightarrow> nat \<Rightarrow> 'a list \<Rightarrow> 'a list" where
  "slice i j xs = take (j - i) (drop i xs)"

lemma map_slice: "map f (slice i j xs) = slice i j (map f xs)"
  by (simp add: slice_def take_map drop_map)

lemma length_slice [simp]: "length (slice i j xs) = min (j - i) (length xs - i)"
  by (simp add: slice_def)

lemma slice_split:
  assumes "i \<le> s" "s < length xs"
  shows "drop i xs = slice i s xs @ xs ! s # drop (Suc s) xs"
proof -
  have "drop i xs = take (s - i) (drop i xs) @ drop (s - i) (drop i xs)"
    by (simp only: append_take_drop_id)
  also have "drop (s - i) (drop i xs) = xs ! s # drop (Suc s) xs"
    using assms by (simp add: Cons_nth_drop_Suc)
  finally show ?thesis by (simp add: slice_def)
qed

lemma slice_to_end: "slice i (length xs) xs = drop i xs"
  by (simp add: slice_def)

section \<open>Decimal text\<close>

text \<open>\<open>strconv.Itoa\<close> on the sizes and positions the code prints.\<close>

definition digit_char :: "nat \<Rightarrow> char" where
  "digit_char d = char_of (48 + d)"

fun itoa :: "nat \<Rightarrow> string" where
  "itoa n = (if n < 10 then [digit_char n] else itoa (n div 10) @ [digit_char (n mod 10)])"

declare itoa.simps [simp del]

lemma itoa_nonempty: "itoa n \<noteq> []"
  by (subst itoa.simps) simp

lemma digit_char_inj: "c < 10 \<Longrightarrow> d < 10 \<Longrightarrow> digit_char c = digit_char d \<Longrightarrow> c = d"
proof -
  assume "c < 10" "d < 10" "digit_char c = digit_char d"
  then have "of_char (digit_char c) = (of_char (digit_char d) :: nat)" by simp
  with \<open>c < 10\<close> \<open>d < 10\<close> show "c = d" by (simp add: digit_char_def)
qed

lemma itoa_inj: "itoa m = itoa n \<Longrightarrow> m = n"
proof (induction m arbitrary: n rule: itoa.induct)
  case (1 m)
  have len: "(length (itoa k) = 1) = (k < 10)" for k
    by (subst itoa.simps) (simp add: itoa_nonempty)
  show ?case
  proof (cases "m < 10")
    case True
    with len [of m] len [of n] "1.prems" have "n < 10" by simp
    with True "1.prems" show ?thesis
      by (auto simp: itoa.simps [of m] itoa.simps [of n] intro: digit_char_inj)
  next
    case False
    with len [of m] len [of n] "1.prems" have n: "\<not> n < 10" by simp
    with False "1.prems" have "itoa (m div 10) = itoa (n div 10)" "digit_char (m mod 10) = digit_char (n mod 10)"
      by (simp_all add: itoa.simps [of m] itoa.simps [of n])
    with "1.IH" [OF False] have "m div 10 = n div 10" "m mod 10 = n mod 10"
      by (auto intro: digit_char_inj)
    then show ?thesis by (metis div_mult_mod_eq)
  qed
qed

end
