(* ===== verification/Merge_Basic.thy ===== *)
theory Merge_Basic
  imports Prelude
begin

text \<open>
  Package \<open>merge\<close>, the policies without structure: \<open>Result\<close>, \<open>Conflict\<close>,
  \<open>Scalar\<close> and \<open>Counter\<close> (src/merge/merge.go) and the observed-remove
  \<open>Set\<close> (src/merge/set.go).
\<close>

section \<open>Results\<close>

type_synonym path = "string list"

record conflict =
  c_path :: path
  c_reason :: string

record 'a merge_result =
  r_value :: 'a
  r_conflicts :: "conflict list"
  r_flagged :: "conflict list"

definition Clean :: "'a merge_result \<Rightarrow> bool" where
  "Clean r \<longleftrightarrow> length (r_conflicts r) = 0"

section \<open>Scalars\<close>

text \<open>
  \<open>Scalar_by eq\<close> is \<open>Scalar[T]\<close> with \<open>eq\<close> the \<open>==\<close> of \<open>T\<close>: for every
  comparable type without floats that is equality, for a struct holding a
  \<open>float64\<close> it is IEEE equality on that field.
\<close>

definition Scalar_by :: "('a \<Rightarrow> 'a \<Rightarrow> bool) \<Rightarrow> 'a \<Rightarrow> 'a \<Rightarrow> 'a \<Rightarrow> 'a merge_result" where
  "Scalar_by eq base ours theirs =
     (if eq ours theirs then \<lparr>r_value = ours, r_conflicts = [], r_flagged = []\<rparr>
      else if eq ours base then \<lparr>r_value = theirs, r_conflicts = [], r_flagged = []\<rparr>
      else if eq theirs base then \<lparr>r_value = ours, r_conflicts = [], r_flagged = []\<rparr>
      else \<lparr>r_value = base,
            r_conflicts = [\<lparr>c_path = [], c_reason = ''both sides changed it, to different values''\<rparr>],
            r_flagged = []\<rparr>)"

abbreviation Scalar :: "'a \<Rightarrow> 'a \<Rightarrow> 'a \<Rightarrow> 'a merge_result" where
  "Scalar \<equiv> Scalar_by (=)"

section \<open>Counters\<close>

definition Counter :: "int64 \<Rightarrow> int64 \<Rightarrow> int64 \<Rightarrow> int64" where
  "Counter base ours theirs = base + (ours - base) + (theirs - base)"

section \<open>Sets\<close>

datatype 'a tagged = Tagged (tg_elem: 'a) (tg_tag: uint64)

type_synonym 'a members = "('a tagged, bool) fmap"

text \<open>Go's \<open>m[t]\<close>: the zero value, false, for a key that is not there.\<close>

definition member_at :: "'a members \<Rightarrow> 'a tagged \<Rightarrow> bool" where
  "member_at m t \<longleftrightarrow> fmlookup m t = Some True"

definition Has :: "'a members \<Rightarrow> 'a \<Rightarrow> bool" where
  "Has m elem \<longleftrightarrow> fBex (fmdom m) (\<lambda>t. tg_elem t = elem)"

definition Set_merge :: "'a members \<Rightarrow> 'a members \<Rightarrow> 'a members \<Rightarrow> 'a members" where
  "Set_merge base ours theirs =
     fmmap (\<lambda>_. True) (fmfilter (\<lambda>t. member_at theirs t \<or> \<not> member_at base t) ours)
     ++\<^sub>f fmmap (\<lambda>_. True) (fmfilter (\<lambda>t. \<not> member_at base t) theirs)"

section \<open>The contract of a policy\<close>

text \<open>
  What src/merge/doc.go promises of every policy: it is symmetric in its sides, and it
  returns a side unchanged when the other side made no change. \<open>ok\<close> is the domain a
  policy promises this on.
\<close>

locale merge_policy =
  fixes mg :: "'a \<Rightarrow> 'a \<Rightarrow> 'a \<Rightarrow> 'a merge_result"
    and ok :: "'a \<Rightarrow> bool"
  assumes mg_sym: "ok b \<Longrightarrow> ok x \<Longrightarrow> ok y \<Longrightarrow> mg b x y = mg b y x"
    and mg_ours_unchanged: "ok b \<Longrightarrow> ok y \<Longrightarrow> Clean (mg b b y) \<and> r_value (mg b b y) = y"
begin

lemma mg_theirs_unchanged:
  assumes "ok b" "ok x"
  shows "Clean (mg b x b) \<and> r_value (mg b x b) = x"
  using mg_ours_unchanged [OF assms] mg_sym [OF assms(1) assms(2) assms(1)] by simp

lemma mg_nothing: "ok b \<Longrightarrow> Clean (mg b b b) \<and> r_value (mg b b b) = b"
  by (rule mg_ours_unchanged)

text \<open>Two merges, of one side and then of the other, over an unchanged base, commute.\<close>

lemma mg_order_irrelevant:
  assumes "ok b" "ok x" "ok y"
  shows "mg b (r_value (mg b b x)) y = mg b (r_value (mg b y b)) x"
  using assms by (simp add: mg_ours_unchanged mg_theirs_unchanged mg_sym)

end

lemma Scalar_clean_iff: "Clean (Scalar b x y) \<longleftrightarrow> x = y \<or> x = b \<or> y = b"
  by (simp add: Scalar_by_def Clean_def)

lemma Scalar_sym: "Scalar b x y = Scalar b y x"
  by (auto simp: Scalar_by_def)

lemma Scalar_value: "r_value (Scalar b x y) = (if x = y then x else if x = b then y else if y = b then x else b)"
  by (simp add: Scalar_by_def)

interpretation scalar: merge_policy Scalar "\<lambda>_. True"
  by unfold_locales (auto simp: Scalar_by_def Clean_def)

interpretation counter: merge_policy
  "\<lambda>b x y. \<lparr>r_value = Counter b x y, r_conflicts = [], r_flagged = []\<rparr>" "\<lambda>_. True"
  by unfold_locales (simp_all add: Counter_def Clean_def)

lemma member_at_Set_merge:
  "member_at (Set_merge b x y) t \<longleftrightarrow>
     (fmlookup x t \<noteq> None \<and> (member_at y t \<or> \<not> member_at b t)) \<or>
     (fmlookup y t \<noteq> None \<and> \<not> member_at b t)"
  by (auto simp: Set_merge_def member_at_def fmlookup_dom_iff split: if_splits)

text \<open>
  A map built as the code builds one (\<open>out[t] = true\<close> only) holds nothing but true.
\<close>

definition members_wf :: "'a members \<Rightarrow> bool" where
  "members_wf m \<longleftrightarrow> fmpred (\<lambda>_ v. v) m"

lemma members_wf_lookup:
  "members_wf m \<Longrightarrow> fmlookup m t = (if member_at m t then Some True else None)"
  by (cases "fmlookup m t") (auto simp: members_wf_def member_at_def fmpred_iff)

lemma members_wf_eqI:
  assumes "members_wf m" "members_wf m'" "\<And>t. member_at m t = member_at m' t"
  shows "m = m'"
  using assms by (intro fmap_ext) (simp add: members_wf_lookup)

lemma members_wf_Set_merge: "members_wf (Set_merge b x y)"
  by (auto simp: Set_merge_def members_wf_def fmpred_iff split: if_splits)

lemma member_at_Set_merge_wf:
  assumes "members_wf x" "members_wf y"
  shows "member_at (Set_merge b x y) t \<longleftrightarrow>
    (member_at x t \<and> member_at y t) \<or> ((member_at x t \<or> member_at y t) \<and> \<not> member_at b t)"
  using assms by (auto simp: member_at_Set_merge members_wf_lookup)

interpretation set_policy: merge_policy
  "\<lambda>b x y. \<lparr>r_value = Set_merge b x y, r_conflicts = [], r_flagged = []\<rparr>" members_wf
  by unfold_locales
    (auto simp: Clean_def member_at_Set_merge_wf intro!: members_wf_eqI members_wf_Set_merge)

section \<open>Properties\<close>

text \<open>
  C40. The observed-remove set: a tagged element is in the merge exactly when both sides hold it,
  or one side holds it and the base did not; so a removal takes effect only for tags the remover
  saw, a concurrent insertion survives it, and the result has no false entry. The merge is
  the same with the sides swapped.
\<close>

theorem Set_merge_observed_remove:
  assumes "members_wf base" "members_wf ours" "members_wf theirs"
  shows "(\<forall>t. member_at (Set_merge base ours theirs) t \<longleftrightarrow>
      (member_at ours t \<and> member_at theirs t) \<or>
      ((member_at ours t \<or> member_at theirs t) \<and> \<not> member_at base t)) \<and>
    members_wf (Set_merge base ours theirs) \<and>
    Set_merge base ours theirs = Set_merge base theirs ours"
proof (intro conjI allI)
  show "Set_merge base ours theirs = Set_merge base theirs ours"
    using set_policy.mg_sym [OF assms] by simp
qed (simp_all add: member_at_Set_merge_wf [OF assms(2,3)] members_wf_Set_merge)

theorem Set_merge_observed_remove_witness:
  "member_at (Set_merge (fmap_of_list [(Tagged ''e'' 1, True)]) fmempty
       (fmap_of_list [(Tagged ''e'' 1, True), (Tagged ''e'' 2, True)])) (Tagged ''e'' 2) \<and>
   \<not> member_at (Set_merge (fmap_of_list [(Tagged ''e'' 1, True)]) fmempty
       (fmap_of_list [(Tagged ''e'' 1, True), (Tagged ''e'' 2, True)])) (Tagged ''e'' 1)"
proof -
  let ?b = "fmap_of_list [(Tagged ''e'' 1, True)] :: string members"
  let ?y = "fmap_of_list [(Tagged ''e'' 1, True), (Tagged ''e'' 2, True)] :: string members"
  have "members_wf ?b" "members_wf (fmempty :: string members)" "members_wf ?y"
    by (simp_all add: members_wf_def fmap_of_list_simps fmpred_iff)
  note merged = conjunct1 [OF Set_merge_observed_remove [OF this]]
  show ?thesis
    using merged [THEN spec, of "Tagged ''e'' 2"] merged [THEN spec, of "Tagged ''e'' 1"]
    by (simp add: member_at_def fmap_of_list_simps)
qed

text \<open>
  The scalar merge conflicts exactly when both sides changed the value, to different values,
  and then keeps the base; otherwise the result is the changed value. It is symmetric.
\<close>

theorem Scalar_three_way:
  "(Clean (Scalar base ours theirs) \<longleftrightarrow> ours = theirs \<or> ours = base \<or> theirs = base) \<and>
   r_value (Scalar base ours theirs) =
     (if ours = theirs then ours else if ours = base then theirs else if theirs = base then ours else base) \<and>
   Scalar base ours theirs = Scalar base theirs ours"
  by (intro conjI Scalar_clean_iff Scalar_value Scalar_sym)

text \<open>
  The counter merge adds both sides' deltas modulo \<open>2^64\<close>, exactly what applying one
  side's increment after the other's gives, in either order.
\<close>

theorem Counter_adds_deltas:
  "Counter base (base + d) (base + e) = base + d + e \<and>
   Counter base ours theirs = Counter base theirs ours \<and>
   Counter base ours theirs - base = (ours - base) + (theirs - base)"
  by (simp add: Counter_def)

end
