(* ===== verification/Align.thy ===== *)
theory Align
  imports Prelude
begin

text \<open>
  The alignment of src/merge/sequence.go: \<open>align\<close>, the \<open>aligner\<close> with its
  recursion \<open>diff\<close> and the middle-snake search \<open>middle\<close> (Myers' difference
  algorithm in linear space). Go's \<open>int\<close> is \<open>int\<close> here, since diagonals are
  negative; the arrays \<open>fwd\<close>, \<open>bwd\<close> and \<open>out\<close> are lists read and
  written by index and threaded through the calls as the code shares them.

  Theory Align_Correct shows that \<open>align\<close> always returns and that what it returns is a
  matching.
\<close>

section \<open>Definitions\<close>

definition MaxSequenceEdits :: int where
  "MaxSequenceEdits = 1000"

definition at :: "'a list \<Rightarrow> int \<Rightarrow> 'a" where
  "at xs i = xs ! nat i"

definition upd :: "'a list \<Rightarrow> int \<Rightarrow> 'a \<Rightarrow> 'a list" where
  "upd xs i v = xs[nat i := v]"

record aligner =
  al_a :: "int list"
  al_b :: "int list"
  al_out :: "int list"
  al_fwd :: "int list"
  al_bwd :: "int list"
  al_off :: int

subsection \<open>The middle snake\<close>

text \<open>
  The run of matches from a point: \<open>for x < n && y < m && ... { x, y = x+1, y+1 }\<close>,
  with \<open>E x y\<close> the comparison of the two keys there.
\<close>

function slide :: "(int \<Rightarrow> int \<Rightarrow> bool) \<Rightarrow> int \<Rightarrow> int \<Rightarrow> int \<Rightarrow> int \<Rightarrow> int \<times> int" where
  "slide E n m x y = (if x < n \<and> y < m \<and> E x y then slide E n m (x + 1) (y + 1) else (x, y))"
  by pat_completeness auto
termination
  by (relation "measure (\<lambda>(E, n, m, x, y). nat (n - x))") auto

declare slide.simps [simp del]

text \<open>Where a path on diagonal \<open>k\<close> starts after one more edit.\<close>

definition step_x :: "int list \<Rightarrow> int \<Rightarrow> int \<Rightarrow> int \<Rightarrow> int" where
  "step_x arr off dd k =
     (if k \<noteq> - dd \<and> (k = dd \<or> at arr (off + k - 1) \<ge> at arr (off + k + 1))
      then at arr (off + k - 1) + 1 else at arr (off + k + 1))"

text \<open>
  One direction's loop over the diagonals of a round, \<open>for k := -dd; k <= dd; k += 2\<close>:
  \<open>hit k x\<close> is the test that ends the search, and the result is then
  \<open>(bx, by, x, y)\<close>; without a hit it is the array with the round written.
\<close>

function search_round ::
  "(int \<Rightarrow> int \<Rightarrow> bool) \<Rightarrow> int \<Rightarrow> int \<Rightarrow> int \<Rightarrow> (int \<Rightarrow> int \<Rightarrow> bool) \<Rightarrow> int \<Rightarrow> int \<Rightarrow> int list \<Rightarrow>
     (int \<times> int \<times> int \<times> int) option \<times> int list" where
  "search_round E n m off hit dd k arr =
     (if k \<le> dd then
        let bx = step_x arr off dd k; by' = bx - k;
            (x, y) = slide E n m bx by';
            arr' = upd arr (off + k) x
        in if hit k x then (Some (bx, by', x, y), arr')
           else search_round E n m off hit dd (k + 2) arr'
      else (None, arr))"
  by pat_completeness auto
termination
  by (relation "measure (\<lambda>(E, n, m, off, hit, dd, k, arr). nat (dd + 2 - k))") auto

declare search_round.simps [simp del]

definition eq_fwd :: "aligner \<Rightarrow> int \<Rightarrow> int \<Rightarrow> int \<Rightarrow> int \<Rightarrow> bool" where
  "eq_fwd s x0 y0 x y \<longleftrightarrow> at (al_a s) (x0 + x) = at (al_b s) (y0 + y)"

definition eq_bwd :: "aligner \<Rightarrow> int \<Rightarrow> int \<Rightarrow> int \<Rightarrow> int \<Rightarrow> bool" where
  "eq_bwd s x1 y1 x y \<longleftrightarrow> at (al_a s) (x1 - 1 - x) = at (al_b s) (y1 - 1 - y)"

definition hit_fwd :: "int \<Rightarrow> int \<Rightarrow> int list \<Rightarrow> int \<Rightarrow> int \<Rightarrow> int \<Rightarrow> int \<Rightarrow> bool" where
  "hit_fwd n delta bwd off dd k x \<longleftrightarrow>
     odd delta \<and> delta - k \<ge> - (dd - 1) \<and> delta - k \<le> dd - 1 \<and> x + at bwd (off + (delta - k)) \<ge> n"

definition hit_bwd :: "int \<Rightarrow> int \<Rightarrow> int list \<Rightarrow> int \<Rightarrow> int \<Rightarrow> int \<Rightarrow> int \<Rightarrow> bool" where
  "hit_bwd n delta fwd off dd k x \<longleftrightarrow>
     even delta \<and> delta - k \<ge> - dd \<and> delta - k \<le> dd \<and> x + at fwd (off + (delta - k)) \<ge> n"

text \<open>
  The loop over \<open>dd\<close>: the forward round, then the backward one. The result is
  \<open>(d, sx, sy, ex, ey)\<close> and the two arrays as the search left them.
\<close>

function middle_loop ::
  "aligner \<Rightarrow> int \<Rightarrow> int \<Rightarrow> int \<Rightarrow> int \<Rightarrow> int \<Rightarrow> int list \<Rightarrow> int list \<Rightarrow>
     (int \<times> int \<times> int \<times> int \<times> int) \<times> int list \<times> int list" where
  "middle_loop s x0 x1 y0 y1 dd fwd bwd =
     (let n = x1 - x0; m = y1 - y0; delta = n - m; off = al_off s in
      if dd < off then
        case search_round (eq_fwd s x0 y0) n m off (hit_fwd n delta bwd off dd) dd (- dd) fwd of
          (Some (bx, by', x, y), fwd') \<Rightarrow>
            ((2 * dd - 1, x0 + bx, y0 + by', x0 + x, y0 + y), fwd', bwd)
        | (None, fwd') \<Rightarrow>
            (case search_round (eq_bwd s x1 y1) n m off (hit_bwd n delta fwd' off dd) dd (- dd) bwd of
               (Some (bx, by', x, y), bwd') \<Rightarrow>
                 ((2 * dd, x1 - x, y1 - y, x1 - bx, y1 - by'), fwd', bwd')
             | (None, bwd') \<Rightarrow> middle_loop s x0 x1 y0 y1 (dd + 1) fwd' bwd')
      else ((MaxSequenceEdits + 1, 0, 0, 0, 0), fwd, bwd))"
  by pat_completeness auto
termination
  by (relation "measure (\<lambda>(s, x0, x1, y0, y1, dd, fwd, bwd). nat (al_off s - dd))") auto

declare middle_loop.simps [simp del]

definition middle ::
  "aligner \<Rightarrow> int \<Rightarrow> int \<Rightarrow> int \<Rightarrow> int \<Rightarrow> (int \<times> int \<times> int \<times> int \<times> int) \<times> int list \<times> int list" where
  "middle s x0 x1 y0 y1 =
     middle_loop s x0 x1 y0 y1 0
       (upd (al_fwd s) (al_off s + 1) 0) (upd (al_bwd s) (al_off s + 1) 0)"

subsection \<open>Divide and conquer\<close>

function common_prefix :: "aligner \<Rightarrow> int \<Rightarrow> int \<Rightarrow> int \<Rightarrow> int \<Rightarrow> aligner \<times> int \<times> int" where
  "common_prefix s x0 x1 y0 y1 =
     (if x0 < x1 \<and> y0 < y1 \<and> at (al_a s) x0 = at (al_b s) y0
      then common_prefix (s\<lparr>al_out := upd (al_out s) x0 y0\<rparr>) (x0 + 1) x1 (y0 + 1) y1
      else (s, x0, y0))"
  by pat_completeness auto
termination
  by (relation "measure (\<lambda>(s, x0, x1, y0, y1). nat (x1 - x0))") auto

declare common_prefix.simps [simp del]

function common_suffix :: "aligner \<Rightarrow> int \<Rightarrow> int \<Rightarrow> int \<Rightarrow> int \<Rightarrow> aligner \<times> int \<times> int" where
  "common_suffix s x0 x1 y0 y1 =
     (if x0 < x1 \<and> y0 < y1 \<and> at (al_a s) (x1 - 1) = at (al_b s) (y1 - 1)
      then common_suffix (s\<lparr>al_out := upd (al_out s) (x1 - 1) (y1 - 1)\<rparr>) x0 (x1 - 1) y0 (y1 - 1)
      else (s, x1, y1))"
  by pat_completeness auto
termination
  by (relation "measure (\<lambda>(s, x0, x1, y0, y1). nat (x1 - x0))") auto

declare common_suffix.simps [simp del]

text \<open>\<open>for x, y := sx, sy; x < ex; x, y = x+1, y+1 { s.out[x] = y }\<close>\<close>

function mark_run :: "int list \<Rightarrow> int \<Rightarrow> int \<Rightarrow> int \<Rightarrow> int list" where
  "mark_run out x y ex = (if x < ex then mark_run (upd out x y) (x + 1) (y + 1) ex else out)"
  by pat_completeness auto
termination
  by (relation "measure (\<lambda>(out, x, y, ex). nat (ex - x))") auto

declare mark_run.simps [simp del]

text \<open>The recursion takes fuel; \<open>None\<close> is running out of it (theory Align_Correct: it never does).\<close>

fun diff :: "nat \<Rightarrow> aligner \<Rightarrow> int \<Rightarrow> int \<Rightarrow> int \<Rightarrow> int \<Rightarrow> int \<Rightarrow> (aligner \<times> bool) option" where
  "diff 0 s x0 x1 y0 y1 limit = None"
| "diff (Suc fuel) s x0 x1 y0 y1 limit =
     (let (s, x0, y0) = common_prefix s x0 x1 y0 y1;
          (s, x1, y1) = common_suffix s x0 x1 y0 y1
      in if x0 = x1 \<or> y0 = y1 then Some (s, True)
         else
           let ((d, sx, sy, ex, ey), fwd', bwd') = middle s x0 x1 y0 y1;
               s = s\<lparr>al_fwd := fwd', al_bwd := bwd'\<rparr>
           in if d > limit then Some (s, False)
              else
                let s = s\<lparr>al_out := mark_run (al_out s) sx sy ex\<rparr>
                in case diff fuel s x0 sx y0 sy d of
                     None \<Rightarrow> None
                   | Some (s, ok) \<Rightarrow>
                       if ok then diff fuel s ex x1 ey y1 d else Some (s, False))"

subsection \<open>Interning and the call\<close>

fun intern :: "(string \<times> int) list \<Rightarrow> string list \<Rightarrow> (string \<times> int) list \<times> int list" where
  "intern ids [] = (ids, [])"
| "intern ids (k # ks) =
     (case map_of ids k of
        Some i \<Rightarrow> (let (ids', out) = intern ids ks in (ids', i # out))
      | None \<Rightarrow>
          (let i = int (length ids); (ids', out) = intern ((k, i) # ids) ks
           in (ids', i # out)))"

definition new_aligner :: "string list \<Rightarrow> string list \<Rightarrow> aligner" where
  "new_aligner base side =
     (let half = (min (int (length base) + int (length side)) MaxSequenceEdits + 1) div 2;
          (ids, a) = intern [] base;
          (_, b) = intern ids side;
          off = half + 1
      in \<lparr>al_a = a, al_b = b, al_out = replicate (length base) (- 1),
          al_fwd = replicate (nat (2 * off + 1)) 0, al_bwd = replicate (nat (2 * off + 1)) 0,
          al_off = off\<rparr>)"

definition align_fuel :: "string list \<Rightarrow> string list \<Rightarrow> nat" where
  "align_fuel base side = length base + length side + 1"

text \<open>
  \<open>None\<close>: out of fuel; \<open>Some None\<close>: \<open>nil, false\<close>; \<open>Some (Some out)\<close>: \<open>out, true\<close>.
\<close>

definition align_run :: "string list \<Rightarrow> string list \<Rightarrow> int list option option" where
  "align_run base side =
     (case diff (align_fuel base side) (new_aligner base side)
             0 (int (length base)) 0 (int (length side)) MaxSequenceEdits of
        None \<Rightarrow> None
      | Some (s, ok) \<Rightarrow> Some (if ok then Some (al_out s) else None))"

text \<open>The result proper; the fuel never runs out (theory Align_Correct).\<close>

definition align :: "string list \<Rightarrow> string list \<Rightarrow> int list option" where
  "align base side = (case align_run base side of Some r \<Rightarrow> r | None \<Rightarrow> None)"

end
