(* ===== verification/Align_Correct.thy ===== *)
theory Align_Correct
  imports Align
begin

text \<open>
  Correctness of the alignment: the rows of furthest-reaching points \<open>middle\<close> computes,
  why the snake it returns is inside its box and leaves both halves smaller, that the
  recursion \<open>diff\<close> therefore ends, and that the matches it writes form a matching.
\<close>


section \<open>Rows of furthest-reaching points\<close>

lemma slide_spec:
  assumes "slide E n m x y = (x', y')"
  shows "x \<le> x' \<and> y' - x' = y - x \<and> (x < x' \<longrightarrow> x' \<le> n \<and> y' \<le> m)
    \<and> (\<forall>i. x \<le> i \<and> i < x' \<longrightarrow> E i (y + (i - x)))"
  using assms
proof (induction E n m x y rule: slide.induct)
  case (1 E n m x y)
  show ?case
  proof (cases "x < n \<and> y < m \<and> E x y")
    case True
    with "1.prems" have eq: "slide E n m (x + 1) (y + 1) = (x', y')"
      by (subst (asm) slide.simps) simp
    note ih = "1.IH" [OF True eq]
    have "E i (y + (i - x))" if "x \<le> i" "i < x'" for i
    proof (cases "i = x")
      case True': True
      with True show ?thesis by simp
    next
      case False
      with ih that have "E i (y + 1 + (i - (x + 1)))" by (metis add1_zle_eq order_less_le)
      then show ?thesis by (simp add: algebra_simps)
    qed
    moreover have "x' \<le> n \<and> y' \<le> m"
      using ih True by (cases "x + 1 < x'") auto
    ultimately show ?thesis using ih by auto
  next
    case False
    with "1.prems" show ?thesis by (subst (asm) slide.simps) auto
  qed
qed

lemma slide_stuck: "\<not> E x y \<Longrightarrow> slide E n m x y = (x, y)"
  by (subst slide.simps) simp

definition first_x :: "(int \<Rightarrow> int) \<Rightarrow> int \<Rightarrow> int \<Rightarrow> int" where
  "first_x f dd k = (if k \<noteq> - dd \<and> (k = dd \<or> f (k - 1) \<ge> f (k + 1)) then f (k - 1) + 1 else f (k + 1))"

fun row :: "(int \<Rightarrow> int \<Rightarrow> bool) \<Rightarrow> int \<Rightarrow> int \<Rightarrow> nat \<Rightarrow> int \<Rightarrow> int" where
  "row E n m 0 k = fst (slide E n m (first_x (\<lambda>_. 0) 0 k) (first_x (\<lambda>_. 0) 0 k - k))"
| "row E n m (Suc d) k =
     fst (slide E n m (first_x (row E n m d) (int (Suc d)) k) (first_x (row E n m d) (int (Suc d)) k - k))"

declare row.simps [simp del]

definition in_row :: "nat \<Rightarrow> int \<Rightarrow> bool" where
  "in_row d k \<longleftrightarrow> - int d \<le> k \<and> k \<le> int d \<and> even (int d - k)"

lemma in_row_0 [simp]: "in_row 0 k \<longleftrightarrow> k = 0"
  by (auto simp: in_row_def)

lemma first_x_cases:
  assumes "in_row (Suc d) k"
  obtains (right) "in_row d (k - 1)" "first_x f (int (Suc d)) k = f (k - 1) + 1"
      "in_row d (k + 1) \<Longrightarrow> f (k + 1) \<le> f (k - 1)"
  | (down) "in_row d (k + 1)" "first_x f (int (Suc d)) k = f (k + 1)"
      "in_row d (k - 1) \<Longrightarrow> f (k - 1) < f (k + 1)"
proof (cases "k \<noteq> - int (Suc d) \<and> (k = int (Suc d) \<or> f (k - 1) \<ge> f (k + 1))")
  case True
  from True assms have "in_row d (k - 1)"
    unfolding in_row_def by presburger
  moreover have "in_row d (k + 1) \<Longrightarrow> f (k + 1) \<le> f (k - 1)"
    using True unfolding in_row_def by auto
  moreover have "first_x f (int (Suc d)) k = f (k - 1) + 1"
    using True by (auto simp: first_x_def)
  ultimately show ?thesis using right by blast
next
  case False
  from False assms have "in_row d (k + 1)"
    unfolding in_row_def by presburger
  moreover have "in_row d (k - 1) \<Longrightarrow> f (k - 1) < f (k + 1)"
    using False unfolding in_row_def by auto
  moreover have "first_x f (int (Suc d)) k = f (k + 1)"
    using False by (auto simp: first_x_def)
  ultimately show ?thesis using down by blast
qed

lemma row_ge_first: "first_x (row E n m d) (int (Suc d)) k \<le> row E n m (Suc d) k"
  using slide_spec [of E n m "first_x (row E n m d) (int (Suc d)) k" "first_x (row E n m d) (int (Suc d)) k - k"]
  by (metis prod.collapse row.simps(2))

lemma row_Suc_over:
  assumes "row E n m (Suc d) k > n \<or> row E n m (Suc d) k - k > m"
  shows "row E n m (Suc d) k = first_x (row E n m d) (int (Suc d)) k"
proof -
  let ?s = "first_x (row E n m d) (int (Suc d)) k"
  obtain x' y' where s: "slide E n m ?s (?s - k) = (x', y')" by fastforce
  from slide_spec [OF s] assms s show ?thesis by (fastforce simp: row.simps)
qed

lemma row_0_over: "0 \<le> n \<Longrightarrow> 0 \<le> m \<Longrightarrow> 0 \<le> row E n m 0 0 \<and> row E n m 0 0 \<le> n \<and> row E n m 0 0 \<le> m"
proof -
  assume nm: "0 \<le> n" "0 \<le> m"
  obtain x' y' where s: "slide E n m 0 0 = (x', y')" by fastforce
  from slide_spec [OF s] s nm show ?thesis by (auto simp: first_x_def row.simps)
qed

lemma row_lower:
  assumes "in_row d k" "0 \<le> n" "0 \<le> m"
  shows "0 \<le> row E n m d k \<and> k \<le> row E n m d k \<and> int d \<le> 2 * row E n m d k - k"
  using assms(1)
proof (induction d arbitrary: k)
  case 0
  then show ?case using row_0_over [OF assms(2,3), of E] by simp
next
  case (Suc d)
  have ge: "first_x (row E n m d) (int (Suc d)) k \<le> row E n m (Suc d) k" by (rule row_ge_first)
  from Suc.prems show ?case
  proof (cases rule: first_x_cases [where f = "row E n m d"])
    case right
    from Suc.IH [OF right(1)] right(2) ge show ?thesis by auto
  next
    case down
    from Suc.IH [OF down(1)] down(2) ge show ?thesis by auto
  qed
qed

lemma row_mono:
  assumes "in_row (Suc d) k"
  shows "in_row d (k - 1) \<Longrightarrow> row E n m d (k - 1) + 1 \<le> row E n m (Suc d) k"
    and "in_row d (k + 1) \<Longrightarrow> row E n m d (k + 1) \<le> row E n m (Suc d) k"
proof -
  have ge: "first_x (row E n m d) (int (Suc d)) k \<le> row E n m (Suc d) k" by (rule row_ge_first)
  show "row E n m d (k - 1) + 1 \<le> row E n m (Suc d) k" if "in_row d (k - 1)"
    using assms
    by (cases rule: first_x_cases [where f = "row E n m d"]) (use ge that in auto)
  show "row E n m d (k + 1) \<le> row E n m (Suc d) k" if "in_row d (k + 1)"
    using assms
    by (cases rule: first_x_cases [where f = "row E n m d"]) (use ge that in auto)
qed

lemma row_over_x:
  assumes "0 \<le> n" "0 \<le> m" "in_row d k" "row E n m d k > n"
  shows "\<exists>d'. d = Suc d' \<and> in_row d' (k - 1) \<and> n \<le> row E n m d' (k - 1)"
  using assms(3,4)
proof (induction d arbitrary: k)
  case 0
  then show ?case using row_0_over [OF assms(1,2), of E] by simp
next
  case (Suc d)
  have eq: "row E n m (Suc d) k = first_x (row E n m d) (int (Suc d)) k"
    using Suc.prems by (intro row_Suc_over) simp
  from Suc.prems(1) show ?case
  proof (cases rule: first_x_cases [where f = "row E n m d"])
    case right
    with eq Suc.prems show ?thesis by auto
  next
    case down
    with eq Suc.prems have "row E n m d (k + 1) > n" by simp
    from Suc.IH [OF down(1) this] obtain d' where
      d': "d = Suc d'" "in_row d' k" "n \<le> row E n m d' k" by auto
    from d'(2) have r: "in_row (Suc d') (k - 1)"
      unfolding in_row_def by presburger
    have "row E n m d' k \<le> row E n m (Suc d') (k - 1)"
      using row_mono(2) [OF r, of E n m] d'(2) by simp
    with d' r show ?thesis by auto
  qed
qed

lemma row_over_y:
  assumes "0 \<le> n" "0 \<le> m" "in_row d k" "row E n m d k - k > m"
  shows "\<exists>d'. d = Suc d' \<and> in_row d' (k + 1) \<and> m \<le> row E n m d' (k + 1) - (k + 1)"
  using assms(3,4)
proof (induction d arbitrary: k)
  case 0
  then show ?case using row_0_over [OF assms(1,2), of E] by simp
next
  case (Suc d)
  have eq: "row E n m (Suc d) k = first_x (row E n m d) (int (Suc d)) k"
    using Suc.prems by (intro row_Suc_over) simp
  from Suc.prems(1) show ?case
  proof (cases rule: first_x_cases [where f = "row E n m d"])
    case down
    with eq Suc.prems show ?thesis by auto
  next
    case right
    with eq Suc.prems have "row E n m d (k - 1) - (k - 1) > m" by simp
    from Suc.IH [OF right(1) this] obtain d' where
      d': "d = Suc d'" "in_row d' k" "m \<le> row E n m d' k - k" by auto
    from d'(2) have r: "in_row (Suc d') (k + 1)"
      unfolding in_row_def by presburger
    have "row E n m d' k + 1 \<le> row E n m (Suc d') (k + 1)"
      using row_mono(1) [OF r, of E n m] d'(2) by simp
    with d' r show ?thesis by auto
  qed
qed

text \<open>
  The search of one direction, at depth \<open>d\<close> on diagonal \<open>k\<close>, meets the other
  direction's row of depth \<open>d - e\<close>: \<open>e = 1\<close> going forward, 0 going backward.
\<close>

definition meets :: "nat \<Rightarrow> int \<Rightarrow> int \<Rightarrow> (nat \<Rightarrow> int \<Rightarrow> int) \<Rightarrow> (nat \<Rightarrow> int \<Rightarrow> int) \<Rightarrow> nat \<Rightarrow> int \<Rightarrow> bool" where
  "meets e n delta F G d k \<longleftrightarrow>
     e \<le> d \<and> - (int d - int e) \<le> delta - k \<and> delta - k \<le> int d - int e \<and> F d k + G (d - e) (delta - k) \<ge> n"

definition snake_start :: "(int \<Rightarrow> int \<Rightarrow> bool) \<Rightarrow> int \<Rightarrow> int \<Rightarrow> nat \<Rightarrow> int \<Rightarrow> int" where
  "snake_start E n m d k =
     (case d of 0 \<Rightarrow> first_x (\<lambda>_. 0) 0 k | Suc d' \<Rightarrow> first_x (row E n m d') (int (Suc d')) k)"

lemma row_eq_slide:
  "row E n m d k = fst (slide E n m (snake_start E n m d k) (snake_start E n m d k - k))"
  by (cases d) (simp_all add: snake_start_def row.simps)

lemma snake_start_lower:
  assumes "in_row d k" "0 \<le> n" "0 \<le> m"
  shows "0 \<le> snake_start E n m d k \<and> k \<le> snake_start E n m d k"
proof (cases d)
  case 0
  with assms show ?thesis by (simp add: snake_start_def first_x_def)
next
  case (Suc d')
  from assms(1) [unfolded Suc] show ?thesis
  proof (cases rule: first_x_cases [where f = "row E n m d'"])
    case right
    with row_lower [OF right(1) assms(2,3), of E] show ?thesis by (simp add: Suc snake_start_def)
  next
    case down
    with row_lower [OF down(1) assms(2,3), of E] show ?thesis by (simp add: Suc snake_start_def)
  qed
qed

definition search_hit ::
  "(int \<Rightarrow> int \<Rightarrow> bool) \<Rightarrow> (int \<Rightarrow> int \<Rightarrow> bool) \<Rightarrow> int \<Rightarrow> int \<Rightarrow> nat \<Rightarrow> nat \<Rightarrow> int \<Rightarrow> bool" where
  "search_hit E E' n m e d k \<longleftrightarrow>
     0 < n \<and> 0 < m \<and> e \<le> 1 \<and> even (n - m - int e) \<and> in_row d k \<and> \<not> E 0 0 \<and> \<not> E' 0 0 \<and>
     meets e n (n - m) (row E n m) (row E' n m) d k \<and>
     (\<forall>d' k'. d' < d \<longrightarrow> in_row d' k' \<longrightarrow> \<not> meets e n (n - m) (row E n m) (row E' n m) d' k')"

lemma search_hitD:
  assumes "search_hit E E' n m e d k"
  shows "0 < n" "0 < m" "e \<le> 1" "even (n - m - int e)" "in_row d k" "\<not> E 0 0" "\<not> E' 0 0"
    "e \<le> d" "- (int d - int e) \<le> n - m - k" "n - m - k \<le> int d - int e"
    "row E n m d k + row E' n m (d - e) (n - m - k) \<ge> n"
  using assms by (simp_all add: search_hit_def meets_def)


lemma opp_row:
  assumes "search_hit E E' n m e d k"
    and "in_row d' k'" "e \<le> d'" "- (int d' - int e) \<le> n - m - k'" "n - m - k' \<le> int d' - int e"
  shows "in_row (d' - e) (n - m - k')"
proof -
  have "even (n - m - k' - (int d' - int e))"
  proof -
    have "n - m - k' - (int d' - int e) = (n - m - int e) - (int d' + k') + 2 * int e" by simp
    moreover have "even (int d' + k')" using assms(2) unfolding in_row_def by presburger
    ultimately show ?thesis using search_hitD(4) [OF assms(1)] by presburger
  qed
  with assms show ?thesis by (auto simp: in_row_def of_nat_diff)
qed

lemma opp_lower:
  assumes "search_hit E E' n m e d k"
    and "in_row d' k'" "e \<le> d'" "- (int d' - int e) \<le> n - m - k'" "n - m - k' \<le> int d' - int e"
  shows "0 \<le> row E' n m (d' - e) (n - m - k')" "n - m - k' \<le> row E' n m (d' - e) (n - m - k')"
  using row_lower [OF opp_row [OF assms]] search_hitD(1,2) [OF assms(1)] by simp_all

lemma not_met:
  assumes "search_hit E E' n m e d k" "d = Suc d'"
    and "in_row d' k'" "e \<le> d'" "- (int d' - int e) \<le> n - m - k'" "n - m - k' \<le> int d' - int e"
  shows "row E n m d' k' + row E' n m (d' - e) (n - m - k') < n"
proof -
  have "\<not> meets e n (n - m) (row E n m) (row E' n m) d' k'"
    using assms(1,2,3) unfolding search_hit_def by blast
  with assms(4-6) show ?thesis by (simp add: meets_def)
qed

lemma hit_parity:
  assumes "search_hit E E' n m e d k"
  shows "even (n - m - k - (int d - int e))"
  using opp_row [OF assms search_hitD(5,8,9,10) [OF assms]] search_hitD(8) [OF assms]
  unfolding in_row_def by (simp add: of_nat_diff)

lemma hit_right_step:
  assumes h: "search_hit E E' n m e d k"
    and d': "d = Suc d'" "in_row d' (k - 1)" "n \<le> row E n m d' (k - 1)"
  shows "n - m - k = int d - int e"
proof (rule ccontr)
  assume neq: "n - m - k \<noteq> int d - int e"
  note bounds = search_hitD(8,9,10) [OF h]
  have lo: "- (int d' - int e) \<le> n - m - (k - 1)" using bounds d'(1) by simp
  have hi: "n - m - (k - 1) \<le> int d' - int e"
    using bounds(3) hit_parity [OF h] neq d'(1) by presburger
  have "e \<le> d'" using lo hi by linarith
  from not_met [OF h d'(1,2) this lo hi] opp_lower(1) [OF h d'(2) this lo hi] d'(3)
  show False by simp
qed

lemma hit_down_step:
  assumes h: "search_hit E E' n m e d k"
    and d': "d = Suc d'" "in_row d' (k + 1)" "m \<le> row E n m d' (k + 1) - (k + 1)"
  shows "n - m - k = - (int d - int e)"
proof (rule ccontr)
  assume neq: "n - m - k \<noteq> - (int d - int e)"
  note bounds = search_hitD(8,9,10) [OF h]
  have hi: "n - m - (k + 1) \<le> int d' - int e" using bounds d'(1) by simp
  have lo: "- (int d' - int e) \<le> n - m - (k + 1)"
    using bounds(2) hit_parity [OF h] neq d'(1) by presburger
  have "e \<le> d'" using lo hi by linarith
  from not_met [OF h d'(1,2) this lo hi] opp_lower(2) [OF h d'(2) this lo hi] d'(3)
  show False by simp
qed

lemma hit_x_in_box:
  assumes h: "search_hit E E' n m e d k"
  shows "row E n m d k \<le> n"
proof (rule ccontr)
  assume "\<not> row E n m d k \<le> n"
  then have over: "row E n m d k > n" by simp
  note pos = search_hitD(1,2) [OF h, THEN less_imp_le]
  obtain d' where d': "d = Suc d'" "in_row d' (k - 1)" "n \<le> row E n m d' (k - 1)"
    using row_over_x [OF pos search_hitD(5) [OF h] over] by blast
  have kr: "n - m - k = int d - int e" by (rule hit_right_step [OF h d'])
  have "row E n m d k - k > m" using over kr search_hitD(8) [OF h] by simp
  then obtain d'' where d'': "d = Suc d''" "in_row d'' (k + 1)" "m \<le> row E n m d'' (k + 1) - (k + 1)"
    using row_over_y [OF pos search_hitD(5) [OF h]] by blast
  have "n - m - k = - (int d - int e)" by (rule hit_down_step [OF h d''])
  with kr have "int d = int e" by simp
  with d' d'' search_hitD(3) [OF h] show False by (auto simp: in_row_def)
qed

lemma hit_y_in_box:
  assumes h: "search_hit E E' n m e d k"
  shows "row E n m d k - k \<le> m"
proof (rule ccontr)
  assume "\<not> row E n m d k - k \<le> m"
  then have over: "row E n m d k - k > m" by simp
  note pos = search_hitD(1,2) [OF h, THEN less_imp_le]
  obtain d' where d': "d = Suc d'" "in_row d' (k + 1)" "m \<le> row E n m d' (k + 1) - (k + 1)"
    using row_over_y [OF pos search_hitD(5) [OF h] over] by blast
  have "n - m - k = - (int d - int e)" by (rule hit_down_step [OF h d'])
  with over search_hitD(8) [OF h] have "row E n m d k > n" by simp
  with hit_x_in_box [OF h] show False by simp
qed

lemma row_0_stuck: "\<not> E 0 0 \<Longrightarrow> row E n m 0 0 = 0"
  by (simp add: first_x_def slide_stuck row.simps)

lemma hit_start_off_corner:
  assumes h: "search_hit E E' n m e d k"
  shows "\<not> (snake_start E n m d k = n \<and> snake_start E n m d k - k = m)"
proof
  assume a: "snake_start E n m d k = n \<and> snake_start E n m d k - k = m"
  then have k: "n - m - k = 0" by simp
  note pos = search_hitD(1,2) [OF h] and row = search_hitD(5) [OF h]
  note r0 = row_0_stuck [of E n m, OF search_hitD(6) [OF h]]
  show False
  proof (cases d)
    case 0
    with a pos row show False by (simp add: snake_start_def first_x_def)
  next
    case (Suc d')
    from row [unfolded Suc] show False
    proof (cases rule: first_x_cases [where f = "row E n m d'"])
      case right
      then have at: "row E n m d' (k - 1) = n - 1" using a Suc by (simp add: snake_start_def)
      show False
      proof (cases "e \<le> d'")
        case True
        have "1 \<le> int d' - int e" using hit_parity [OF h] k Suc True by presburger
        with not_met [OF h Suc right(1) True] opp_lower(2) [OF h right(1) True] k at
        show False by simp
      next
        case False
        with Suc search_hitD(3,8) [OF h] have "d' = 0" by simp
        with right(1) at r0 pos a show False by simp
      qed
    next
      case down
      then have at: "row E n m d' (k + 1) = n" using a Suc by (simp add: snake_start_def)
      show False
      proof (cases "e \<le> d'")
        case True
        have "1 \<le> int d' - int e" using hit_parity [OF h] k Suc True by presburger
        with not_met [OF h Suc down(1) True] opp_lower(1) [OF h down(1) True] k at
        show False by simp
      next
        case False
        with Suc search_hitD(3,8) [OF h] have "d' = 0" by simp
        with down(1) at r0 pos show False by simp
      qed
    qed
  qed
qed

lemma hit_end_off_corner:
  assumes h: "search_hit E E' n m e d k"
  shows "\<not> (row E n m d k = 0 \<and> row E n m d k - k = 0)"
proof
  assume a: "row E n m d k = 0 \<and> row E n m d k - k = 0"
  note pos = search_hitD(1,2) [OF h]
  have "int d \<le> 2 * row E n m d k - k"
    using row_lower [OF search_hitD(5) [OF h], of n m E] pos by simp
  with a have d: "d = 0" and k: "k = 0" by simp_all
  with search_hitD(8) [OF h] have "e = 0" by simp
  with search_hitD(9-11) [OF h] d k row_0_stuck [of E n m, OF search_hitD(6) [OF h]]
    row_0_stuck [of E' n m, OF search_hitD(7) [OF h]] pos
  show False by simp
qed

lemmas hit_box = hit_x_in_box hit_y_in_box hit_start_off_corner hit_end_off_corner

section \<open>The search computes the rows\<close>

lemma length_upd [simp]: "length (upd xs i v) = length xs"
  by (simp add: upd_def)

lemma at_upd:
  assumes "0 \<le> i" "i < int (length xs)" "0 \<le> j"
  shows "at (upd xs i v) j = (if i = j then v else at xs j)"
  using assms by (auto simp: at_def upd_def nth_list_update nat_eq_iff2)

definition holds_row :: "int \<Rightarrow> int list \<Rightarrow> (int \<Rightarrow> int \<Rightarrow> bool) \<Rightarrow> int \<Rightarrow> int \<Rightarrow> nat \<Rightarrow> bool" where
  "holds_row off arr E n m d \<longleftrightarrow> (\<forall>k. in_row d k \<longrightarrow> at arr (off + k) = row E n m d k)"

definition holds_before :: "int \<Rightarrow> int list \<Rightarrow> (int \<Rightarrow> int \<Rightarrow> bool) \<Rightarrow> int \<Rightarrow> int \<Rightarrow> nat \<Rightarrow> bool" where
  "holds_before off arr E n m d \<longleftrightarrow>
     (case d of 0 \<Rightarrow> at arr (off + 1) = 0 | Suc d' \<Rightarrow> holds_row off arr E n m d')"

lemma step_x_eq:
  assumes "holds_before off arr E n m d" "in_row d k"
  shows "step_x arr off (int d) k = snake_start E n m d k"
proof (cases d)
  case 0
  with assms show ?thesis by (simp add: holds_before_def step_x_def snake_start_def first_x_def)
next
  case (Suc d')
  with assms(1) have h: "\<And>k. in_row d' k \<Longrightarrow> at arr (off + k) = row E n m d' k"
    by (simp add: holds_before_def holds_row_def)
  have "k \<noteq> - int d \<Longrightarrow> in_row d' (k - 1)"
    using assms(2) Suc unfolding in_row_def by presburger
  then have "k \<noteq> - int d \<Longrightarrow> at arr (off + k - 1) = row E n m d' (k - 1)"
    using h [of "k - 1"] by (simp add: algebra_simps)
  moreover have "k \<noteq> int d \<Longrightarrow> in_row d' (k + 1)"
    using assms(2) Suc unfolding in_row_def by presburger
  then have "k \<noteq> int d \<Longrightarrow> at arr (off + k + 1) = row E n m d' (k + 1)"
    using h [of "k + 1"] by (simp add: algebra_simps)
  ultimately show ?thesis
    using Suc by (auto simp: step_x_def snake_start_def first_x_def)
qed

text \<open>Mid-round: the row below whole, this round's row up to \<open>k\<close>.\<close>

definition mid_round :: "int \<Rightarrow> int list \<Rightarrow> (int \<Rightarrow> int \<Rightarrow> bool) \<Rightarrow> int \<Rightarrow> int \<Rightarrow> nat \<Rightarrow> int \<Rightarrow> bool" where
  "mid_round off arr E n m d k \<longleftrightarrow>
     int d < off \<and> int (length arr) = 2 * off + 1 \<and> - int d \<le> k \<and> even (int d - k) \<and>
     holds_before off arr E n m d \<and>
     (\<forall>k'. in_row d k' \<and> k' < k \<longrightarrow> at arr (off + k') = row E n m d k')"

lemma mid_round_step:
  assumes "mid_round off arr E n m d k" "k \<le> int d"
  shows "mid_round off (upd arr (off + k) (row E n m d k)) E n m d (k + 2)"
proof -
  let ?arr = "upd arr (off + k) (row E n m d k)"
  from assms have b: "0 \<le> off + k" "off + k < int (length arr)" "int d < off" "- int d \<le> k"
    "even (int d - k)" by (auto simp: mid_round_def)
  have at: "at ?arr (off + j) = (if j = k then row E n m d k else at arr (off + j))" if "- int d - 1 \<le> j" for j
    using at_upd [OF b(1,2), of "off + j"] b that by auto
  have "holds_before off ?arr E n m d"
  proof (cases d)
    case 0
    with assms b at [of 1] show ?thesis by (auto simp: mid_round_def holds_before_def)
  next
    case (Suc d')
    have "at ?arr (off + j) = row E n m d' j" if j: "in_row d' j" for j
    proof -
      have "j \<noteq> k" using j b(5) Suc unfolding in_row_def by auto
      with at [of j] j Suc assms(1) show ?thesis
        by (auto simp: mid_round_def holds_before_def holds_row_def in_row_def)
    qed
    with Suc show ?thesis by (simp add: holds_before_def holds_row_def)
  qed
  moreover have "at ?arr (off + j) = row E n m d j" if j: "in_row d j" "j < k + 2" for j
  proof (cases "j = k")
    case True
    with at [of j] b show ?thesis by simp
  next
    case False
    have "j \<noteq> k + 1" using j b(5) unfolding in_row_def by auto
    with False j have "j < k" by simp
    with at [of j] j assms(1) False show ?thesis by (auto simp: mid_round_def in_row_def)
  qed
  ultimately show ?thesis using assms(1) by (auto simp: mid_round_def)
qed

lemma search_round_spec:
  assumes "mid_round off arr E n m d k" "search_round E n m off hit (int d) k arr = (r, arr')"
  shows "int (length arr') = 2 * off + 1 \<and>
    (case r of
       None \<Rightarrow> holds_row off arr' E n m d \<and> (\<forall>k'. in_row d k' \<and> k \<le> k' \<longrightarrow> \<not> hit k' (row E n m d k'))
     | Some (bx, by', x, y) \<Rightarrow>
         \<exists>k'. in_row d k' \<and> hit k' (row E n m d k') \<and> x = row E n m d k' \<and> bx = snake_start E n m d k'
           \<and> by' = bx - k' \<and> slide E n m bx by' = (x, y))"
  using assms
proof (induction E n m off hit "int d" k arr rule: search_round.induct)
  case (1 E n m off hit k arr)
  show ?case
  proof (cases "k \<le> int d")
    case True
    with "1.prems"(1) have row: "in_row d k" by (auto simp: mid_round_def in_row_def)
    let ?bx = "snake_start E n m d k"
    have bx: "step_x arr off (int d) k = ?bx"
      using "1.prems"(1) row by (intro step_x_eq) (auto simp: mid_round_def)
    obtain x y where xy: "slide E n m ?bx (?bx - k) = (x, y)" by fastforce
    then have x: "x = row E n m d k" by (simp add: row_eq_slide)
    show ?thesis
    proof (cases "hit k x")
      case hit: True
      with "1.prems"(2) True have "r = Some (?bx, ?bx - k, x, y)" "arr' = upd arr (off + k) x"
        by (simp_all add: search_round.simps [of E n m off hit "int d" k arr] bx xy Let_def)
      with "1.prems"(1) hit row x xy show ?thesis by (auto simp: mid_round_def)
    next
      case no: False
      from "1.prems"(2) True no have eq:
        "search_round E n m off hit (int d) (k + 2) (upd arr (off + k) x) = (r, arr')"
        by (simp add: search_round.simps [of E n m off hit "int d" k arr] bx xy Let_def)
      have mid: "mid_round off (upd arr (off + k) x) E n m d (k + 2)"
        using mid_round_step [OF "1.prems"(1) True] x by simp
      have rest: "\<not> hit k' (row E n m d k')"
        if "in_row d k'" "k \<le> k'" and "\<forall>k'. in_row d k' \<and> k + 2 \<le> k' \<longrightarrow> \<not> hit k' (row E n m d k')" for k'
      proof (cases "k' = k")
        case True
        with no x show ?thesis by simp
      next
        case False
        have "k' \<noteq> k + 1" using row that(1) unfolding in_row_def by presburger
        with False that show ?thesis by auto
      qed
      from "1.hyps" [OF True bx [symmetric] refl refl xy [symmetric] refl no mid eq] rest
      show ?thesis by (auto split: option.splits)
    qed
  next
    case False
    with "1.prems" have "r = None" "arr' = arr"
      by (simp_all add: search_round.simps [of E n m off hit "int d" k arr])
    with "1.prems"(1) False show ?thesis
      by (auto simp: mid_round_def holds_row_def in_row_def)
  qed
qed

lemma mid_round_start:
  assumes "holds_before off arr E n m d" "int d < off" "int (length arr) = 2 * off + 1"
  shows "mid_round off arr E n m d (- int d)"
  using assms by (auto simp: mid_round_def in_row_def)

lemma opp_in_row:
  assumes "in_row d k" "e \<le> d" "even (delta - int e)"
    and "- (int d - int e) \<le> delta - k" "delta - k \<le> int d - int e"
  shows "in_row (d - e) (delta - k)"
proof -
  have "even (int d + k)" using assms(1) unfolding in_row_def by presburger
  then have "even (int d - int e - (delta - k))" using assms(3) by presburger
  with assms show ?thesis by (auto simp: in_row_def of_nat_diff)
qed

lemma hit_fwd_meets:
  assumes "holds_before off bwd E' n m d" "in_row d k"
  shows "hit_fwd n delta bwd off (int d) k x \<longleftrightarrow>
    odd delta \<and> (1 \<le> d \<and> - (int d - 1) \<le> delta - k \<and> delta - k \<le> int d - 1 \<and> x + row E' n m (d - 1) (delta - k) \<ge> n)"
proof (cases d)
  case 0
  then show ?thesis by (auto simp: hit_fwd_def)
next
  case (Suc d')
  have "at bwd (off + (delta - k)) = row E' n m d' (delta - k)"
    if "odd delta" "- (int d - 1) \<le> delta - k" "delta - k \<le> int d - 1"
    using opp_in_row [OF assms(2), of 1 delta] that assms(1) Suc
    by (simp add: holds_before_def holds_row_def)
  with Suc show ?thesis by (auto simp: hit_fwd_def)
qed

lemma hit_bwd_meets:
  assumes "holds_row off fwd E n m d" "in_row d k"
  shows "hit_bwd n delta fwd off (int d) k x \<longleftrightarrow>
    even delta \<and> (- int d \<le> delta - k \<and> delta - k \<le> int d \<and> x + row E n m d (delta - k) \<ge> n)"
proof -
  have "at fwd (off + (delta - k)) = row E n m d (delta - k)"
    if "even delta" "- int d \<le> delta - k" "delta - k \<le> int d"
    using opp_in_row [OF assms(2), of 0 delta] that assms(1) by (simp add: holds_row_def)
  then show ?thesis by (auto simp: hit_bwd_def)
qed

text \<open>No meeting at a depth below \<open>d\<close>, in the direction that can report one.\<close>

definition none_below :: "(int \<Rightarrow> int \<Rightarrow> bool) \<Rightarrow> (int \<Rightarrow> int \<Rightarrow> bool) \<Rightarrow> int \<Rightarrow> int \<Rightarrow> nat \<Rightarrow> bool" where
  "none_below E E' n m d \<longleftrightarrow>
     (\<forall>d' k'. d' < d \<longrightarrow> in_row d' k' \<longrightarrow>
        (odd (n - m) \<longrightarrow> \<not> meets 1 n (n - m) (row E n m) (row E' n m) d' k') \<and>
        (even (n - m) \<longrightarrow> \<not> meets 0 n (n - m) (row E' n m) (row E n m) d' k'))"

lemma none_below_Suc:
  assumes "none_below E E' n m d"
    and "\<And>k. in_row d k \<Longrightarrow> odd (n - m) \<Longrightarrow> \<not> meets 1 n (n - m) (row E n m) (row E' n m) d k"
    and "\<And>k. in_row d k \<Longrightarrow> even (n - m) \<Longrightarrow> \<not> meets 0 n (n - m) (row E' n m) (row E n m) d k"
  shows "none_below E E' n m (Suc d)"
  using assms by (auto simp: none_below_def less_Suc_eq)

text \<open>What \<open>middle\<close> may answer about the box \<open>(x0, y0)\<close>-\<open>(x1, y1)\<close>.\<close>

definition middle_answer ::
  "aligner \<Rightarrow> int \<Rightarrow> int \<Rightarrow> int \<Rightarrow> int \<Rightarrow> int \<times> int \<times> int \<times> int \<times> int \<Rightarrow> bool" where
  "middle_answer s x0 x1 y0 y1 ans \<longleftrightarrow>
     (let n = x1 - x0; m = y1 - y0; E = eq_fwd s x0 y0; E' = eq_bwd s x1 y1 in
      ans = (MaxSequenceEdits + 1, 0, 0, 0, 0) \<or>
      (\<exists>d k. search_hit E E' n m 1 d k \<and>
         ans = (2 * int d - 1, x0 + snake_start E n m d k, y0 + (snake_start E n m d k - k),
                x0 + row E n m d k, y0 + (row E n m d k - k))) \<or>
      (\<exists>d k. search_hit E' E n m 0 d k \<and>
         ans = (2 * int d, x1 - row E' n m d k, y1 - (row E' n m d k - k),
                x1 - snake_start E' n m d k, y1 - (snake_start E' n m d k - k))))"

text \<open>A round of either direction: its row written and no meeting, or the first meeting.\<close>

definition round_result ::
  "(int \<Rightarrow> int \<Rightarrow> bool) \<Rightarrow> (int \<Rightarrow> int \<Rightarrow> bool) \<Rightarrow> int \<Rightarrow> int \<Rightarrow> int \<Rightarrow> nat \<Rightarrow> nat \<Rightarrow>
     (int \<times> int \<times> int \<times> int) option \<Rightarrow> int list \<Rightarrow> bool" where
  "round_result E E' n m off e d r arr \<longleftrightarrow>
     int (length arr) = 2 * off + 1 \<and>
     (case r of
        None \<Rightarrow> holds_row off arr E n m d \<and>
          (\<forall>k. in_row d k \<longrightarrow> even (n - m - int e) \<longrightarrow> \<not> meets e n (n - m) (row E n m) (row E' n m) d k)
      | Some (bx, by', x, y) \<Rightarrow>
          \<exists>k. search_hit E E' n m e d k \<and> bx = snake_start E n m d k \<and> by' = bx - k
            \<and> x = row E n m d k \<and> y = x - k)"

lemma round_resultI:
  assumes "0 < n" "0 < m" "\<not> E 0 0" "\<not> E' 0 0" "e \<le> 1"
    and "holds_before off arr E n m d" "int d < off" "int (length arr) = 2 * off + 1"
    and hit: "\<And>k. in_row d k \<Longrightarrow> hit k (row E n m d k) \<longleftrightarrow>
        even (n - m - int e) \<and> meets e n (n - m) (row E n m) (row E' n m) d k"
    and none: "\<And>d' k'. d' < d \<Longrightarrow> in_row d' k' \<Longrightarrow> even (n - m - int e) \<Longrightarrow>
        \<not> meets e n (n - m) (row E n m) (row E' n m) d' k'"
    and eq: "search_round E n m off hit (int d) (- int d) arr = (r, arr')"
  shows "round_result E E' n m off e d r arr'"
proof (cases r)
  case None
  with search_round_spec [OF mid_round_start [OF assms(6-8)] eq] hit show ?thesis
    by (auto simp: round_result_def in_row_def)
next
  case (Some q)
  obtain bx by' x y where q: "r = Some (bx, by', x, y)" using Some by (cases q) auto
  with search_round_spec [OF mid_round_start [OF assms(6-8)] eq] obtain k where
    k: "in_row d k" "hit k (row E n m d k)" "x = row E n m d k" "bx = snake_start E n m d k"
    "by' = bx - k" "slide E n m bx by' = (x, y)" "int (length arr') = 2 * off + 1" by auto
  have "y = x - k" using slide_spec [OF k(6)] k(5) by auto
  moreover have "search_hit E E' n m e d k"
    using assms(1-5) k(1,2) hit none by (auto simp: search_hit_def)
  ultimately show ?thesis using k q by (auto simp: round_result_def)
qed

lemma forward_round:
  assumes "0 < n" "0 < m" "\<not> E 0 0" "\<not> E' 0 0"
    and "holds_before off fwd E n m d" "holds_before off bwd E' n m d" "int d < off"
    and "int (length fwd) = 2 * off + 1" "none_below E E' n m d"
    and "search_round E n m off (hit_fwd n (n - m) bwd off (int d)) (int d) (- int d) fwd = (r, fwd')"
  shows "round_result E E' n m off 1 d r fwd'"
  using assms
  by (intro round_resultI) (auto simp: hit_fwd_meets [OF assms(6)] meets_def none_below_def)

lemma backward_round:
  assumes "0 < n" "0 < m" "\<not> E 0 0" "\<not> E' 0 0"
    and "holds_before off bwd E' n m d" "holds_row off fwd E n m d" "int d < off"
    and "int (length bwd) = 2 * off + 1" "none_below E E' n m d"
    and "search_round E' n m off (hit_bwd n (n - m) fwd off (int d)) (int d) (- int d) bwd = (r, bwd')"
  shows "round_result E' E n m off 0 d r bwd'"
  using assms
  by (intro round_resultI) (auto simp: hit_bwd_meets [OF assms(6)] meets_def none_below_def)

lemma middle_loop_spec:
  assumes box: "x0 < x1" "y0 < y1" "\<not> eq_fwd s x0 y0 0 0" "\<not> eq_bwd s x1 y1 0 0"
    and "holds_before (al_off s) fwd (eq_fwd s x0 y0) (x1 - x0) (y1 - y0) d"
    and "holds_before (al_off s) bwd (eq_bwd s x1 y1) (x1 - x0) (y1 - y0) d"
    and "int (length fwd) = 2 * al_off s + 1" "int (length bwd) = 2 * al_off s + 1"
    and "none_below (eq_fwd s x0 y0) (eq_bwd s x1 y1) (x1 - x0) (y1 - y0) d"
    and "middle_loop s x0 x1 y0 y1 (int d) fwd bwd = (ans, fwd', bwd')"
  shows "middle_answer s x0 x1 y0 y1 ans \<and>
    int (length fwd') = 2 * al_off s + 1 \<and> int (length bwd') = 2 * al_off s + 1"
  using assms(5-10)
proof (induction "nat (al_off s - int d)" arbitrary: d fwd bwd rule: less_induct)
  case less
  let ?n = "x1 - x0" and ?m = "y1 - y0" and ?E = "eq_fwd s x0 y0" and ?E' = "eq_bwd s x1 y1"
  let ?off = "al_off s" and ?d = "int d"
  have pos: "0 < ?n" "0 < ?m" using box by simp_all
  note loop = middle_loop.simps [of s x0 x1 y0 y1 ?d fwd bwd]
  show ?case
  proof (cases "?d < ?off")
    case False
    with less.prems show ?thesis by (auto simp: loop middle_answer_def Let_def)
  next
    case True
    obtain r1 f1 where f1:
      "search_round ?E ?n ?m ?off (hit_fwd ?n (?n - ?m) bwd ?off ?d) ?d (- ?d) fwd = (r1, f1)"
      by fastforce
    have fr: "round_result ?E ?E' ?n ?m ?off 1 d r1 f1"
      by (rule forward_round [OF pos box(3,4) less.prems(1,2) True less.prems(3,5) f1])
    show ?thesis
    proof (cases r1)
      case (Some q)
      with less.prems fr True f1 show ?thesis
        by (cases q) (auto simp: loop Let_def round_result_def middle_answer_def)
    next
      case None
      obtain r2 b2 where b2:
        "search_round ?E' ?n ?m ?off (hit_bwd ?n (?n - ?m) f1 ?off ?d) ?d (- ?d) bwd = (r2, b2)"
        by fastforce
      have f1_row: "holds_row ?off f1 ?E ?n ?m d" using fr None by (simp add: round_result_def)
      have br: "round_result ?E' ?E ?n ?m ?off 0 d r2 b2"
        by (rule backward_round [OF pos box(3,4) less.prems(2) f1_row True less.prems(4,5) b2])
      show ?thesis
      proof (cases r2)
        case (Some q)
        with less.prems fr br True f1 None b2 show ?thesis
          by (cases q) (auto simp: loop Let_def round_result_def middle_answer_def)
      next
        case none: None
        have "middle_loop s x0 x1 y0 y1 (int (Suc d)) f1 b2 = (ans, fwd', bwd')"
          using less.prems(6) True f1 None b2 none by (simp add: loop Let_def add.commute)
        moreover have "none_below ?E ?E' ?n ?m (Suc d)"
          using less.prems(5) fr br None none
          by (intro none_below_Suc) (auto simp: round_result_def)
        ultimately show ?thesis
          using fr br None none True
          by (intro less.hyps) (auto simp: round_result_def holds_before_def)
      qed
    qed
  qed
qed

section \<open>The box, the recursion and the matching\<close>

definition aligner_wf :: "aligner \<Rightarrow> bool" where
  "aligner_wf s \<longleftrightarrow> 1 \<le> al_off s \<and> length (al_out s) = length (al_a s) \<and>
     int (length (al_fwd s)) = 2 * al_off s + 1 \<and> int (length (al_bwd s)) = 2 * al_off s + 1"

text \<open>A snake inside its box: a run of equal keys that leaves both halves smaller.\<close>

definition snake_in_box ::
  "aligner \<Rightarrow> int \<Rightarrow> int \<Rightarrow> int \<Rightarrow> int \<Rightarrow> int \<Rightarrow> int \<Rightarrow> int \<Rightarrow> int \<Rightarrow> bool" where
  "snake_in_box s x0 x1 y0 y1 sx sy ex ey \<longleftrightarrow>
     x0 \<le> sx \<and> sx \<le> ex \<and> ex \<le> x1 \<and> y0 \<le> sy \<and> ey \<le> y1 \<and> ey - sy = ex - sx \<and>
     (sx - x0) + (sy - y0) < (x1 - x0) + (y1 - y0) \<and> (x1 - ex) + (y1 - ey) < (x1 - x0) + (y1 - y0) \<and>
     (\<forall>i. sx \<le> i \<and> i < ex \<longrightarrow> at (al_a s) i = at (al_b s) (sy + (i - sx)))"

lemma hit_snake:
  assumes h: "search_hit E E' n m e d k"
  defines "x \<equiv> row E n m d k" and "bx \<equiv> snake_start E n m d k"
  shows "0 \<le> bx" "0 \<le> bx - k" "bx \<le> x" "x \<le> n" "x - k \<le> m" "bx + (bx - k) < n + m" "0 < x + (x - k)"
    "\<And>i. bx \<le> i \<Longrightarrow> i < x \<Longrightarrow> E i (i - k)"
proof -
  note pos = search_hitD(1,2) [OF h]
  obtain y where sl: "slide E n m bx (bx - k) = (x, y)"
    by (metis bx_def prod.collapse row_eq_slide x_def)
  note sp = slide_spec [OF sl]
  show lo: "0 \<le> bx" "0 \<le> bx - k"
    using snake_start_lower [OF search_hitD(5) [OF h], of n m E] pos by (simp_all add: bx_def)
  show "bx \<le> x" using sp by simp
  show "x \<le> n" "x - k \<le> m" using hit_box(1,2) [OF h] by (simp_all add: x_def)
  with \<open>bx \<le> x\<close> show "bx + (bx - k) < n + m" using hit_box(3) [OF h] unfolding bx_def x_def by linarith
  show "0 < x + (x - k)" using hit_box(4) [OF h] lo \<open>bx \<le> x\<close> unfolding bx_def x_def by linarith
  show "E i (i - k)" if "bx \<le> i" "i < x" for i
  proof -
    from sp that have "E i (bx - k + (i - bx))" by blast
    then show ?thesis by simp
  qed
qed

lemma middle_answer_box:
  assumes "middle_answer s x0 x1 y0 y1 (d, sx, sy, ex, ey)" "d \<le> MaxSequenceEdits"
  shows "snake_in_box s x0 x1 y0 y1 sx sy ex ey"
proof -
  let ?n = "x1 - x0" and ?m = "y1 - y0" and ?E = "eq_fwd s x0 y0" and ?E' = "eq_bwd s x1 y1"
  from assms consider
      (f) c k where "search_hit ?E ?E' ?n ?m 1 c k"
        "sx = x0 + snake_start ?E ?n ?m c k" "sy = y0 + (snake_start ?E ?n ?m c k - k)"
        "ex = x0 + row ?E ?n ?m c k" "ey = y0 + (row ?E ?n ?m c k - k)"
    | (b) c k where "search_hit ?E' ?E ?n ?m 0 c k"
        "sx = x1 - row ?E' ?n ?m c k" "sy = y1 - (row ?E' ?n ?m c k - k)"
        "ex = x1 - snake_start ?E' ?n ?m c k" "ey = y1 - (snake_start ?E' ?n ?m c k - k)"
    by (auto simp: middle_answer_def Let_def)
  then show ?thesis
  proof cases
    case f
    note hs = hit_snake [OF f(1)]
    have "at (al_a s) i = at (al_b s) (sy + (i - sx))" if "sx \<le> i" "i < ex" for i
    proof -
      have "y0 + (i - x0 - k) = sy + (i - sx)" using f(2,3) by simp
      with hs(8) [of "i - x0"] that f(2,4) show ?thesis by (simp add: eq_fwd_def)
    qed
    with hs(1-7) f(2-5) show ?thesis unfolding snake_in_box_def by (intro conjI allI impI) auto
  next
    case b
    note hs = hit_snake [OF b(1)]
    have "at (al_a s) i = at (al_b s) (sy + (i - sx))" if "sx \<le> i" "i < ex" for i
    proof -
      have "y1 - 1 - (x1 - 1 - i - k) = sy + (i - sx)" using b(2,3) by simp
      with hs(8) [of "x1 - 1 - i"] that b(2,4) show ?thesis by (simp add: eq_bwd_def)
    qed
    with hs(1-7) b(2-5) show ?thesis unfolding snake_in_box_def by (intro conjI allI impI) auto
  qed
qed

lemma middle_spec:
  assumes "aligner_wf s" "x0 < x1" "y0 < y1"
    and "at (al_a s) x0 \<noteq> at (al_b s) y0" "at (al_a s) (x1 - 1) \<noteq> at (al_b s) (y1 - 1)"
    and "middle s x0 x1 y0 y1 = ((d, sx, sy, ex, ey), fwd', bwd')"
  shows "length fwd' = length (al_fwd s)" "length bwd' = length (al_bwd s)"
    "d \<le> MaxSequenceEdits \<Longrightarrow> snake_in_box s x0 x1 y0 y1 sx sy ex ey"
proof -
  let ?fwd = "upd (al_fwd s) (al_off s + 1) 0" and ?bwd = "upd (al_bwd s) (al_off s + 1) 0"
  from assms(1) have "at ?fwd (al_off s + 1) = 0" "at ?bwd (al_off s + 1) = 0"
    by (simp_all add: aligner_wf_def at_upd)
  with assms have "middle_answer s x0 x1 y0 y1 (d, sx, sy, ex, ey) \<and>
    int (length fwd') = 2 * al_off s + 1 \<and> int (length bwd') = 2 * al_off s + 1"
    by (intro middle_loop_spec [where d = 0 and fwd = ?fwd and bwd = ?bwd])
      (auto simp: middle_def aligner_wf_def holds_before_def none_below_def eq_fwd_def eq_bwd_def)
  with assms(1) show "length fwd' = length (al_fwd s)" "length bwd' = length (al_bwd s)"
    "d \<le> MaxSequenceEdits \<Longrightarrow> snake_in_box s x0 x1 y0 y1 sx sy ex ey"
    by (auto simp: aligner_wf_def intro: middle_answer_box)
qed

text \<open>What a call may change: the matches of its own stretch of the base, and scratch space.\<close>

definition same_but :: "aligner \<Rightarrow> aligner \<Rightarrow> int \<Rightarrow> int \<Rightarrow> bool" where
  "same_but s s' x0 x1 \<longleftrightarrow> al_a s' = al_a s \<and> al_b s' = al_b s \<and> al_off s' = al_off s \<and>
     length (al_out s') = length (al_out s) \<and> length (al_fwd s') = length (al_fwd s) \<and>
     length (al_bwd s') = length (al_bwd s) \<and>
     (\<forall>x. 0 \<le> x \<and> (x < x0 \<or> x1 \<le> x) \<longrightarrow> at (al_out s') x = at (al_out s) x)"

lemma same_but_refl [simp]: "same_but s s x0 x1"
  by (simp add: same_but_def)

lemma same_but_trans:
  assumes "same_but s s' a b" "same_but s' s'' c d" "x0 \<le> a" "b \<le> x1" "x0 \<le> c" "d \<le> x1"
  shows "same_but s s'' x0 x1"
  using assms by (auto simp: same_but_def)

lemma same_but_wf: "same_but s s' x0 x1 \<Longrightarrow> aligner_wf s \<Longrightarrow> aligner_wf s'"
  by (simp add: same_but_def aligner_wf_def)

definition fresh :: "int list \<Rightarrow> int \<Rightarrow> int \<Rightarrow> bool" where
  "fresh out x0 x1 \<longleftrightarrow> (\<forall>x. x0 \<le> x \<and> x < x1 \<longrightarrow> at out x = - 1)"

lemma same_but_fresh:
  "same_but s s' a b \<Longrightarrow> fresh (al_out s) x0 x1 \<Longrightarrow> 0 \<le> x0 \<Longrightarrow> x1 \<le> a \<or> b \<le> x0 \<Longrightarrow> fresh (al_out s') x0 x1"
  by (auto simp: same_but_def fresh_def)

definition matches_in :: "int list \<Rightarrow> int list \<Rightarrow> int list \<Rightarrow> int \<Rightarrow> int \<Rightarrow> int \<Rightarrow> int \<Rightarrow> bool" where
  "matches_in a b out x0 x1 y0 y1 \<longleftrightarrow>
     (\<forall>x. x0 \<le> x \<and> x < x1 \<longrightarrow>
        at out x = - 1 \<or> (y0 \<le> at out x \<and> at out x < y1 \<and> at a x = at b (at out x))) \<and>
     (\<forall>x x'. x0 \<le> x \<and> x < x' \<and> x' < x1 \<and> at out x \<noteq> - 1 \<and> at out x' \<noteq> - 1 \<longrightarrow> at out x < at out x')"

lemma matches_in_fresh: "fresh out x0 x1 \<Longrightarrow> matches_in a b out x0 x1 y0 y1"
  by (auto simp: fresh_def matches_in_def)

lemma matches_in_cong:
  "matches_in a b out x0 x1 y0 y1 \<Longrightarrow> (\<And>x. x0 \<le> x \<Longrightarrow> x < x1 \<Longrightarrow> at out' x = at out x) \<Longrightarrow>
     matches_in a b out' x0 x1 y0 y1"
  by (auto simp: matches_in_def)

lemma matches_in_append:
  assumes "matches_in a b out x0 s y0 t" "matches_in a b out s x1 t y1" "y0 \<le> t" "t \<le> y1"
  shows "matches_in a b out x0 x1 y0 y1"
proof -
  note m1 = assms(1) [unfolded matches_in_def] and m2 = assms(2) [unfolded matches_in_def]
  have "at out x < at out x'"
    if xs: "x0 \<le> x" "x < x'" "x' < x1" "at out x \<noteq> - 1" "at out x' \<noteq> - 1" for x x'
  proof (cases "x' < s \<or> s \<le> x")
    case True
    with m1 m2 xs show ?thesis by fastforce
  next
    case False
    with m1 xs have "at out x < t" by force
    moreover have "s \<le> x'" using False by simp
    with m2 xs have "t \<le> at out x'" by blast
    ultimately show ?thesis by simp
  qed
  moreover have "at out x = - 1 \<or> (y0 \<le> at out x \<and> at out x < y1 \<and> at a x = at b (at out x))"
    if "x0 \<le> x" "x < x1" for x
  proof (cases "x < s")
    case True
    with m1 that(1) have "at out x = - 1 \<or> (y0 \<le> at out x \<and> at out x < t \<and> at a x = at b (at out x))" by blast
    with assms(4) show ?thesis by auto
  next
    case False
    then have "s \<le> x" by simp
    with m2 that(2) have "at out x = - 1 \<or> (t \<le> at out x \<and> at out x < y1 \<and> at a x = at b (at out x))" by blast
    with assms(3) show ?thesis by auto
  qed
  ultimately show ?thesis by (simp add: matches_in_def)
qed

lemma matches_in_run:
  assumes "\<And>x. x0 \<le> x \<Longrightarrow> x < x1 \<Longrightarrow> at out x = y0 + (x - x0) \<and> at a x = at b (y0 + (x - x0))"
    and "y1 = y0 + (x1 - x0)"
  shows "matches_in a b out x0 x1 y0 y1"
  using assms by (auto simp: matches_in_def)

lemma matches_in_one:
  assumes "at out x = y" "at a x = at b y"
  shows "matches_in a b out x (x + 1) y (y + 1)"
  unfolding matches_in_def
proof (intro conjI allI impI)
  fix i assume "x \<le> i \<and> i < x + 1"
  then have "i = x" by simp
  with assms show "at out i = - 1 \<or> (y \<le> at out i \<and> at out i < y + 1 \<and> at a i = at b (at out i))" by simp
next
  fix i j assume "x \<le> i \<and> i < j \<and> j < x + 1 \<and> at out i \<noteq> - 1 \<and> at out j \<noteq> - 1"
  then have False by linarith
  then show "at out i < at out j" ..
qed

lemma common_prefix_spec:
  assumes "common_prefix s x0 x1 y0 y1 = (s', x0', y0')"
    and "aligner_wf s" "0 \<le> x0" "x0 \<le> x1" "x1 \<le> int (length (al_a s))" "y0 \<le> y1"
  shows "same_but s s' x0 x0' \<and> x0 \<le> x0' \<and> x0' \<le> x1 \<and> y0' \<le> y1 \<and> y0' - y0 = x0' - x0 \<and>
    matches_in (al_a s) (al_b s) (al_out s') x0 x0' y0 y0' \<and>
    (x0' < x1 \<and> y0' < y1 \<longrightarrow> at (al_a s) x0' \<noteq> at (al_b s) y0')"
  using assms
proof (induction s x0 x1 y0 y1 rule: common_prefix.induct)
  case (1 s x0 x1 y0 y1)
  show ?case
  proof (cases "x0 < x1 \<and> y0 < y1 \<and> at (al_a s) x0 = at (al_b s) y0")
    case True
    let ?s = "s\<lparr>al_out := upd (al_out s) x0 y0\<rparr>"
    have eq: "common_prefix ?s (x0 + 1) x1 (y0 + 1) y1 = (s', x0', y0')"
      using "1.prems"(1) True by (simp add: common_prefix.simps [of s])
    have ih: "same_but ?s s' (x0 + 1) x0' \<and> x0 + 1 \<le> x0' \<and> x0' \<le> x1 \<and> y0' \<le> y1 \<and>
        y0' - (y0 + 1) = x0' - (x0 + 1) \<and>
        matches_in (al_a s) (al_b s) (al_out s') (x0 + 1) x0' (y0 + 1) y0' \<and>
        (x0' < x1 \<and> y0' < y1 \<longrightarrow> at (al_a s) x0' \<noteq> at (al_b s) y0')"
      using "1.IH" [OF True eq] "1.prems" True by (simp add: aligner_wf_def)
    have at: "at (upd (al_out s) x0 y0) x = (if x = x0 then y0 else at (al_out s) x)" if "0 \<le> x" for x
      using "1.prems" True that by (subst at_upd) (auto simp: aligner_wf_def)
    have sb: "same_but s ?s x0 x0'"
      using at ih by (auto simp: same_but_def)
    have "same_but s s' x0 x0'"
      by (rule same_but_trans [OF sb conjunct1 [OF ih]]) simp_all
    moreover have "at (al_out s') x0 = y0"
      using ih at [of x0] "1.prems"(3) by (auto simp: same_but_def)
    then have one: "matches_in (al_a s) (al_b s) (al_out s') x0 (x0 + 1) y0 (y0 + 1)"
      using True by (intro matches_in_one) simp_all
    have "matches_in (al_a s) (al_b s) (al_out s') x0 x0' y0 y0'"
      by (rule matches_in_append [OF one]) (use ih in simp_all)
    ultimately show ?thesis using ih by auto
  next
    case False
    with "1.prems" show ?thesis
      by (auto simp: common_prefix.simps [of s] matches_in_def)
  qed
qed

lemma common_suffix_spec:
  assumes "common_suffix s x0 x1 y0 y1 = (s', x1', y1')"
    and "aligner_wf s" "0 \<le> x0" "x0 \<le> x1" "x1 \<le> int (length (al_a s))" "y0 \<le> y1"
  shows "same_but s s' x1' x1 \<and> x0 \<le> x1' \<and> x1' \<le> x1 \<and> y0 \<le> y1' \<and> y1 - y1' = x1 - x1' \<and>
    matches_in (al_a s) (al_b s) (al_out s') x1' x1 y1' y1 \<and>
    (x0 < x1' \<and> y0 < y1' \<longrightarrow> at (al_a s) (x1' - 1) \<noteq> at (al_b s) (y1' - 1))"
  using assms
proof (induction s x0 x1 y0 y1 rule: common_suffix.induct)
  case (1 s x0 x1 y0 y1)
  show ?case
  proof (cases "x0 < x1 \<and> y0 < y1 \<and> at (al_a s) (x1 - 1) = at (al_b s) (y1 - 1)")
    case True
    let ?s = "s\<lparr>al_out := upd (al_out s) (x1 - 1) (y1 - 1)\<rparr>"
    have eq: "common_suffix ?s x0 (x1 - 1) y0 (y1 - 1) = (s', x1', y1')"
      using "1.prems"(1) True by (simp add: common_suffix.simps [of s])
    have ih: "same_but ?s s' x1' (x1 - 1) \<and> x0 \<le> x1' \<and> x1' \<le> x1 - 1 \<and> y0 \<le> y1' \<and>
        y1 - 1 - y1' = x1 - 1 - x1' \<and>
        matches_in (al_a s) (al_b s) (al_out s') x1' (x1 - 1) y1' (y1 - 1) \<and>
        (x0 < x1' \<and> y0 < y1' \<longrightarrow> at (al_a s) (x1' - 1) \<noteq> at (al_b s) (y1' - 1))"
      using "1.IH" [OF True eq] "1.prems" True by (simp add: aligner_wf_def)
    have at: "at (upd (al_out s) (x1 - 1) (y1 - 1)) x = (if x = x1 - 1 then y1 - 1 else at (al_out s) x)"
      if "0 \<le> x" for x
      using "1.prems" True that by (subst at_upd) (auto simp: aligner_wf_def)
    have sb: "same_but s ?s x1' x1"
      using at ih by (auto simp: same_but_def)
    have "same_but s s' x1' x1"
      by (rule same_but_trans [OF sb conjunct1 [OF ih]]) simp_all
    moreover have "at (al_out s') (x1 - 1) = y1 - 1"
      using ih at [of "x1 - 1"] "1.prems"(3) True by (auto simp: same_but_def)
    then have one: "matches_in (al_a s) (al_b s) (al_out s') (x1 - 1) x1 (y1 - 1) y1"
      using True matches_in_one [of "al_out s'" "x1 - 1" "y1 - 1" "al_a s" "al_b s"] by simp
    have "matches_in (al_a s) (al_b s) (al_out s') x1' x1 y1' y1"
      by (rule matches_in_append [OF _ one]) (use ih in simp_all)
    ultimately show ?thesis using ih by auto
  next
    case False
    with "1.prems" show ?thesis
      by (auto simp: common_suffix.simps [of s] matches_in_def)
  qed
qed

lemma mark_run_spec:
  assumes "0 \<le> x" "ex \<le> int (length out)"
  shows "length (mark_run out x y ex) = length out \<and>
    (\<forall>i. 0 \<le> i \<longrightarrow> at (mark_run out x y ex) i = (if x \<le> i \<and> i < ex then y + (i - x) else at out i))"
  using assms
proof (induction out x y ex rule: mark_run.induct)
  case (1 out x y ex)
  show ?case
  proof (cases "x < ex")
    case True
    have at: "at (upd out x y) i = (if i = x then y else at out i)" if "0 \<le> i" for i
      using at_upd [of x out i y] "1.prems" True that by auto
    from "1.IH" [OF True] "1.prems" True at show ?thesis
      by (auto simp: mark_run.simps [of out x y ex])
  next
    case False
    then show ?thesis by (auto simp: mark_run.simps [of out x y ex])
  qed
qed

text \<open>
  A box a call may be asked about: inside both lists, nothing of it matched yet.
\<close>

definition call_ok :: "aligner \<Rightarrow> int \<Rightarrow> int \<Rightarrow> int \<Rightarrow> int \<Rightarrow> int \<Rightarrow> bool" where
  "call_ok s x0 x1 y0 y1 limit \<longleftrightarrow> aligner_wf s \<and> 0 \<le> x0 \<and> x0 \<le> x1 \<and> x1 \<le> int (length (al_a s)) \<and>
     0 \<le> y0 \<and> y0 \<le> y1 \<and> y1 \<le> int (length (al_b s)) \<and> limit \<le> MaxSequenceEdits \<and>
     fresh (al_out s) x0 x1"

definition call_result :: "aligner \<Rightarrow> int \<Rightarrow> int \<Rightarrow> int \<Rightarrow> int \<Rightarrow> (aligner \<times> bool) option \<Rightarrow> bool" where
  "call_result s x0 x1 y0 y1 r \<longleftrightarrow>
     (\<exists>s' ok. r = Some (s', ok) \<and> same_but s s' x0 x1 \<and>
        (ok \<longrightarrow> matches_in (al_a s) (al_b s) (al_out s') x0 x1 y0 y1))"

lemma same_but_matches:
  assumes "same_but s s' c d" "matches_in a b (al_out s) x0 x1 y0 y1" "0 \<le> x0" "x1 \<le> c \<or> d \<le> x0"
  shows "matches_in a b (al_out s') x0 x1 y0 y1"
  using assms(2)
  by (rule matches_in_cong) (use assms(1,3,4) in \<open>auto simp: same_but_def\<close>)

text \<open>One level of the recursion on a box with its common ends gone.\<close>

lemma conquer:
  assumes ok: "call_ok s x0 x1 y0 y1 limit" and sn: "snake_in_box s x0 x1 y0 y1 sx sy ex ey" and "d \<le> limit"
    and s1: "s1 = s\<lparr>al_fwd := fwd', al_bwd := bwd', al_out := mark_run (al_out s) sx sy ex\<rparr>"
    and len: "length fwd' = length (al_fwd s)" "length bwd' = length (al_bwd s)"
    and left: "\<And>s. call_ok s x0 sx y0 sy d \<Longrightarrow> call_result s x0 sx y0 sy (f s)"
    and right: "\<And>s. call_ok s ex x1 ey y1 d \<Longrightarrow> call_result s ex x1 ey y1 (g s)"
  shows "call_result s x0 x1 y0 y1
    (case f s1 of None \<Rightarrow> None | Some (s', okl) \<Rightarrow> if okl then g s' else Some (s', False))"
proof -
  note b = sn [unfolded snake_in_box_def] and c = ok [unfolded call_ok_def]
  have "0 \<le> sx" "ex \<le> int (length (al_out s))" using b c by (auto simp: aligner_wf_def)
  note mark = mark_run_spec [OF this, of sy]
  have sb1: "same_but s s1 sx ex" using mark b c by (auto simp: s1 same_but_def len)
  have ok1: "call_ok s1 x0 sx y0 sy d"
    using b c sb1 \<open>d \<le> limit\<close> same_but_wf [OF sb1]
    by (auto simp: call_ok_def s1 fresh_def same_but_def intro!: same_but_fresh [OF sb1])
  obtain s2 okl where f: "f s1 = Some (s2, okl)" and sb2: "same_but s1 s2 x0 sx"
    and ml: "okl \<Longrightarrow> matches_in (al_a s1) (al_b s1) (al_out s2) x0 sx y0 sy"
    using left [OF ok1] by (auto simp: call_result_def)
  have sb12: "same_but s s2 x0 x1" by (rule same_but_trans [OF sb1 sb2]) (use b in auto)
  show ?thesis
  proof (cases okl)
    case False
    with f sb12 show ?thesis by (auto simp: call_result_def)
  next
    case True
    have same: "al_a s1 = al_a s" "al_b s1 = al_b s" "al_a s2 = al_a s" "al_b s2 = al_b s"
      using sb1 sb2 by (simp_all add: same_but_def)
    have "fresh (al_out s1) ex x1"
      using c b by (intro same_but_fresh [OF sb1]) (auto simp: fresh_def)
    then have "fresh (al_out s2) ex x1"
      using c b by (intro same_but_fresh [OF sb2]) auto
    then have ok2: "call_ok s2 ex x1 ey y1 d"
      using b c \<open>d \<le> limit\<close> same same_but_wf [OF sb12] by (auto simp: call_ok_def)
    obtain s3 okr where g: "g s2 = Some (s3, okr)" and sb3: "same_but s2 s3 ex x1"
      and mr: "okr \<Longrightarrow> matches_in (al_a s2) (al_b s2) (al_out s3) ex x1 ey y1"
      using right [OF ok2] by (auto simp: call_result_def)
    have sb: "same_but s s3 x0 x1" by (rule same_but_trans [OF sb12 sb3]) (use b in auto)
    have "matches_in (al_a s) (al_b s) (al_out s1) sx ex sy ey"
      using mark b \<open>0 \<le> sx\<close> by (intro matches_in_run) (auto simp: s1)
    then have mm: "matches_in (al_a s) (al_b s) (al_out s3) sx ex sy ey"
      using b c \<open>0 \<le> sx\<close> by (auto intro!: same_but_matches [OF sb3] same_but_matches [OF sb2])
    have ml': "matches_in (al_a s) (al_b s) (al_out s3) x0 sx y0 sy"
      using ml True same b c by (auto intro!: same_but_matches [OF sb3])
    have "matches_in (al_a s) (al_b s) (al_out s3) x0 ex y0 ey"
      by (rule matches_in_append [OF ml' mm]) (use b in auto)
    then have "okr \<Longrightarrow> matches_in (al_a s) (al_b s) (al_out s3) x0 x1 y0 y1"
      by (rule matches_in_append) (use mr same b in auto)
    with f g True sb show ?thesis by (simp add: call_result_def)
  qed
qed

text \<open>The ends taken off around a result for what is left between them.\<close>

lemma call_result_ends:
  assumes "same_but s s1 x0 xa" "matches_in (al_a s) (al_b s) (al_out s1) x0 xa y0 ya"
    and "same_but s1 s2 xb x1" "matches_in (al_a s) (al_b s) (al_out s2) xb x1 yb y1"
    and "call_result s2 xa xb ya yb r"
    and "0 \<le> x0" "x0 \<le> xa" "xa \<le> xb" "xb \<le> x1" "y0 \<le> ya" "ya \<le> yb" "yb \<le> y1"
  shows "call_result s x0 x1 y0 y1 r"
proof -
  obtain s3 ok where r: "r = Some (s3, ok)" and sb3: "same_but s2 s3 xa xb"
    and m: "ok \<Longrightarrow> matches_in (al_a s2) (al_b s2) (al_out s3) xa xb ya yb"
    using assms(5) by (auto simp: call_result_def)
  have same: "al_a s2 = al_a s" "al_b s2 = al_b s" using assms(1,3) by (simp_all add: same_but_def)
  have "same_but s s2 x0 x1" by (rule same_but_trans [OF assms(1,3)]) (use assms in auto)
  then have sb: "same_but s s3 x0 x1" by (rule same_but_trans [OF _ sb3]) (use assms in auto)
  have m1: "matches_in (al_a s) (al_b s) (al_out s3) x0 xa y0 ya"
    using assms by (auto intro!: same_but_matches [OF sb3] same_but_matches [OF assms(3)])
  have m3: "matches_in (al_a s) (al_b s) (al_out s3) xb x1 yb y1"
    using assms by (auto intro!: same_but_matches [OF sb3])
  have "matches_in (al_a s) (al_b s) (al_out s3) x0 x1 y0 y1" if ok
  proof -
    have "matches_in (al_a s) (al_b s) (al_out s3) x0 xb y0 yb"
      by (rule matches_in_append [OF m1]) (use m [OF that] same assms in auto)
    then show ?thesis by (rule matches_in_append [OF _ m3]) (use assms in auto)
  qed
  with r sb show ?thesis by (simp add: call_result_def)
qed

lemma strip_ends:
  assumes "call_ok s x0 x1 y0 y1 limit"
    and p: "common_prefix s x0 x1 y0 y1 = (s1, xa, ya)" and q: "common_suffix s1 xa x1 ya y1 = (s2, xb, yb)"
  shows "call_ok s2 xa xb ya yb limit" "xb - xa + (yb - ya) \<le> x1 - x0 + (y1 - y0)"
    and "xa < xb \<Longrightarrow> ya < yb \<Longrightarrow> at (al_a s2) xa \<noteq> at (al_b s2) ya \<and> at (al_a s2) (xb - 1) \<noteq> at (al_b s2) (yb - 1)"
    and "call_result s2 xa xb ya yb r \<Longrightarrow> call_result s x0 x1 y0 y1 r"
proof -
  note c = assms(1) [unfolded call_ok_def]
  have p': "same_but s s1 x0 xa" "x0 \<le> xa" "xa \<le> x1" "y0 \<le> ya" "ya \<le> y1"
    "matches_in (al_a s) (al_b s) (al_out s1) x0 xa y0 ya"
    "xa < x1 \<and> ya < y1 \<longrightarrow> at (al_a s) xa \<noteq> at (al_b s) ya"
    using common_prefix_spec [OF p] c by auto
  have same1: "al_a s1 = al_a s" "al_b s1 = al_b s" using p'(1) by (simp_all add: same_but_def)
  have q': "same_but s1 s2 xb x1" "xa \<le> xb" "xb \<le> x1" "ya \<le> yb" "yb \<le> y1"
    "matches_in (al_a s) (al_b s) (al_out s2) xb x1 yb y1"
    "xa < xb \<and> ya < yb \<longrightarrow> at (al_a s) (xb - 1) \<noteq> at (al_b s) (yb - 1)"
    using common_suffix_spec [OF q same_but_wf [OF p'(1)]] c p' same1 by auto
  have same2: "al_a s2 = al_a s" "al_b s2 = al_b s" using q'(1) same1 by (simp_all add: same_but_def)
  have "fresh (al_out s1) xa x1" using c p' by (intro same_but_fresh [OF p'(1)]) (auto simp: fresh_def)
  then have fr: "fresh (al_out s2) xa xb"
    using c p' q' by (intro same_but_fresh [OF q'(1)]) (auto simp: fresh_def)
  show "call_ok s2 xa xb ya yb limit"
    using c p' q' fr same2 same_but_wf [OF q'(1) same_but_wf [OF p'(1)]] by (auto simp: call_ok_def)
  show "xb - xa + (yb - ya) \<le> x1 - x0 + (y1 - y0)" using p' q' by auto
  show "at (al_a s2) xa \<noteq> at (al_b s2) ya \<and> at (al_a s2) (xb - 1) \<noteq> at (al_b s2) (yb - 1)"
    if "xa < xb" "ya < yb"
    using p'(7) q'(3,5,7) that same2 by auto
  show "call_result s x0 x1 y0 y1 r" if "call_result s2 xa xb ya yb r"
    by (rule call_result_ends [OF p'(1,6) q'(1,6) that]) (use c p' q' in auto)
qed

lemma diff_spec:
  assumes "call_ok s x0 x1 y0 y1 limit" "x1 - x0 + (y1 - y0) < int fuel"
  shows "call_result s x0 x1 y0 y1 (diff fuel s x0 x1 y0 y1 limit)"
  using assms
proof (induction fuel arbitrary: s x0 x1 y0 y1 limit)
  case 0
  then show ?case by (auto simp: call_ok_def)
next
  case (Suc fuel)
  obtain s1 xa ya where p: "common_prefix s x0 x1 y0 y1 = (s1, xa, ya)" by (metis prod_cases3)
  obtain s2 xb yb where q: "common_suffix s1 xa x1 ya y1 = (s2, xb, yb)" by (metis prod_cases3)
  note ends = strip_ends [OF Suc.prems(1) p q]
  note c = ends(1) [unfolded call_ok_def]
  have "call_result s2 xa xb ya yb (diff (Suc fuel) s x0 x1 y0 y1 limit)"
  proof (cases "xa = xb \<or> ya = yb")
    case True
    with c p q show ?thesis by (auto simp: call_result_def matches_in_def fresh_def)
  next
    case False
    then have lt: "xa < xb" "ya < yb" using c by auto
    obtain d sx sy ex ey fwd' bwd' where mid: "middle s2 xa xb ya yb = ((d, sx, sy, ex, ey), fwd', bwd')"
      by (metis prod_cases3 surj_pair)
    note ms = middle_spec [OF conjunct1 [OF c] lt conjunct1 [OF ends(3) [OF lt]] conjunct2 [OF ends(3) [OF lt]] mid]
    show ?thesis
    proof (cases "d > limit")
      case True
      with p q mid False ms(1,2) show ?thesis by (auto simp: call_result_def same_but_def)
    next
      case le: False
      have sn: "snake_in_box s2 xa xb ya yb sx sy ex ey" using ms(3) le c by auto
      note smaller = sn [unfolded snake_in_box_def] ends(2) Suc.prems(2)
      define s3 where "s3 = s2\<lparr>al_fwd := fwd', al_bwd := bwd', al_out := mark_run (al_out s2) sx sy ex\<rparr>"
      have "call_result s2 xa xb ya yb
        (case diff fuel s3 xa sx ya sy d of None \<Rightarrow> None
         | Some (s', okl) \<Rightarrow> if okl then diff fuel s' ex xb ey yb d else Some (s', False))"
        by (rule conquer [where d = d, OF ends(1) sn _ s3_def ms(1,2)]) (use le smaller in \<open>auto intro!: Suc.IH\<close>)
      with p q mid False le show ?thesis by (simp add: Let_def s3_def)
    qed
  qed
  then show ?case by (rule ends(4))
qed

section \<open>Interning\<close>

definition ids_wf :: "(string \<times> int) list \<Rightarrow> bool" where
  "ids_wf ids \<longleftrightarrow> (\<forall>k i. map_of ids k = Some i \<longrightarrow> i < int (length ids)) \<and>
     (\<forall>k k' i. map_of ids k = Some i \<longrightarrow> map_of ids k' = Some i \<longrightarrow> k = k')"

lemma ids_wf_Nil: "ids_wf []"
  by (simp add: ids_wf_def)

lemma ids_wf_Cons: "ids_wf ids \<Longrightarrow> map_of ids k = None \<Longrightarrow> ids_wf ((k, int (length ids)) # ids)"
  by (force simp: ids_wf_def)

lemma intern_spec:
  assumes "intern ids ks = (ids', out)" "ids_wf ids"
  shows "ids_wf ids' \<and> (\<forall>k i. map_of ids k = Some i \<longrightarrow> map_of ids' k = Some i) \<and>
    map Some out = map (map_of ids') ks"
  using assms
proof (induction ids ks arbitrary: ids' out rule: intern.induct)
  case (1 ids)
  then show ?case by simp
next
  case (2 ids k ks)
  show ?case
  proof (cases "map_of ids k")
    case None
    let ?ids = "(k, int (length ids)) # ids"
    obtain i o' where r: "intern ?ids ks = (i, o')" by fastforce
    have "ids_wf ?ids" using "2.prems"(2) None by (rule ids_wf_Cons)
    from "2.IH"(1) [OF None refl r this] "2.prems"(1) None r show ?thesis
      by (auto split: if_splits) (metis option.distinct(1))
  next
    case (Some j)
    obtain i o' where r: "intern ids ks = (i, o')" by fastforce
    from "2.IH"(2) [OF Some r "2.prems"(2)] "2.prems"(1) Some r show ?thesis by auto
  qed
qed

lemma intern_both:
  assumes "intern [] base = (ids, a)" "intern ids side = (ids', b)"
  shows "length a = length base" "length b = length side"
    "i < length base \<Longrightarrow> j < length side \<Longrightarrow> a ! i = b ! j \<longleftrightarrow> base ! i = side ! j"
proof -
  note s1 = intern_spec [OF assms(1) ids_wf_Nil]
  note s2 = intern_spec [OF assms(2) conjunct1 [OF s1]]
  show la: "length a = length base" and lb: "length b = length side"
    using s1 s2 by (metis length_map)+
  show "a ! i = b ! j \<longleftrightarrow> base ! i = side ! j" if "i < length base" "j < length side"
  proof -
    have "map_of ids (base ! i) = Some (a ! i)" using s1 that la by (metis nth_map)
    then have "map_of ids' (base ! i) = Some (a ! i)" using s2 by blast
    moreover have "map_of ids' (side ! j) = Some (b ! j)" using s2 that lb by (metis nth_map)
    moreover have "ids_wf ids'" using s2 by simp
    ultimately show ?thesis by (metis ids_wf_def option.inject)
  qed
qed

section \<open>The alignment\<close>

text \<open>A matching of two key lists: in range, key-equal, strictly increasing.\<close>

definition matching :: "string list \<Rightarrow> string list \<Rightarrow> int list \<Rightarrow> bool" where
  "matching base side out \<longleftrightarrow> length out = length base \<and>
     (\<forall>i < length base. out ! i = - 1 \<or>
        (0 \<le> out ! i \<and> nat (out ! i) < length side \<and> base ! i = side ! nat (out ! i))) \<and>
     (\<forall>i j. i < j \<and> j < length base \<and> out ! i \<noteq> - 1 \<and> out ! j \<noteq> - 1 \<longrightarrow> out ! i < out ! j)"

lemma align_call:
  "call_result (new_aligner base side) 0 (int (length base)) 0 (int (length side))
     (diff (align_fuel base side) (new_aligner base side) 0 (int (length base)) 0 (int (length side)) MaxSequenceEdits)"
proof (rule diff_spec)
  obtain ids a where i1: "intern [] base = (ids, a)" by fastforce
  obtain ids' b where i2: "intern ids side = (ids', b)" by fastforce
  show "call_ok (new_aligner base side) 0 (int (length base)) 0 (int (length side)) MaxSequenceEdits"
    using intern_both(1,2) [OF i1 i2]
    by (auto simp: call_ok_def new_aligner_def i1 i2 Let_def aligner_wf_def fresh_def at_def MaxSequenceEdits_def)
  show "int (length base) - 0 + (int (length side) - 0) < int (align_fuel base side)"
    by (simp add: align_fuel_def)
qed

lemma align_run_returns: "\<exists>r. align_run base side = Some r"
  using align_call [of base side] by (auto simp: align_run_def call_result_def)

lemma align_sound: "align base side = Some out \<Longrightarrow> matching base side out"
proof -
  assume al: "align base side = Some out"
  obtain ids a where i1: "intern [] base = (ids, a)" by fastforce
  obtain ids' b where i2: "intern ids side = (ids', b)" by fastforce
  have ab: "al_a (new_aligner base side) = a" "al_b (new_aligner base side) = b"
    "length (al_out (new_aligner base side)) = length base"
    by (simp_all add: new_aligner_def i1 i2 Let_def)
  from align_call [of base side] al have len: "length out = length base"
    and m: "matches_in a b out 0 (int (length base)) 0 (int (length side))"
    by (auto simp: align_def align_run_def call_result_def same_but_def ab split: if_splits)
  have "out ! i = - 1 \<or> (0 \<le> out ! i \<and> nat (out ! i) < length side \<and> base ! i = side ! nat (out ! i))"
    if "i < length base" for i
  proof -
    have "out ! i = - 1 \<or> (0 \<le> out ! i \<and> out ! i < int (length side) \<and> a ! i = b ! nat (out ! i))"
      using conjunct1 [OF m [unfolded matches_in_def], rule_format, of "int i"] that by (simp add: at_def)
    then show ?thesis using intern_both(3) [OF i1 i2 that, of "nat (out ! i)"] by auto
  qed
  moreover have "out ! i < out ! j" if "i < j" "j < length base" "out ! i \<noteq> - 1" "out ! j \<noteq> - 1" for i j
    using conjunct2 [OF m [unfolded matches_in_def], rule_format, of "int i" "int j"] that by (simp add: at_def)
  ultimately show ?thesis using len by (simp add: matching_def)
qed

text \<open>
  C24. \<open>align\<close> always returns, whatever the two lists: its divide-and-conquer recursion ends
  within the fuel it is given. What it returns, when it reports success, is a matching: as long
  as the base, every entry \<open>-1\<close> or a position of the side holding the same key, and the
  matched positions strictly increasing.
\<close>

theorem align_returns_matching:
  "\<exists>r. align_run base side = Some r \<and> (r = None \<or> (\<exists>out. r = Some out \<and> matching base side out))"
proof -
  obtain r where r: "align_run base side = Some r" using align_run_returns by blast
  then have "align base side = r" by (simp add: align_def)
  with r show ?thesis using align_sound by (cases r) auto
qed

end
