(* ===== verification/Merge_Sequence.thy ===== *)
theory Merge_Sequence
  imports Merge_Basic Align_Correct
begin

text \<open>
  \<open>Sequence\<close>, the diff3 merge of ordered lists (src/merge/sequence.go), over the
  alignment of theory Align: its definition as the code has it, an inductive specification
  of a diff3 merge over shared anchors, and what the merge promises.
\<close>

section \<open>Definitions\<close>

definition keysOf :: "'a list \<Rightarrow> ('a \<Rightarrow> string) \<Rightarrow> string list" where
  "keysOf xs key = map key xs"

definition equalKeys :: "string list \<Rightarrow> string list \<Rightarrow> bool" where
  "equalKeys a b \<longleftrightarrow> length a = length b \<and> list_all (\<lambda>(x, y). x = y) (zip a b)"

fun lessKeys :: "string list \<Rightarrow> string list \<Rightarrow> bool" where
  "lessKeys (x # a) (y # b) = (if x \<noteq> y then x < y else lessKeys a b)"
| "lessKeys a b = (length a < length b)"

text \<open>\<open>resolve\<close>: the merge of one unstable stretch appended to the result.\<close>

definition resolve ::
  "'a list merge_result \<Rightarrow> 'a list \<Rightarrow> 'a list \<Rightarrow> 'a list \<Rightarrow> string list \<Rightarrow> string list \<Rightarrow> string list \<Rightarrow>
     'a list merge_result" where
  "resolve r b ours theirs kb ko kt =
     (if equalKeys ko kb then r\<lparr>r_value := r_value r @ theirs\<rparr>
      else if equalKeys kt kb \<or> equalKeys ko kt then r\<lparr>r_value := r_value r @ ours\<rparr>
      else
        let pos = [itoa (length (r_value r))] in
        if length b = 0 then
          r\<lparr>r_value := (if lessKeys ko kt then r_value r @ ours @ theirs else r_value r @ theirs @ ours),
            r_flagged := r_flagged r @
              [\<lparr>c_path = pos, c_reason = ''both sides inserted here; kept both, in key order''\<rparr>]\<rparr>
        else
          r\<lparr>r_value := r_value r @ b,
            r_conflicts := r_conflicts r @
              [\<lparr>c_path = pos, c_reason = ''both sides changed this stretch, differently''\<rparr>]\<rparr>)"

text \<open>The next base position matched in both alignments, or the end.\<close>

function next_shared :: "int list \<Rightarrow> int list \<Rightarrow> nat \<Rightarrow> nat \<Rightarrow> nat" where
  "next_shared mo mt len s =
     (if s < len \<and> (mo ! s < 0 \<or> mt ! s < 0) then next_shared mo mt len (s + 1) else s)"
  by pat_completeness auto
termination
  by (relation "measure (\<lambda>(mo, mt, len, s). len - s)") auto

declare next_shared.simps [simp del]

lemma next_shared_ge: "s \<le> next_shared mo mt len s"
proof (induction mo mt len s rule: next_shared.induct)
  case (1 mo mt len s)
  then show ?case by (subst next_shared.simps) (auto dest: Suc_leD)
qed

function seq_loop ::
  "('a \<Rightarrow> string) \<Rightarrow> 'a list \<Rightarrow> 'a list \<Rightarrow> 'a list \<Rightarrow> int list \<Rightarrow> int list \<Rightarrow>
     nat \<Rightarrow> nat \<Rightarrow> nat \<Rightarrow> 'a list merge_result \<Rightarrow> 'a list merge_result" where
  "seq_loop key base ours theirs mo mt i j k r =
     (let s = next_shared mo mt (length base) i;
          (oj, tk) = (if s < length base then (nat (mo ! s), nat (mt ! s)) else (length ours, length theirs));
          r = resolve r (slice i s base) (slice j oj ours) (slice k tk theirs)
                (slice i s (keysOf base key)) (slice j oj (keysOf ours key)) (slice k tk (keysOf theirs key))
      in if s < length base
         then seq_loop key base ours theirs mo mt (s + 1) (oj + 1) (tk + 1)
                (r\<lparr>r_value := r_value r @ [ours ! oj]\<rparr>)
         else r)"
  by pat_completeness auto
termination
proof (relation "measure (\<lambda>(key, base, ours, theirs, mo, mt, i, j, k, r). length base - i)", goal_cases)
  case 1
  then show ?case by simp
next
  case (2 key base ours theirs mo mt i j k r s)
  then show ?case using next_shared_ge [of i mo mt "length base"] by auto
qed

declare seq_loop.simps [simp del]

definition Sequence ::
  "'a list \<Rightarrow> 'a list \<Rightarrow> 'a list \<Rightarrow> ('a \<Rightarrow> string) \<Rightarrow> 'a list merge_result" where
  "Sequence base ours theirs key =
     (let kb = keysOf base key; ko = keysOf ours key; kt = keysOf theirs key in
      if equalKeys kt kb \<or> equalKeys ko kt then \<lparr>r_value = ours, r_conflicts = [], r_flagged = []\<rparr>
      else if equalKeys ko kb then \<lparr>r_value = theirs, r_conflicts = [], r_flagged = []\<rparr>
      else
        case (align kb ko, align kb kt) of
          (Some mo, Some mt) \<Rightarrow>
            seq_loop key base ours theirs mo mt 0 0 0 \<lparr>r_value = [], r_conflicts = [], r_flagged = []\<rparr>
        | _ \<Rightarrow> \<lparr>r_value = base,
               r_conflicts = [\<lparr>c_path = [], c_reason =
                 ''a side changed the list by more than '' @ itoa (nat MaxSequenceEdits) @
                 '' insertions and deletions, too many to align''\<rparr>],
               r_flagged = []\<rparr>)"


section \<open>Comparing blocks\<close>

lemma equalKeys_iff [simp]: "equalKeys a b \<longleftrightarrow> a = b"
  by (auto simp: equalKeys_def list_eq_iff_zip_eq list_all_iff)

lemma lessKeys_total: "a \<noteq> b \<Longrightarrow> lessKeys b a = (\<not> lessKeys a b)"
  by (induction a b rule: lessKeys.induct) auto

section \<open>The stretches\<close>

lemma next_shared_spec:
  assumes "s \<le> len"
  shows "next_shared mo mt len s \<le> len" "\<And>i. s \<le> i \<Longrightarrow> i < next_shared mo mt len s \<Longrightarrow> mo ! i < 0 \<or> mt ! i < 0"
    "next_shared mo mt len s < len \<Longrightarrow> 0 \<le> mo ! next_shared mo mt len s \<and> 0 \<le> mt ! next_shared mo mt len s"
  using assms
proof (induction mo mt len s rule: next_shared.induct)
  case (1 mo mt len s)
  note unfold = next_shared.simps [of mo mt len s]
  { case 1 with "1.IH" show ?case by (simp add: unfold) next
    case (2 i) with "1.IH" show ?case by (cases "i = s") (auto simp: unfold split: if_splits) next
    case 3 with "1.IH" show ?case by (auto simp: unfold split: if_splits) }
qed

lemma next_shared_commute: "next_shared mo mt len s = next_shared mt mo len s"
proof (induction mo mt len s rule: next_shared.induct)
  case (1 mo mt len s)
  then show ?case
    by (auto simp: next_shared.simps [of mo mt len s] next_shared.simps [of mt mo len s])
qed

text \<open>
  What both alignments know of a position they share, from position \<open>i\<close> of the base and
  \<open>j\<close> of the side on.
\<close>

definition aligned_from :: "('a \<Rightarrow> string) \<Rightarrow> 'a list \<Rightarrow> 'a list \<Rightarrow> int list \<Rightarrow> nat \<Rightarrow> nat \<Rightarrow> bool" where
  "aligned_from key base side mo i j \<longleftrightarrow> j \<le> length side \<and>
     (\<forall>s. i \<le> s \<and> s < length base \<and> 0 \<le> mo ! s \<longrightarrow>
        j \<le> nat (mo ! s) \<and> nat (mo ! s) < length side \<and> key (side ! nat (mo ! s)) = key (base ! s)) \<and>
     (\<forall>s s'. i \<le> s \<and> s < s' \<and> s' < length base \<and> 0 \<le> mo ! s \<and> 0 \<le> mo ! s' \<longrightarrow> mo ! s < mo ! s')"

lemma matching_aligned:
  assumes "matching (keysOf base key) (keysOf side key) mo"
  shows "aligned_from key base side mo 0 0"
  using assms by (fastforce simp: matching_def aligned_from_def keysOf_def)

lemma aligned_from_step:
  assumes "aligned_from key base side mo i j" "i \<le> s" "s < length base" "0 \<le> mo ! s"
  shows "aligned_from key base side mo (s + 1) (nat (mo ! s) + 1)"
  using assms unfolding aligned_from_def
  by (smt (verit, best) Suc_eq_plus1 Suc_le_eq le_trans nat_less_eq_zless less_imp_le_nat)

section \<open>The specification\<close>

text \<open>
  A diff3 merge over anchors the three lists share: each stretch before an anchor is resolved
  on its own, and the anchor is kept.
\<close>

abbreviation resolved :: "('a \<Rightarrow> string) \<Rightarrow> 'a list merge_result \<Rightarrow> 'a list \<Rightarrow> 'a list \<Rightarrow> 'a list \<Rightarrow> 'a list merge_result" where
  "resolved key r b xs ys \<equiv> resolve r b xs ys (keysOf b key) (keysOf xs key) (keysOf ys key)"

inductive diff3 ::
  "('a \<Rightarrow> string) \<Rightarrow> 'a list merge_result \<Rightarrow> 'a list \<Rightarrow> 'a list \<Rightarrow> 'a list \<Rightarrow> 'a list merge_result \<Rightarrow> bool"
  for key where
  stretch: "diff3 key r b xs ys (resolved key r b xs ys)"
| anchor: "key x = key a \<Longrightarrow> key y = key a \<Longrightarrow> r1 = resolved key r b xs ys \<Longrightarrow>
    diff3 key (r1\<lparr>r_value := r_value r1 @ [x]\<rparr>) bs xs' ys' r' \<Longrightarrow>
    diff3 key r (b @ a # bs) (xs @ x # xs') (ys @ y # ys') r'"

lemma seq_loop_diff3:
  assumes "aligned_from key base ours mo i j" "aligned_from key base theirs mt i k" "i \<le> length base"
  shows "diff3 key r (drop i base) (drop j ours) (drop k theirs)
    (seq_loop key base ours theirs mo mt i j k r)"
  using assms
proof (induction key base ours theirs mo mt i j k r rule: seq_loop.induct)
  case (1 key base ours theirs mo mt i j k r)
  let ?s = "next_shared mo mt (length base) i"
  note ns = next_shared_spec [where mo = mo and mt = mt, OF "1.prems"(3)] next_shared_ge [of i mo mt "length base"]
  note unfold = seq_loop.simps [of key base ours theirs mo mt i j k r]
  show ?case
  proof (cases "?s < length base")
    case False
    with ns(1) have s: "?s = length base" by simp
    then show ?thesis
      using diff3.stretch [of key r "drop i base" "drop j ours" "drop k theirs"]
      by (simp add: unfold s Let_def slice_to_end keysOf_def) (simp add: slice_def drop_map)
  next
    case True
    let ?oj = "nat (mo ! ?s)" and ?tk = "nat (mt ! ?s)"
    have nn: "0 \<le> mo ! ?s" "0 \<le> mt ! ?s" using ns(3) True by auto
    have o: "j \<le> ?oj" "?oj < length ours" "key (ours ! ?oj) = key (base ! ?s)"
      using "1.prems"(1) ns(4) True nn by (auto simp: aligned_from_def)
    have t: "k \<le> ?tk" "?tk < length theirs" "key (theirs ! ?tk) = key (base ! ?s)"
      using "1.prems"(2) ns(4) True nn by (auto simp: aligned_from_def)
    let ?r1 = "resolved key r (slice i ?s base) (slice j ?oj ours) (slice k ?tk theirs)"
    have eq: "seq_loop key base ours theirs mo mt i j k r =
        seq_loop key base ours theirs mo mt (?s + 1) (?oj + 1) (?tk + 1)
          (?r1\<lparr>r_value := r_value ?r1 @ [ours ! ?oj]\<rparr>)"
      using True by (simp add: unfold Let_def keysOf_def map_slice)
    have "diff3 key (?r1\<lparr>r_value := r_value ?r1 @ [ours ! ?oj]\<rparr>)
        (drop (?s + 1) base) (drop (?oj + 1) ours) (drop (?tk + 1) theirs)
        (seq_loop key base ours theirs mo mt i j k r)"
      unfolding eq
      using "1.IH" [of ?s "(?oj, ?tk)" ?oj ?tk ?r1] True
        aligned_from_step [OF "1.prems"(1) ns(4) True nn(1)] aligned_from_step [OF "1.prems"(2) ns(4) True nn(2)]
      by (simp add: keysOf_def map_slice)
    from diff3.anchor [OF o(3) t(3) refl this]
    show ?thesis
      using slice_split [OF ns(4) True] slice_split [OF o(1,2)] slice_split [OF t(1,2)] by simp
  qed
qed

section \<open>Symmetry\<close>

text \<open>Two results that a swap of the sides may not tell apart: they differ at most in equal-keyed elements.\<close>

definition alike :: "('a \<Rightarrow> string) \<Rightarrow> 'a list merge_result \<Rightarrow> 'a list merge_result \<Rightarrow> bool" where
  "alike key r r' \<longleftrightarrow> map key (r_value r) = map key (r_value r') \<and>
     r_conflicts r = r_conflicts r' \<and> r_flagged r = r_flagged r'"

lemma alike_length: "alike key r r' \<Longrightarrow> length (r_value r) = length (r_value r')"
  unfolding alike_def by (metis length_map)

lemma resolved_swap:
  assumes "alike key r r'"
  shows "alike key (resolved key r b xs ys) (resolved key r' b ys xs)"
  using assms alike_length [OF assms] lessKeys_total [of "map key xs" "map key ys"]
  by (auto simp: alike_def resolve_def keysOf_def Let_def)

lemma alike_anchor:
  "alike key r r' \<Longrightarrow> key x = key y \<Longrightarrow>
    alike key (r\<lparr>r_value := r_value r @ [x]\<rparr>) (r'\<lparr>r_value := r_value r' @ [y]\<rparr>)"
  by (simp add: alike_def)

lemma seq_loop_swap:
  assumes "aligned_from key base ours mo i j" "aligned_from key base theirs mt i k" "i \<le> length base"
    "alike key r r'"
  shows "alike key (seq_loop key base ours theirs mo mt i j k r) (seq_loop key base theirs ours mt mo i k j r')"
  using assms
proof (induction key base ours theirs mo mt i j k r arbitrary: r' rule: seq_loop.induct)
  case (1 key base ours theirs mo mt i j k r)
  let ?s = "next_shared mo mt (length base) i"
  note ns = next_shared_spec [where mo = mo and mt = mt, OF "1.prems"(3)] next_shared_ge [of i mo mt "length base"]
  note unfold = seq_loop.simps [of key base ours theirs mo mt i j k r]
    seq_loop.simps [of key base theirs ours mt mo i k j r'] next_shared_commute [of mt mo]
  show ?case
  proof (cases "?s < length base")
    case False
    with ns(1) have s: "?s = length base" by simp
    then show ?thesis
      using resolved_swap [OF "1.prems"(4), of "drop i base" "drop j ours" "drop k theirs"]
      by (simp add: unfold s Let_def slice_to_end keysOf_def) (simp add: slice_def drop_map)
  next
    case True
    let ?oj = "nat (mo ! ?s)" and ?tk = "nat (mt ! ?s)"
    have nn: "0 \<le> mo ! ?s" "0 \<le> mt ! ?s" using ns(3) True by auto
    have keys: "key (ours ! ?oj) = key (theirs ! ?tk)"
      using "1.prems"(1,2) ns(4) True nn by (auto simp: aligned_from_def)
    have "alike key
        (resolved key r (slice i ?s base) (slice j ?oj ours) (slice k ?tk theirs))
        (resolved key r' (slice i ?s base) (slice k ?tk theirs) (slice j ?oj ours))"
      by (rule resolved_swap [OF "1.prems"(4)])
    from "1.IH" [of ?s "(?oj, ?tk)" ?oj ?tk, OF refl _ refl _ _ _ _ _ alike_anchor [OF this keys]] True
      aligned_from_step [OF "1.prems"(1) ns(4) True nn(1)] aligned_from_step [OF "1.prems"(2) ns(4) True nn(2)]
    show ?thesis by (simp add: unfold Let_def keysOf_def map_slice)
  qed
qed

lemma Sequence_alike: "alike key (Sequence base ours theirs key) (Sequence base theirs ours key)"
proof (cases "align (keysOf base key) (keysOf ours key)"; cases "align (keysOf base key) (keysOf theirs key)")
  fix mo mt
  assume "align (keysOf base key) (keysOf ours key) = Some mo" "align (keysOf base key) (keysOf theirs key) = Some mt"
  then show ?thesis
    using seq_loop_swap [OF matching_aligned matching_aligned, of base key ours mo theirs mt
        "\<lparr>r_value = [], r_conflicts = [], r_flagged = []\<rparr>" "\<lparr>r_value = [], r_conflicts = [], r_flagged = []\<rparr>"]
    by (auto simp: Sequence_def Let_def alike_def keysOf_def dest: align_sound)
qed (auto simp: Sequence_def Let_def alike_def keysOf_def)

section \<open>A clean merge keeps what both sides did\<close>

definition nothing_invented :: "('a \<Rightarrow> string) \<Rightarrow> 'a list \<Rightarrow> 'a list \<Rightarrow> 'a list \<Rightarrow> 'a list \<Rightarrow> bool" where
  "nothing_invented key b xs ys v \<longleftrightarrow>
     key ` set v \<subseteq> key ` set xs \<union> key ` set ys \<and>
     (key ` set xs \<union> key ` set ys) - key ` set b \<subseteq> key ` set v"

lemma resolved_appends:
  obtains v cs fs where "resolved key r b xs ys =
      \<lparr>r_value = r_value r @ v, r_conflicts = r_conflicts r @ cs, r_flagged = r_flagged r @ fs\<rparr>"
    and "cs = [] \<Longrightarrow> nothing_invented key b xs ys v"
proof -
  have eq: "map key a = map key c \<Longrightarrow> key ` set a = key ` set c" for a c :: "'a list"
    by (metis set_map)
  consider "map key xs = map key b" | "map key xs \<noteq> map key b" "map key ys = map key b \<or> map key xs = map key ys"
    | "b = []" "map key xs \<noteq> map key b" "map key ys \<noteq> map key b" "map key xs \<noteq> map key ys"
    | "b \<noteq> []" "map key xs \<noteq> map key b" "map key ys \<noteq> map key b" "map key xs \<noteq> map key ys" by blast
  then show ?thesis
  proof cases
    case 1
    then show ?thesis
      using that [of ys "[]" "[]"] eq [OF 1] by (cases r) (auto simp: resolve_def keysOf_def nothing_invented_def)
  next
    case 2
    then have "nothing_invented key b xs ys xs"
      using eq [of ys b] eq [of xs ys] by (auto simp: nothing_invented_def)
    with 2 show ?thesis using that [of xs "[]" "[]"] by (cases r) (simp add: resolve_def keysOf_def)
  next
    case 3
    then show ?thesis
      using that [of "if lessKeys (map key xs) (map key ys) then xs @ ys else ys @ xs" "[]"]
      by (cases r; cases "lessKeys (map key xs) (map key ys)") (auto simp: resolve_def keysOf_def nothing_invented_def Let_def)
  next
    case 4
    then show ?thesis
      using that [of b "[_]" "[]"] by (cases r) (auto simp: resolve_def keysOf_def Let_def)
  qed
qed

lemma nothing_invented_anchor:
  assumes "key x = key a" "key y = key a" "nothing_invented key b xs ys v" "nothing_invented key b' xs' ys' v'"
  shows "nothing_invented key (b @ a # b') (xs @ x # xs') (ys @ y # ys') (v @ x # v')"
  using assms unfolding nothing_invented_def by auto

lemma diff3_keeps:
  assumes "diff3 key r b xs ys r'"
  shows "\<exists>v cs fs. r' = \<lparr>r_value = r_value r @ v, r_conflicts = r_conflicts r @ cs, r_flagged = r_flagged r @ fs\<rparr> \<and>
     (cs = [] \<longrightarrow> nothing_invented key b xs ys v)"
  using assms
proof (induction rule: diff3.induct)
  case (stretch r b xs ys)
  then show ?case by (rule resolved_appends [where key = key and r = r and b = b and xs = xs and ys = ys]) blast
next
  case (anchor x a y r1 r b xs ys bs xs' ys' r')
  obtain v cs fs where 1: "r1 = \<lparr>r_value = r_value r @ v, r_conflicts = r_conflicts r @ cs, r_flagged = r_flagged r @ fs\<rparr>"
    and clean: "cs = [] \<Longrightarrow> nothing_invented key b xs ys v"
    unfolding anchor.hyps(3) by (rule resolved_appends [where key = key and r = r and b = b and xs = xs and ys = ys]) blast
  from anchor.IH obtain v' cs' fs' where
    2: "r' = \<lparr>r_value = (r_value r1 @ [x]) @ v', r_conflicts = r_conflicts r1 @ cs', r_flagged = r_flagged r1 @ fs'\<rparr>"
    and clean': "cs' = [] \<longrightarrow> nothing_invented key bs xs' ys' v'" by auto
  show ?case
    using 1 2 clean clean' nothing_invented_anchor [of key x a y, OF anchor.hyps(1,2)]
    by (intro exI [of _ "v @ x # v'"] exI [of _ "cs @ cs'"] exI [of _ "fs @ fs'"]) auto
qed

lemma Sequence_keeps:
  assumes "Clean (Sequence base ours theirs key)"
  shows "nothing_invented key base ours theirs (r_value (Sequence base ours theirs key))"
proof -
  let ?r0 = "\<lparr>r_value = [], r_conflicts = [], r_flagged = []\<rparr> :: 'a list merge_result"
  have eq: "map key a = map key c \<Longrightarrow> key ` set a = key ` set c" for a c :: "'a list"
    by (metis set_map)
  consider "map key theirs = map key base \<or> map key ours = map key theirs \<or> map key ours = map key base"
    | mo mt where "align (keysOf base key) (keysOf ours key) = Some mo"
        "align (keysOf base key) (keysOf theirs key) = Some mt"
        "Sequence base ours theirs key = seq_loop key base ours theirs mo mt 0 0 0 ?r0"
    using assms by (auto simp: Sequence_def Let_def keysOf_def Clean_def split: option.splits if_splits)
  then show ?thesis
  proof cases
    case 1
    then show ?thesis using eq [of theirs base] eq [of ours theirs] eq [of ours base]
      by (auto simp: Sequence_def Let_def keysOf_def nothing_invented_def)
  next
    case 2
    have "diff3 key ?r0 base ours theirs (seq_loop key base ours theirs mo mt 0 0 0 ?r0)"
      using seq_loop_diff3 [of key base ours mo 0 0 theirs mt 0 ?r0]
        matching_aligned [OF align_sound [OF 2(1)]] matching_aligned [OF align_sound [OF 2(2)]] by simp
    from diff3_keeps [OF this] assms show ?thesis unfolding 2(3) by (auto simp: Clean_def)
  qed
qed


section \<open>The policy contract\<close>

lemma Sequence_ours_unchanged:
  assumes "map key ours = map key base"
  shows "Clean (Sequence base ours theirs key) \<and>
    map key (r_value (Sequence base ours theirs key)) = map key theirs"
  using assms by (auto simp: Sequence_def Let_def keysOf_def Clean_def)

text \<open>On lists of keys themselves the merge meets the contract every policy has.\<close>

interpretation sequence: merge_policy "\<lambda>b x y. Sequence b x y (\<lambda>k. k)" "\<lambda>_. True"
proof unfold_locales
  fix b x y :: "string list"
  show "Sequence b x y (\<lambda>k. k) = Sequence b y x (\<lambda>k. k)"
    using Sequence_alike [of "\<lambda>k. k" b x y] by (simp add: alike_def)
  show "Clean (Sequence b b y (\<lambda>k. k)) \<and> r_value (Sequence b b y (\<lambda>k. k)) = y"
    using Sequence_ours_unchanged [of "\<lambda>k. k" b b y] by simp
qed

section \<open>Properties\<close>

text \<open>
  C25. The merge of two sides of an ordered list does not depend on which side is "ours": with
  the sides swapped the result holds the same keys in the same order, and the same conflicts and
  flags at the same positions, whatever the lists, including past the edit limit.
\<close>

theorem Sequence_symmetric:
  "map key (r_value (Sequence base ours theirs key)) = map key (r_value (Sequence base theirs ours key)) \<and>
   r_conflicts (Sequence base ours theirs key) = r_conflicts (Sequence base theirs ours key) \<and>
   r_flagged (Sequence base ours theirs key) = r_flagged (Sequence base theirs ours key)"
  using Sequence_alike [of key base ours theirs] by (simp add: alike_def)


lemma Sequence_example:
  "Sequence [''a'', ''b''] [''a'', ''x'', ''b''] [''y'', ''a'', ''b''] (\<lambda>k. k) =
     \<lparr>r_value = [''y'', ''a'', ''x'', ''b''], r_conflicts = [], r_flagged = []\<rparr>"
  by code_simp


text \<open>
  A side that left the list as the base had it yields to the other side whole, with no
  conflict, however far the other side went: the edit limit never applies to a one-sided change.
\<close>

theorem Sequence_unchanged_yields:
  assumes "map key ours = map key base"
  shows "Clean (Sequence base ours theirs key) \<and>
    map key (r_value (Sequence base ours theirs key)) = map key theirs \<and>
    Clean (Sequence base theirs ours key) \<and>
    map key (r_value (Sequence base theirs ours key)) = map key theirs"
  using Sequence_ours_unchanged [OF assms, of theirs] Sequence_alike [of key base ours theirs]
  by (auto simp: alike_def Clean_def)

theorem Sequence_unchanged_yields_witness:
  "map (\<lambda>k. k) (r_value (Sequence [''a''] [''a''] [''b'', ''c''] (\<lambda>k. k))) = [''b'', ''c'']"
  using Sequence_unchanged_yields [of "\<lambda>k. k" "[''a'']" "[''a'']" "[''b'', ''c'']"] by simp

section \<open>Elements come from the lists merged\<close>

lemma diff3_elements:
  assumes "diff3 key r b xs ys r'"
  shows "set (r_value r') \<subseteq> set (r_value r) \<union> set b \<union> set xs \<union> set ys"
  using assms
proof (induction rule: diff3.induct)
  case (stretch r b xs ys)
  then show ?case by (auto simp: resolve_def Let_def split: if_splits)
next
  case (anchor x a y r1 r b xs ys bs xs' ys' r')
  have "set (r_value r1) \<subseteq> set (r_value r) \<union> set b \<union> set xs \<union> set ys"
    unfolding anchor.hyps(3) by (auto simp: resolve_def Let_def split: if_splits)
  with anchor.IH show ?case by auto
qed

lemma Sequence_cases:
  obtains (trivial) "Sequence base ours theirs key \<in> {\<lparr>r_value = ours, r_conflicts = [], r_flagged = []\<rparr>,
      \<lparr>r_value = theirs, r_conflicts = [], r_flagged = []\<rparr>}"
  | (too_far) c where "Sequence base ours theirs key = \<lparr>r_value = base, r_conflicts = [c], r_flagged = []\<rparr>"
  | (aligned) "diff3 key \<lparr>r_value = [], r_conflicts = [], r_flagged = []\<rparr> base ours theirs (Sequence base ours theirs key)"
proof -
  let ?r0 = "\<lparr>r_value = [], r_conflicts = [], r_flagged = []\<rparr> :: 'a list merge_result"
  let ?mo = "align (keysOf base key) (keysOf ours key)" and ?mt = "align (keysOf base key) (keysOf theirs key)"
  have d: "diff3 key ?r0 base ours theirs (seq_loop key base ours theirs mo mt 0 0 0 ?r0)"
    if "?mo = Some mo" "?mt = Some mt" for mo mt
    using seq_loop_diff3 [of key base ours mo 0 0 theirs mt 0 ?r0]
      matching_aligned [OF align_sound [OF that(1)]] matching_aligned [OF align_sound [OF that(2)]] by simp
  have none: "?mo = None \<or> ?mt = None \<Longrightarrow> Sequence base ours theirs key \<in>
      {\<lparr>r_value = ours, r_conflicts = [], r_flagged = []\<rparr>, \<lparr>r_value = theirs, r_conflicts = [], r_flagged = []\<rparr>} \<or>
      (\<exists>c. Sequence base ours theirs key = \<lparr>r_value = base, r_conflicts = [c], r_flagged = []\<rparr>)"
    by (auto simp: Sequence_def Let_def split: option.splits)
  have some: "?mo = Some mo \<Longrightarrow> ?mt = Some mt \<Longrightarrow> Sequence base ours theirs key \<in>
      {\<lparr>r_value = ours, r_conflicts = [], r_flagged = []\<rparr>, \<lparr>r_value = theirs, r_conflicts = [], r_flagged = []\<rparr>,
       seq_loop key base ours theirs mo mt 0 0 0 ?r0}" for mo mt
    by (simp add: Sequence_def Let_def)
  show ?thesis
    using none some d trivial too_far aligned by (cases ?mo; cases ?mt) (simp, metis insertE singletonD insertI1)+
qed

lemma Sequence_elements:
  "set (r_value (Sequence base ours theirs key)) \<subseteq> set base \<union> set ours \<union> set theirs"
proof (cases rule: Sequence_cases [of base ours theirs key])
  case aligned
  from diff3_elements [OF this] show ?thesis by simp
qed auto

end
