(* ===== verification/Go_Text.thy ===== *)
theory Go_Text
  imports Prelude
begin

text \<open>
  What the program uses of Go's text packages: \<open>unicode/utf8\<close> (\<open>DecodeRune\<close>,
  \<open>AppendRune\<close>/\<open>WriteRune\<close>, \<open>Valid\<close>, \<open>RuneCount\<close>), \<open>strconv\<close>
  (\<open>Quote\<close>, \<open>ParseInt\<close>, \<open>FormatInt\<close>). The one thing that stays a parameter
  is \<open>isprint\<close>, the Unicode table behind \<open>strconv.IsPrint\<close>; every fact holds
  for any table. Runes are code points, \<open>nat\<close>.
\<close>

section \<open>UTF-8\<close>

abbreviation bval :: "char \<Rightarrow> nat" where
  "bval c \<equiv> of_char c"

abbreviation byte_of :: "nat \<Rightarrow> char" where
  "byte_of n \<equiv> char_of n"

lemma bval_less [simp]: "bval c < 256"
  using range_nat_of_char by auto

definition RuneError :: nat where
  "RuneError = 0xFFFD"

text \<open>The size of the encoding a first byte starts and the range of its second byte; None for a byte that starts none.\<close>

definition utf8_first :: "nat \<Rightarrow> (nat \<times> nat \<times> nat) option" where
  "utf8_first b =
     (if 0xC2 \<le> b \<and> b \<le> 0xDF then Some (2, 0x80, 0xBF)
      else if b = 0xE0 then Some (3, 0xA0, 0xBF)
      else if b = 0xED then Some (3, 0x80, 0x9F)
      else if 0xE1 \<le> b \<and> b \<le> 0xEF then Some (3, 0x80, 0xBF)
      else if b = 0xF0 then Some (4, 0x90, 0xBF)
      else if 0xF1 \<le> b \<and> b \<le> 0xF3 then Some (4, 0x80, 0xBF)
      else if b = 0xF4 then Some (4, 0x80, 0x8F)
      else None)"

definition continuation :: "nat \<Rightarrow> bool" where
  "continuation b \<longleftrightarrow> 0x80 \<le> b \<and> b \<le> 0xBF"

text \<open>The rune at the head of a text and its width; \<open>(RuneError, 1)\<close> for a byte that is not part of an encoding.\<close>

fun DecodeRune :: "bytes \<Rightarrow> nat \<times> nat" where
  "DecodeRune [] = (RuneError, 0)"
| "DecodeRune (c0 # s) =
     (if bval c0 < 0x80 then (bval c0, 1)
      else case utf8_first (bval c0) of
        None \<Rightarrow> (RuneError, 1)
      | Some (sz, lo, hi) \<Rightarrow>
         (case s of
            [] \<Rightarrow> (RuneError, 1)
          | c1 # s1 \<Rightarrow>
             if \<not> (lo \<le> bval c1 \<and> bval c1 \<le> hi) then (RuneError, 1)
             else if sz = 2 then (bval c0 mod 32 * 64 + bval c1 mod 64, 2)
             else (case s1 of
                [] \<Rightarrow> (RuneError, 1)
              | c2 # s2 \<Rightarrow>
                 if \<not> continuation (bval c2) then (RuneError, 1)
                 else if sz = 3 then (bval c0 mod 16 * 4096 + bval c1 mod 64 * 64 + bval c2 mod 64, 3)
                 else (case s2 of
                    [] \<Rightarrow> (RuneError, 1)
                  | c3 # s3 \<Rightarrow>
                     if \<not> continuation (bval c3) then (RuneError, 1)
                     else (bval c0 mod 8 * 262144 + bval c1 mod 64 * 4096 + bval c2 mod 64 * 64 + bval c3 mod 64, 4)))))"

definition ValidRune :: "nat \<Rightarrow> bool" where
  "ValidRune r \<longleftrightarrow> r < 0xD800 \<or> (0xDFFF < r \<and> r \<le> 0x10FFFF)"

definition EncodeRune :: "nat \<Rightarrow> bytes" where
  "EncodeRune r0 =
     (let r = if ValidRune r0 then r0 else RuneError in
      if r < 0x80 then [byte_of r]
      else if r < 0x800 then [byte_of (0xC0 + r div 64), byte_of (0x80 + r mod 64)]
      else if r < 0x10000 then
        [byte_of (0xE0 + r div 4096), byte_of (0x80 + r div 64 mod 64), byte_of (0x80 + r mod 64)]
      else
        [byte_of (0xF0 + r div 262144), byte_of (0x80 + r div 4096 mod 64),
         byte_of (0x80 + r div 64 mod 64), byte_of (0x80 + r mod 64)])"

text \<open>A decoded rune that is an encoding, and not the one byte of an invalid text.\<close>

definition decoded :: "bytes \<Rightarrow> bool" where
  "decoded s \<longleftrightarrow> s \<noteq> [] \<and> DecodeRune s \<noteq> (RuneError, 1)"

lemma DecodeRune_width: "s \<noteq> [] \<Longrightarrow> 0 < snd (DecodeRune s) \<and> snd (DecodeRune s) \<le> length s"
  by (cases s rule: DecodeRune.cases) (auto simp: Let_def split: option.splits list.splits)

lemma char_of_eqI: "n = bval c \<Longrightarrow> byte_of n = c"
  by simp

lemma bval_byte_of: "n < 256 \<Longrightarrow> bval (byte_of n) = n"
  by simp

lemma mod_window:
  fixes n :: nat
  assumes "k * m \<le> n" "n < k * m + m"
  shows "n mod m = n - k * m"
proof -
  obtain d where "n = k * m + d" using assms(1) by (metis le_iff_add)
  with assms(2) show ?thesis by simp
qed

text \<open>The three shapes of a first byte and the shape of a continuation byte, by their payload bits.\<close>

lemma continuation_payload:
  assumes "continuation (bval c)"
  obtains d where "d < 64" "c = byte_of (0x80 + d)" "bval c mod 64 = d" "bval c = 0x80 + d"
  using assms that [of "bval c - 0x80"] mod_window [of 2 64 "bval c"] by (simp add: continuation_def)

lemma first_payload:
  assumes "lead * m \<le> bval c" "bval c < lead * m + m"
  obtains d where "d < m" "bval c = lead * m + d" "bval c mod m = d" "c = byte_of (lead * m + d)"
proof -
  obtain d where d: "bval c = lead * m + d" using assms(1) by (metis le_iff_add)
  with assms(2) have "d < m" "bval c mod m = d" by simp_all
  then show ?thesis using that [of d] d char_of_eqI [of "lead * m + d" c] by metis
qed

lemma decoded_cases:
  assumes "decoded s"
  obtains (one) c s' where "s = c # s'" "bval c < 0x80" "DecodeRune s = (bval c, 1)"
  | (two) a b s' where "s = byte_of (0xC0 + a) # byte_of (0x80 + b) # s'" "2 \<le> a" "a < 32" "b < 64"
      "DecodeRune s = (a * 64 + b, 2)"
  | (three) a b c s' where "s = byte_of (0xE0 + a) # byte_of (0x80 + b) # byte_of (0x80 + c) # s'" "a < 16"
      "b < 64" "a = 0 \<longrightarrow> 32 \<le> b" "a = 13 \<longrightarrow> b < 32" "c < 64"
      "DecodeRune s = ((a * 64 + b) * 64 + c, 3)"
  | (four) a b c d s' where
      "s = byte_of (0xF0 + a) # byte_of (0x80 + b) # byte_of (0x80 + c) # byte_of (0x80 + d) # s'" "a < 5"
      "b < 64" "a = 0 \<longrightarrow> 16 \<le> b" "a = 4 \<longrightarrow> b < 16" "c < 64" "d < 64"
      "DecodeRune s = (((a * 64 + b) * 64 + c) * 64 + d, 4)"
proof -
  obtain c0 t where s: "s = c0 # t" using assms by (cases s) (auto simp: decoded_def)
  show ?thesis
  proof (cases "bval c0 < 0x80")
    case True
    then show ?thesis using one [OF s] s by simp
  next
    case False
    with assms s obtain sz lo hi where f: "utf8_first (bval c0) = Some (sz, lo, hi)"
      by (auto simp: decoded_def split: option.splits)
    with assms s False obtain c1 t1 where t: "t = c1 # t1" and c1: "lo \<le> bval c1" "bval c1 \<le> hi"
      by (cases t) (auto simp: decoded_def split: if_splits)
    have "continuation (bval c1)" using f c1 by (auto simp: utf8_first_def continuation_def split: if_splits)
    then obtain b where b: "b < 64" "c1 = byte_of (0x80 + b)" "bval c1 mod 64 = b" "bval c1 = 0x80 + b"
      by (rule continuation_payload)
    consider "sz = 2" | "sz = 3" | "sz = 4" using f by (auto simp: utf8_first_def split: if_splits)
    then show ?thesis
    proof cases
      case 1
      with f have r: "6 * 32 \<le> bval c0" "bval c0 < 6 * 32 + 32" and lo: "0xC2 \<le> bval c0"
        by (auto simp: utf8_first_def split: if_splits)
      obtain a where "a < 32" "bval c0 = 6 * 32 + a" "bval c0 mod 32 = a" "c0 = byte_of (6 * 32 + a)"
        by (rule first_payload [OF r])
      with 1 f c1 b False lo show ?thesis using two [of a b t1] s t by simp
    next
      case 2
      with assms s t f False c1 obtain c2 t2 where t1: "t1 = c2 # t2" and k2: "continuation (bval c2)"
        by (cases t1) (auto simp: decoded_def split: if_splits)
      obtain c where c: "c < 64" "c2 = byte_of (0x80 + c)" "bval c2 mod 64 = c" using k2 by (rule continuation_payload)
      from 2 f have r: "14 * 16 \<le> bval c0" "bval c0 < 14 * 16 + 16" by (auto simp: utf8_first_def split: if_splits)
      obtain a where "a < 16" "bval c0 = 14 * 16 + a" "bval c0 mod 16 = a" "c0 = byte_of (14 * 16 + a)"
        by (rule first_payload [OF r])
      moreover have "a = 0 \<longrightarrow> 32 \<le> b" "a = 13 \<longrightarrow> b < 32"
        using calculation f c1 b by (auto simp: utf8_first_def)
      ultimately show ?thesis using three [of a b c t2] 2 f c1 b c False k2 s t t1 by simp
    next
      case 3
      with assms s t f False c1 obtain c2 t2 where t1: "t1 = c2 # t2" and k2: "continuation (bval c2)"
        by (cases t1) (auto simp: decoded_def split: if_splits)
      with 3 assms s t f False c1 obtain c3 t3 where t2: "t2 = c3 # t3" and k3: "continuation (bval c3)"
        by (cases t2) (auto simp: decoded_def split: if_splits)
      obtain c where c: "c < 64" "c2 = byte_of (0x80 + c)" "bval c2 mod 64 = c" using k2 by (rule continuation_payload)
      obtain d where d: "d < 64" "c3 = byte_of (0x80 + d)" "bval c3 mod 64 = d" using k3 by (rule continuation_payload)
      from 3 f have r: "30 * 8 \<le> bval c0" "bval c0 < 30 * 8 + 8" "bval c0 \<le> 0xF4"
        by (auto simp: utf8_first_def split: if_splits)
      obtain a where "a < 8" "bval c0 = 30 * 8 + a" "bval c0 mod 8 = a" "c0 = byte_of (30 * 8 + a)"
        by (rule first_payload [OF r(1,2)])
      moreover have "a = 0 \<longrightarrow> 16 \<le> b" "a = 4 \<longrightarrow> b < 16" "a < 5"
        using calculation f c1 b r(3) by (auto simp: utf8_first_def)
      ultimately show ?thesis using four [of a b c d t3] 3 f c1 b c d False k2 k3 s t t1 t2 by simp
    qed
  qed
qed

declare DecodeRune.simps [simp del]

lemma ValidRune_three:
  assumes "a < 16" "b < 64" "a = 13 \<longrightarrow> b < 32" "c < 64"
  shows "ValidRune ((a * 64 + b) * 64 + c)"
proof -
  consider "a \<le> 12" | "a = 13" | "14 \<le> a" by linarith
  then show ?thesis using assms by cases (auto simp: ValidRune_def)
qed

lemma decoded_ValidRune:
  assumes "decoded s"
  shows "ValidRune (fst (DecodeRune s))"
  using assms
proof (cases s rule: decoded_cases)
  case three
  then show ?thesis using ValidRune_three by simp
qed (auto simp: ValidRune_def)

lemma two_digits [simp]:
  "(d :: nat) < 64 \<Longrightarrow> (a * 64 + d) div 64 = a" "(d :: nat) < 64 \<Longrightarrow> (a * 64 + d) mod 64 = d"
  by simp_all

lemma div_64_twice: "(r :: nat) div 4096 = r div 64 div 64" "(r :: nat) div 262144 = r div 64 div 64 div 64"
  by (simp_all flip: div_mult2_eq)

lemma EncodeRune_DecodeRune:
  assumes "decoded s"
  shows "EncodeRune (fst (DecodeRune s)) = take (snd (DecodeRune s)) s"
  using assms
proof (cases s rule: decoded_cases)
  case (one c s')
  then show ?thesis by (simp add: EncodeRune_def ValidRune_def)
next
  case (two a b s')
  then show ?thesis by (simp add: EncodeRune_def ValidRune_def)
next
  case (three a b c s')
  define r where "r = (a * 64 + b) * 64 + c"
  have d: "r mod 64 = c" "r div 64 mod 64 = b" "r div 4096 = a"
    using three(3,6) by (simp_all only: r_def div_64_twice two_digits)
  have v: "ValidRune r" "\<not> r < 0x800" "r < 0x10000"
    using three ValidRune_three [of a b c] by (auto simp: r_def)
  have "DecodeRune s = (r, 3)" using three(7) by (simp only: r_def)
  with d v three(1) show ?thesis by (simp add: EncodeRune_def)
next
  case (four a b c d s')
  define r where "r = ((a * 64 + b) * 64 + c) * 64 + d"
  have d: "r mod 64 = d" "r div 64 mod 64 = c" "r div 4096 mod 64 = b" "r div 262144 = a"
    using four(3,6,7) by (simp_all only: r_def div_64_twice two_digits)
  have v: "ValidRune r" "\<not> r < 0x10000" using four by (auto simp: r_def ValidRune_def)
  have "DecodeRune s = (r, 4)" using four(8) by (simp only: r_def)
  with d v four(1) show ?thesis by (simp add: EncodeRune_def)
qed

lemma utf8_first_values:
  "2 \<le> a \<Longrightarrow> a < 32 \<Longrightarrow> utf8_first (0xC0 + a) = Some (2, 0x80, 0xBF)"
  "a < 16 \<Longrightarrow> utf8_first (0xE0 + a) = Some (3, if a = 0 then 0xA0 else 0x80, if a = 13 then 0x9F else 0xBF)"
  "a < 5 \<Longrightarrow> utf8_first (0xF0 + a) = Some (4, if a = 0 then 0x90 else 0x80, if a = 4 then 0x8F else 0xBF)"
  by (auto simp: utf8_first_def)

lemma payload_mod:
  "a < 32 \<Longrightarrow> (0xC0 + a) mod 32 = (a :: nat)" "a < 16 \<Longrightarrow> (0xE0 + a) mod 16 = (a :: nat)"
  "a < 8 \<Longrightarrow> (0xF0 + a) mod 8 = (a :: nat)" "a < 64 \<Longrightarrow> (0x80 + a) mod 64 = (a :: nat)"
  using mod_window [of 6 32 "0xC0 + a"] mod_window [of 14 16 "0xE0 + a"] mod_window [of 30 8 "0xF0 + a"]
    mod_window [of 2 64 "0x80 + a"] by simp_all

lemma DecodeRune_EncodeRune:
  assumes "ValidRune r"
  shows "DecodeRune (EncodeRune r @ t) = (r, length (EncodeRune r))"
proof -
  consider "r < 0x80" | "0x80 \<le> r" "r < 0x800" | "0x800 \<le> r" "r < 0x10000" | "0x10000 \<le> r" by linarith
  then show ?thesis
  proof cases
    case 1
    then show ?thesis using assms by (simp add: EncodeRune_def DecodeRune.simps)
  next
    case 2
    then have "2 \<le> r div 64" "r div 64 < 32" by auto
    then show ?thesis using assms 2 
      by (simp add: EncodeRune_def DecodeRune.simps utf8_first_values payload_mod bval_byte_of del: of_char_of)
  next
    case 3
    define a b c where "a = r div 64 div 64" and "b = r div 64 mod 64" and "c = r mod 64"
    have r: "r = (a * 64 + b) * 64 + c" unfolding a_def b_def c_def by (simp only: div_mult_mod_eq)
    have e: "EncodeRune r = [byte_of (0xE0 + a), byte_of (0x80 + b), byte_of (0x80 + c)]"
      using assms 3 unfolding EncodeRune_def a_def b_def c_def by (simp add: div_64_twice)
    have "b < 64" "c < 64" by (simp_all add: b_def c_def)
    with r 3 assms have v: "a < 16" "b < 64" "c < 64" "a = 0 \<longrightarrow> 32 \<le> b" "a = 13 \<longrightarrow> b < 32"
      unfolding ValidRune_def by auto
    then have "DecodeRune (EncodeRune r @ t) = (a * 4096 + b * 64 + c, 3)"
      unfolding e by (auto simp: DecodeRune.simps utf8_first_values payload_mod continuation_def)
    moreover have "length (EncodeRune r) = 3" by (simp add: e)
    ultimately show ?thesis using r by simp
  next
    case 4
    define a b c f where "a = r div 64 div 64 div 64" and "b = r div 64 div 64 mod 64"
      and "c = r div 64 mod 64" and "f = r mod 64"
    have r: "r = ((a * 64 + b) * 64 + c) * 64 + f" unfolding a_def b_def c_def f_def by (simp only: div_mult_mod_eq)
    have e: "EncodeRune r = [byte_of (0xF0 + a), byte_of (0x80 + b), byte_of (0x80 + c), byte_of (0x80 + f)]"
      using assms 4 unfolding EncodeRune_def a_def b_def c_def f_def by (simp add: div_64_twice)
    have "b < 64" "c < 64" "f < 64" by (simp_all add: b_def c_def f_def)
    with r 4 assms have v: "a < 5" "b < 64" "c < 64" "f < 64" "a = 0 \<longrightarrow> 16 \<le> b" "a = 4 \<longrightarrow> b < 16"
      unfolding ValidRune_def by auto
    then have "DecodeRune (EncodeRune r @ t) = (a * 262144 + b * 4096 + c * 64 + f, 4)"
      unfolding e by (auto simp: DecodeRune.simps utf8_first_values payload_mod continuation_def)
    moreover have "length (EncodeRune r) = 4" by (simp add: e)
    ultimately show ?thesis using r by simp
  qed
qed


section \<open>Whole texts\<close>

lemma width_decreases: "length (drop (snd (DecodeRune (c # s))) (c # s)) < length (c # s)"
  using DecodeRune_width [of "c # s"] by simp

function Valid :: "bytes \<Rightarrow> bool" where
  "Valid [] = True"
| "Valid (c # s) \<longleftrightarrow> decoded (c # s) \<and> Valid (drop (snd (DecodeRune (c # s))) (c # s))"
  by pat_completeness auto
termination
  by (relation "measure length") (use width_decreases in auto)

function RuneCount :: "bytes \<Rightarrow> nat" where
  "RuneCount [] = 0"
| "RuneCount (c # s) = 1 + RuneCount (drop (snd (DecodeRune (c # s))) (c # s))"
  by pat_completeness auto
termination
  by (relation "measure length") (use width_decreases in auto)

declare Valid.simps(2) [simp del] RuneCount.simps(2) [simp del]

lemma Valid_unfold: "s \<noteq> [] \<Longrightarrow> Valid s \<longleftrightarrow> decoded s \<and> Valid (drop (snd (DecodeRune s)) s)"
  by (cases s) (simp_all add: Valid.simps(2))

lemma EncodeRune_nonempty [simp]: "EncodeRune r \<noteq> []"
  by (simp add: EncodeRune_def Let_def)

lemma decoded_EncodeRune: "ValidRune r \<Longrightarrow> decoded (EncodeRune r @ t)"
proof -
  have "length (EncodeRune RuneError) = 3" by (simp add: EncodeRune_def RuneError_def ValidRune_def)
  then show "ValidRune r \<Longrightarrow> decoded (EncodeRune r @ t)"
    by (auto simp: decoded_def DecodeRune_EncodeRune)
qed

lemma Valid_EncodeRune: "ValidRune r \<Longrightarrow> Valid (EncodeRune r @ t) = Valid t"
  by (simp add: Valid_unfold decoded_EncodeRune DecodeRune_EncodeRune)

text \<open>A valid text is a sequence of encoded runes, and every such sequence is valid.\<close>

lemma Valid_induct [consumes 1, case_names Nil Rune]:
  assumes "Valid s" "P []" "\<And>r t. ValidRune r \<Longrightarrow> Valid t \<Longrightarrow> P t \<Longrightarrow> P (EncodeRune r @ t)"
  shows "P s"
  using assms(1)
proof (induction s rule: Valid.induct)
  case (2 c s)
  let ?w = "snd (DecodeRune (c # s))"
  from 2 have d: "decoded (c # s)" and t: "Valid (drop ?w (c # s))" "P (drop ?w (c # s))"
    by (simp_all add: Valid.simps(2))
  have "c # s = EncodeRune (fst (DecodeRune (c # s))) @ drop ?w (c # s)"
    by (simp only: EncodeRune_DecodeRune [OF d] append_take_drop_id)
  then show ?case using assms(3) [OF decoded_ValidRune [OF d] t] by simp
qed (rule assms(2))

lemma Valid_append: "Valid s \<Longrightarrow> Valid (s @ t) = Valid t"
  by (induction s rule: Valid_induct) (simp_all add: Valid_EncodeRune)

lemma Valid_ascii: "bval c < 0x80 \<Longrightarrow> Valid (c # s) = Valid s"
  using Valid_EncodeRune [of "bval c" s] by (simp add: ValidRune_def EncodeRune_def)


section \<open>Decimal integers\<close>

definition is_digit :: "char \<Rightarrow> bool" where
  "is_digit c \<longleftrightarrow> CHR ''0'' \<le> c \<and> c \<le> CHR ''9''"

definition digits_val :: "string \<Rightarrow> nat" where
  "digits_val s = foldl (\<lambda>n c. n * 10 + (bval c - 48)) 0 s"

text \<open>\<open>strconv.ParseInt(s, 10, 64)\<close>, None for \<open>ErrSyntax\<close> and \<open>ErrRange\<close>.\<close>

definition ParseInt :: "string \<Rightarrow> int64 option" where
  "ParseInt s0 =
     (let neg = (s0 \<noteq> [] \<and> hd s0 = CHR ''-'');
          s = (if s0 \<noteq> [] \<and> (hd s0 = CHR ''-'' \<or> hd s0 = CHR ''+'') then tl s0 else s0);
          v = digits_val s in
      if s = [] \<or> \<not> list_all is_digit s then None
      else if neg then (if v \<le> 2 ^ 63 then Some (word_of_int (- int v)) else None)
      else (if v < 2 ^ 63 then Some (word_of_int (int v)) else None))"

definition FormatInt :: "int64 \<Rightarrow> string" where
  "FormatInt i = (if sint i < 0 then CHR ''-'' # itoa (nat (- sint i)) else itoa (nat (sint i)))"

lemma is_digit_iff: "is_digit c \<longleftrightarrow> 48 \<le> bval c \<and> bval c \<le> 57"
  by (simp add: is_digit_def less_eq_char_def)

lemma is_digit_digit_char: "d < 10 \<Longrightarrow> is_digit (digit_char d)"
  by (simp add: is_digit_iff digit_char_def)

lemma itoa_digits: "list_all is_digit (itoa n)"
proof (induction n rule: itoa.induct)
  case (1 n)
  then show ?case by (subst itoa.simps) (simp add: is_digit_digit_char)
qed

lemma digits_val_itoa: "digits_val (itoa n) = n"
proof (induction n rule: itoa.induct)
  case (1 n)
  then show ?case by (subst itoa.simps) (auto simp: digits_val_def digit_char_def)
qed

lemma itoa_hd: "is_digit (hd (itoa n))"
  using itoa_digits [of n] itoa_nonempty [of n] by (cases "itoa n") auto

lemma ParseInt_FormatInt: "ParseInt (FormatInt i) = Some i"
proof -
  have sign: "hd (itoa n) \<noteq> CHR ''-''" "hd (itoa n) \<noteq> CHR ''+''" for n
    using itoa_hd [of n] by (auto simp: is_digit_def less_eq_char_def)
  have "- (2 ^ 63) \<le> sint i" "sint i < 2 ^ 63"
    using sint_ge [of i] sint_less [of i] by simp_all
  then show ?thesis
    by (auto simp: ParseInt_def FormatInt_def Let_def sign itoa_nonempty itoa_digits digits_val_itoa)
qed

section \<open>Quoted strings\<close>

definition hex_digit :: "nat \<Rightarrow> char" where
  "hex_digit d = (if d < 10 then byte_of (48 + d) else byte_of (87 + d))"

definition hex_val :: "char \<Rightarrow> nat" where
  "hex_val c = (if bval c < 58 then bval c - 48 else bval c - 87)"

text \<open>\<open>n\<close> as \<open>w\<close> hexadecimal digits, the lowest \<open>4 * w\<close> bits.\<close>

fun hex :: "nat \<Rightarrow> nat \<Rightarrow> string" where
  "hex 0 n = []"
| "hex (Suc w) n = hex w (n div 16) @ [hex_digit (n mod 16)]"

definition hex_read :: "string \<Rightarrow> nat" where
  "hex_read s = foldl (\<lambda>n c. n * 16 + hex_val c) 0 s"

definition appendEscapedRune :: "(nat \<Rightarrow> bool) \<Rightarrow> nat \<Rightarrow> string" where
  "appendEscapedRune isprint r =
     (if r = 0x22 \<or> r = 0x5C then [CHR 0x5C, byte_of r]
      else if isprint r then EncodeRune r
      else if r = 7 then [CHR 0x5C, CHR ''a''] else if r = 8 then [CHR 0x5C, CHR ''b'']
      else if r = 12 then [CHR 0x5C, CHR ''f''] else if r = 10 then [CHR 0x5C, CHR ''n'']
      else if r = 13 then [CHR 0x5C, CHR ''r''] else if r = 9 then [CHR 0x5C, CHR ''t'']
      else if r = 11 then [CHR 0x5C, CHR ''v'']
      else if r < 0x20 \<or> r = 0x7F then [CHR 0x5C, CHR ''x''] @ hex 2 r
      else if \<not> ValidRune r then [CHR 0x5C, CHR ''u''] @ hex 4 RuneError
      else if r < 0x10000 then [CHR 0x5C, CHR ''u''] @ hex 4 r
      else [CHR 0x5C, CHR ''U''] @ hex 8 r)"

definition quote_piece :: "(nat \<Rightarrow> bool) \<Rightarrow> string \<Rightarrow> string" where
  "quote_piece isprint s =
     (if DecodeRune s = (RuneError, 1) then [CHR 0x5C, CHR ''x''] @ hex 2 (bval (hd s))
      else appendEscapedRune isprint (fst (DecodeRune s)))"

function quote_body :: "(nat \<Rightarrow> bool) \<Rightarrow> string \<Rightarrow> string" where
  "quote_body isprint [] = []"
| "quote_body isprint (c # s) =
     quote_piece isprint (c # s) @ quote_body isprint (drop (snd (DecodeRune (c # s))) (c # s))"
  by pat_completeness auto
termination
  by (relation "measure (length \<circ> snd)") (use width_decreases in auto)

declare quote_body.simps(2) [simp del]

definition Quote :: "(nat \<Rightarrow> bool) \<Rightarrow> string \<Rightarrow> string" where
  "Quote isprint s = CHR 0x22 # quote_body isprint s @ [CHR 0x22]"

text \<open>Reading one piece back: the bytes it stands for and what follows it.\<close>

definition read_escape :: "string \<Rightarrow> string \<times> string" where
  "read_escape t = (case t of [] \<Rightarrow> ([], []) | e # u \<Rightarrow>
     if e = CHR ''x'' then ([byte_of (hex_read (take 2 u))], drop 2 u)
     else if e = CHR ''u'' then (EncodeRune (hex_read (take 4 u)), drop 4 u)
     else if e = CHR ''U'' then (EncodeRune (hex_read (take 8 u)), drop 8 u)
     else ([if e = CHR ''a'' then byte_of 7 else if e = CHR ''b'' then byte_of 8 else if e = CHR ''f'' then byte_of 12
       else if e = CHR ''n'' then byte_of 10 else if e = CHR ''r'' then byte_of 13 else if e = CHR ''t'' then byte_of 9
       else if e = CHR ''v'' then byte_of 11 else e], u))"

definition read_piece :: "string \<Rightarrow> string \<times> string" where
  "read_piece s = (if hd s = CHR 0x5C then read_escape (tl s)
     else (take (snd (DecodeRune s)) s, drop (snd (DecodeRune s)) s))"

lemma hex_val_hex_digit [simp]: "d < 16 \<Longrightarrow> hex_val (hex_digit d) = d"
  by (simp add: hex_val_def hex_digit_def)

lemma length_hex [simp]: "length (hex w n) = w"
  by (induction w n rule: hex.induct) auto

lemma hex_read_hex: "n < 16 ^ w \<Longrightarrow> hex_read (hex w n) = n"
proof (induction w n rule: hex.induct)
  case (2 w n)
  then have "n div 16 < 16 ^ w" by (simp add: less_mult_imp_div_less mult.commute)
  with 2 show ?case by (simp add: hex_read_def)
qed (simp add: hex_read_def)

lemma byte_of_consts: "byte_of 0x5C = CHR 0x5C" "byte_of 0x22 = CHR 0x22"
  by (rule char_of_eqI, simp)+

lemma EncodeRune_ascii: "r < 0x80 \<Longrightarrow> EncodeRune r = [byte_of r]"
  by (simp add: EncodeRune_def ValidRune_def)

lemma EncodeRune_first:
  assumes "ValidRune r"
  shows "hd (EncodeRune r) = CHR 0x5C \<longleftrightarrow> r = 0x5C" "hd (EncodeRune r) = CHR 0x22 \<longleftrightarrow> r = 0x22"
proof -
  have *: "bval (hd (EncodeRune r)) = r \<and> r < 0x80 \<or> 0x80 \<le> bval (hd (EncodeRune r)) \<and> 0x80 \<le> r"
    using assms by (auto simp: EncodeRune_def ValidRune_def)
  show "hd (EncodeRune r) = CHR 0x5C \<longleftrightarrow> r = 0x5C" "hd (EncodeRune r) = CHR 0x22 \<longleftrightarrow> r = 0x22"
    using * by (auto dest!: arg_cong [of _ _ bval] simp: EncodeRune_ascii byte_of_consts)
qed

lemma read_hex:
  "r < 16 ^ 2 \<Longrightarrow> read_piece (CHR 0x5C # CHR ''x'' # hex 2 r @ t) = ([byte_of r], t)"
  "r < 16 ^ 4 \<Longrightarrow> read_piece (CHR 0x5C # CHR ''u'' # hex 4 r @ t) = (EncodeRune r, t)"
  "r < 16 ^ 8 \<Longrightarrow> read_piece (CHR 0x5C # CHR ''U'' # hex 8 r @ t) = (EncodeRune r, t)"
  by (simp_all add: read_piece_def read_escape_def hex_read_hex del: hex.simps)

lemma read_appendEscapedRune:
  assumes "ValidRune r"
  shows "read_piece (appendEscapedRune isprint r @ t) = (EncodeRune r, t)"
    "hd (appendEscapedRune isprint r) \<noteq> CHR 0x22"
proof -
  have 8: "r < 16 ^ 8" using assms by (auto simp: ValidRune_def)
  consider "r = 0x22 \<or> r = 0x5C" | "r \<noteq> 0x22" "r \<noteq> 0x5C" "isprint r"
    | "\<not> isprint r" "r \<in> {7, 8, 9, 10, 11, 12, 13}"
    | "r \<noteq> 0x22" "r \<noteq> 0x5C" "\<not> isprint r" "r \<notin> {7, 8, 9, 10, 11, 12, 13}" by blast
  then show "read_piece (appendEscapedRune isprint r @ t) = (EncodeRune r, t)"
  proof cases
    case 1
    then show ?thesis
      by (auto simp: appendEscapedRune_def read_piece_def read_escape_def EncodeRune_ascii byte_of_consts)
  next
    case 2
    then show ?thesis using assms
      by (simp add: appendEscapedRune_def read_piece_def EncodeRune_first DecodeRune_EncodeRune)
  next
    case 3
    from 3(2) show ?thesis
      by (elim insertE emptyE)
        (use 3(1) in \<open>simp_all add: appendEscapedRune_def read_piece_def read_escape_def EncodeRune_ascii\<close>)
  next
    case 4
    then have "appendEscapedRune isprint r =
        (if r < 0x20 \<or> r = 0x7F then [CHR 0x5C, CHR ''x''] @ hex 2 r
         else if r < 0x10000 then [CHR 0x5C, CHR ''u''] @ hex 4 r else [CHR 0x5C, CHR ''U''] @ hex 8 r)"
      using assms by (simp only: appendEscapedRune_def if_False insert_iff de_Morgan_disj not_True_eq_False) simp
    then show ?thesis using 8 by (simp add: read_hex EncodeRune_ascii del: hex.simps)
  qed
  show "hd (appendEscapedRune isprint r) \<noteq> CHR 0x22"
    using assms by (simp add: appendEscapedRune_def EncodeRune_first del: hex.simps)
qed

lemma appendEscapedRune_nonempty: "ValidRune r \<Longrightarrow> appendEscapedRune isprint r \<noteq> []"
proof
  assume "ValidRune r" "appendEscapedRune isprint r = []"
  with read_appendEscapedRune(1) [of r isprint "''a''"] have "snd (read_piece ''a'') = ''a''" by simp
  then show False by (simp add: read_piece_def DecodeRune.simps)
qed

lemma read_quote_piece:
  assumes "s \<noteq> []"
  shows "read_piece (quote_piece isprint s @ t) = (take (snd (DecodeRune s)) s, t)"
    "hd (quote_piece isprint s) \<noteq> CHR 0x22" "quote_piece isprint s \<noteq> []"
proof -
  have "read_piece (quote_piece isprint s @ t) = (take (snd (DecodeRune s)) s, t) \<and>
    hd (quote_piece isprint s) \<noteq> CHR 0x22 \<and> quote_piece isprint s \<noteq> []"
  proof (cases "DecodeRune s = (RuneError, 1)")
    case True
    obtain c s' where s: "s = c # s'" using assms by (cases s) auto
    with True show ?thesis
      by (simp add: quote_piece_def read_piece_def read_escape_def hex_read_hex del: hex.simps)
  next
    case False
    with assms have d: "decoded s" by (simp add: decoded_def)
    with False show ?thesis
      using read_appendEscapedRune [OF decoded_ValidRune [OF d], of isprint]
        appendEscapedRune_nonempty [OF decoded_ValidRune [OF d], of isprint]
      by (simp add: quote_piece_def EncodeRune_DecodeRune [OF d])
  qed
  then show "read_piece (quote_piece isprint s @ t) = (take (snd (DecodeRune s)) s, t)"
    "hd (quote_piece isprint s) \<noteq> CHR 0x22" "quote_piece isprint s \<noteq> []" by auto
qed

lemma quote_body_unfold:
  "s \<noteq> [] \<Longrightarrow> quote_body isprint s = quote_piece isprint s @ quote_body isprint (drop (snd (DecodeRune s)) s)"
  by (cases s) (simp_all add: quote_body.simps(2))

lemma quote_body_delimited:
  "quote_body isprint s @ CHR 0x22 # x = quote_body isprint t @ CHR 0x22 # y \<Longrightarrow> s = t \<and> x = y"
proof (induction "length s" arbitrary: s t rule: less_induct)
  case less
  have hd_ne: "u \<noteq> [] \<Longrightarrow> hd (quote_body isprint u @ z) \<noteq> CHR 0x22" for u z
    using read_quote_piece(2,3) [of u] by (simp add: quote_body_unfold hd_append)
  show ?case
  proof (cases "s = [] \<or> t = []")
    case True
    have "s = [] \<and> t = []"
    proof (rule ccontr)
      assume "\<not> (s = [] \<and> t = [])"
      with True have "hd (quote_body isprint s @ CHR 0x22 # x) \<noteq> hd (quote_body isprint t @ CHR 0x22 # y)"
        using hd_ne [of s "CHR 0x22 # x"] hd_ne [of t "CHR 0x22 # y"] by auto
      with less.prems show False by simp
    qed
    with less.prems show ?thesis by simp
  next
    case False
    let ?w = "snd (DecodeRune s)" and ?v = "snd (DecodeRune t)"
    have "read_piece (quote_body isprint s @ CHR 0x22 # x) = (take ?w s, quote_body isprint (drop ?w s) @ CHR 0x22 # x)"
      "read_piece (quote_body isprint t @ CHR 0x22 # y) = (take ?v t, quote_body isprint (drop ?v t) @ CHR 0x22 # y)"
      using False by (simp_all add: quote_body_unfold read_quote_piece)
    with less.prems have eq: "take ?w s = take ?v t"
      "quote_body isprint (drop ?w s) @ CHR 0x22 # x = quote_body isprint (drop ?v t) @ CHR 0x22 # y" by simp_all
    have "length (drop ?w s) < length s" using DecodeRune_width [of s] False by auto
    from less.hyps [OF this eq(2)] eq(1) show ?thesis by (metis append_take_drop_id)
  qed
qed

lemma Quote_delimited: "Quote isprint s @ x = Quote isprint t @ y \<Longrightarrow> s = t \<and> x = y"
  using quote_body_delimited [of isprint s x t y] by (simp add: Quote_def)

end
