(* ===== verification/Merge_Tree.thy ===== *)
theory Merge_Tree
  imports Merge_Sequence Go_Text
begin

text \<open>
  JSON-like values and their merge by path (src/merge/tree.go). A \<open>Node\<close> is a struct with
  a \<open>Kind\<close> and one used field per kind, here a datatype with one constructor per kind; a nil
  \<open>*Node\<close> is \<open>None\<close>. The \<open>*Result\<close> the Go functions append to is returned: each
  function yields what it appends. \<open>isprint\<close> is the table behind \<open>strconv.Quote\<close>.
\<close>

section \<open>Nodes\<close>

datatype node =
    NNull
  | NBool bool
  | NNumber string
  | NString string
  | NArray "node list"
  | NObject "(string \<times> node) list"

text \<open>\<open>sort.Slice\<close> by name; the fields every caller passes have distinct names.\<close>

definition Obj :: "(string \<times> node) list \<Rightarrow> node" where
  "Obj fs = NObject (sort_key fst fs)"

definition Arr :: "node list \<Rightarrow> node" where
  "Arr elems = NArray elems"

definition MaxDepth :: nat where
  "MaxDepth = 64"

section \<open>Canonical text\<close>

type_synonym frame = "node \<times> nat"

text \<open>
  One turn of the loop: what it writes, and the child it descends into, if any. \<open>next\<close> starts
  at 0 and steps by one while a child is left, so it never passes the number of children.
\<close>

definition canonical_frame :: "(nat \<Rightarrow> bool) \<Rightarrow> frame \<Rightarrow> string \<times> node option" where
  "canonical_frame isprint = (\<lambda>(n, i).
     case n of
       NNull \<Rightarrow> (''null'', None)
     | NBool b \<Rightarrow> (if b then ''true'' else ''false'', None)
     | NNumber t \<Rightarrow> (t, None)
     | NString t \<Rightarrow> (Quote isprint t, None)
     | NArray es \<Rightarrow>
        (let w = (if i = 0 then ''['' else if i < length es then '','' else []) in
         if i < length es then (w, Some (es ! i)) else (w @ '']'', None))
     | NObject fs \<Rightarrow>
        (let w = (if i = 0 then ''{'' else if i < length fs then '','' else []) in
         if i < length fs then (w @ Quote isprint (fst (fs ! i)) @ '':'', Some (snd (fs ! i)))
         else (w @ ''}'', None)))"

text \<open>The work left in a frame and on the stack: it bounds the loop.\<close>

fun node_work :: "node \<Rightarrow> nat" where
  "node_work (NArray es) = Suc (sum_list (map (\<lambda>e. Suc (node_work e)) es))"
| "node_work (NObject fs) = Suc (sum_list (map (\<lambda>f. Suc (node_work (snd f))) fs))"
| "node_work _ = 1"

definition frame_work :: "frame \<Rightarrow> nat" where
  "frame_work = (\<lambda>(n, i). case n of
     NArray es \<Rightarrow> Suc (sum_list (map (\<lambda>e. Suc (node_work e)) (drop i es)))
   | NObject fs \<Rightarrow> Suc (sum_list (map (\<lambda>f. Suc (node_work (snd f))) (drop i fs)))
   | _ \<Rightarrow> 1)"

lemma frame_work_0 [simp]: "frame_work (n, 0) = node_work n"
  by (cases n) (simp_all add: frame_work_def)

lemma frame_work_pos: "0 < frame_work f"
  by (cases f; cases "fst f") (auto simp: frame_work_def)

lemma canonical_frame_child:
  "canonical_frame isprint (n, i) = (w, Some c) \<Longrightarrow>
    frame_work (n, Suc i) + node_work c < frame_work (n, i)"
  by (auto simp: canonical_frame_def frame_work_def Let_def Cons_nth_drop_Suc [symmetric]
      split: node.splits if_splits)

text \<open>The stack, the top of it first; the loop ends when it is empty.\<close>

function canonical_run :: "(nat \<Rightarrow> bool) \<Rightarrow> frame list \<Rightarrow> string" where
  "canonical_run isprint [] = []"
| "canonical_run isprint ((n, i) # stack) =
     (case canonical_frame isprint (n, i) of
        (w, None) \<Rightarrow> w @ canonical_run isprint stack
      | (w, Some c) \<Rightarrow> w @ canonical_run isprint ((c, 0) # (n, Suc i) # stack))"
  by pat_completeness auto
termination
proof (relation "measure (\<lambda>(_, stack). sum_list (map frame_work stack))", goal_cases)
  case 1
  show ?case by simp
next
  case (2 isprint n i stack)
  show ?case using frame_work_pos by simp
next
  case (3 isprint n i stack w c c')
  then show ?case using canonical_frame_child [of isprint n i w c'] by simp
qed

declare canonical_run.simps(2) [simp del]

definition Canonical :: "(nat \<Rightarrow> bool) \<Rightarrow> node \<Rightarrow> string" where
  "Canonical isprint n = canonical_run isprint [(n, 0)]"

definition Equal :: "(nat \<Rightarrow> bool) \<Rightarrow> node \<Rightarrow> node \<Rightarrow> bool" where
  "Equal isprint n m \<longleftrightarrow> Canonical isprint n = Canonical isprint m"

text \<open>The recursive definition of the same text.\<close>

fun commas :: "string list \<Rightarrow> string" where
  "commas [] = []"
| "commas [x] = x"
| "commas (x # xs) = x @ '','' @ commas xs"

fun canonical_spec :: "(nat \<Rightarrow> bool) \<Rightarrow> node \<Rightarrow> string" where
  "canonical_spec isprint NNull = ''null''"
| "canonical_spec isprint (NBool b) = (if b then ''true'' else ''false'')"
| "canonical_spec isprint (NNumber t) = t"
| "canonical_spec isprint (NString t) = Quote isprint t"
| "canonical_spec isprint (NArray es) = ''['' @ commas (map (canonical_spec isprint) es) @ '']''"
| "canonical_spec isprint (NObject fs) =
     ''{'' @ commas (map (\<lambda>f. Quote isprint (fst f) @ '':'' @ canonical_spec isprint (snd f)) fs) @ ''}''"

lemma commas_step:
  assumes "i < length xs"
  shows "commas (drop i xs) = xs ! i @ (if Suc i < length xs then '','' @ commas (drop (Suc i) xs) else [])"
proof (cases "drop (Suc i) xs")
  case Nil
  then show ?thesis using Cons_nth_drop_Suc [OF assms] assms by (metis append_Nil2 commas.simps(2) drop_eq_Nil leD)
next
  case (Cons y ys)
  then have "Suc i < length xs" by (metis drop_all list.distinct(1) not_le)
  with Cons show ?thesis by (simp flip: Cons_nth_drop_Suc [OF assms])
qed

text \<open>What is left to write for a frame.\<close>

definition field_texts :: "(nat \<Rightarrow> bool) \<Rightarrow> (string \<times> node) list \<Rightarrow> string list" where
  "field_texts isprint fs = map (\<lambda>f. Quote isprint (fst f) @ '':'' @ canonical_spec isprint (snd f)) fs"

definition frame_rest :: "(nat \<Rightarrow> bool) \<Rightarrow> frame \<Rightarrow> string" where
  "frame_rest isprint = (\<lambda>(n, i). if i = 0 then canonical_spec isprint n else
     case n of
       NArray es \<Rightarrow> (if i < length es then '','' @ commas (drop i (map (canonical_spec isprint) es)) else []) @ '']''
     | NObject fs \<Rightarrow> (if i < length fs then '','' @ commas (drop i (field_texts isprint fs)) else []) @ ''}''
     | _ \<Rightarrow> canonical_spec isprint n)"

lemma frame_rest_0: "frame_rest isprint (n, 0) = canonical_spec isprint n"
  by (simp add: frame_rest_def)

lemma frame_rest_step:
  "frame_rest isprint (n, i) =
     (case canonical_frame isprint (n, i) of
        (w, None) \<Rightarrow> w
      | (w, Some c) \<Rightarrow> w @ canonical_spec isprint c @ frame_rest isprint (n, Suc i))"
proof (cases n)
  case (NArray es)
  then show ?thesis
    using commas_step [of i "map (canonical_spec isprint) es"]
    by (auto simp: frame_rest_def canonical_frame_def Let_def)
next
  case (NObject fs)
  then show ?thesis
    using commas_step [of i "field_texts isprint fs"]
    by (auto simp: frame_rest_def canonical_frame_def Let_def field_texts_def)
qed (auto simp: frame_rest_def canonical_frame_def)

lemma canonical_run_spec: "canonical_run isprint stack = concat (map (frame_rest isprint) stack)"
proof (induction isprint stack rule: canonical_run.induct)
  case (2 isprint n i stack)
  obtain w c where f: "canonical_frame isprint (n, i) = (w, c)" by fastforce
  show ?case
  proof (cases c)
    case None
    have "canonical_run isprint ((n, i) # stack) = w @ canonical_run isprint stack"
      by (subst canonical_run.simps(2)) (simp only: f None prod.case option.case)
    moreover have "frame_rest isprint (n, i) = w"
      by (subst frame_rest_step) (simp only: f None prod.case option.case)
    ultimately show ?thesis using "2.IH"(1) [OF f [symmetric] None] by simp
  next
    case (Some d)
    have "canonical_run isprint ((n, i) # stack) = w @ canonical_run isprint ((d, 0) # (n, Suc i) # stack)"
      by (subst canonical_run.simps(2)) (simp only: f Some prod.case option.case)
    moreover have "frame_rest isprint (n, i) = w @ canonical_spec isprint d @ frame_rest isprint (n, Suc i)"
      by (subst frame_rest_step) (simp only: f Some prod.case option.case)
    ultimately show ?thesis using "2.IH"(2) [OF f [symmetric] Some] by (simp add: frame_rest_0)
  qed
qed simp

lemma Canonical_spec: "Canonical isprint n = canonical_spec isprint n"
  by (simp add: Canonical_def canonical_run_spec frame_rest_0)

section \<open>One text per value\<close>

definition number_char :: "char \<Rightarrow> bool" where
  "number_char c \<longleftrightarrow> is_digit c \<or> c \<in> {CHR ''-'', CHR ''+'', CHR ''.'', CHR ''e'', CHR ''E''}"

definition number_ok :: "string \<Rightarrow> bool" where
  "number_ok t \<longleftrightarrow> t \<noteq> [] \<and> list_all number_char t"

text \<open>The numbers of a value are texts of numbers: what every parser and constructor of the program gives.\<close>

fun numbers_ok :: "node \<Rightarrow> bool" where
  "numbers_ok (NNumber t) = number_ok t"
| "numbers_ok (NArray es) = (\<forall>e \<in> set es. numbers_ok e)"
| "numbers_ok (NObject fs) = (\<forall>f \<in> set fs. numbers_ok (snd f))"
| "numbers_ok _ = True"

definition delimited :: "string \<Rightarrow> bool" where
  "delimited s \<longleftrightarrow> s = [] \<or> hd s \<in> {CHR '','', CHR '']'', CHR ''}''}"

lemma number_char_excl:
  "number_char c \<Longrightarrow> c \<notin> {CHR ''n'', CHR ''t'', CHR ''f'', CHR 0x22, CHR ''['', CHR ''{'', CHR '','', CHR '']'', CHR ''}''}"
  by (auto simp: number_char_def is_digit_def less_eq_char_def)

lemma number_text_delimited:
  assumes "list_all number_char t" "list_all number_char u" "delimited s" "delimited v" "t @ s = u @ v"
  shows "t = u \<and> s = v"
proof -
  have w: "takeWhile number_char (x @ y) = x" if "list_all number_char x" "delimited y" for x y
    using that number_char_excl by (cases y) (auto simp: delimited_def list_all_iff takeWhile_append2 dest: number_char_excl)
  show ?thesis using w [OF assms(1,3)] w [OF assms(2,4)] assms(5) by auto
qed

lemma canonical_spec_first:
  assumes "numbers_ok n"
  shows "canonical_spec isprint n \<noteq> []" "hd (canonical_spec isprint n) \<notin> {CHR '','', CHR '']'', CHR ''}''}"
    "hd (canonical_spec isprint n) = CHR ''['' \<longleftrightarrow> (\<exists>es. n = NArray es)"
    "hd (canonical_spec isprint n) = CHR ''{'' \<longleftrightarrow> (\<exists>fs. n = NObject fs)"
    "hd (canonical_spec isprint n) = CHR 0x22 \<longleftrightarrow> (\<exists>t. n = NString t)"
    "hd (canonical_spec isprint n) = CHR ''n'' \<longleftrightarrow> n = NNull"
    "hd (canonical_spec isprint n) = CHR ''t'' \<longleftrightarrow> n = NBool True"
    "hd (canonical_spec isprint n) = CHR ''f'' \<longleftrightarrow> n = NBool False"
proof -
  have num: "number_ok t \<Longrightarrow> t \<noteq> [] \<and> number_char (hd t)" for t
    by (cases t) (auto simp: number_ok_def)
  show "canonical_spec isprint n \<noteq> []" "hd (canonical_spec isprint n) \<notin> {CHR '','', CHR '']'', CHR ''}''}"
    "hd (canonical_spec isprint n) = CHR ''['' \<longleftrightarrow> (\<exists>es. n = NArray es)"
    "hd (canonical_spec isprint n) = CHR ''{'' \<longleftrightarrow> (\<exists>fs. n = NObject fs)"
    "hd (canonical_spec isprint n) = CHR 0x22 \<longleftrightarrow> (\<exists>t. n = NString t)"
    "hd (canonical_spec isprint n) = CHR ''n'' \<longleftrightarrow> n = NNull"
    "hd (canonical_spec isprint n) = CHR ''t'' \<longleftrightarrow> n = NBool True"
    "hd (canonical_spec isprint n) = CHR ''f'' \<longleftrightarrow> n = NBool False"
    using assms by (cases n; auto simp: Quote_def dest!: num dest: number_char_excl)+
qed

text \<open>Lists of texts, each of which is read back whole before a delimiter, are read back.\<close>

definition reads_back :: "('a \<Rightarrow> string) \<Rightarrow> 'a \<Rightarrow> 'a set \<Rightarrow> bool" where
  "reads_back f x A \<longleftrightarrow> (\<forall>y \<in> A. \<forall>s t. delimited s \<longrightarrow> delimited t \<longrightarrow> f x @ s = f y @ t \<longrightarrow> x = y \<and> s = t)"

lemma reads_backI:
  "(\<And>y s t. y \<in> A \<Longrightarrow> delimited s \<Longrightarrow> delimited t \<Longrightarrow> f x @ s = f y @ t \<Longrightarrow> x = y \<and> s = t) \<Longrightarrow> reads_back f x A"
  by (simp add: reads_back_def)

lemma reads_back_mono: "reads_back f x A \<Longrightarrow> B \<subseteq> A \<Longrightarrow> reads_back f x B"
  unfolding reads_back_def by blast

lemma commas_Cons: "commas (x # xs) = x @ (if xs = [] then [] else '','' @ commas xs)"
  by (cases xs) simp_all

lemma commas_delimited:
  assumes "\<And>x. x \<in> set xs \<Longrightarrow> reads_back f x (set ys)"
    and "\<And>x. x \<in> set xs \<union> set ys \<Longrightarrow> f x \<noteq> [] \<and> hd (f x) \<noteq> c"
    and c: "c \<in> {CHR '']'', CHR ''}''}"
    and "commas (map f xs) @ c # s = commas (map f ys) @ c # t"
  shows "xs = ys \<and> s = t"
  using assms(1,2,4)
proof (induction xs arbitrary: ys)
  case Nil
  show ?case
  proof (cases ys)
    case (Cons y ys')
    with Nil.prems(2) [of y] Nil.prems(3) show ?thesis by (cases "f y") (auto simp: commas_Cons)
  qed (use Nil.prems in auto)
next
  case (Cons x xs)
  have x: "f x \<noteq> []" "hd (f x) \<noteq> c" using Cons.prems(2) by auto
  obtain y ys' where ys: "ys = y # ys'"
    using Cons.prems(3) x by (cases ys) (auto simp: commas_Cons append_eq_Cons_conv)
  let ?tail = "\<lambda>zs u. (if zs = [] then [] else '','' @ commas (map f zs)) @ c # u"
  have d: "delimited (?tail zs u)" for zs u using c by (auto simp: delimited_def)
  have "reads_back f x (set ys)" using Cons.prems(1) by simp
  moreover have "f x @ ?tail xs s = f y @ ?tail ys' t" using Cons.prems(3) by (simp add: commas_Cons ys)
  ultimately have "x = y \<and> ?tail xs s = ?tail ys' t"
    unfolding reads_back_def ys using d [of xs s] d [of ys' t] by (meson list.set_intros(1))
  then have "x = y" and rest: "?tail xs s = ?tail ys' t" by auto
  have sep: "CHR '','' \<noteq> c" using c by auto
  show ?case
  proof (cases "xs = [] \<or> ys' = []")
    case True
    with rest sep \<open>x = y\<close> ys show ?thesis by (auto split: if_splits)
  next
    case False
    with rest have eq: "commas (map f xs) @ c # s = commas (map f ys') @ c # t" by simp
    have rb: "reads_back f z (set ys')" if "z \<in> set xs" for z
      by (rule reads_back_mono [of f z "set ys"]) (use Cons.prems(1) that ys in auto)
    have "f z \<noteq> [] \<and> hd (f z) \<noteq> c" if "z \<in> set xs \<union> set ys'" for z
      using Cons.prems(2) that ys by auto
    from Cons.IH [OF rb this eq] ys \<open>x = y\<close> show ?thesis by simp
  qed
qed

lemma field_reads_back:
  assumes "reads_back g v A"
  shows "reads_back (\<lambda>f. Quote isprint (fst f) @ '':'' @ g (snd f)) (k, v) {f. snd f \<in> A}"
  unfolding reads_back_def
proof (intro ballI allI impI)
  fix f s t
  assume "f \<in> {f. snd f \<in> A}" "delimited s" "delimited t"
    and eq: "(Quote isprint (fst (k, v)) @ '':'' @ g (snd (k, v))) @ s = (Quote isprint (fst f) @ '':'' @ g (snd f)) @ t"
  from eq Quote_delimited [of isprint k "'':'' @ g v @ s" "fst f" "'':'' @ g (snd f) @ t"]
  have "k = fst f" "g v @ s = g (snd f) @ t" by auto
  with assms \<open>f \<in> _\<close> \<open>delimited s\<close> \<open>delimited t\<close> show "(k, v) = f \<and> s = t"
    by (cases f) (auto simp: reads_back_def)
qed

lemma canonical_spec_reads_back:
  assumes "numbers_ok n"
  shows "reads_back (canonical_spec isprint) n {m. numbers_ok m}"
  using assms
proof (induction n)
  case (NNumber u)
  { fix m s t assume m: "numbers_ok m" "delimited s" "delimited t" "canonical_spec isprint (NNumber u) @ s = canonical_spec isprint m @ t"
    have "number_char (hd (canonical_spec isprint m))" 
      using m(4) NNumber.prems canonical_spec_first(1) [OF m(1)]
      by (cases u; cases "canonical_spec isprint m") (auto simp: number_ok_def)
    with canonical_spec_first [OF m(1)] m(1) obtain v where "m = NNumber v"
      by (cases m) (auto dest: number_char_excl)
    with m NNumber.prems have "NNumber u = m \<and> s = t" 
      using number_text_delimited [of u v s t] by (auto simp: number_ok_def) }
  then show ?case by (intro reads_backI) blast
next
  case (NString u)
  { fix m s t assume m: "numbers_ok m" "canonical_spec isprint (NString u) @ s = canonical_spec isprint m @ t"
    then have "hd (canonical_spec isprint m) = CHR 0x22"
      using canonical_spec_first(1) [OF m(1)] by (cases "canonical_spec isprint m") (auto simp: Quote_def)
    with canonical_spec_first(5) [OF m(1)] obtain v where "m = NString v" by blast
    with m Quote_delimited [of isprint u s v t] have "NString u = m \<and> s = t" by simp }
  then show ?case by (intro reads_backI) blast
next
  case (NArray es)
  { fix m s t assume m: "numbers_ok m" "canonical_spec isprint (NArray es) @ s = canonical_spec isprint m @ t"
    then have "hd (canonical_spec isprint m) = CHR ''[''"
      using canonical_spec_first(1) [OF m(1)] by (cases "canonical_spec isprint m") auto
    with canonical_spec_first(3) [OF m(1)] obtain fs where fs: "m = NArray fs" by blast
    have "es = fs \<and> s = t"
    proof (rule commas_delimited [where f = "canonical_spec isprint" and c = "CHR '']''"])
      show "reads_back (canonical_spec isprint) x (set fs)" if "x \<in> set es" for x
        by (rule reads_back_mono [OF NArray.IH [OF that]]) (use NArray.prems that m(1) fs in auto)
      show "canonical_spec isprint x \<noteq> [] \<and> hd (canonical_spec isprint x) \<noteq> CHR '']''" if "x \<in> set es \<union> set fs" for x
        using canonical_spec_first(1,2) [of x isprint] that NArray.prems m(1) fs by auto
    qed (use m fs in auto)
    then have "NArray es = m \<and> s = t" using fs by simp }
  then show ?case by (intro reads_backI) blast
next
  case (NObject es)
  let ?f = "\<lambda>f. Quote isprint (fst f) @ '':'' @ canonical_spec isprint (snd f)"
  { fix m s t assume m: "numbers_ok m" "canonical_spec isprint (NObject es) @ s = canonical_spec isprint m @ t"
    then have "hd (canonical_spec isprint m) = CHR ''{''"
      using canonical_spec_first(1) [OF m(1)] by (cases "canonical_spec isprint m") auto
    with canonical_spec_first(4) [OF m(1)] obtain fs where fs: "m = NObject fs" by blast
    have "es = fs \<and> s = t"
    proof (rule commas_delimited [where f = ?f and c = "CHR ''}''"])
      show "reads_back ?f x (set fs)" if "x \<in> set es" for x
      proof -
        have "reads_back (canonical_spec isprint) (snd x) {m. numbers_ok m}"
          using NObject.IH [of x "snd x"] NObject.prems that by (auto simp: snds.simps)
        from reads_back_mono [OF field_reads_back [OF this, of isprint "fst x"], of "set fs"] m(1) fs
        show ?thesis by auto
      qed
    qed (use m fs in \<open>auto simp: Quote_def\<close>)
    then have "NObject es = m \<and> s = t" using fs by simp }
  then show ?case by (intro reads_backI) blast
next
  case NNull
  { fix m s t assume m: "numbers_ok m" "canonical_spec isprint NNull @ s = canonical_spec isprint m @ t"
    then have "hd (canonical_spec isprint m) = CHR ''n''"
      using canonical_spec_first(1) [OF m(1)] by (cases "canonical_spec isprint m") auto
    with canonical_spec_first(6) [OF m(1)] m have "NNull = m \<and> s = t" by auto }
  then show ?case by (intro reads_backI) blast
next
  case (NBool b)
  { fix m s t assume m: "numbers_ok m" "canonical_spec isprint (NBool b) @ s = canonical_spec isprint m @ t"
    then have "hd (canonical_spec isprint m) = (if b then CHR ''t'' else CHR ''f'')"
      using canonical_spec_first(1) [OF m(1)] by (cases "canonical_spec isprint m") (auto split: if_splits)
    with canonical_spec_first(7,8) [OF m(1)] m have "NBool b = m \<and> s = t" by (auto split: if_splits) }
  then show ?case by (intro reads_backI) blast
qed

lemma Canonical_inj:
  assumes "numbers_ok n" "numbers_ok m" "Canonical isprint n = Canonical isprint m"
  shows "n = m"
  using canonical_spec_reads_back [OF assms(1), of isprint] assms(2,3)
  by (auto simp: reads_back_def Canonical_spec delimited_def)

section \<open>The merge\<close>

type_synonym tree_options = "(path \<Rightarrow> bool) option"

fun deeper :: "node \<Rightarrow> nat \<Rightarrow> bool" where
  "deeper (NArray es) limit =
     (limit = 0 \<or> (\<exists>e \<in> set es. deeper e (limit - 1)))"
| "deeper (NObject fs) limit =
     (limit = 0 \<or> (\<exists>f \<in> set fs. deeper (snd f) (limit - 1)))"
| "deeper _ limit = False"

text \<open>\<open>equal\<close>: compared part by part, lists of equal length element by element.\<close>

fun node_equal :: "node \<Rightarrow> node \<Rightarrow> bool" where
  "node_equal NNull NNull = True"
| "node_equal (NBool a) (NBool b) = (a = b)"
| "node_equal (NNumber a) (NNumber b) = (a = b)"
| "node_equal (NString a) (NString b) = (a = b)"
| "node_equal (NArray as) (NArray bs) = list_all2 node_equal as bs"
| "node_equal (NObject as) (NObject bs) =
     list_all2 (\<lambda>f g. fst f = fst g \<and> node_equal (snd f) (snd g)) as bs"
| "node_equal _ _ = False"

fun same :: "node option \<Rightarrow> node option \<Rightarrow> bool" where
  "same (Some a) (Some b) = node_equal a b"
| "same a b = (a = None \<and> b = None)"

definition sortedKeys :: "string list \<Rightarrow> string list" where
  "sortedKeys ks = sort (remdups ks)"

text \<open>What a merge of one position appends and yields; the value is None for an absent one.\<close>

type_synonym merged = "node option merge_result"

definition yields :: "node option \<Rightarrow> merged" where
  "yields v = \<lparr>r_value = v, r_conflicts = [], r_flagged = []\<rparr>"

definition conflicts_at :: "path \<Rightarrow> string \<Rightarrow> node option \<Rightarrow> merged" where
  "conflicts_at path reason v = \<lparr>r_value = v, r_conflicts = [\<lparr>c_path = path, c_reason = reason\<rparr>], r_flagged = []\<rparr>"

text \<open>The kinds the cases of the code test, and the field each of them uses.\<close>

fun is_number :: "node option \<Rightarrow> bool" where
  "is_number (Some (NNumber _)) = True"
| "is_number _ = False"

fun number_of :: "node option \<Rightarrow> string" where
  "number_of (Some (NNumber t)) = t"
| "number_of _ = []"

fun is_array :: "node option \<Rightarrow> bool" where
  "is_array (Some (NArray _)) = True"
| "is_array _ = False"

fun elems_of :: "node option \<Rightarrow> node list" where
  "elems_of (Some (NArray es)) = es"
| "elems_of _ = []"

definition mergeCounter :: "path \<Rightarrow> node option \<Rightarrow> node option \<Rightarrow> node option \<Rightarrow> merged" where
  "mergeCounter path b ours theirs =
     (case (if b = None then Some 0 else ParseInt (number_of b)) of
        None \<Rightarrow> conflicts_at path ''a counter that is not an integer'' b
      | Some base \<Rightarrow>
         (case (ParseInt (number_of ours), ParseInt (number_of theirs)) of
            (Some x, Some y) \<Rightarrow> yields (Some (NNumber (FormatInt (Counter base x y))))
          | _ \<Rightarrow> conflicts_at path ''a counter that is not an integer'' b))"

definition under :: "path \<Rightarrow> conflict list \<Rightarrow> conflict list" where
  "under path cs = map (\<lambda>c. \<lparr>c_path = path @ c_path c, c_reason = c_reason c\<rparr>) cs"

definition mergeArrays :: "(nat \<Rightarrow> bool) \<Rightarrow> path \<Rightarrow> node list \<Rightarrow> node list \<Rightarrow> node list \<Rightarrow> merged" where
  "mergeArrays isprint path b x y =
     (let seq = Sequence b x y (Canonical isprint) in
      \<lparr>r_value = Some (NArray (r_value seq)), r_conflicts = under path (r_conflicts seq),
       r_flagged = under path (r_flagged seq)\<rparr>)"

text \<open>The cases of \<open>mergeNode\<close> after the one for objects.\<close>

definition mergeOther :: "(nat \<Rightarrow> bool) \<Rightarrow> tree_options \<Rightarrow> path \<Rightarrow> node option \<Rightarrow> node option \<Rightarrow> node option \<Rightarrow> merged" where
  "mergeOther isprint opts path b x y =
     (if same x y then yields x
      else if same x b then yields y
      else if same y b then yields x
      else if x = None \<or> y = None then conflicts_at path ''deleted on one side and changed on the other'' b
      else if is_number x \<and> is_number y \<and> (b = None \<or> is_number b) \<and>
          (case opts of None \<Rightarrow> False | Some ctr \<Rightarrow> ctr path)
        then mergeCounter path b x y
      else if b \<noteq> None \<and> is_array x \<and> is_array y \<and> is_array b
        then mergeArrays isprint path (elems_of b) (elems_of x) (elems_of y)
      else conflicts_at path ''both sides changed it, to different values'' b)"

text \<open>The fields of an object and, as the code indexes them, the first of each name.\<close>

fun fields_of :: "node option \<Rightarrow> (string \<times> node) list" where
  "fields_of (Some (NObject fs)) = fs"
| "fields_of _ = []"

definition byName :: "node option \<Rightarrow> string \<Rightarrow> node option" where
  "byName n name = map_of (fields_of n) name"

fun is_object :: "node option \<Rightarrow> bool" where
  "is_object (Some (NObject _)) = True"
| "is_object _ = False"

definition names_of :: "node option \<Rightarrow> node option \<Rightarrow> node option \<Rightarrow> string list" where
  "names_of b x y = sortedKeys (map fst (fields_of b) @ map fst (fields_of x) @ map fst (fields_of y))"

text \<open>The fields that are present after the merge of each name, and all that was reported.\<close>

definition gather :: "(string \<times> merged) list \<Rightarrow> merged" where
  "gather ms =
     \<lparr>r_value = Some (Obj (concat (map (\<lambda>(name, m). case r_value m of None \<Rightarrow> [] | Some v \<Rightarrow> [(name, v)]) ms))),
      r_conflicts = concat (map (\<lambda>(name, m). r_conflicts m) ms),
      r_flagged = concat (map (\<lambda>(name, m). r_flagged m) ms)\<rparr>"

definition opt_size :: "node option \<Rightarrow> nat" where
  "opt_size n = (case n of None \<Rightarrow> 0 | Some v \<Rightarrow> Suc (size v))"

lemma byName_size: "byName n name = Some v \<Longrightarrow> Suc (size v) < opt_size n"
  unfolding byName_def opt_size_def
  by (cases n rule: fields_of.cases)
    (auto dest!: map_of_SomeD intro!: size_list_estimation' simp: less_Suc_eq_le)

lemma byName_decreases: "is_object x \<Longrightarrow> opt_size (byName x name) < opt_size x"
  using byName_size [of x name] by (cases x rule: is_object.cases) (auto simp: opt_size_def split: option.split)

lemma byName_le: "opt_size (byName x name) \<le> opt_size x"
  using byName_size [of x name] by (cases "byName x name") (auto simp: opt_size_def)

function mergeNode ::
  "(nat \<Rightarrow> bool) \<Rightarrow> tree_options \<Rightarrow> path \<Rightarrow> node option \<Rightarrow> node option \<Rightarrow> node option \<Rightarrow> merged" where
  "mergeNode isprint opts path b x y =
     (if is_object x \<and> is_object y \<and> (b = None \<or> is_object b)
      then gather (map (\<lambda>name. (name, mergeNode isprint opts (path @ [name])
             (byName b name) (byName x name) (byName y name))) (names_of b x y))
      else mergeOther isprint opts path b x y)"
  by pat_completeness auto
termination
  by (relation "measure (\<lambda>(_, _, _, b, x, y). opt_size b + opt_size x + opt_size y)")
    (auto intro!: add_le_less_mono add_le_mono byName_le byName_decreases)

declare mergeNode.simps [simp del]

definition Tree :: "(nat \<Rightarrow> bool) \<Rightarrow> node \<Rightarrow> node \<Rightarrow> node \<Rightarrow> tree_options \<Rightarrow> node merge_result" where
  "Tree isprint base ours theirs opts =
     (if deeper base MaxDepth \<or> deeper ours MaxDepth \<or> deeper theirs MaxDepth
      then \<lparr>r_value = base,
            r_conflicts = [\<lparr>c_path = [], c_reason = ''nested past '' @ itoa MaxDepth @ '' arrays and objects''\<rparr>],
            r_flagged = []\<rparr>
      else let r = mergeNode isprint opts [] (Some base) (Some ours) (Some theirs) in
           \<lparr>r_value = (case r_value r of Some v \<Rightarrow> v | None \<Rightarrow> NNull),
            r_conflicts = r_conflicts r, r_flagged = r_flagged r\<rparr>)"

end
