(* ===== verification/Merge_Tree_Correct.thy ===== *)
theory Merge_Tree_Correct
  imports Merge_Tree
begin

text \<open>
  What the merge of trees promises: it does not depend on which side is ours, a side that
  changed nothing yields, merging the fields of objects straight away is merging after a
  comparison, and the result keeps the form and the depth of its inputs.
\<close>

section \<open>Well-formed values\<close>

text \<open>An object's fields are sorted by name and unique, and its numbers are numbers.\<close>

definition sorted_fields :: "(string \<times> node) list \<Rightarrow> bool" where
  "sorted_fields fs \<longleftrightarrow> sorted (map fst fs) \<and> distinct (map fst fs)"

fun node_wf :: "node \<Rightarrow> bool" where
  "node_wf (NNumber t) = number_ok t"
| "node_wf (NArray es) = (\<forall>e \<in> set es. node_wf e)"
| "node_wf (NObject fs) = (sorted_fields fs \<and> (\<forall>f \<in> set fs. node_wf (snd f)))"
| "node_wf _ = True"

section \<open>Comparison\<close>

lemma node_equal_iff [simp]: "node_equal a b \<longleftrightarrow> a = b"
proof (induction a arbitrary: b)
  case (NArray as)
  have "list_all2 node_equal as bs \<longleftrightarrow> as = bs" for bs
  proof -
    have "list_all2 node_equal as bs = list_all2 (=) as bs"
      by (rule list.rel_cong) (use NArray in auto)
    then show ?thesis by (simp add: list.rel_eq)
  qed
  then show ?case by (cases b) auto
next
  case (NObject fs)
  have "list_all2 (\<lambda>f g. fst f = fst g \<and> node_equal (snd f) (snd g)) fs gs \<longleftrightarrow> fs = gs" for gs
  proof -
    have "list_all2 (\<lambda>f g. fst f = fst g \<and> node_equal (snd f) (snd g)) fs gs = list_all2 (=) fs gs"
      by (rule list.rel_cong) (use NObject in \<open>auto simp: prod_eq_iff snds.simps\<close>)
    then show ?thesis by (simp add: list.rel_eq)
  qed
  then show ?case by (cases b) auto
next
  case (NBool x) then show ?case by (cases b) auto
next
  case (NNumber x) then show ?case by (cases b) auto
next
  case (NString x) then show ?case by (cases b) auto
next
  case NNull then show ?case by (cases b) auto
qed

lemma same_iff [simp]: "same a b \<longleftrightarrow> a = b"
  by (cases a; cases b) auto

definition opt_wf :: "node option \<Rightarrow> bool" where
  "opt_wf n \<longleftrightarrow> (\<forall>v. n = Some v \<longrightarrow> node_wf v)"

lemma opt_wf_simps [simp]: "opt_wf None" "opt_wf (Some v) = node_wf v"
  by (simp_all add: opt_wf_def)

lemma node_wf_numbers: "node_wf n \<Longrightarrow> numbers_ok n"
  by (induction n) (auto simp: snds.simps)

lemma opt_wf_fields: "opt_wf n \<Longrightarrow> sorted_fields (fields_of n)"
  by (cases n rule: fields_of.cases) (auto simp: sorted_fields_def)

lemma opt_wf_byName: "opt_wf n \<Longrightarrow> opt_wf (byName n name)"
  by (cases n rule: fields_of.cases) (auto simp: byName_def opt_wf_def dest!: map_of_SomeD)

lemma Sequence_nodes_sym:
  assumes "\<And>n. n \<in> set b \<union> set x \<union> set y \<Longrightarrow> numbers_ok n"
  shows "Sequence b x y (Canonical isprint) = Sequence b y x (Canonical isprint)"
proof -
  have "inj_on (Canonical isprint) (set b \<union> set x \<union> set y)"
    using assms by (intro inj_onI) (auto intro: Canonical_inj)
  moreover have "set (r_value (Sequence b x y (Canonical isprint))) \<union> set (r_value (Sequence b y x (Canonical isprint)))
      \<subseteq> set b \<union> set x \<union> set y"
    using Sequence_elements [of b x y] Sequence_elements [of b y x] by auto
  ultimately have "inj_on (Canonical isprint)
      (set (r_value (Sequence b x y (Canonical isprint))) \<union> set (r_value (Sequence b y x (Canonical isprint))))"
    by (rule inj_on_subset)
  then show ?thesis
    using Sequence_alike [of "Canonical isprint" b x y]
    by (auto simp: alike_def intro!: merge_result.equality dest: map_inj_on)
qed

section \<open>The names merged\<close>

lemma set_sortedKeys [simp]: "set (sortedKeys ks) = set ks"
  by (simp add: sortedKeys_def)

lemma sortedKeys_sorted: "sorted (sortedKeys ks)" "distinct (sortedKeys ks)"
  by (simp_all add: sortedKeys_def)

lemma sortedKeys_eq: "set ks = set ls \<Longrightarrow> sortedKeys ks = sortedKeys ls"
  by (rule sorted_distinct_set_unique) (simp_all add: sortedKeys_sorted)

lemma names_of_swap: "names_of b x y = names_of b y x"
  unfolding names_of_def by (rule sortedKeys_eq) auto

lemma set_names_of: "set (names_of b x y) = fst ` set (fields_of b) \<union> fst ` set (fields_of x) \<union> fst ` set (fields_of y)"
  by (auto simp: names_of_def)

lemma byName_None_iff: "byName n name = None \<longleftrightarrow> name \<notin> fst ` set (fields_of n)"
  by (simp add: byName_def map_of_eq_None_iff)

section \<open>Symmetry\<close>

lemma Counter_sym: "Counter b x y = Counter b y x"
  by (simp add: Counter_def)

lemma mergeCounter_sym: "mergeCounter path b x y = mergeCounter path b y x"
  using Counter_sym by (auto simp: mergeCounter_def split: option.split)

lemma mergeArrays_sym:
  assumes "\<And>n. n \<in> set b \<union> set x \<union> set y \<Longrightarrow> node_wf n"
  shows "mergeArrays isprint path b x y = mergeArrays isprint path b y x"
  using Sequence_nodes_sym [of b x y isprint] assms node_wf_numbers
  by (auto simp: mergeArrays_def Let_def)

lemma opt_wf_elems: "opt_wf n \<Longrightarrow> e \<in> set (elems_of n) \<Longrightarrow> node_wf e"
  by (cases n rule: elems_of.cases) auto

lemma mergeOther_sym:
  assumes "opt_wf b" "opt_wf x" "opt_wf y"
  shows "mergeOther isprint opts path b x y = mergeOther isprint opts path b y x"
proof -
  have "mergeArrays isprint path (elems_of b) (elems_of x) (elems_of y) =
      mergeArrays isprint path (elems_of b) (elems_of y) (elems_of x)"
    by (rule mergeArrays_sym) (use assms opt_wf_elems in blast)
  moreover have "mergeCounter path b x y = mergeCounter path b y x" by (rule mergeCounter_sym)
  ultimately show ?thesis unfolding mergeOther_def same_iff by auto
qed

lemma mergeNode_sym:
  assumes "opt_wf b" "opt_wf x" "opt_wf y"
  shows "mergeNode isprint opts path b x y = mergeNode isprint opts path b y x"
  using assms
proof (induction isprint opts path b x y rule: mergeNode.induct)
  case (1 isprint opts path b x y)
  show ?case
  proof (cases "is_object x \<and> is_object y \<and> (b = None \<or> is_object b)")
    case True
    then have "mergeNode isprint opts (path @ [name]) (byName b name) (byName x name) (byName y name) =
        mergeNode isprint opts (path @ [name]) (byName b name) (byName y name) (byName x name)"
      if "name \<in> set (names_of b x y)" for name
      using "1.IH" [OF True that] "1.prems" opt_wf_byName by blast
    with True show ?thesis
      by (auto simp: mergeNode.simps [of isprint opts path] names_of_swap [of b y x] cong: map_cong)
  next
    case False
    then show ?thesis using mergeOther_sym [OF "1.prems"] by (auto simp: mergeNode.simps [of isprint opts path])
  qed
qed

section \<open>Gathering fields\<close>

lemma sorted_fields_unique:
  assumes "sorted_fields fs" "sorted_fields gs" "map_of fs = map_of gs"
  shows "fs = gs"
proof -
  have "set fs = set gs"
    using assms by (metis sorted_fields_def map_of_eq_Some_iff set_map subrelI subset_antisym)
  moreover have "inj_on fst (set fs)" using assms(1) by (simp add: sorted_fields_def distinct_map)
  ultimately show ?thesis
    using assms(1,2) map_sorted_distinct_set_unique [of fst fs gs] by (simp add: sorted_fields_def)
qed

definition present :: "(string \<times> merged) list \<Rightarrow> (string \<times> node) list" where
  "present ms = concat (map (\<lambda>(name, m). case r_value m of None \<Rightarrow> [] | Some v \<Rightarrow> [(name, v)]) ms)"

lemma map_fst_present: "map fst (present ms) = map fst (filter (\<lambda>(name, m). r_value m \<noteq> None) ms)"
  by (induction ms) (auto simp: present_def split: option.split)

lemma present_sorted:
  assumes "sorted (map fst ms)" "distinct (map fst ms)"
  shows "sorted_fields (present ms)"
  using assms by (simp add: sorted_fields_def map_fst_present sorted_filter distinct_map_filter)

lemma present_member:
  assumes "f \<in> set (present ms)"
  obtains m where "(fst f, m) \<in> set ms" "r_value m = Some (snd f)"
  using assms by (auto simp: present_def split: option.splits)

lemma map_of_present:
  "distinct (map fst ms) \<Longrightarrow> map_of (present ms) name = Option.bind (map_of ms name) r_value"
proof (induction ms)
  case (Cons m ms)
  have "name \<notin> fst ` set ms \<Longrightarrow> map_of ms name = None" by (simp add: map_of_eq_None_iff)
  with Cons show ?case
    by (cases m) (auto simp: present_def map_add_def split: option.split)
qed (simp add: present_def)

lemma gather_value:
  assumes "sorted (map fst ms)" "distinct (map fst ms)"
  shows "r_value (gather ms) = Some (NObject (present ms))"
  using present_sorted [OF assms]
  by (simp add: gather_def Obj_def present_def [symmetric] sorted_fields_def sort_key_id_if_sorted)

lemma map_of_names: "map_of (map (\<lambda>n. (n, f n)) names) name = (if name \<in> set names then Some (f name) else None)"
  by (induction names) auto

lemma map_fst_names [simp]: "map fst (map (\<lambda>n. (n, f n)) names) = names"
  by (simp add: comp_def)

lemma names_of_sorted: "sorted (names_of b x y)" "distinct (names_of b x y)"
  by (simp_all add: names_of_def sortedKeys_sorted)

lemma gather_yields:
  assumes "sorted_fields fs" "fst ` set fs \<subseteq> set names" "sorted names" "distinct names"
  shows "gather (map (\<lambda>n. (n, yields (map_of fs n))) names) = yields (Some (NObject fs))"
proof -
  let ?ms = "map (\<lambda>n. (n, yields (map_of fs n))) names"
  have "present ?ms = fs"
  proof (rule sorted_fields_unique)
    show "sorted_fields (present ?ms)" using assms by (intro present_sorted) (simp_all add: comp_def)
    show "map_of (present ?ms) = map_of fs"
    proof
      fix n
      show "map_of (present ?ms) n = map_of fs n"
        using assms(2,4) map_of_present [of ?ms n] map_of_eq_None_iff [of fs n]
        by (cases "n \<in> set names") (auto simp: comp_def map_of_names yields_def)
    qed
  qed (rule assms(1))
  then have "r_value (gather ?ms) = Some (NObject fs)" using assms gather_value [of ?ms] by (simp add: comp_def)
  then show ?thesis by (simp add: gather_def yields_def comp_def)
qed

lemma fields_subset_names:
  "fst ` set (fields_of b) \<subseteq> set (names_of b x y)" "fst ` set (fields_of x) \<subseteq> set (names_of b x y)"
  "fst ` set (fields_of y) \<subseteq> set (names_of b x y)"
  by (auto simp: set_names_of)

lemma object_yields:
  assumes "is_object n" "opt_wf n" "fst ` set (fields_of n) \<subseteq> set (names_of b x y)"
  shows "gather (map (\<lambda>name. (name, yields (byName n name))) (names_of b x y)) = yields n"
  using assms gather_yields [of "fields_of n" "names_of b x y"] names_of_sorted [of b x y]
  by (cases n rule: is_object.cases) (simp_all add: byName_def sorted_fields_def)

section \<open>An unchanged side yields\<close>

text \<open>Objects: the fields merge one by one, so a side that wins every field wins the object.\<close>

lemma mergeNode_object:
  "is_object x \<Longrightarrow> is_object y \<Longrightarrow> b = None \<or> is_object b \<Longrightarrow> mergeNode isprint opts path b x y =
     gather (map (\<lambda>name. (name, mergeNode isprint opts (path @ [name])
       (byName b name) (byName x name) (byName y name))) (names_of b x y))"
  by (subst mergeNode.simps) simp

lemma mergeNode_other:
  "\<not> (is_object x \<and> is_object y \<and> (b = None \<or> is_object b)) \<Longrightarrow>
     mergeNode isprint opts path b x y = mergeOther isprint opts path b x y"
  by (subst mergeNode.simps) (simp only: if_False)

lemma mergeNode_object_yields:
  assumes "is_object x" "is_object y" "b = None \<or> is_object b" "is_object n" "opt_wf n" "n \<in> {b, x, y}"
    "\<And>name. name \<in> set (names_of b x y) \<Longrightarrow> mergeNode isprint opts (path @ [name])
       (byName b name) (byName x name) (byName y name) = yields (byName n name)"
  shows "mergeNode isprint opts path b x y = yields n"
proof -
  have "fst ` set (fields_of n) \<subseteq> set (names_of b x y)" using assms(6) by (auto simp: set_names_of)
  from object_yields [OF assms(4,5) this] assms(7) show ?thesis
    unfolding mergeNode_object [OF assms(1-3)] by (simp cong: map_cong)
qed

lemma mergeNode_agree:
  assumes "x = y" "opt_wf x"
  shows "mergeNode isprint opts path b x y = yields x"
  using assms
proof (induction isprint opts path b x y rule: mergeNode.induct)
  case (1 isprint opts path b x y)
  show ?case
  proof (cases "is_object x \<and> is_object y \<and> (b = None \<or> is_object b)")
    case True
    show ?thesis
      by (rule mergeNode_object_yields) (use True "1.IH" [OF True] "1.prems" opt_wf_byName in auto)
  next
    case False
    then show ?thesis using "1.prems" by (simp add: mergeNode_other mergeOther_def)
  qed
qed

lemma mergeNode_ours_unchanged:
  assumes "x = b" "opt_wf b" "opt_wf y"
  shows "mergeNode isprint opts path b x y = yields y"
  using assms
proof (induction isprint opts path b x y rule: mergeNode.induct)
  case (1 isprint opts path b x y)
  show ?case
  proof (cases "is_object x \<and> is_object y \<and> (b = None \<or> is_object b)")
    case True
    show ?thesis
      by (rule mergeNode_object_yields) (use True "1.IH" [OF True] "1.prems" opt_wf_byName in auto)
  next
    case False
    then show ?thesis using "1.prems" by (auto simp: mergeNode_other mergeOther_def)
  qed
qed

lemma mergeNode_theirs_unchanged:
  "y = b \<Longrightarrow> opt_wf b \<Longrightarrow> opt_wf x \<Longrightarrow> mergeNode isprint opts path b x y = yields x"
  using mergeNode_ours_unchanged [of y b x] mergeNode_sym [of b x y] by simp

section \<open>Comparing first\<close>

text \<open>The merge that compares whole values before it looks inside them, at every level.\<close>

function compareFirst ::
  "(nat \<Rightarrow> bool) \<Rightarrow> tree_options \<Rightarrow> path \<Rightarrow> node option \<Rightarrow> node option \<Rightarrow> node option \<Rightarrow> merged" where
  "compareFirst isprint opts path b x y =
     (if x = y then yields x
      else if x = b then yields y
      else if y = b then yields x
      else if is_object x \<and> is_object y \<and> (b = None \<or> is_object b)
      then gather (map (\<lambda>name. (name, compareFirst isprint opts (path @ [name])
             (byName b name) (byName x name) (byName y name))) (names_of b x y))
      else mergeOther isprint opts path b x y)"
  by pat_completeness auto
termination
  by (relation "measure (\<lambda>(_, _, _, b, x, y). opt_size b + opt_size x + opt_size y)")
    (auto intro!: add_le_less_mono add_le_mono byName_le byName_decreases)

declare compareFirst.simps [simp del]

lemma mergeNode_compareFirst:
  assumes "opt_wf b" "opt_wf x" "opt_wf y"
  shows "mergeNode isprint opts path b x y = compareFirst isprint opts path b x y"
  using assms
proof (induction isprint opts path b x y rule: compareFirst.induct)
  case (1 isprint opts path b x y)
  show ?case
  proof (cases "x = y \<or> x = b \<or> y = b")
    case True
    then show ?thesis
      using "1.prems" mergeNode_agree [of x y] mergeNode_ours_unchanged [of x b y] mergeNode_theirs_unchanged [of y b x]
      by (auto simp: compareFirst.simps [of isprint opts path])
  next
    case False
    then have ne: "x \<noteq> y" "x \<noteq> b" "y \<noteq> b" by auto
    show ?thesis
    proof (cases "is_object x \<and> is_object y \<and> (b = None \<or> is_object b)")
      case True
      have "mergeNode isprint opts (path @ [name]) (byName b name) (byName x name) (byName y name) =
          compareFirst isprint opts (path @ [name]) (byName b name) (byName x name) (byName y name)"
        if "name \<in> set (names_of b x y)" for name
        using "1.IH" [OF ne True that] "1.prems" opt_wf_byName by blast
      with True ne show ?thesis
        by (subst compareFirst.simps) (simp add: mergeNode_object cong: map_cong)
    next
      case other: False
      then show ?thesis using ne by (subst compareFirst.simps) (simp only: mergeNode_other [OF other] if_False)
    qed
  qed
qed


section \<open>What the merged value is made of\<close>

lemma FormatInt_number_ok: "number_ok (FormatInt i)"
  using itoa_digits itoa_nonempty
  by (auto simp: FormatInt_def number_ok_def number_char_def list_all_iff)

text \<open>
  A predicate on values that is decided by the parts of a value, and that numbers the merge
  computes have, holds of the merge when it holds of what is merged. The parameter is what is
  left of a budget that each level uses one of.
\<close>

lemma mergeOther_value:
  obtains "r_value (mergeOther isprint opts path b x y) \<in> {b, x, y}"
  | i where "r_value (mergeOther isprint opts path b x y) = Some (NNumber (FormatInt i))"
  | bs xs ys es where "b = Some (NArray bs)" "x = Some (NArray xs)" "y = Some (NArray ys)"
      "r_value (mergeOther isprint opts path b x y) = Some (NArray es)" "set es \<subseteq> set bs \<union> set xs \<union> set ys"
proof -
  let ?m = "mergeOther isprint opts path b x y"
  have ctr: "r_value (mergeCounter path b x y) = b \<or> (\<exists>i. r_value (mergeCounter path b x y) = Some (NNumber (FormatInt i)))"
    by (auto simp: mergeCounter_def yields_def conflicts_at_def split: option.split)
  have arr: "\<exists>es. r_value (mergeArrays isprint path bs xs ys) = Some (NArray es) \<and> set es \<subseteq> set bs \<union> set xs \<union> set ys"
    for bs xs ys using Sequence_elements [of bs xs ys] by (simp add: mergeArrays_def Let_def)
  have cases: "r_value ?m \<in> {b, x, y} \<or> ?m = mergeCounter path b x y \<or>
      is_array b \<and> is_array x \<and> is_array y \<and> ?m = mergeArrays isprint path (elems_of b) (elems_of x) (elems_of y)"
    by (simp add: mergeOther_def yields_def conflicts_at_def)
  consider "r_value ?m \<in> {b, x, y}" | "?m = mergeCounter path b x y"
    | "is_array b" "is_array x" "is_array y" "?m = mergeArrays isprint path (elems_of b) (elems_of x) (elems_of y)"
    using cases by blast
  then show ?thesis
  proof cases
    case 2
    then show ?thesis using ctr that(1,2) by auto
  next
    case 3
    have "n = Some (NArray (elems_of n))" if "is_array n" for n using that by (cases n rule: is_array.cases) auto
    then show ?thesis using 3 arr [of "elems_of b" "elems_of x" "elems_of y"] that(3) by metis
  qed (rule that(1))
qed

lemma mergeNode_wf:
  assumes "opt_wf b" "opt_wf x" "opt_wf y"
  shows "opt_wf (r_value (mergeNode isprint opts path b x y))"
  using assms
proof (induction isprint opts path b x y rule: mergeNode.induct)
  case (1 isprint opts path b x y)
  show ?case
  proof (cases "is_object x \<and> is_object y \<and> (b = None \<or> is_object b)")
    case True
    let ?ms = "map (\<lambda>name. (name, mergeNode isprint opts (path @ [name]) (byName b name) (byName x name) (byName y name)))
      (names_of b x y)"
    have wf: "opt_wf (r_value m)" if "(name, m) \<in> set ?ms" for name m
      using that "1.IH" [OF True] "1.prems" opt_wf_byName by auto
    have sorted: "sorted (map fst ?ms)" "distinct (map fst ?ms)" using names_of_sorted [of b x y] by (simp_all only: map_fst_names)
    have "node_wf (snd f)" if f: "f \<in> set (present ?ms)" for f
    proof -
      obtain m where m: "(fst f, m) \<in> set ?ms" "r_value m = Some (snd f)" using f by (rule present_member)
      from wf [OF m(1)] m(2) show ?thesis by simp
    qed
    then show ?thesis
      using True present_sorted [OF sorted] gather_value [OF sorted] by (simp add: mergeNode_object)
  next
    case False
    show ?thesis
      using "1.prems" FormatInt_number_ok mergeNode_other [OF False]
      by (cases rule: mergeOther_value [of isprint opts path b x y]) auto
  qed
qed

definition opt_deeper :: "node option \<Rightarrow> nat \<Rightarrow> bool" where
  "opt_deeper n limit \<longleftrightarrow> (\<exists>v. n = Some v \<and> deeper v limit)"

lemma opt_deeper_byName:
  assumes "is_object n" "\<not> opt_deeper n limit"
  shows "0 < limit" "\<not> opt_deeper (byName n name) (limit - 1)"
  using assms by (cases n rule: is_object.cases; auto simp: opt_deeper_def byName_def dest!: map_of_SomeD)+

lemma mergeNode_depth:
  assumes "\<not> opt_deeper b limit" "\<not> opt_deeper x limit" "\<not> opt_deeper y limit"
  shows "\<not> opt_deeper (r_value (mergeNode isprint opts path b x y)) limit"
  using assms
proof (induction isprint opts path b x y arbitrary: limit rule: mergeNode.induct)
  case (1 isprint opts path b x y)
  show ?case
  proof (cases "is_object x \<and> is_object y \<and> (b = None \<or> is_object b)")
    case True
    let ?ms = "map (\<lambda>name. (name, mergeNode isprint opts (path @ [name]) (byName b name) (byName x name) (byName y name)))
      (names_of b x y)"
    have b: "\<not> opt_deeper (byName b name) (limit - 1)" for name
      using True "1.prems"(1) opt_deeper_byName [of b] by (auto simp: byName_def opt_deeper_def)
    have ms: "\<not> opt_deeper (r_value m) (limit - 1)" if "(name, m) \<in> set ?ms" for name m
      using that "1.IH" [OF True _ b] opt_deeper_byName(2) True "1.prems" by auto
    have sorted: "sorted (map fst ?ms)" "distinct (map fst ?ms)" using names_of_sorted [of b x y] by (simp_all only: map_fst_names)
    have "\<not> deeper (snd f) (limit - 1)" if f: "f \<in> set (present ?ms)" for f
    proof -
      obtain m where m: "(fst f, m) \<in> set ?ms" "r_value m = Some (snd f)" using f by (rule present_member)
      from ms [OF m(1)] m(2) show ?thesis by (simp add: opt_deeper_def)
    qed
    then show ?thesis
      using True gather_value [OF sorted] opt_deeper_byName(1) [of x limit] "1.prems"(2)
      by (auto simp: mergeNode_object opt_deeper_def)
  next
    case False
    show ?thesis
      using "1.prems" mergeNode_other [OF False]
      by (cases rule: mergeOther_value [of isprint opts path b x y]) (auto simp: opt_deeper_def)
  qed
qed

lemma mergeNode_nothing: "mergeNode isprint opts path None None None = yields None"
  by (subst mergeNode.simps) (simp add: mergeOther_def)

lemma mergeNode_field:
  assumes "is_object x" "is_object y" "b = None \<or> is_object b"
  shows "byName (r_value (mergeNode isprint opts path b x y)) name =
    r_value (mergeNode isprint opts (path @ [name]) (byName b name) (byName x name) (byName y name))"
proof -
  let ?m = "\<lambda>name. mergeNode isprint opts (path @ [name]) (byName b name) (byName x name) (byName y name)"
  let ?ms = "map (\<lambda>name. (name, ?m name)) (names_of b x y)"
  have sorted: "sorted (map fst ?ms)" "distinct (map fst ?ms)" using names_of_sorted [of b x y] by (simp_all only: map_fst_names)
  have "byName (r_value (mergeNode isprint opts path b x y)) name = map_of (present ?ms) name"
    using gather_value [OF sorted] by (simp add: mergeNode_object [OF assms] byName_def)
  also have "\<dots> = Option.bind (map_of ?ms name) r_value" by (rule map_of_present [OF sorted(2)])
  also have "\<dots> = r_value (?m name)"
  proof (cases "name \<in> set (names_of b x y)")
    case False
    then have "byName b name = None" "byName x name = None" "byName y name = None"
      by (simp_all add: byName_None_iff set_names_of)
    with False show ?thesis by (simp only: map_of_names mergeNode_nothing) (simp add: yields_def)
  qed (simp only: map_of_names, simp)
  finally show ?thesis .
qed

section \<open>Properties\<close>

lemma Tree_mergeNode:
  assumes "\<not> deeper base MaxDepth" "\<not> deeper ours MaxDepth" "\<not> deeper theirs MaxDepth"
  shows "Tree isprint base ours theirs opts =
    (let r = mergeNode isprint opts [] (Some base) (Some ours) (Some theirs) in
     \<lparr>r_value = (case r_value r of Some v \<Rightarrow> v | None \<Rightarrow> NNull), r_conflicts = r_conflicts r, r_flagged = r_flagged r\<rparr>)"
  using assms by (simp add: Tree_def)

text \<open>
  C32. Canonical text. The writer with a stack of its own writes what the recursive definition
  of the text says, whatever the nesting, and over values whose numbers are numbers two values
  have the same text exactly when they are the same value; so comparing texts, comparing part by
  part and equality agree.
\<close>

theorem Canonical_one_text_per_value:
  assumes "numbers_ok n" "numbers_ok m"
  shows "Canonical isprint n = canonical_spec isprint n \<and>
    (Equal isprint n m \<longleftrightarrow> n = m) \<and> (Equal isprint n m \<longleftrightarrow> node_equal n m)"
  using Canonical_inj [OF assms, of isprint] by (auto simp: Equal_def Canonical_spec)

theorem Canonical_one_text_per_value_witness:
  "\<not> Equal (\<lambda>_. True) (NArray [NString ''a'', NNull]) (NArray [NString ''a,null''])"
  using Canonical_one_text_per_value [of "NArray [NString ''a'', NNull]" "NArray [NString ''a,null'']" "\<lambda>_. True"]
  by simp

text \<open>
  C29. The merge of trees does not depend on which side is ours: value, conflicts and flags are
  the same with the sides swapped, for any well-formed values of any depth and any counters.
\<close>

theorem Tree_symmetric:
  assumes "node_wf base" "node_wf ours" "node_wf theirs"
  shows "Tree isprint base ours theirs opts = Tree isprint base theirs ours opts"
  using mergeNode_sym [of "Some base" "Some ours" "Some theirs" isprint opts "[]"] assms
  by (auto simp: Tree_def)

theorem Tree_symmetric_witness:
  "Tree (\<lambda>_. True) NNull (NBool True) (NBool False) None = Tree (\<lambda>_. True) NNull (NBool False) (NBool True) None"
  by (rule Tree_symmetric) simp_all

text \<open>
  A side that left the value as the base had it yields: the merge is the other side,
  with no conflict and no flag, and equal changes land once.
\<close>

theorem Tree_unchanged_yields:
  assumes "node_wf base" "node_wf other" "\<not> deeper base MaxDepth" "\<not> deeper other MaxDepth"
  shows "Tree isprint base base other opts = \<lparr>r_value = other, r_conflicts = [], r_flagged = []\<rparr> \<and>
    Tree isprint base other base opts = \<lparr>r_value = other, r_conflicts = [], r_flagged = []\<rparr> \<and>
    Tree isprint base other other opts = \<lparr>r_value = other, r_conflicts = [], r_flagged = []\<rparr>"
  using assms mergeNode_ours_unchanged [of "Some base" "Some base" "Some other" isprint opts "[]"]
    mergeNode_theirs_unchanged [of "Some base" "Some base" "Some other" isprint opts "[]"]
    mergeNode_agree [of "Some other" "Some other" isprint opts "[]" "Some base"]
  by (simp add: Tree_mergeNode yields_def)

theorem Tree_unchanged_yields_witness:
  "r_value (Tree (\<lambda>_. True) (NObject [(''a'', NNull)]) (NObject [(''a'', NNull)]) (NObject [(''b'', NNull)]) None) =
    NObject [(''b'', NNull)]"
  using Tree_unchanged_yields [of "NObject [(''a'', NNull)]" "NObject [(''b'', NNull)]" "\<lambda>_. True" None]
  by (simp add: sorted_fields_def MaxDepth_def)

text \<open>
  C28. Merging the fields of objects straight away gives exactly what comparing whole values
  first, at every level, gives: the merge the code runs is the reference merge.
\<close>

theorem mergeNode_is_compare_first:
  assumes "opt_wf b" "opt_wf x" "opt_wf y"
  shows "mergeNode isprint opts path b x y = compareFirst isprint opts path b x y"
  by (rule mergeNode_compareFirst [OF assms])

theorem mergeNode_is_compare_first_witness:
  "mergeNode (\<lambda>_. True) None [] None (Some (NObject [(''a'', NNull)])) (Some (NObject [(''b'', NNull)])) =
   compareFirst (\<lambda>_. True) None [] None (Some (NObject [(''a'', NNull)])) (Some (NObject [(''b'', NNull)]))"
  by (rule mergeNode_is_compare_first) (simp_all add: sorted_fields_def)

text \<open>
  C31. The merge keeps the form of values: from well-formed values no deeper than the limit it
  makes a well-formed value no deeper than the limit; and a value past the limit is refused with
  one conflict at the root and the base kept.
\<close>

theorem Tree_keeps_form:
  assumes "node_wf base" "node_wf ours" "node_wf theirs"
  shows "node_wf (r_value (Tree isprint base ours theirs opts)) \<and>
    (if deeper base MaxDepth \<or> deeper ours MaxDepth \<or> deeper theirs MaxDepth
     then r_value (Tree isprint base ours theirs opts) = base \<and>
       map c_path (r_conflicts (Tree isprint base ours theirs opts)) = [[]]
     else \<not> deeper (r_value (Tree isprint base ours theirs opts)) MaxDepth)"
  using assms mergeNode_wf [of "Some base" "Some ours" "Some theirs" isprint opts "[]"]
    mergeNode_depth [of "Some base" MaxDepth "Some ours" "Some theirs" isprint opts "[]"]
  by (auto simp: Tree_def Let_def opt_deeper_def split: option.split)

theorem Tree_keeps_form_witness:
  "node_wf (r_value (Tree (\<lambda>_. True) NNull (NObject [(''a'', NNull)]) (NBool True) None))"
  using Tree_keeps_form [of NNull "NObject [(''a'', NNull)]" "NBool True" "\<lambda>_. True" None]
  by (simp add: sorted_fields_def)

text \<open>
  C30. Fields changed on different sides both land: in the merge of objects every field that one
  side left as the base had it (absent included) holds what the other side made of it, a deletion
  included, whatever happened to the other fields.
\<close>

theorem Tree_fields_land:
  assumes "node_wf (NObject bs)" "node_wf (NObject xs)" "node_wf (NObject ys)"
    "\<not> deeper (NObject bs) MaxDepth" "\<not> deeper (NObject xs) MaxDepth" "\<not> deeper (NObject ys) MaxDepth"
    "map_of xs name = map_of bs name"
  shows "\<exists>fs gs. r_value (Tree isprint (NObject bs) (NObject xs) (NObject ys) opts) = NObject fs \<and>
    r_value (Tree isprint (NObject bs) (NObject ys) (NObject xs) opts) = NObject gs \<and>
    map_of fs name = map_of ys name \<and> map_of gs name = map_of ys name"
proof -
  let ?b = "Some (NObject bs)" and ?x = "Some (NObject xs)" and ?y = "Some (NObject ys)"
  let ?m = "mergeNode isprint opts [] ?b ?x ?y"
  have wf: "opt_wf ?b" "opt_wf ?x" "opt_wf ?y" using assms(1-3) by (simp_all only: opt_wf_simps)
  have "byName (r_value ?m) name = map_of ys name"
    using mergeNode_ours_unchanged [of "byName ?x name" "byName ?b name" "byName ?y name" isprint opts "[name]"]
      mergeNode_field [of ?x ?y ?b isprint opts "[]" name] assms(7) opt_wf_byName [OF wf(1)] opt_wf_byName [OF wf(3)]
    by (simp add: byName_def yields_def)
  moreover have "\<exists>fs. r_value ?m = Some (NObject fs)"
    by (simp add: mergeNode_object gather_def Obj_def)
  ultimately show ?thesis
    using Tree_mergeNode [OF assms(4-6)] Tree_mergeNode [OF assms(4,6,5)] mergeNode_sym [OF wf, of isprint opts "[]"]
    by (auto simp: byName_def Let_def)
qed

theorem Tree_fields_land_witness:
  "\<exists>fs gs. r_value (Tree (\<lambda>_. True) (NObject [(''a'', NNull)]) (NObject [(''a'', NNull)]) (NObject []) None) = NObject fs \<and>
    r_value (Tree (\<lambda>_. True) (NObject [(''a'', NNull)]) (NObject []) (NObject [(''a'', NNull)]) None) = NObject gs \<and>
    map_of fs ''a'' = None \<and> map_of gs ''a'' = None"
  using Tree_fields_land [of "[(''a'', NNull)]" "[(''a'', NNull)]" "[]" "''a''" "\<lambda>_. True" None]
  by (simp add: sorted_fields_def MaxDepth_def)

end
