(* ===== verification/Wire.thy ===== *)
theory Wire
  imports Go_Text "HOL-Library.Product_Lexorder"
begin

text \<open>
  What the models rely on of the storage core's \<open>wire\<close> package, which is not part of this
  repository: a writer and a reader of fixed-width integers, minimal varints and length-prefixed
  bytes. The package is a parameter, a record of its operations; the locale \<open>wire_laws\<close>
  states what the code relies on (a value written is read back, and what is read was written, so
  each value has one spelling), and \<open>std_wire\<close>, the format of Go's \<open>encoding/binary\<close>
  (little-endian integers, LEB128 varints), is shown to satisfy it.

  The package's reader keeps its first error and reads zeros after it; every user looks at
  \<open>Err\<close> or \<open>Done\<close> before it trusts what it read, so a read is a partial function here
  and a failed one ends the parse. Errors are modelled by the sentinels \<open>errors.Is\<close> finds
  in them; their texts are not.
\<close>

section \<open>Errors\<close>

datatype sentinel =
    ErrWire          \<comment> \<open>the wire reader's own error\<close>
  | ErrValue         \<comment> \<open>model/kv/value.go\<close>
  | ErrKey           \<comment> \<open>model/kv/kv.go\<close>
  | ErrChangedSince  \<comment> \<open>the models' rebase.go\<close>
  | ErrDocument      \<comment> \<open>model/document/json.go\<close>
  | ErrID            \<comment> \<open>model/document/document.go\<close>
  | ErrSchema        \<comment> \<open>model/table/table.go\<close>
  | ErrCell          \<comment> \<open>\<open>ErrValue\<close> of model/table/cell.go\<close>
  | ErrDuplicate     \<comment> \<open>model/table/store.go\<close>
  | ErrNoRow         \<comment> \<open>\<open>ErrNotFound\<close> of model/table/store.go\<close>
  | ErrUnknownModel  \<comment> \<open>the storage core's model package\<close>
  | ErrCorrupt       \<comment> \<open>the storage core's chunk package\<close>
  | ErrStore         \<comment> \<open>any other error of the storage core\<close>

type_synonym error = "sentinel list"
type_synonym 'a result = "error + 'a"

definition errors_Is :: "error \<Rightarrow> sentinel \<Rightarrow> bool" where
  "errors_Is e s \<longleftrightarrow> s \<in> set e"

definition and_then :: "'a result \<Rightarrow> ('a \<Rightarrow> 'b result) \<Rightarrow> 'b result" where
  "and_then r f = (case r of Inl e \<Rightarrow> Inl e | Inr x \<Rightarrow> f x)"

definition ensure :: "bool \<Rightarrow> error \<Rightarrow> 'a result \<Rightarrow> 'a result" where
  "ensure ok e r = (if ok then r else Inl e)"

definition of_read :: "error \<Rightarrow> 'a option \<Rightarrow> 'a result" where
  "of_read e r = (case r of None \<Rightarrow> Inl e | Some x \<Rightarrow> Inr x)"

named_theorems result_simps \<open>evaluation of results\<close>

lemma and_then_simps [simp, result_simps]:
  "and_then (Inl e) f = Inl e" "and_then (Inr x) f = f x"
  by (simp_all add: and_then_def)

lemma and_then_Inr: "and_then r f = Inr y \<longleftrightarrow> (\<exists>x. r = Inr x \<and> f x = Inr y)"
  by (cases r) simp_all

lemma and_then_Inl: "and_then r f = Inl e \<longleftrightarrow> r = Inl e \<or> (\<exists>x. r = Inr x \<and> f x = Inl e)"
  by (cases r) simp_all

lemma ensure_Inr [simp]: "ensure ok e r = Inr y \<longleftrightarrow> ok \<and> r = Inr y"
  by (simp add: ensure_def)

lemma of_read_Inr [simp]: "of_read e r = Inr y \<longleftrightarrow> r = Some y"
  by (cases r) (simp_all add: of_read_def)

lemma of_read_Some [simp]: "of_read e (Some x) = Inr x"
  by (simp add: of_read_def)

section \<open>The interface\<close>

record wire =
  w_u16 :: "16 word \<Rightarrow> bytes"
  w_u32 :: "32 word \<Rightarrow> bytes"
  w_u64 :: "64 word \<Rightarrow> bytes"
  w_uvarint :: "nat \<Rightarrow> bytes"
  w_lenbytes :: "bytes \<Rightarrow> bytes"
  rd_u16 :: "bytes \<Rightarrow> (16 word \<times> bytes) option"
  rd_u32 :: "bytes \<Rightarrow> (32 word \<times> bytes) option"
  rd_u64 :: "bytes \<Rightarrow> (64 word \<times> bytes) option"
  rd_uvarint :: "bytes \<Rightarrow> (nat \<times> bytes) option"
  rd_lenbytes :: "nat \<Rightarrow> bytes \<Rightarrow> (bytes \<times> bytes) option"

text \<open>One byte, and a run of bytes of known length, need no format.\<close>

definition rd_u8 :: "bytes \<Rightarrow> (byte \<times> bytes) option" where
  "rd_u8 s = (case s of [] \<Rightarrow> None | c # t \<Rightarrow> Some (c, t))"

definition rd_raw :: "nat \<Rightarrow> bytes \<Rightarrow> (bytes \<times> bytes) option" where
  "rd_raw n s = (if n \<le> length s then Some (take n s, drop n s) else None)"

text \<open>\<open>encoding/binary.AppendUvarint\<close>, which \<open>LenBytes\<close> prefixes bytes with.\<close>

fun AppendUvarint :: "nat \<Rightarrow> bytes" where
  "AppendUvarint n = (if n < 128 then [byte_of n] else byte_of (n mod 128 + 128) # AppendUvarint (n div 128))"

declare AppendUvarint.simps [simp del]

text \<open>\<open>codec w rd\<close>: what is written is read back with the rest intact, and what is read was written.\<close>

definition codec :: "('a \<Rightarrow> bool) \<Rightarrow> ('a \<Rightarrow> bytes) \<Rightarrow> (bytes \<Rightarrow> ('a \<times> bytes) option) \<Rightarrow> bool" where
  "codec ok w rd \<longleftrightarrow> (\<forall>x s. ok x \<longrightarrow> rd (w x @ s) = Some (x, s)) \<and>
     (\<forall>s x t. rd s = Some (x, t) \<longrightarrow> ok x \<and> s = w x @ t)"

lemma codecD:
  assumes "codec ok w rd"
  shows "ok x \<Longrightarrow> rd (w x @ s) = Some (x, s)" "rd s = Some (x, t) \<Longrightarrow> ok x \<and> s = w x @ t"
  using assms by (simp_all add: codec_def)

locale wire_laws =
  fixes W :: wire
  assumes u16: "codec (\<lambda>_. True) (w_u16 W) (rd_u16 W)"
    and u32: "codec (\<lambda>_. True) (w_u32 W) (rd_u32 W)"
    and u64: "codec (\<lambda>_. True) (w_u64 W) (rd_u64 W)"
    and uvarint: "codec (\<lambda>n. n < 2 ^ 64) (w_uvarint W) (rd_uvarint W)"
    and lenbytes: "codec (\<lambda>b. length b \<le> limit \<and> length b < 2 ^ 64) (w_lenbytes W) (rd_lenbytes W limit)"
    and lenbytes_format: "w_lenbytes W b = AppendUvarint (length b) @ b"
begin

lemma reads_back:
  "rd_u16 W (w_u16 W x @ s) = Some (x, s)" "rd_u32 W (w_u32 W y @ s) = Some (y, s)"
  "rd_u64 W (w_u64 W z @ s) = Some (z, s)" "n < 2 ^ 64 \<Longrightarrow> rd_uvarint W (w_uvarint W n @ s) = Some (n, s)"
  "length b \<le> limit \<Longrightarrow> length b < 2 ^ 64 \<Longrightarrow> rd_lenbytes W limit (w_lenbytes W b @ s) = Some (b, s)"
  using codecD(1) [OF u16] codecD(1) [OF u32] codecD(1) [OF u64] codecD(1) [OF uvarint] codecD(1) [OF lenbytes]
  by simp_all

lemma was_written:
  "rd_u16 W s = Some (x, t) \<Longrightarrow> s = w_u16 W x @ t" "rd_u32 W s = Some (y, t) \<Longrightarrow> s = w_u32 W y @ t"
  "rd_u64 W s = Some (z, t) \<Longrightarrow> s = w_u64 W z @ t"
  "rd_uvarint W s = Some (n, t) \<Longrightarrow> n < 2 ^ 64 \<and> s = w_uvarint W n @ t"
  "rd_lenbytes W limit s = Some (b, t) \<Longrightarrow> length b \<le> limit \<and> s = w_lenbytes W b @ t"
  using codecD(2) [OF u16] codecD(2) [OF u32] codecD(2) [OF u64] codecD(2) [OF uvarint] codecD(2) [OF lenbytes]
  by auto

end

lemma rd_raw_append [simp]: "length b = n \<Longrightarrow> rd_raw n (b @ s) = Some (b, s)"
  by (simp add: rd_raw_def)

lemma rd_raw_Some: "rd_raw n s = Some (b, t) \<Longrightarrow> length b = n \<and> s = b @ t"
  by (auto simp: rd_raw_def split: if_splits)

section \<open>The format of encoding/binary\<close>

fun le_bytes :: "nat \<Rightarrow> nat \<Rightarrow> bytes" where
  "le_bytes 0 n = []"
| "le_bytes (Suc k) n = byte_of (n mod 256) # le_bytes k (n div 256)"

fun le_val :: "bytes \<Rightarrow> nat" where
  "le_val [] = 0"
| "le_val (c # s) = bval c + 256 * le_val s"

definition rd_le :: "nat \<Rightarrow> bytes \<Rightarrow> ('a::len word \<times> bytes) option" where
  "rd_le k s = map_option (\<lambda>(b, t). (of_nat (le_val b), t)) (rd_raw k s)"

fun read_uvarint :: "bytes \<Rightarrow> (nat \<times> bytes) option" where
  "read_uvarint [] = None"
| "read_uvarint (c # s) =
     (if bval c < 128 then Some (bval c, s)
      else case read_uvarint s of None \<Rightarrow> None
        | Some (v, t) \<Rightarrow> if v = 0 then None else Some (v * 128 + (bval c - 128), t))"

definition Uvarint :: "bytes \<Rightarrow> (nat \<times> bytes) option" where
  "Uvarint s = (case read_uvarint s of None \<Rightarrow> None | Some (n, t) \<Rightarrow> if n < 2 ^ 64 then Some (n, t) else None)"

definition std_wire :: wire where
  "std_wire = \<lparr>w_u16 = (\<lambda>x. le_bytes 2 (unat x)), w_u32 = (\<lambda>x. le_bytes 4 (unat x)),
     w_u64 = (\<lambda>x. le_bytes 8 (unat x)), w_uvarint = AppendUvarint,
     w_lenbytes = (\<lambda>b. AppendUvarint (length b) @ b),
     rd_u16 = rd_le 2, rd_u32 = rd_le 4, rd_u64 = rd_le 8, rd_uvarint = Uvarint,
     rd_lenbytes = (\<lambda>limit s. case Uvarint s of None \<Rightarrow> None
       | Some (n, t) \<Rightarrow> if n \<le> limit then rd_raw n t else None)\<rparr>"

lemma length_le_bytes [simp]: "length (le_bytes k n) = k"
  by (induction k n rule: le_bytes.induct) auto

lemma le_val_le_bytes: "n < 256 ^ k \<Longrightarrow> le_val (le_bytes k n) = n"
proof (induction k n rule: le_bytes.induct)
  case (2 k n)
  then have "n div 256 < 256 ^ k" by (simp add: less_mult_imp_div_less mult.commute)
  with 2 show ?case by simp
qed simp

lemma le_bytes_le_val: "le_bytes (length b) (le_val b) = b"
proof (induction b)
  case (Cons c b)
  have "(bval c + 256 * le_val b) mod 256 = bval c" "(bval c + 256 * le_val b) div 256 = le_val b"
    using bval_less [of c] by simp_all
  with Cons show ?case by simp
qed simp

lemma le_val_less: "le_val b < 256 ^ length b"
proof (induction b)
  case (Cons c b)
  then have "le_val b \<le> 256 ^ length b - 1" by simp
  then have "256 * le_val b + 256 \<le> 256 * 256 ^ length b" using Cons by simp
  moreover have "bval c < 256" by simp
  ultimately show ?case unfolding le_val.simps length_Cons power_Suc by linarith
qed simp

lemma codec_le:
  assumes "(256 :: nat) ^ k = 2 ^ LENGTH('a::len)"
  shows "codec (\<lambda>_. True) (\<lambda>x :: 'a word. le_bytes k (unat x)) (rd_le k)"
  unfolding codec_def
proof (intro conjI allI impI)
  fix x :: "'a word" and s
  have "unat x < 256 ^ k" unfolding assms by simp
  then show "rd_le k (le_bytes k (unat x) @ s) = Some (x, s)"
    by (simp add: rd_le_def le_val_le_bytes)
next
  fix s t and x :: "'a word" assume "rd_le k s = Some (x, t)"
  then obtain b where b: "rd_raw k s = Some (b, t)" "x = of_nat (le_val b)" by (auto simp: rd_le_def)
  from rd_raw_Some [OF b(1)] have l: "length b = k" "s = b @ t" by auto
  then have "unat x = le_val b" using le_val_less [of b] assms by (simp add: b(2) unat_of_nat take_bit_nat_eq_self)
  with l show "s = le_bytes k (unat x) @ t" using le_bytes_le_val [of b] by simp
qed simp

lemma read_uvarint_Append: "read_uvarint (AppendUvarint n @ s) = Some (n, s)"
proof (induction n rule: AppendUvarint.induct)
  case (1 n)
  show ?case
  proof (cases "n < 128")
    case False
    have "n mod 128 + 128 < 256" by (simp add: less_diff_conv [symmetric])
    with False 1 show ?thesis by (subst AppendUvarint.simps) (auto simp: mult.commute)
  qed (subst AppendUvarint.simps, simp)
qed

lemma read_uvarint_Some: "read_uvarint s = Some (n, t) \<Longrightarrow> s = AppendUvarint n @ t"
proof (induction s arbitrary: n t)
  case (Cons c s)
  show ?case
  proof (cases "bval c < 128")
    case False
    with Cons.prems obtain v where v: "read_uvarint s = Some (v, t)" "0 < v" "n = v * 128 + (bval c - 128)"
      by (auto split: option.splits if_splits)
    have "bval c - 128 < 128" using bval_less [of c] by linarith
    then have n: "n mod 128 = bval c - 128" "n div 128 = v" "128 \<le> n" using v by simp_all
    with False have "n mod 128 + 128 = bval c" by simp
    with n Cons.IH [OF v(1)] show ?thesis by (subst AppendUvarint.simps) (simp add: char_of_eqI)
  qed (use Cons.prems in \<open>auto simp: AppendUvarint.simps [of n]\<close>)
qed simp

lemma codec_Uvarint: "codec (\<lambda>n. n < 2 ^ 64) AppendUvarint Uvarint"
  by (auto simp: codec_def Uvarint_def read_uvarint_Append dest: read_uvarint_Some split: option.splits if_splits)

interpretation std: wire_laws std_wire
proof
  show "codec (\<lambda>b. length b \<le> limit \<and> length b < 2 ^ 64) (w_lenbytes std_wire) (rd_lenbytes std_wire limit)" for limit
    unfolding codec_def
  proof (intro conjI allI impI)
    fix b :: bytes and s assume "length b \<le> limit \<and> length b < 2 ^ 64"
    then show "rd_lenbytes std_wire limit (w_lenbytes std_wire b @ s) = Some (b, s)"
      using codecD(1) [OF codec_Uvarint, of "length b" "b @ s"] by (simp add: std_wire_def)
  next
    fix s t and b :: bytes assume "rd_lenbytes std_wire limit s = Some (b, t)"
    then obtain n u where u: "Uvarint s = Some (n, u)" "n \<le> limit" "rd_raw n u = Some (b, t)"
      by (auto simp: std_wire_def split: option.splits if_splits)
    from codecD(2) [OF codec_Uvarint u(1)] rd_raw_Some [OF u(3)] u(2)
    show "length b \<le> limit" "length b < 2 ^ 64" "s = w_lenbytes std_wire b @ t" by (simp_all add: std_wire_def)
  qed
qed (simp_all add: std_wire_def codec_le codec_Uvarint [simplified])

end
