(* ===== verification/KV_Value.thy ===== *)
theory KV_Value
  imports Wire
begin

text \<open>
  The value frames of the key-value model (src/model/kv/value.go) and the locations of its
  conflicts (src/model/kv/location.go). A score, a \<open>float64\<close>, is its IEEE 754 bit pattern,
  with Go's comparisons written out on patterns.
\<close>

section \<open>Float comparisons\<close>

type_synonym float64 = "64 word"

definition IsNaN :: "float64 \<Rightarrow> bool" where
  "IsNaN f \<longleftrightarrow> 0x7FF0000000000000 < unat f mod 2 ^ 63"

text \<open>The position of a number that is not NaN on the line, both zeros at 0.\<close>

definition float_pos :: "float64 \<Rightarrow> int" where
  "float_pos f = (if unat f < 2 ^ 63 then int (unat f) else - int (unat f - 2 ^ 63))"

definition float_eq :: "float64 \<Rightarrow> float64 \<Rightarrow> bool" where
  "float_eq f g \<longleftrightarrow> \<not> IsNaN f \<and> \<not> IsNaN g \<and> float_pos f = float_pos g"

definition float_less :: "float64 \<Rightarrow> float64 \<Rightarrow> bool" where
  "float_less f g \<longleftrightarrow> \<not> IsNaN f \<and> \<not> IsNaN g \<and> float_pos f < float_pos g"

section \<open>Values\<close>

datatype kind = Bytes | CounterKind | SetKind | Hash | SortedSet | SequenceKind

definition kind_byte :: "kind \<Rightarrow> byte" where
  "kind_byte k = byte_of (case k of Bytes \<Rightarrow> 1 | CounterKind \<Rightarrow> 2 | SetKind \<Rightarrow> 3 | Hash \<Rightarrow> 4 | SortedSet \<Rightarrow> 5 | SequenceKind \<Rightarrow> 6)"

definition MaxValueSize :: nat where
  "MaxValueSize = 256 * 1024"

definition MaxMembers :: nat where
  "MaxMembers = 65536"

definition MaxMember :: nat where
  "MaxMember = 4096"

datatype member = Member (mem_elem: bytes) (mem_tag: uint64)

datatype scored = Scored (sc_member: bytes) (sc_score: float64) (sc_tag: uint64)

text \<open>\<open>Value\<close>: its kind and the field for it; \<open>VOther\<close> is a value whose kind is none of the six.\<close>

datatype kv_value =
    VBytes bytes
  | VCounter int64
  | VSet "member list"
  | VHash "(string, bytes) fmap"
  | VSortedSet "scored list"
  | VSequence "bytes list"
  | VOther byte

section \<open>Orders\<close>

definition lessMember :: "member \<Rightarrow> member \<Rightarrow> bool" where
  "lessMember a b \<longleftrightarrow> (if mem_elem a \<noteq> mem_elem b then mem_elem a < mem_elem b else mem_tag a < mem_tag b)"

definition sameMember :: "member \<Rightarrow> member \<Rightarrow> bool" where
  "sameMember a b \<longleftrightarrow> mem_tag a = mem_tag b \<and> mem_elem a = mem_elem b"

text \<open>\<open>sort.Slice\<close> by a total order, whose ties are equal members.\<close>

definition sortedMembers :: "member list \<Rightarrow> member list" where
  "sortedMembers ms = sort_key (\<lambda>m. (mem_elem m, mem_tag m)) ms"

definition lessScored :: "scored \<Rightarrow> scored \<Rightarrow> bool" where
  "lessScored a b \<longleftrightarrow>
     (if \<not> float_eq (sc_score a) (sc_score b) then float_less (sc_score a) (sc_score b)
      else if sc_member a \<noteq> sc_member b then sc_member a < sc_member b
      else sc_tag a < sc_tag b)"

definition sameScored :: "scored \<Rightarrow> scored \<Rightarrow> bool" where
  "sameScored a b \<longleftrightarrow> float_eq (sc_score a) (sc_score b) \<and> sc_tag a = sc_tag b \<and> sc_member a = sc_member b"

text \<open>
  A negative zero becomes zero, then the scores are sorted; where a score is NaN Go's order is
  not one and its result not specified, and \<open>EncodeValue\<close> refuses the value whatever it is.
\<close>

definition positive_zero :: "scored \<Rightarrow> scored" where
  "positive_zero s = (if float_eq (sc_score s) 0 then Scored (sc_member s) 0 (sc_tag s) else s)"

definition sortedScores :: "scored list \<Rightarrow> scored list" where
  "sortedScores ss = sort_key (\<lambda>s. (float_pos (sc_score s), sc_member s, sc_tag s)) (map positive_zero ss)"

section \<open>Writing\<close>

definition checkCount :: "nat \<Rightarrow> unit result" where
  "checkCount n = (if n > MaxMembers then Inl [ErrValue] else Inr ())"

definition checkMember :: "bytes \<Rightarrow> unit result" where
  "checkMember m = (if length m > MaxMember then Inl [ErrValue] else Inr ())"

text \<open>The loops that write items: each item is checked against the one before it, then written.\<close>

fun write_items :: "('a option \<Rightarrow> 'a \<Rightarrow> bytes result) \<Rightarrow> 'a option \<Rightarrow> 'a list \<Rightarrow> bytes result" where
  "write_items item prev [] = Inr []"
| "write_items item prev (x # xs) =
     and_then (item prev x) (\<lambda>b. and_then (write_items item (Some x) xs) (\<lambda>bs. Inr (b @ bs)))"

definition write_member :: "wire \<Rightarrow> member option \<Rightarrow> member \<Rightarrow> bytes result" where
  "write_member W prev m =
     (if prev \<noteq> None \<and> sameMember (the prev) m then Inl [ErrValue]
      else and_then (checkMember (mem_elem m)) (\<lambda>_.
        Inr (w_u64 W (mem_tag m) @ w_lenbytes W (mem_elem m))))"

definition write_field :: "wire \<Rightarrow> (string \<times> bytes) option \<Rightarrow> string \<times> bytes \<Rightarrow> bytes result" where
  "write_field W prev f =
     and_then (checkMember (fst f)) (\<lambda>_. Inr (w_lenbytes W (fst f) @ w_lenbytes W (snd f)))"

definition write_scored :: "wire \<Rightarrow> scored option \<Rightarrow> scored \<Rightarrow> bytes result" where
  "write_scored W prev s =
     (if IsNaN (sc_score s) then Inl [ErrValue]
      else if prev \<noteq> None \<and> sameScored (the prev) s then Inl [ErrValue]
      else and_then (checkMember (sc_member s)) (\<lambda>_.
        Inr (w_u64 W (sc_score s) @ w_u64 W (sc_tag s) @ w_lenbytes W (sc_member s))))"

definition write_elem :: "wire \<Rightarrow> bytes option \<Rightarrow> bytes \<Rightarrow> bytes result" where
  "write_elem W prev e = and_then (checkMember e) (\<lambda>_. Inr (w_lenbytes W e))"

definition write_counted :: "wire \<Rightarrow> ('a option \<Rightarrow> 'a \<Rightarrow> bytes result) \<Rightarrow> 'a list \<Rightarrow> bytes result" where
  "write_counted W item xs =
     and_then (checkCount (length xs)) (\<lambda>_.
       and_then (write_items item None xs) (\<lambda>bs. Inr (w_uvarint W (length xs) @ bs)))"

definition field_list :: "(string, bytes) fmap \<Rightarrow> (string \<times> bytes) list" where
  "field_list fs = map (\<lambda>n. (n, the (fmlookup fs n))) (sorted_list_of_fset (fmdom fs))"

definition payload :: "wire \<Rightarrow> kv_value \<Rightarrow> (byte \<times> bytes) result" where
  "payload W v =
     (case v of
        VBytes b \<Rightarrow> Inr (kind_byte Bytes, b)
      | VCounter n \<Rightarrow> Inr (kind_byte CounterKind, w_u64 W n)
      | VSet ms \<Rightarrow> and_then (write_counted W (write_member W) (sortedMembers ms)) (\<lambda>p. Inr (kind_byte SetKind, p))
      | VHash fs \<Rightarrow> and_then (write_counted W (write_field W) (field_list fs)) (\<lambda>p. Inr (kind_byte Hash, p))
      | VSortedSet ss \<Rightarrow> and_then (write_counted W (write_scored W) (sortedScores ss)) (\<lambda>p. Inr (kind_byte SortedSet, p))
      | VSequence es \<Rightarrow> and_then (write_counted W (write_elem W) es) (\<lambda>p. Inr (kind_byte SequenceKind, p))
      | VOther k \<Rightarrow> Inl [ErrValue])"

definition EncodeValue :: "wire \<Rightarrow> kv_value \<Rightarrow> bytes result" where
  "EncodeValue W v =
     and_then (payload W v) (\<lambda>(k, p).
       let f = k # p in
       if length f - 1 > MaxValueSize then Inl [ErrValue] else Inr f)"

section \<open>Reading\<close>

definition count :: "wire \<Rightarrow> bytes \<Rightarrow> (nat \<times> bytes) result" where
  "count W r =
     and_then (of_read [ErrValue, ErrWire] (rd_uvarint W r)) (\<lambda>(n, r).
       if n > MaxMembers then Inl [ErrValue] else Inr (n, r))"

fun read_items :: "('a option \<Rightarrow> bytes \<Rightarrow> ('a \<times> bytes) result) \<Rightarrow> nat \<Rightarrow> 'a option \<Rightarrow> bytes \<Rightarrow> ('a list \<times> bytes) result" where
  "read_items item 0 prev r = Inr ([], r)"
| "read_items item (Suc n) prev r =
     and_then (item prev r) (\<lambda>(x, r).
       and_then (read_items item n (Some x) r) (\<lambda>(xs, r). Inr (x # xs, r)))"

definition read_member :: "wire \<Rightarrow> member option \<Rightarrow> bytes \<Rightarrow> (member \<times> bytes) result" where
  "read_member W prev r =
     and_then (of_read [ErrValue, ErrWire] (rd_u64 W r)) (\<lambda>(tag, r).
     and_then (of_read [ErrValue, ErrWire] (rd_lenbytes W MaxMember r)) (\<lambda>(elem, r).
       let m = Member elem tag in
       if prev \<noteq> None \<and> \<not> lessMember (the prev) m then Inl [ErrValue] else Inr (m, r)))"

definition read_field :: "wire \<Rightarrow> (string \<times> bytes) option \<Rightarrow> bytes \<Rightarrow> ((string \<times> bytes) \<times> bytes) result" where
  "read_field W prev r =
     and_then (of_read [ErrValue, ErrWire] (rd_lenbytes W MaxMember r)) (\<lambda>(name, r).
     and_then (of_read [ErrValue, ErrWire] (rd_lenbytes W MaxValueSize r)) (\<lambda>(val, r).
       if prev \<noteq> None \<and> name \<le> fst (the prev) then Inl [ErrValue] else Inr ((name, val), r)))"

definition read_scored :: "wire \<Rightarrow> scored option \<Rightarrow> bytes \<Rightarrow> (scored \<times> bytes) result" where
  "read_scored W prev r =
     and_then (of_read [ErrValue, ErrWire] (rd_u64 W r)) (\<lambda>(bits, r).
     and_then (of_read [ErrValue, ErrWire] (rd_u64 W r)) (\<lambda>(tag, r).
     and_then (of_read [ErrValue, ErrWire] (rd_lenbytes W MaxMember r)) (\<lambda>(mem, r).
       let s = Scored mem bits tag in
       if IsNaN bits \<or> (float_eq bits 0 \<and> bits \<noteq> 0) then Inl [ErrValue]
       else if prev \<noteq> None \<and> \<not> lessScored (the prev) s then Inl [ErrValue] else Inr (s, r))))"

definition read_elem :: "wire \<Rightarrow> bytes option \<Rightarrow> bytes \<Rightarrow> (bytes \<times> bytes) result" where
  "read_elem W prev r = of_read [ErrValue, ErrWire] (rd_lenbytes W MaxMember r)"

definition Done :: "kv_value \<Rightarrow> bytes \<Rightarrow> kv_value result" where
  "Done v r = (if r = [] then Inr v else Inl [ErrValue, ErrWire])"

definition read_counted ::
  "wire \<Rightarrow> ('a option \<Rightarrow> bytes \<Rightarrow> ('a \<times> bytes) result) \<Rightarrow> ('a list \<Rightarrow> kv_value) \<Rightarrow> bytes \<Rightarrow> kv_value result" where
  "read_counted W item build r =
     and_then (count W r) (\<lambda>(n, r). and_then (read_items item n None r) (\<lambda>(xs, r). Done (build xs) r))"

definition DecodeValue :: "wire \<Rightarrow> bytes \<Rightarrow> kv_value result" where
  "DecodeValue W b =
     (case b of [] \<Rightarrow> Inl [ErrValue]
      | k # r \<Rightarrow>
         if length b - 1 > MaxValueSize then Inl [ErrValue]
         else if k = kind_byte Bytes then Inr (VBytes r)
         else if k = kind_byte CounterKind then
           and_then (of_read [ErrValue, ErrWire] (rd_u64 W r)) (\<lambda>(n, r). Done (VCounter n) r)
         else if k = kind_byte SetKind then read_counted W (read_member W) VSet r
         else if k = kind_byte Hash then read_counted W (read_field W) (\<lambda>fs. VHash (fmap_of_list fs)) r
         else if k = kind_byte SortedSet then read_counted W (read_scored W) VSortedSet r
         else if k = kind_byte SequenceKind then read_counted W (read_elem W) VSequence r
         else Inl [ErrValue])"

section \<open>Locations\<close>

definition MaxKeySize :: nat where
  "MaxKeySize = 4096"

definition Location :: "bytes \<Rightarrow> bytes \<Rightarrow> bytes" where
  "Location key sub = AppendUvarint (length key) @ key @ sub"

definition ParseLocation :: "wire \<Rightarrow> bytes \<Rightarrow> (bytes \<times> bytes) result" where
  "ParseLocation W loc =
     and_then (of_read [ErrKey, ErrWire] (rd_lenbytes W MaxKeySize loc)) (\<lambda>(key, r).
       if length key = 0 then Inl [ErrKey]
       else Inr (key, drop (length loc - length r) loc))"

end
