(* ===== verification/KV_Value_Correct.thy ===== *)
theory KV_Value_Correct
  imports KV_Value
begin

text \<open>
  Frames round-trip: what \<open>EncodeValue\<close> writes \<open>DecodeValue\<close> reads as the value in its one
  normal form, and what \<open>DecodeValue\<close> accepts is exactly what \<open>EncodeValue\<close> writes, so
  equal values are equal bytes. The facts about frames are proved once over any wire format that
  satisfies \<open>wire_laws\<close>.
\<close>

section \<open>Item loops\<close>

fun chain :: "('a option \<Rightarrow> 'a \<Rightarrow> bool) \<Rightarrow> 'a option \<Rightarrow> 'a list \<Rightarrow> bool" where
  "chain ok prev [] = True"
| "chain ok prev (x # xs) = (ok prev x \<and> chain ok (Some x) xs)"

definition rises :: "('a \<Rightarrow> 'k::linorder) \<Rightarrow> 'a option \<Rightarrow> 'a \<Rightarrow> bool" where
  "rises k prev x \<longleftrightarrow> (\<forall>p. prev = Some p \<longrightarrow> k p \<le> k x)"

definition strictly_rises :: "('a \<Rightarrow> 'k::linorder) \<Rightarrow> 'a option \<Rightarrow> 'a \<Rightarrow> bool" where
  "strictly_rises k prev x \<longleftrightarrow> (\<forall>p. prev = Some p \<longrightarrow> k p < k x)"

lemma chain_conj: "chain (\<lambda>p x. P p x \<and> Q x) prev xs \<longleftrightarrow> chain P prev xs \<and> (\<forall>x \<in> set xs. Q x)"
  by (induction xs arbitrary: prev) auto

lemma chain_mono: "chain P prev xs \<Longrightarrow> (\<And>p x. P p x \<Longrightarrow> Q p x) \<Longrightarrow> chain Q prev xs"
  by (induction xs arbitrary: prev) auto

lemma sorted_chain: "sorted (map k xs) \<Longrightarrow> (\<And>x p. x \<in> set xs \<Longrightarrow> prev = Some p \<Longrightarrow> k p \<le> k x) \<Longrightarrow> chain (rises k) prev xs"
proof (induction xs arbitrary: prev)
  case (Cons x xs)
  have "chain (rises k) (Some x) xs" by (rule Cons.IH) (use Cons.prems(1) in auto)
  moreover have "rises k prev x" using Cons.prems(2) by (simp add: rises_def)
  ultimately show ?case by simp
qed simp

lemma chain_sorted:
  assumes "chain (strictly_rises k) prev xs"
  shows "sorted_wrt (<) (map k xs) \<and> (\<forall>p. prev = Some p \<longrightarrow> (\<forall>x \<in> set xs. k p < k x))"
  using assms
proof (induction xs arbitrary: prev)
  case (Cons x xs)
  from Cons.IH [of "Some x"] Cons.prems have "sorted_wrt (<) (map k xs)" "\<forall>y \<in> set xs. k x < k y" by auto
  with Cons.prems show ?case by (auto simp: strictly_rises_def)
qed simp

lemma read_written_items:
  assumes item: "\<And>p x b s. ok p x \<Longrightarrow> w p x = Inr b \<Longrightarrow> rd p (b @ s) = Inr (x, s)"
    and "chain ok prev xs" "write_items w prev xs = Inr b"
  shows "read_items rd (length xs) prev (b @ s) = Inr (xs, s)"
  using assms(2,3)
proof (induction xs arbitrary: prev b)
  case (Cons x xs)
  then obtain c d where 1: "w prev x = Inr c" "write_items w (Some x) xs = Inr d" "b = c @ d"
    by (auto simp: and_then_Inr)
  have "rd prev (c @ d @ s) = Inr (x, d @ s)" by (rule item) (use Cons.prems 1 in auto)
  moreover have "read_items rd (length xs) (Some x) (d @ s) = Inr (xs, s)" using Cons 1 by simp
  ultimately show ?case using 1 by simp
qed simp

lemma read_items_were_written:
  assumes item: "\<And>p s x t. rd p s = Inr (x, t) \<Longrightarrow> ok p x \<and> (\<exists>b. w p x = Inr b \<and> s = b @ t)"
    and "read_items rd n prev s = Inr (xs, t)"
  shows "length xs = n \<and> chain ok prev xs \<and> (\<exists>b. write_items w prev xs = Inr b \<and> s = b @ t)"
  using assms(2)
proof (induction n arbitrary: prev s xs t)
  case (Suc n)
  then obtain x r ys where 1: "rd prev s = Inr (x, r)" "read_items rd n (Some x) r = Inr (ys, t)" "xs = x # ys"
    by (auto simp: and_then_Inr)
  from item [OF 1(1)] Suc.IH [OF 1(2)] 1(3) show ?case by (auto simp: and_then_Inr)
qed simp

section \<open>Scores\<close>

lemma float_pos_inj:
  assumes "float_pos f = float_pos g" "f = 0 \<or> \<not> float_eq f 0" "g = 0 \<or> \<not> float_eq g 0" "\<not> IsNaN f" "\<not> IsNaN g"
  shows "f = g"
proof -
  have z: "float_pos 0 = 0" "\<not> IsNaN 0" by (simp_all add: float_pos_def IsNaN_def)
  have nz: "float_pos h = 0 \<Longrightarrow> h = 0" if "h = 0 \<or> \<not> float_eq h 0" "\<not> IsNaN h" for h
    using that z by (auto simp: float_eq_def)
  have pos: "m = n" if "(if m < 2 ^ 63 then int m else - int (m - 2 ^ 63)) = (if n < 2 ^ 63 then int n else - int (n - 2 ^ 63))"
      "(if m < 2 ^ 63 then int m else - int (m - 2 ^ 63)) \<noteq> 0" for m n :: nat
    using that by (auto split: if_splits)
  have "unat f = unat g"
  proof (cases "float_pos f = 0")
    case True
    then show ?thesis using assms(1) nz [OF assms(2,4)] nz [OF assms(3,5)] by simp
  next
    case False
    then show ?thesis using assms(1) unfolding float_pos_def by (intro pos) simp_all
  qed
  then show ?thesis by (simp add: word_unat_eq_iff)
qed

definition score_ok :: "scored \<Rightarrow> bool" where
  "score_ok s \<longleftrightarrow> \<not> IsNaN (sc_score s) \<and> (sc_score s = 0 \<or> \<not> float_eq (sc_score s) 0)"

abbreviation score_key :: "scored \<Rightarrow> int \<times> bytes \<times> uint64" where
  "score_key s \<equiv> (float_pos (sc_score s), sc_member s, sc_tag s)"

abbreviation member_key :: "member \<Rightarrow> bytes \<times> uint64" where
  "member_key m \<equiv> (mem_elem m, mem_tag m)"

lemma lessScored_iff: "score_ok a \<Longrightarrow> score_ok b \<Longrightarrow> lessScored a b \<longleftrightarrow> score_key a < score_key b"
  by (auto simp: lessScored_def score_ok_def float_eq_def float_less_def less_prod_def)

lemma sameScored_iff: "score_ok a \<Longrightarrow> score_ok b \<Longrightarrow> sameScored a b \<longleftrightarrow> score_key a = score_key b"
  by (auto simp: sameScored_def score_ok_def float_eq_def)

lemma lessMember_iff: "lessMember a b \<longleftrightarrow> member_key a < member_key b"
  by (auto simp: lessMember_def less_prod_def)

lemma sameMember_iff: "sameMember a b \<longleftrightarrow> member_key a = member_key b"
  by (auto simp: sameMember_def)

lemma positive_zero_ok: "\<not> IsNaN (sc_score (positive_zero s)) \<Longrightarrow> score_ok (positive_zero s)"
  by (auto simp: positive_zero_def score_ok_def)

lemma positive_zero_id: "score_ok s \<Longrightarrow> positive_zero s = s"
  by (cases s) (auto simp: positive_zero_def score_ok_def)

section \<open>Normal forms\<close>

definition norm_value :: "kv_value \<Rightarrow> kv_value" where
  "norm_value v = (case v of VSet ms \<Rightarrow> VSet (sortedMembers ms) | VSortedSet ss \<Rightarrow> VSortedSet (sortedScores ss) | _ \<Rightarrow> v)"

lemma sort_key_strict: "sorted_wrt (<) (map k xs) \<Longrightarrow> sort_key k xs = xs"
  by (simp add: sort_key_id_if_sorted sorted_wrt_mono_rel [of _ "(<)" "(\<le>)"])

lemma field_list_of_sorted:
  assumes "sorted_wrt (<) (map fst fs)"
  shows "field_list (fmap_of_list fs) = fs"
proof -
  have d: "distinct (map fst fs)" and s: "sorted (map fst fs)" using assms by (simp_all add: strict_sorted_iff)
  have "sorted_list_of_fset (fmdom (fmap_of_list fs)) = map fst fs"
    using d s by (simp add: sorted_list_of_fset.rep_eq fset_of_list.rep_eq sorted_list_of_set.idem_if_sorted_distinct flip: set_map)
  then show ?thesis
    using d by (auto simp: field_list_def fmlookup_of_list intro!: map_idI)
qed

lemma field_list_sorted: "sorted_wrt (<) (map fst (field_list fs))"
  by (simp add: field_list_def comp_def sorted_list_of_fset.rep_eq)

lemma fmap_of_field_list: "fmap_of_list (field_list fs) = fs"
proof (rule fmap_ext)
  fix n
  have "map_of (map (\<lambda>n. (n, the (fmlookup fs n))) ns) n = (if n \<in> set ns then Some (the (fmlookup fs n)) else None)" for ns
    by (induction ns) auto
  then show "fmlookup (fmap_of_list (field_list fs)) n = fmlookup fs n"
    by (simp add: field_list_def fmlookup_of_list sorted_list_of_fset.rep_eq fmlookup_dom_iff)
qed

section \<open>Frames over any wire format\<close>

lemma checkMember_Inr [simp]: "checkMember m = Inr u \<longleftrightarrow> length m \<le> MaxMember"
  by (simp add: checkMember_def not_less)

lemma checkCount_Inr [simp]: "checkCount n = Inr u \<longleftrightarrow> n \<le> MaxMembers"
  by (simp add: checkCount_def not_less)

lemma Done_Inr [simp]: "Done v r = Inr v' \<longleftrightarrow> r = [] \<and> v' = v"
  by (auto simp: Done_def)

lemma limits: "MaxMember < 2 ^ 64" "MaxMembers < 2 ^ 64" "MaxValueSize < 2 ^ 64" "MaxKeySize < 2 ^ 64"
  by (simp_all add: MaxMember_def MaxMembers_def MaxValueSize_def MaxKeySize_def)

lemma write_items_length:
  assumes "write_items w prev xs = Inr b" "x \<in> set xs" "\<And>p c. w p x = Inr c \<Longrightarrow> n \<le> length c"
  shows "n \<le> length b"
  using assms(1,2)
proof (induction xs arbitrary: prev b)
  case (Cons y xs)
  then obtain c d where "w prev y = Inr c" "write_items w (Some y) xs = Inr d" "b = c @ d"
    by (auto simp: and_then_Inr)
  with Cons.IH [of "Some y" d] Cons.prems(2) assms(3) [of prev c] show ?case by force
qed simp

lemma chain_fields:
  assumes "\<And>x. x \<in> set fs \<Longrightarrow> length (snd x) \<le> n"
  shows "chain (\<lambda>p f. strictly_rises fst p f \<and> length (snd f) \<le> n) None fs \<longleftrightarrow> chain (strictly_rises fst) None fs"
  using assms by (auto simp: chain_conj)

lemma strict_chain:
  "sorted_wrt (<) (map k xs) \<Longrightarrow> (\<And>x p. x \<in> set xs \<Longrightarrow> prev = Some p \<Longrightarrow> k p < k x) \<Longrightarrow> chain (strictly_rises k) prev xs"
proof (induction xs arbitrary: prev)
  case (Cons x xs)
  have "chain (strictly_rises k) (Some x) xs" by (rule Cons.IH) (use Cons.prems(1) in auto)
  moreover have "strictly_rises k prev x" using Cons.prems(2) by (simp add: strictly_rises_def)
  ultimately show ?case by simp
qed simp

lemma chain_all:
  assumes "chain P prev xs" "\<And>x. x \<in> set xs \<Longrightarrow> Q x" "\<And>q. prev = Some q \<Longrightarrow> Q q"
  shows "chain (\<lambda>p x. P p x \<and> Q x \<and> (\<forall>q. p = Some q \<longrightarrow> Q q)) prev xs"
  using assms by (induction xs arbitrary: prev) auto

lemma write_items_item:
  assumes "write_items w prev xs = Inr b" "x \<in> set xs"
  shows "\<exists>p c. w p x = Inr c"
  using assms by (induction xs arbitrary: prev b) (auto simp: and_then_Inr)

lemma sortedScores_chain:
  assumes "chain (\<lambda>p x. score_ok x \<and> (\<forall>q. p = Some q \<longrightarrow> lessScored q x)) None ss"
  shows "sortedScores ss = ss"
proof -
  have ok: "\<forall>x \<in> set ss. score_ok x"
    using assms by (subst (asm) conj_commute) (simp add: chain_conj)
  have "chain (strictly_rises score_key) prev ss"
    if "chain (\<lambda>p x. score_ok x \<and> (\<forall>q. p = Some q \<longrightarrow> lessScored q x)) prev ss" "\<forall>q. prev = Some q \<longrightarrow> score_ok q" for prev
    using that by (induction ss arbitrary: prev) (auto simp: strictly_rises_def lessScored_iff)
  from chain_sorted [OF this [of None]] assms have "sorted_wrt (<) (map score_key ss)" by simp
  moreover have "map positive_zero ss = ss" using ok by (simp add: map_idI positive_zero_id)
  ultimately show ?thesis by (simp add: sortedScores_def sort_key_strict)
qed

context wire_laws
begin

lemma read_written_member:
  assumes "rises member_key p m" "write_member W p m = Inr b"
  shows "read_member W p (b @ s) = Inr (m, s)"
proof -
  from assms(2) have 1: "length (mem_elem m) \<le> MaxMember" "b = w_u64 W (mem_tag m) @ w_lenbytes W (mem_elem m)"
    and 2: "p \<noteq> None \<longrightarrow> \<not> sameMember (the p) m"
    by (auto simp: write_member_def and_then_Inr split: if_splits)
  have "p \<noteq> None \<longrightarrow> lessMember (the p) m"
    using 2 assms(1) by (auto simp: rises_def sameMember_iff lessMember_iff less_le)
  with 1 limits(1) show ?thesis by (cases p) (simp_all add: read_member_def reads_back)
qed

lemma read_member_was_written:
  assumes "read_member W p s = Inr (m, t)"
  shows "strictly_rises member_key p m \<and> (\<exists>b. write_member W p m = Inr b \<and> s = b @ t)"
proof -
  from assms obtain r where 1: "rd_u64 W s = Some (mem_tag m, r)" "rd_lenbytes W MaxMember r = Some (mem_elem m, t)"
    "p \<noteq> None \<longrightarrow> lessMember (the p) m"
    by (auto simp: read_member_def and_then_Inr Let_def split: if_splits)
  then have "strictly_rises member_key p m" "p \<noteq> None \<longrightarrow> \<not> sameMember (the p) m"
    by (auto simp: strictly_rises_def sameMember_iff lessMember_iff)
  with was_written(3) [OF 1(1)] was_written(5) [OF 1(2)] show ?thesis
    by (cases p) (simp_all add: write_member_def and_then_Inr)
qed

lemma read_written_field:
  assumes "strictly_rises fst p f \<and> length (snd f) \<le> MaxValueSize" "write_field W p f = Inr b"
  shows "read_field W p (b @ s) = Inr (f, s)"
proof -
  from assms(2) have 1: "length (fst f) \<le> MaxMember" "b = w_lenbytes W (fst f) @ w_lenbytes W (snd f)"
    by (auto simp: write_field_def and_then_Inr)
  have "\<not> (p \<noteq> None \<and> fst f \<le> fst (the p))" using assms(1) by (auto simp: strictly_rises_def)
  with 1 assms(1) limits show ?thesis by (simp add: read_field_def reads_back)
qed

lemma read_field_was_written:
  assumes "read_field W p s = Inr (f, t)"
  shows "strictly_rises fst p f \<and> (\<exists>b. write_field W p f = Inr b \<and> s = b @ t)"
proof -
  from assms obtain r where 1: "rd_lenbytes W MaxMember s = Some (fst f, r)" "rd_lenbytes W MaxValueSize r = Some (snd f, t)"
    "\<not> (p \<noteq> None \<and> fst f \<le> fst (the p))"
    by (auto simp: read_field_def and_then_Inr split: if_splits)
  with was_written(5) [OF 1(1)] was_written(5) [OF 1(2)] show ?thesis
    by (auto simp: write_field_def and_then_Inr strictly_rises_def not_le)
qed

lemma read_written_scored:
  assumes "rises score_key p x \<and> score_ok x \<and> (\<forall>q. p = Some q \<longrightarrow> score_ok q)" "write_scored W p x = Inr b"
  shows "read_scored W p (b @ s) = Inr (x, s)"
proof -
  from assms(2) have 1: "length (sc_member x) \<le> MaxMember"
      "b = w_u64 W (sc_score x) @ w_u64 W (sc_tag x) @ w_lenbytes W (sc_member x)"
    and 2: "p \<noteq> None \<longrightarrow> \<not> sameScored (the p) x"
    by (auto simp: write_scored_def and_then_Inr split: if_splits)
  have "p \<noteq> None \<longrightarrow> lessScored (the p) x"
    using 2 assms(1) by (auto simp: rises_def sameScored_iff lessScored_iff less_le)
  moreover have "\<not> IsNaN (sc_score x)" "\<not> (float_eq (sc_score x) 0 \<and> sc_score x \<noteq> 0)"
    using assms(1) by (auto simp: score_ok_def)
  ultimately show ?thesis using 1 limits(1) by (cases p) (simp_all add: read_scored_def reads_back)
qed

lemma read_scored_was_written:
  assumes "read_scored W p s = Inr (x, t)"
  shows "(score_ok x \<and> (\<forall>q. p = Some q \<longrightarrow> lessScored q x)) \<and> (\<exists>b. write_scored W p x = Inr b \<and> s = b @ t)"
proof -
  from assms obtain r u where 1: "rd_u64 W s = Some (sc_score x, r)" "rd_u64 W r = Some (sc_tag x, u)"
    "rd_lenbytes W MaxMember u = Some (sc_member x, t)" and 2: "score_ok x" "p \<noteq> None \<longrightarrow> lessScored (the p) x"
    by (auto simp: read_scored_def and_then_Inr Let_def score_ok_def split: if_splits)
  have "lessScored a b \<Longrightarrow> \<not> sameScored a b" for a b by (auto simp: lessScored_def sameScored_def)
  with 2 was_written(3) [OF 1(1)] was_written(3) [OF 1(2)] was_written(5) [OF 1(3)] show ?thesis
    by (auto simp: write_scored_def and_then_Inr score_ok_def)
qed

lemma read_elem_was_written:
  "read_elem W p s = Inr (e, t) \<Longrightarrow> True \<and> (\<exists>b. write_elem W p e = Inr b \<and> s = b @ t)"
  by (auto simp: read_elem_def write_elem_def and_then_Inr dest!: was_written)

lemma read_written_elem: "True \<Longrightarrow> write_elem W p e = Inr b \<Longrightarrow> read_elem W p (b @ s) = Inr (e, s)"
  using limits by (auto simp: read_elem_def write_elem_def and_then_Inr reads_back)

lemma read_written_counted:
  assumes "\<And>p x b s. ok p x \<Longrightarrow> item p x = Inr b \<Longrightarrow> rd p (b @ s) = Inr (x, s)"
    "chain ok None xs" "write_counted W item xs = Inr b"
  shows "read_counted W rd build b = Inr (build xs)"
proof -
  from assms(3) obtain c where c: "length xs \<le> MaxMembers" "write_items item None xs = Inr c" "b = w_uvarint W (length xs) @ c"
    by (auto simp: write_counted_def and_then_Inr)
  from read_written_items [OF assms(1,2) c(2), where s = "[]"] c limits(2) show ?thesis
    by (simp add: read_counted_def count_def reads_back)
qed

lemma read_counted_was_written:
  assumes "\<And>p s x t. rd p s = Inr (x, t) \<Longrightarrow> ok p x \<and> (\<exists>b. item p x = Inr b \<and> s = b @ t)"
    "read_counted W rd build s = Inr v"
  obtains xs where "v = build xs" "chain ok None xs" "write_counted W item xs = Inr s"
proof -
  from assms(2) obtain n r xs where 1: "count W s = Inr (n, r)" "read_items rd n None r = Inr (xs, [])" "v = build xs"
    by (auto simp: read_counted_def and_then_Inr)
  from 1(1) have n: "n \<le> MaxMembers" "s = w_uvarint W n @ r"
    by (auto simp: count_def and_then_Inr split: if_splits dest!: was_written)
  from read_items_were_written [of rd ok item, OF assms(1) 1(2)] obtain b where
    "length xs = n" "chain ok None xs" "write_items item None xs = Inr b" "r = b" by auto
  with n 1(3) show ?thesis by (intro that [of xs]) (auto simp: write_counted_def and_then_Inr)
qed

lemma Encode_Decode:
  assumes "EncodeValue W v = Inr f"
  shows "DecodeValue W f = Inr (norm_value v)"
proof -
  from assms obtain k p where p: "payload W v = Inr (k, p)" "f = k # p" and len: "length p \<le> MaxValueSize"
    by (auto simp: EncodeValue_def and_then_Inr Let_def split: if_splits)
  have kinds: "kind_byte a = kind_byte b \<longleftrightarrow> a = b" for a b
    by (cases a; cases b) (simp_all add: kind_byte_def)
  note eval = DecodeValue_def norm_value_def p(2) len payload_def and_then_Inr kinds not_less
  show ?thesis
  proof (cases v)
    case (VCounter n)
    then show ?thesis using p(1) reads_back(3) [of n "[]"] len by (auto simp: eval)
  next
    case (VSet ms)
    then have w: "k = kind_byte SetKind" "write_counted W (write_member W) (sortedMembers ms) = Inr p"
      using p(1) by (auto simp: payload_def and_then_Inr)
    have "chain (rises member_key) None (sortedMembers ms)" by (rule sorted_chain) (simp_all add: sortedMembers_def)
    from read_written_counted [OF read_written_member this w(2)] w(1) VSet len show ?thesis by (simp add: eval)
  next
    case (VHash fs)
    then have w: "k = kind_byte Hash" "write_counted W (write_field W) (field_list fs) = Inr p"
      using p(1) by (auto simp: payload_def and_then_Inr)
    then obtain c where c: "write_items (write_field W) None (field_list fs) = Inr c" "length c \<le> length p"
      by (auto simp: write_counted_def and_then_Inr)
    have "length (snd x) \<le> MaxValueSize" if "x \<in> set (field_list fs)" for x
      using write_items_length [OF c(1) that, of "length (snd x)"] c(2) len
      by (force simp: write_field_def and_then_Inr lenbytes_format)
    moreover have "chain (strictly_rises fst) None (field_list fs)"
      using field_list_sorted [of fs] by (rule strict_chain) simp
    ultimately have "chain (\<lambda>p f. strictly_rises fst p f \<and> length (snd f) \<le> MaxValueSize) None (field_list fs)"
      by (simp add: chain_conj)
    from read_written_counted [OF read_written_field this w(2)] w(1) VHash len show ?thesis
      by (simp add: eval fmap_of_field_list)
  next
    case (VSortedSet ss)
    then have w: "k = kind_byte SortedSet" "write_counted W (write_scored W) (sortedScores ss) = Inr p"
      using p(1) by (auto simp: payload_def and_then_Inr)
    then obtain c where c: "write_items (write_scored W) None (sortedScores ss) = Inr c"
      by (auto simp: write_counted_def and_then_Inr)
    have ok: "score_ok x" if x: "x \<in> set (sortedScores ss)" for x
    proof -
      obtain q d where "write_scored W q x = Inr d" using write_items_item [OF c x] by blast
      then have "\<not> IsNaN (sc_score x)" by (simp add: write_scored_def split: if_splits)
      moreover obtain y where "x = positive_zero y" using x by (auto simp: sortedScores_def)
      ultimately show ?thesis using positive_zero_ok by blast
    qed
    have "chain (rises score_key) None (sortedScores ss)" by (rule sorted_chain) (simp_all add: sortedScores_def)
    then have "chain (\<lambda>p x. rises score_key p x \<and> score_ok x \<and> (\<forall>q. p = Some q \<longrightarrow> score_ok q)) None (sortedScores ss)"
      by (rule chain_all) (simp_all only: ok option.distinct)
    then have "read_counted W (read_scored W) VSortedSet p = Inr (VSortedSet (sortedScores ss))"
      using w(2) by (rule read_written_counted [rotated]) (rule read_written_scored)
    with w(1) VSortedSet len show ?thesis by (simp add: eval)
  next
    case (VSequence es)
    then have w: "k = kind_byte SequenceKind" "write_counted W (write_elem W) es = Inr p"
      using p(1) by (auto simp: payload_def and_then_Inr)
    have "chain (\<lambda>_ _. True) prev es" for prev by (induction es arbitrary: prev) simp_all
    from read_written_counted [OF read_written_elem this w(2)] w(1) VSequence len show ?thesis by (simp add: eval)
  qed (use p len in \<open>auto simp: eval\<close>)
qed

lemma Decode_Encode:
  assumes "DecodeValue W f = Inr v"
  shows "EncodeValue W v = Inr f \<and> norm_value v = v"
proof -
  from assms obtain k r where f: "f = k # r" and len: "length r \<le> MaxValueSize"
    by (cases f) (auto simp: DecodeValue_def split: if_splits)
  consider "k = kind_byte Bytes" "v = VBytes r"
    | n where "k = kind_byte CounterKind" "v = VCounter n" "rd_u64 W r = Some (n, [])"
    | "k = kind_byte SetKind" "read_counted W (read_member W) VSet r = Inr v"
    | "k = kind_byte Hash" "read_counted W (read_field W) (\<lambda>fs. VHash (fmap_of_list fs)) r = Inr v"
    | "k = kind_byte SortedSet" "read_counted W (read_scored W) VSortedSet r = Inr v"
    | "k = kind_byte SequenceKind" "read_counted W (read_elem W) VSequence r = Inr v"
    using assms by (auto simp: DecodeValue_def f and_then_Inr split: if_splits)
  then have "payload W v = Inr (k, r) \<and> norm_value v = v"
  proof cases
    case 2
    then show ?thesis using was_written(3) [OF 2(3)] by (simp add: payload_def norm_value_def)
  next
    case 3
    obtain ms where ms: "v = VSet ms" "chain (strictly_rises member_key) None ms" "write_counted W (write_member W) ms = Inr r"
      by (rule read_counted_was_written [OF read_member_was_written 3(2)])
    have "sortedMembers ms = ms" unfolding sortedMembers_def by (rule sort_key_strict) (use chain_sorted [OF ms(2)] in simp)
    with ms 3(1) show ?thesis by (simp add: payload_def norm_value_def)
  next
    case 4
    obtain fs where fs: "v = VHash (fmap_of_list fs)" "chain (strictly_rises fst) None fs" "write_counted W (write_field W) fs = Inr r"
      by (rule read_counted_was_written [OF read_field_was_written 4(2)])
    have "field_list (fmap_of_list fs) = fs" by (rule field_list_of_sorted) (use chain_sorted [OF fs(2)] in simp)
    with fs 4(1) show ?thesis by (simp add: payload_def norm_value_def)
  next
    case 5
    obtain ss where ss: "v = VSortedSet ss" "write_counted W (write_scored W) ss = Inr r"
      "chain (\<lambda>p x. score_ok x \<and> (\<forall>q. p = Some q \<longrightarrow> lessScored q x)) None ss"
      by (rule read_counted_was_written [OF read_scored_was_written 5(2)])
    have "sortedScores ss = ss" by (rule sortedScores_chain [OF ss(3)])
    with ss 5(1) show ?thesis by (simp add: payload_def norm_value_def)
  next
    case 6
    obtain es where es: "v = VSequence es" "chain (\<lambda>_ _. True) None es" "write_counted W (write_elem W) es = Inr r"
      by (rule read_counted_was_written [OF read_elem_was_written 6(2)])
    with 6(1) show ?thesis by (simp add: payload_def norm_value_def)
  qed (simp add: payload_def norm_value_def)
  with len f show ?thesis by (simp add: EncodeValue_def)
qed

lemma Parse_Location:
  "0 < length key \<Longrightarrow> length key \<le> MaxKeySize \<Longrightarrow> ParseLocation W (Location key sub) = Inr (key, sub)"
  using reads_back(5) [of key MaxKeySize sub] limits(4)
  by (simp add: ParseLocation_def Location_def lenbytes_format)

lemma Location_Parse:
  assumes "ParseLocation W loc = Inr (key, sub)"
  shows "loc = Location key sub \<and> 0 < length key \<and> length key \<le> MaxKeySize"
proof -
  from assms obtain r where r: "rd_lenbytes W MaxKeySize loc = Some (key, r)" "0 < length key"
    "sub = drop (length loc - length r) loc"
    by (auto simp: ParseLocation_def and_then_Inr split: if_splits)
  from was_written(5) [OF r(1)] r(2,3) show ?thesis by (simp add: Location_def lenbytes_format)
qed

end

section \<open>Properties\<close>

text \<open>
  A value that encodes decodes to the same value in normal form: a set by element and tag, a
  sorted set by score, member and tag with a negative zero made zero, everything else as it was;
  for every kind, over any wire format that reads back what it writes.
\<close>

theorem EncodeValue_roundtrip:
  assumes "wire_laws W" "EncodeValue W v = Inr f"
  shows "DecodeValue W f = Inr (norm_value v)"
  by (rule wire_laws.Encode_Decode [OF assms])

theorem EncodeValue_roundtrip_witness:
  "DecodeValue std_wire [kind_byte SequenceKind, byte_of 1, byte_of 1, CHR ''x''] = Inr (VSequence [''x''])"
proof -
  have "EncodeValue std_wire (VSequence [''x'']) = Inr [kind_byte SequenceKind, byte_of 1, byte_of 1, CHR ''x'']"
    by (simp add: EncodeValue_def payload_def write_counted_def checkCount_def checkMember_def write_elem_def
        std_wire_def AppendUvarint.simps MaxMembers_def MaxMember_def MaxValueSize_def)
  from EncodeValue_roundtrip [OF std.wire_laws_axioms this] show ?thesis by (simp add: norm_value_def)
qed

text \<open>
  C27. A frame has one spelling: a byte string decodes to a value exactly when the value is in
  normal form and that byte string is its encoding, so whatever \<open>DecodeValue\<close> accepts is what
  \<open>EncodeValue\<close> writes, and equal values are equal bytes.
\<close>

theorem DecodeValue_canonical:
  assumes "wire_laws W"
  shows "DecodeValue W f = Inr v \<longleftrightarrow> EncodeValue W v = Inr f \<and> norm_value v = v"
  using wire_laws.Decode_Encode [OF assms, of f v] wire_laws.Encode_Decode [OF assms, of v f] by auto

theorem DecodeValue_canonical_witness:
  "\<exists>f. EncodeValue std_wire (VBytes ''ab'') = Inr f \<and> DecodeValue std_wire f = Inr (VBytes ''ab'')"
  using DecodeValue_canonical [OF std.wire_laws_axioms, of "kind_byte Bytes # ''ab''" "VBytes ''ab''"]
  by (simp add: EncodeValue_def payload_def norm_value_def MaxValueSize_def)

text \<open>
  The location of a conflict names one place: for a key the model takes, parsing the location
  gives back the key and what is below it, and a location that parses is the one written for
  what it parses to.
\<close>

theorem Location_roundtrip:
  assumes "wire_laws W"
  shows "ParseLocation W loc = Inr (key, sub) \<longleftrightarrow>
    loc = Location key sub \<and> 0 < length key \<and> length key \<le> MaxKeySize"
  using wire_laws.Parse_Location [OF assms, of key sub] wire_laws.Location_Parse [OF assms, of loc key sub] by blast

theorem Location_roundtrip_witness:
  "ParseLocation std_wire (Location ''k'' ''f'') = Inr (''k'', ''f'')"
  using Location_roundtrip [OF std.wire_laws_axioms, of "Location ''k'' ''f''" "''k''" "''f''"]
  by (simp add: MaxKeySize_def)

end
