(* ===== verification/KV_Resolve.thy ===== *)
theory KV_Resolve
  imports Merge_Sequence KV_Value_Correct
begin

text \<open>
  How the key-value model resolves a key both sides changed (src/model/kv/resolve.go).
  \<open>mapobject.Disagreement\<close>, of the storage core, is the parameter \<open>disagree\<close>: it gives the
  value and whether to put it, or a reason that is not empty.
\<close>

section \<open>Changes and decisions\<close>

datatype change_kind = Added | Removed | Modified

text \<open>\<open>prolly.Change\<close>; \<open>From\<close> is nil for an added key, \<open>To\<close> is nil, the empty bytes, for a removed one.\<close>

record change =
  ch_kind :: change_kind
  ch_key :: bytes
  ch_from :: "bytes option"
  ch_to :: bytes

record model_conflict =
  mc_location :: bytes
  mc_reason :: string

record decision =
  d_value :: bytes
  d_put :: bool
  d_conflicts :: "model_conflict list"

type_synonym disagreement_fn = "bytes \<Rightarrow> change \<Rightarrow> change \<Rightarrow> bytes \<times> bool \<times> string"

definition atKey :: "bytes \<Rightarrow> string \<Rightarrow> decision" where
  "atKey key reason =
     \<lparr>d_value = [], d_put = False, d_conflicts = [\<lparr>mc_location = Location key [], mc_reason = reason\<rparr>]\<rparr>"

definition disagreement :: "disagreement_fn \<Rightarrow> bytes \<Rightarrow> change \<Rightarrow> change \<Rightarrow> decision" where
  "disagreement disagree key ours theirs =
     (let (value, put, reason) = disagree key ours theirs in
      if reason \<noteq> [] then atKey key reason else \<lparr>d_value = value, d_put = put, d_conflicts = []\<rparr>)"

definition scalarReason :: "bool \<Rightarrow> bool \<Rightarrow> string" where
  "scalarReason oursPresent theirsPresent =
     (if \<not> oursPresent \<or> \<not> theirsPresent then ''deleted on one side and changed on the other''
      else ''changed differently on both sides'')"

section \<open>Sets\<close>

definition toMembers :: "member list \<Rightarrow> string members" where
  "toMembers ms = fmap_of_list (map (\<lambda>m. (Tagged (mem_elem m) (mem_tag m), True)) ms)"

definition tagged_key :: "string tagged \<Rightarrow> string \<times> uint64" where
  "tagged_key t = (tg_elem t, tg_tag t)"

text \<open>
  The keys of a map that hold true; the order Go ranges over a map in does not matter, since
  what is made of them is sorted.
\<close>

definition present_keys :: "string members \<Rightarrow> (string \<times> uint64) list" where
  "present_keys ms = sorted_list_of_fset (tagged_key |`| ffilter (\<lambda>t. fmlookup ms t = Some True) (fmdom ms))"

definition fromMembers :: "string members \<Rightarrow> member list" where
  "fromMembers ms = sortedMembers (map (\<lambda>(e, t). Member e t) (present_keys ms))"

section \<open>Hashes\<close>

record hash_field =
  hf_present :: bool
  hf_value :: string

definition fieldOf :: "(string, bytes) fmap \<Rightarrow> string \<Rightarrow> hash_field" where
  "fieldOf fs name =
     (case fmlookup fs name of None \<Rightarrow> \<lparr>hf_present = False, hf_value = []\<rparr>
      | Some b \<Rightarrow> \<lparr>hf_present = True, hf_value = b\<rparr>)"

definition sortedNames :: "string fset \<Rightarrow> string list" where
  "sortedNames names = sorted_list_of_fset names"

fun hash_loop ::
  "bytes \<Rightarrow> (string, bytes) fmap \<Rightarrow> (string, bytes) fmap \<Rightarrow> (string, bytes) fmap \<Rightarrow> string list \<Rightarrow>
     (string, bytes) fmap \<Rightarrow> model_conflict list \<Rightarrow> (string, bytes) fmap \<times> model_conflict list" where
  "hash_loop key base ours theirs [] merged conflicts = (merged, conflicts)"
| "hash_loop key base ours theirs (n # names) merged conflicts =
     (let fo = fieldOf ours n; ft = fieldOf theirs n; r = Scalar (fieldOf base n) fo ft in
      if \<not> Clean r then
        hash_loop key base ours theirs names merged
          (conflicts @ [\<lparr>mc_location = Location key n, mc_reason = ''field '' @ scalarReason (hf_present fo) (hf_present ft)\<rparr>])
      else if hf_present (r_value r) then
        hash_loop key base ours theirs names (fmupd n (hf_value (r_value r)) merged) conflicts
      else hash_loop key base ours theirs names merged conflicts)"

definition mergeHash ::
  "bytes \<Rightarrow> (string, bytes) fmap \<Rightarrow> (string, bytes) fmap \<Rightarrow> (string, bytes) fmap \<Rightarrow>
     (string, bytes) fmap \<times> model_conflict list" where
  "mergeHash key base ours theirs =
     hash_loop key base ours theirs (sortedNames (fmdom base |\<union>| fmdom ours |\<union>| fmdom theirs)) fmempty []"

section \<open>Sorted sets\<close>

record score =
  s_present :: bool
  s_value :: float64

definition score_eq :: "score \<Rightarrow> score \<Rightarrow> bool" where
  "score_eq a b \<longleftrightarrow> s_present a = s_present b \<and> float_eq (s_value a) (s_value b)"

definition scoredMembers :: "scored list \<Rightarrow> string members" where
  "scoredMembers ss = fmap_of_list (map (\<lambda>s. (Tagged (sc_member s) (sc_tag s), True)) ss)"

text \<open>A later entry of a tagged member replaces an earlier one.\<close>

definition scoresOf :: "scored list \<Rightarrow> (string \<times> uint64, float64) fmap" where
  "scoresOf ss = fmap_of_list (rev (map (\<lambda>s. ((sc_member s, sc_tag s), sc_score s)) ss))"

definition scoreIn :: "(string \<times> uint64, float64) fmap \<Rightarrow> string \<times> uint64 \<Rightarrow> score" where
  "scoreIn scores m =
     (case fmlookup scores m of None \<Rightarrow> \<lparr>s_present = False, s_value = 0\<rparr> | Some v \<Rightarrow> \<lparr>s_present = True, s_value = v\<rparr>)"

fun scores_loop ::
  "bytes \<Rightarrow> (string \<times> uint64, float64) fmap \<Rightarrow> (string \<times> uint64, float64) fmap \<Rightarrow> (string \<times> uint64, float64) fmap \<Rightarrow>
     (string \<times> uint64) list \<Rightarrow> scored list \<Rightarrow> model_conflict list \<Rightarrow> scored list \<times> model_conflict list" where
  "scores_loop key sb so st [] merged conflicts = (merged, conflicts)"
| "scores_loop key sb so st (m # ms) merged conflicts =
     (let x = scoreIn so m; y = scoreIn st m; r = Scalar_by score_eq (scoreIn sb m) x y in
      if \<not> Clean r then
        scores_loop key sb so st ms merged
          (conflicts @ [\<lparr>mc_location = Location key (fst m), mc_reason = ''score '' @ scalarReason (s_present x) (s_present y)\<rparr>])
      else
        let s = (if s_present (r_value r) then r_value r
                 else if s_present (scoreIn so m) then scoreIn so m else scoreIn st m) in
        scores_loop key sb so st ms (merged @ [Scored (fst m) (s_value s) (snd m)]) conflicts)"

definition mergeSortedSet ::
  "bytes \<Rightarrow> scored list \<Rightarrow> scored list \<Rightarrow> scored list \<Rightarrow> scored list \<times> model_conflict list" where
  "mergeSortedSet key base ours theirs =
     (let present = Set_merge (scoredMembers base) (scoredMembers ours) (scoredMembers theirs) in
      scores_loop key (scoresOf base) (scoresOf ours) (scoresOf theirs) (present_keys present) [] [])"

section \<open>Sequences\<close>

fun strings_join :: "string list \<Rightarrow> string \<Rightarrow> string" where
  "strings_join [] sep = []"
| "strings_join [x] sep = x"
| "strings_join (x # xs) sep = x @ sep @ strings_join xs sep"

definition path_string :: "path \<Rightarrow> string" where
  "path_string p = strings_join p ''/''"

definition sequence_reason :: "conflict \<Rightarrow> string" where
  "sequence_reason c =
     (if length (c_path c) = 0 then ''sequence: '' @ c_reason c
      else ''sequence at '' @ path_string (c_path c) @ '': '' @ c_reason c)"

definition mergeSequence ::
  "bytes \<Rightarrow> bytes list \<Rightarrow> bytes list \<Rightarrow> bytes list \<Rightarrow> bytes list \<times> model_conflict list" where
  "mergeSequence key base ours theirs =
     (let r = Sequence base ours theirs (\<lambda>e. e) in
      if \<not> Clean r then
        ([], [\<lparr>mc_location = Location key [], mc_reason = strings_join (map sequence_reason (r_conflicts r)) ''; ''\<rparr>])
      else (r_value r, []))"

section \<open>The decision\<close>

text \<open>The kind byte of a value, as the code compares and prints it.\<close>

definition kind_of :: "kv_value \<Rightarrow> byte" where
  "kind_of v = (case v of VBytes _ \<Rightarrow> kind_byte Bytes | VCounter _ \<Rightarrow> kind_byte CounterKind | VSet _ \<Rightarrow> kind_byte SetKind
     | VHash _ \<Rightarrow> kind_byte Hash | VSortedSet _ \<Rightarrow> kind_byte SortedSet | VSequence _ \<Rightarrow> kind_byte SequenceKind | VOther k \<Rightarrow> k)"

text \<open>The merge of three values of one kind; None where the code falls back to \<open>disagreement\<close>.\<close>

definition merge_values :: "bytes \<Rightarrow> kv_value \<Rightarrow> kv_value \<Rightarrow> kv_value \<Rightarrow> (kv_value \<times> model_conflict list) option" where
  "merge_values key base ours theirs =
     (case (base, ours, theirs) of
        (VCounter b, VCounter x, VCounter y) \<Rightarrow> Some (VCounter (Counter b x y), [])
      | (VSet b, VSet x, VSet y) \<Rightarrow>
          Some (VSet (fromMembers (Set_merge (toMembers b) (toMembers x) (toMembers y))), [])
      | (VHash b, VHash x, VHash y) \<Rightarrow> (case mergeHash key b x y of (m, cs) \<Rightarrow> Some (VHash m, cs))
      | (VSortedSet b, VSortedSet x, VSortedSet y) \<Rightarrow> (case mergeSortedSet key b x y of (m, cs) \<Rightarrow> Some (VSortedSet m, cs))
      | (VSequence b, VSequence x, VSequence y) \<Rightarrow> (case mergeSequence key b x y of (m, cs) \<Rightarrow> Some (VSequence m, cs))
      | _ \<Rightarrow> None)"

definition decide :: "wire \<Rightarrow> disagreement_fn \<Rightarrow> bytes \<Rightarrow> change \<Rightarrow> change \<Rightarrow> decision result" where
  "decide W disagree key ours theirs =
     (if ch_kind ours = Removed \<or> ch_kind theirs = Removed then Inr (disagreement disagree key ours theirs)
      else
        and_then (DecodeValue W (ch_to ours)) (\<lambda>x.
        and_then (DecodeValue W (ch_to theirs)) (\<lambda>y.
        and_then (case ch_from ours of None \<Rightarrow> Inr None | Some f \<Rightarrow> and_then (DecodeValue W f) (\<lambda>b. Inr (Some b))) (\<lambda>base.
          if kind_of x \<noteq> kind_of y then
            Inr (atKey key (''changed to different kinds on both sides ('' @ itoa (bval (kind_of x)) @ '' and '' @
              itoa (bval (kind_of y)) @ '')''))
          else if base = None \<or> kind_of (the base) \<noteq> kind_of x \<or>
              (kind_of x \<noteq> kind_byte CounterKind \<and> ch_to ours = ch_to theirs)
            then Inr (disagreement disagree key ours theirs)
          else case merge_values key (the base) x y of
            None \<Rightarrow> Inr (disagreement disagree key ours theirs)
          | Some (merged, conflicts) \<Rightarrow>
              if length conflicts > 0 then Inr \<lparr>d_value = [], d_put = False, d_conflicts = conflicts\<rparr>
              else and_then (EncodeValue W merged) (\<lambda>f. Inr \<lparr>d_value = f, d_put = True, d_conflicts = []\<rparr>)))))"

section \<open>Hashes field by field\<close>

abbreviation field_merge :: "(string, bytes) fmap \<Rightarrow> (string, bytes) fmap \<Rightarrow> (string, bytes) fmap \<Rightarrow> string \<Rightarrow> hash_field merge_result" where
  "field_merge b x y n \<equiv> Scalar (fieldOf b n) (fieldOf x n) (fieldOf y n)"

definition field_conflict :: "bytes \<Rightarrow> (string, bytes) fmap \<Rightarrow> (string, bytes) fmap \<Rightarrow> string \<Rightarrow> model_conflict" where
  "field_conflict key x y n =
     \<lparr>mc_location = Location key n,
      mc_reason = ''field '' @ scalarReason (hf_present (fieldOf x n)) (hf_present (fieldOf y n))\<rparr>"

lemma hash_loop_conflicts:
  "snd (hash_loop key b x y names merged cs) =
     cs @ map (field_conflict key x y) (filter (\<lambda>n. \<not> Clean (field_merge b x y n)) names)"
  by (induction names arbitrary: merged cs) (simp_all add: Let_def field_conflict_def)

lemma hash_loop_lookup:
  "fmlookup (fst (hash_loop key b x y names merged cs)) n =
     (if n \<in> set names \<and> Clean (field_merge b x y n) \<and> hf_present (r_value (field_merge b x y n))
      then Some (hf_value (r_value (field_merge b x y n))) else fmlookup merged n)"
  by (induction names arbitrary: merged cs) (auto simp: Let_def)

lemma fieldOf_lookup: "fmlookup fs n = (if hf_present (fieldOf fs n) then Some (hf_value (fieldOf fs n)) else None)"
  by (simp add: fieldOf_def split: option.split)

lemma fieldOf_eq_iff: "fieldOf fs n = fieldOf gs n \<longleftrightarrow> fmlookup fs n = fmlookup gs n"
  by (auto simp: fieldOf_def split: option.splits)

lemma mergeHash_lookup:
  assumes "snd (mergeHash key b x y) = []"
  shows "fmlookup (fst (mergeHash key b x y)) n =
    (if fmlookup x n = fmlookup b n then fmlookup y n else fmlookup x n)"
proof -
  let ?names = "sortedNames (fmdom b |\<union>| fmdom x |\<union>| fmdom y)"
  have set: "set ?names = fset (fmdom b |\<union>| fmdom x |\<union>| fmdom y)" by (simp add: sortedNames_def)
  show ?thesis
  proof (cases "n \<in> set ?names")
    case True
    with assms have "Clean (field_merge b x y n)" by (auto simp: mergeHash_def hash_loop_conflicts filter_empty_conv)
    with True show ?thesis
      unfolding mergeHash_def hash_loop_lookup
      by (auto simp: Scalar_clean_iff Scalar_value fieldOf_eq_iff fieldOf_lookup [symmetric] simp flip: fieldOf_lookup)
        (auto simp: fieldOf_eq_iff fieldOf_lookup)
  next
    case False
    then have "fmlookup b n = None" "fmlookup x n = None" "fmlookup y n = None" unfolding set by auto
    with False show ?thesis by (simp add: mergeHash_def hash_loop_lookup)
  qed
qed

section \<open>Symmetry\<close>

lemma scalarReason_sym: "scalarReason a b = scalarReason b a"
  by (auto simp: scalarReason_def)

lemma hash_loop_swap: "hash_loop key b x y names merged cs = hash_loop key b y x names merged cs"
proof (induction names arbitrary: merged cs)
  case (Cons n names)
  have "field_merge b x y n = field_merge b y x n" by (rule Scalar_sym)
  with Cons show ?case by (simp only: hash_loop.simps Let_def scalarReason_sym [of "hf_present (fieldOf x n)"])
qed simp

lemma mergeHash_swap: "mergeHash key b x y = mergeHash key b y x"
  unfolding mergeHash_def hash_loop_swap [of key b x y] by (simp add: funion_commute funion_left_commute)

lemma mergeSequence_swap: "mergeSequence key b x y = mergeSequence key b y x"
  unfolding mergeSequence_def using sequence.mg_sym [of b x y] by simp

lemma members_wf_of_list: "members_wf (fmap_of_list (map (\<lambda>m. (f m, True)) ms))"
  by (induction ms) (auto simp: members_wf_def fmap_of_list_simps fmpred_iff)

lemma Set_merge_swap:
  "Set_merge (fmap_of_list (map (\<lambda>m. (f m, True)) b)) (fmap_of_list (map (\<lambda>m. (f m, True)) x)) (fmap_of_list (map (\<lambda>m. (f m, True)) y)) =
   Set_merge (fmap_of_list (map (\<lambda>m. (f m, True)) b)) (fmap_of_list (map (\<lambda>m. (f m, True)) y)) (fmap_of_list (map (\<lambda>m. (f m, True)) x))"
  using set_policy.mg_sym [OF members_wf_of_list [of f b] members_wf_of_list [of f x] members_wf_of_list [of f y]] by simp

definition scores_ok :: "(string \<times> uint64, float64) fmap \<Rightarrow> bool" where
  "scores_ok sc \<longleftrightarrow> fmpred (\<lambda>m v. \<not> IsNaN v \<and> (v = 0 \<or> \<not> float_eq v 0)) sc"

lemma IsNaN_0: "\<not> IsNaN 0"
  by (simp add: IsNaN_def)

lemma scoreIn_ok:
  assumes "scores_ok sc"
  shows "\<not> IsNaN (s_value (scoreIn sc m))" "s_value (scoreIn sc m) = 0 \<or> \<not> float_eq (s_value (scoreIn sc m)) 0"
  using assms by (cases m; auto simp: scores_ok_def scoreIn_def fmpred_iff IsNaN_0 split: option.split)+

lemma score_eq_iff:
  assumes "scores_ok sc" "scores_ok sd"
  shows "score_eq (scoreIn sc m) (scoreIn sd m) \<longleftrightarrow> scoreIn sc m = scoreIn sd m"
proof
  assume "score_eq (scoreIn sc m) (scoreIn sd m)"
  then have "s_present (scoreIn sc m) = s_present (scoreIn sd m)"
    "float_pos (s_value (scoreIn sc m)) = float_pos (s_value (scoreIn sd m))" by (simp_all add: score_eq_def float_eq_def)
  moreover from this(2) have "s_value (scoreIn sc m) = s_value (scoreIn sd m)"
    by (rule float_pos_inj) (use scoreIn_ok [OF assms(1)] scoreIn_ok [OF assms(2)] in blast)+
  ultimately show "scoreIn sc m = scoreIn sd m" by (intro score.equality) simp_all
next
  assume "scoreIn sc m = scoreIn sd m"
  then show "score_eq (scoreIn sc m) (scoreIn sd m)"
    using scoreIn_ok(1) [OF assms(2), of m] by (simp add: score_eq_def float_eq_def)
qed

lemma scores_loop_swap:
  assumes "scores_ok sb" "scores_ok sx" "scores_ok sy"
  shows "scores_loop key sb sx sy ms merged cs = scores_loop key sb sy sx ms merged cs"
proof (induction ms arbitrary: merged cs)
  case (Cons m ms)
  let ?b = "scoreIn sb m" and ?x = "scoreIn sx m" and ?y = "scoreIn sy m"
  have eq: "Scalar_by score_eq ?b ?x ?y = Scalar ?b ?x ?y" "Scalar_by score_eq ?b ?y ?x = Scalar ?b ?x ?y"
    using assms Scalar_sym [of ?b ?x ?y] by (simp_all add: Scalar_by_def score_eq_iff)
  let ?r = "Scalar ?b ?x ?y"
  have pick: "(if s_present ?x then ?x else ?y) = (if s_present ?y then ?y else ?x)"
    if "Clean ?r" "\<not> s_present (r_value ?r)"
    using that by (auto simp: Scalar_clean_iff Scalar_value scoreIn_def split: option.splits if_splits)
  show ?case
    unfolding scores_loop.simps Let_def eq Cons scalarReason_sym [of "s_present ?x"]
    using pick by auto
qed simp

definition value_ok :: "kv_value \<Rightarrow> bool" where
  "value_ok v \<longleftrightarrow> (\<forall>ss. v = VSortedSet ss \<longrightarrow> (\<forall>s \<in> set ss. score_ok s))"

lemma scores_ok_scoresOf: "\<forall>s \<in> set ss. score_ok s \<Longrightarrow> scores_ok (scoresOf ss)"
  by (auto simp: scores_ok_def scoresOf_def fmpred_iff fmlookup_of_list score_ok_def dest!: map_of_SomeD)

lemma mergeSortedSet_swap:
  assumes "\<forall>s \<in> set b \<union> set x \<union> set y. score_ok s"
  shows "mergeSortedSet key b x y = mergeSortedSet key b y x"
  unfolding mergeSortedSet_def scoredMembers_def
    Set_merge_swap [of "\<lambda>s. Tagged (sc_member s) (sc_tag s)" b x y]
  using assms by (simp add: scores_loop_swap scores_ok_scoresOf)

lemma merge_values_swap:
  assumes "value_ok b" "value_ok x" "value_ok y"
  shows "merge_values key b x y = merge_values key b y x"
proof -
  have set: "Set_merge (toMembers ms) (toMembers xs) (toMembers ys) = Set_merge (toMembers ms) (toMembers ys) (toMembers xs)" for ms xs ys
    unfolding toMembers_def by (rule Set_merge_swap)
  have zset: "mergeSortedSet key bs xs ys = mergeSortedSet key bs ys xs"
    if "value_ok (VSortedSet bs)" "value_ok (VSortedSet xs)" "value_ok (VSortedSet ys)" for bs xs ys
    by (rule mergeSortedSet_swap) (use that in \<open>auto simp: value_ok_def\<close>)
  show ?thesis
    using assms by (cases b; cases x; cases y)
      (simp_all add: merge_values_def Counter_def set mergeHash_swap mergeSequence_swap zset)
qed

context wire_laws
begin

lemma DecodeValue_ok:
  assumes "DecodeValue W f = Inr v"
  shows "value_ok v"
proof -
  { fix ss assume v: "v = VSortedSet ss"
    from Decode_Encode [OF assms] have enc: "EncodeValue W (VSortedSet ss) = Inr f" and ss: "sortedScores ss = ss"
      by (simp_all add: v norm_value_def)
    from enc obtain c where c: "write_items (write_scored W) None ss = Inr c"
      by (auto simp: EncodeValue_def payload_def and_then_Inr write_counted_def ss Let_def split: if_splits)
    have "score_ok s" if s: "s \<in> set ss" for s
    proof -
      obtain q d where "write_scored W q s = Inr d" using write_items_item [OF c s] by blast
      then have "\<not> IsNaN (sc_score s)" by (simp add: write_scored_def split: if_splits)
      moreover from s ss have "s \<in> set (sortedScores ss)" by simp
      then obtain y where "s = positive_zero y" by (auto simp: sortedScores_def)
      ultimately show ?thesis using positive_zero_ok by blast
    qed }
  then show ?thesis by (simp add: value_ok_def)
qed

end

section \<open>What the decision relies on of the storage core\<close>

text \<open>\<open>mapobject.Disagreement\<close> does not depend on which side is ours, but for its reason's words.\<close>

definition disagree_symmetric :: "disagreement_fn \<Rightarrow> bool" where
  "disagree_symmetric disagree \<longleftrightarrow> (\<forall>key x y. fst (disagree key x y) = fst (disagree key y x) \<and>
     fst (snd (disagree key x y)) = fst (snd (disagree key y x)) \<and>
     (snd (snd (disagree key x y)) = [] \<longleftrightarrow> snd (snd (disagree key y x)) = []))"

text \<open>A concrete one: both removed or the same value agree, anything else does not.\<close>

definition plain_disagree :: disagreement_fn where
  "plain_disagree key x y =
     (if ch_kind x = Removed \<and> ch_kind y = Removed then ([], False, [])
      else if ch_kind x \<noteq> Removed \<and> ch_kind y \<noteq> Removed \<and> ch_to x = ch_to y then (ch_to x, True, [])
      else ([], False, ''changed differently on both sides''))"

lemma plain_disagree_symmetric: "disagree_symmetric plain_disagree"
  by (auto simp: disagree_symmetric_def plain_disagree_def)

definition same_decision :: "decision \<Rightarrow> decision \<Rightarrow> bool" where
  "same_decision d d' \<longleftrightarrow> d_value d = d_value d' \<and> d_put d = d_put d' \<and>
     map mc_location (d_conflicts d) = map mc_location (d_conflicts d')"

lemma disagreement_swap:
  "disagree_symmetric disagree \<Longrightarrow> same_decision (disagreement disagree key x y) (disagreement disagree key y x)"
  by (auto simp: disagreement_def same_decision_def disagree_symmetric_def atKey_def Let_def split: prod.splits)
    (metis fst_conv snd_conv)+

lemma decide_decoded:
  assumes "ch_kind ours \<noteq> Removed" "ch_kind theirs \<noteq> Removed"
    "DecodeValue W (ch_to ours) = Inr x" "DecodeValue W (ch_to theirs) = Inr y" "ch_from ours = Some f" "DecodeValue W f = Inr b"
    "kind_of x = kind_of y" "kind_of b = kind_of x" "kind_of x = kind_byte CounterKind \<or> ch_to ours \<noteq> ch_to theirs"
    "merge_values key b x y = Some (merged, conflicts)"
  shows "decide W disagree key ours theirs =
    (if conflicts \<noteq> [] then Inr \<lparr>d_value = [], d_put = False, d_conflicts = conflicts\<rparr>
     else and_then (EncodeValue W merged) (\<lambda>f. Inr \<lparr>d_value = f, d_put = True, d_conflicts = []\<rparr>))"
  using assms by (auto simp: decide_def)

lemma decide_swap:
  assumes "wire_laws W" "disagree_symmetric disagree" "ch_from ours = ch_from theirs"
    "decide W disagree key ours theirs = Inr d"
  shows "\<exists>d'. decide W disagree key theirs ours = Inr d' \<and> same_decision d d'"
proof (cases "ch_kind ours = Removed \<or> ch_kind theirs = Removed")
  case True
  then show ?thesis using assms(4) disagreement_swap [OF assms(2), of key ours theirs] by (auto simp: decide_def)
next
  case False
  with assms(4) obtain x y base where dec: "DecodeValue W (ch_to ours) = Inr x" "DecodeValue W (ch_to theirs) = Inr y"
    "(case ch_from ours of None \<Rightarrow> Inr None | Some f \<Rightarrow> and_then (DecodeValue W f) (\<lambda>b. Inr (Some b))) = Inr base"
    by (auto simp: decide_def and_then_Inr)
  have base: "value_ok b" if "base = Some b" for b
    using dec(3) that wire_laws.DecodeValue_ok [OF assms(1)] by (auto simp: and_then_Inr split: option.splits)
  have swap: "merge_values key (the base) x y = merge_values key (the base) y x" if "base \<noteq> None"
    by (rule merge_values_swap) (use that base wire_laws.DecodeValue_ok [OF assms(1)] dec in auto)
  have dec': "(case ch_from theirs of None \<Rightarrow> Inr None | Some f \<Rightarrow> and_then (DecodeValue W f) (\<lambda>b. Inr (Some b))) = Inr base"
    using dec(3) assms(3) by simp
  let ?go = "\<lambda>o1 o2 v w. if kind_of v \<noteq> kind_of w then Inr (atKey key (''changed to different kinds on both sides ('' @
        itoa (bval (kind_of v)) @ '' and '' @ itoa (bval (kind_of w)) @ '')''))
      else if base = None \<or> kind_of (the base) \<noteq> kind_of v \<or> (kind_of v \<noteq> kind_byte CounterKind \<and> ch_to o1 = ch_to o2)
        then Inr (disagreement disagree key o1 o2)
      else case merge_values key (the base) v w of None \<Rightarrow> Inr (disagreement disagree key o1 o2)
        | Some (merged, conflicts) \<Rightarrow> if length conflicts > 0 then Inr \<lparr>d_value = [], d_put = False, d_conflicts = conflicts\<rparr>
            else and_then (EncodeValue W merged) (\<lambda>f. Inr \<lparr>d_value = f, d_put = True, d_conflicts = []\<rparr>)"
  have go: "decide W disagree key ours theirs = ?go ours theirs x y" "decide W disagree key theirs ours = ?go theirs ours y x"
    using False dec dec' unfolding decide_def by simp_all
  let ?plain = "base = None \<or> kind_of (the base) \<noteq> kind_of x \<or> (kind_of x \<noteq> kind_byte CounterKind \<and> ch_to ours = ch_to theirs)"
  consider "kind_of x \<noteq> kind_of y" | "kind_of x = kind_of y" "?plain \<or> merge_values key (the base) x y = None"
    | m cs where "kind_of x = kind_of y" "\<not> ?plain" "merge_values key (the base) x y = Some (m, cs)" by fastforce
  then show ?thesis
  proof cases
    case 1
    then show ?thesis using assms(4) go by (auto simp: same_decision_def atKey_def)
  next
    case 2
    then have "decide W disagree key ours theirs = Inr (disagreement disagree key ours theirs)"
      "decide W disagree key theirs ours = Inr (disagreement disagree key theirs ours)"
      unfolding go using swap by auto
    then show ?thesis using assms(4) disagreement_swap [OF assms(2), of key ours theirs] by simp
  next
    case 3
    then have "decide W disagree key theirs ours = decide W disagree key ours theirs"
      unfolding go using swap by auto
    then show ?thesis using assms(4) by (auto simp: same_decision_def)
  qed
qed


section \<open>Where conflicts are\<close>

definition below :: "bytes \<Rightarrow> model_conflict \<Rightarrow> bool" where
  "below key c \<longleftrightarrow> (\<exists>sub. mc_location c = Location key sub)"

definition score_conflict :: "bytes \<Rightarrow> (string \<times> uint64, float64) fmap \<Rightarrow> (string \<times> uint64, float64) fmap \<Rightarrow> string \<times> uint64 \<Rightarrow> model_conflict" where
  "score_conflict key sx sy m =
     \<lparr>mc_location = Location key (fst m), mc_reason = ''score '' @ scalarReason (s_present (scoreIn sx m)) (s_present (scoreIn sy m))\<rparr>"

lemma scores_loop_conflicts:
  "snd (scores_loop key sb sx sy ms merged cs) =
     cs @ map (score_conflict key sx sy) (filter (\<lambda>m. \<not> Clean (Scalar_by score_eq (scoreIn sb m) (scoreIn sx m) (scoreIn sy m))) ms)"
  by (induction ms arbitrary: merged cs) (simp_all add: Let_def score_conflict_def)

lemma merges_below:
  "\<forall>c \<in> set (snd (mergeHash key b x y)). below key c"
  "\<forall>c \<in> set (snd (mergeSortedSet key b' x' y')). below key c"
  "\<forall>c \<in> set (snd (mergeSequence key b'' x'' y'')). below key c"
  by (auto simp: mergeHash_def hash_loop_conflicts mergeSortedSet_def scores_loop_conflicts mergeSequence_def
      below_def field_conflict_def score_conflict_def Let_def)

lemma merge_values_below:
  assumes "merge_values key b x y = Some (m, cs)"
  shows "\<forall>c \<in> set cs. below key c"
proof -
  from assms have "cs = [] \<or> (\<exists>b x y. cs = snd (mergeHash key b x y)) \<or> (\<exists>b x y. cs = snd (mergeSortedSet key b x y)) \<or>
      (\<exists>b x y. cs = snd (mergeSequence key b x y))"
    by (cases b; cases x; cases y) (auto simp: merge_values_def split: prod.splits, metis snd_conv, metis snd_conv, metis snd_conv)
  then show ?thesis using merges_below by auto
qed

lemma decide_cases:
  assumes "decide W disagree key ours theirs = Inr d"
  obtains "d = disagreement disagree key ours theirs" | reason where "d = atKey key reason"
  | b x y m cs where "merge_values key b x y = Some (m, cs)" "cs \<noteq> []" "d = \<lparr>d_value = [], d_put = False, d_conflicts = cs\<rparr>"
  | m f where "EncodeValue W m = Inr f" "d = \<lparr>d_value = f, d_put = True, d_conflicts = []\<rparr>"
  using assms unfolding decide_def by (auto simp: and_then_Inr split: if_splits option.splits)

section \<open>Properties\<close>

text \<open>
  C33. The decision on a key both sides changed from one base does not depend on which side is
  ours: the same value is put, or the same places conflict, for every kind of value, provided the
  storage core's rule for plain disagreements does not.
\<close>

theorem decide_symmetric:
  assumes "wire_laws W" "disagree_symmetric disagree" "ch_from ours = ch_from theirs"
    "decide W disagree key ours theirs = Inr d"
  shows "\<exists>d'. decide W disagree key theirs ours = Inr d' \<and> d_value d' = d_value d \<and> d_put d' = d_put d \<and>
    map mc_location (d_conflicts d') = map mc_location (d_conflicts d)"
  using decide_swap [OF assms] by (auto simp: same_decision_def)

theorem decide_symmetric_witness:
  "\<exists>d'. decide std_wire plain_disagree ''k''
      \<lparr>ch_kind = Removed, ch_key = ''k'', ch_from = Some ''x'', ch_to = []\<rparr>
      \<lparr>ch_kind = Modified, ch_key = ''k'', ch_from = Some ''x'', ch_to = ''y''\<rparr> = Inr d' \<and> \<not> d_put d'"
  using decide_symmetric [OF std.wire_laws_axioms plain_disagree_symmetric,
      of "\<lparr>ch_kind = Modified, ch_key = ''k'', ch_from = Some ''x'', ch_to = ''y''\<rparr>"
        "\<lparr>ch_kind = Removed, ch_key = ''k'', ch_from = Some ''x'', ch_to = []\<rparr>" "''k''"]
  by (simp add: decide_def disagreement_def plain_disagree_def atKey_def)

text \<open>
  C34. Every conflict of a decision is located at the key decided or below it, so it parses to
  that key; and a decision either puts a value or conflicts, never both.
\<close>

theorem decide_conflicts_located:
  assumes "wire_laws W" "0 < length key" "length key \<le> MaxKeySize" "decide W disagree key ours theirs = Inr d"
  shows "(\<forall>c \<in> set (d_conflicts d). \<exists>sub. ParseLocation W (mc_location c) = Inr (key, sub)) \<and>
    (d_conflicts d \<noteq> [] \<longrightarrow> \<not> d_put d \<and> d_value d = [])"
proof -
  have parse: "below key c \<Longrightarrow> \<exists>sub. ParseLocation W (mc_location c) = Inr (key, sub)" for c
    using wire_laws.Parse_Location [OF assms(1-3)] by (auto simp: below_def)
  have "(\<forall>c \<in> set (d_conflicts d). below key c) \<and> (d_conflicts d \<noteq> [] \<longrightarrow> \<not> d_put d \<and> d_value d = [])"
    by (rule decide_cases [OF assms(4)])
      (auto simp: disagreement_def atKey_def below_def Let_def split: prod.split dest!: merge_values_below)
  with parse show ?thesis by blast
qed

theorem decide_conflicts_located_witness:
  "\<exists>sub. ParseLocation std_wire (mc_location (hd (d_conflicts (atKey ''k'' ''changed differently on both sides'')))) =
     Inr (''k'', sub)"
  using decide_conflicts_located [OF std.wire_laws_axioms, of "''k''" plain_disagree
      "\<lparr>ch_kind = Modified, ch_key = ''k'', ch_from = Some ''x'', ch_to = ''y''\<rparr>"
      "\<lparr>ch_kind = Removed, ch_key = ''k'', ch_from = Some ''x'', ch_to = []\<rparr>"]
  by (simp add: decide_def disagreement_def plain_disagree_def MaxKeySize_def atKey_def)

text \<open>
  Counters both sides moved, even by the same amount, add both deltas modulo \<open>2^64\<close>: the
  decision puts the frame of the base plus both deltas.
\<close>

theorem decide_counter_adds:
  assumes "wire_laws W" "ch_kind ours = Modified" "ch_kind theirs = Modified"
    "ch_from ours = Some (kind_byte CounterKind # w_u64 W b)" "ch_to ours = kind_byte CounterKind # w_u64 W (b + m)"
    "ch_to theirs = kind_byte CounterKind # w_u64 W (b + n)" "\<forall>c. length (w_u64 W c) \<le> MaxValueSize"
  shows "decide W disagree key ours theirs =
    Inr \<lparr>d_value = kind_byte CounterKind # w_u64 W (b + m + n), d_put = True, d_conflicts = []\<rparr>"
proof -
  have enc: "EncodeValue W (VCounter c) = Inr (kind_byte CounterKind # w_u64 W c)" for c
    using assms(7) by (simp add: EncodeValue_def payload_def not_less)
  have dec: "DecodeValue W (kind_byte CounterKind # w_u64 W c) = Inr (VCounter c)" for c
    using wire_laws.Encode_Decode [OF assms(1) enc [of c]] by (simp add: norm_value_def)
  have "merge_values key (VCounter b) (VCounter (b + m)) (VCounter (b + n)) = Some (VCounter (b + m + n), [])"
    by (simp add: merge_values_def Counter_def)
  from decide_decoded [OF _ _ _ _ _ _ _ _ _ this] show ?thesis
    using assms(2-6) dec enc by (simp add: kind_of_def)
qed

theorem decide_counter_adds_witness:
  "decide std_wire plain_disagree ''k''
      \<lparr>ch_kind = Modified, ch_key = ''k'', ch_from = Some (kind_byte CounterKind # w_u64 std_wire 5),
        ch_to = kind_byte CounterKind # w_u64 std_wire (5 + 1)\<rparr>
      \<lparr>ch_kind = Modified, ch_key = ''k'', ch_from = Some (kind_byte CounterKind # w_u64 std_wire 5),
        ch_to = kind_byte CounterKind # w_u64 std_wire (5 + 1)\<rparr> =
    Inr \<lparr>d_value = kind_byte CounterKind # w_u64 std_wire (5 + 1 + 1), d_put = True, d_conflicts = []\<rparr>"
  by (rule decide_counter_adds [OF std.wire_laws_axioms]) (simp_all add: std_wire_def MaxValueSize_def)

text \<open>
  A hash merges field by field: with no conflict reported, each field of the result is what
  the side that changed it made of it, deletions included, and a conflict is reported for exactly
  the fields both sides changed to different outcomes.
\<close>

theorem mergeHash_per_field:
  "(snd (mergeHash key base ours theirs) = [] \<longrightarrow>
     (\<forall>n. fmlookup (fst (mergeHash key base ours theirs)) n =
        (if fmlookup ours n = fmlookup base n then fmlookup theirs n else fmlookup ours n))) \<and>
   map mc_location (snd (mergeHash key base ours theirs)) =
     map (Location key) (filter (\<lambda>n. fmlookup ours n \<noteq> fmlookup theirs n \<and> fmlookup ours n \<noteq> fmlookup base n \<and>
       fmlookup theirs n \<noteq> fmlookup base n) (sortedNames (fmdom base |\<union>| fmdom ours |\<union>| fmdom theirs)))"
  using mergeHash_lookup [of key base ours theirs]
  by (auto simp: mergeHash_def hash_loop_conflicts field_conflict_def Scalar_clean_iff fieldOf_eq_iff comp_def intro!: filter_cong)

theorem mergeHash_per_field_witness:
  "fmlookup (fst (mergeHash ''k'' fmempty (fmupd ''a'' ''1'' fmempty) fmempty)) ''a'' = Some ''1''"
proof -
  have "snd (mergeHash ''k'' fmempty (fmupd ''a'' ''1'' fmempty) fmempty) = []"
    using mergeHash_per_field [of "''k''" fmempty "fmupd ''a'' ''1'' fmempty" fmempty] by simp
  then show ?thesis
    using mergeHash_per_field [of "''k''" fmempty "fmupd ''a'' ''1'' fmempty" fmempty] by simp
qed

end
