(* ===== verification/Map_Object.thy ===== *)
theory Map_Object
  imports KV_Resolve
begin

text \<open>
  The ordered maps the models keep their objects in. The storage core's \<open>prolly\<close> maps and the
  \<open>mapobject\<close> package over them are not part of this repository: their operations are the
  record \<open>map_port\<close>, over abstract maps \<open>'m\<close>, editors \<open>'e\<close> and roots \<open>'r\<close>, with the
  configuration and the chunk store fixed; each may fail. The locale \<open>map_laws\<close> states what
  the models rely on, as laws of the content of a map, whenever an operation succeeds; the
  finite maps of the library satisfy them.

  Over it stands what the key-value and the document model share: a map of checked keys to
  frames, read and edited through a codec (src/model/kv/handle.go, kv.go and rebase.go and
  src/model/document/handle.go, document.go and rebase.go, which differ only in the codec).
\<close>

section \<open>The storage core's maps\<close>

text \<open>An iterator is the items it yields and then, if it fails, its error.\<close>

type_synonym 'a iter = "'a list \<times> error option"

record ('m, 'e, 'r) map_port =
  mp_empty :: "'m result"
  mp_open :: "'r \<Rightarrow> 'm result"
  mp_root :: "'m \<Rightarrow> 'r"
  mp_get :: "'m \<Rightarrow> bytes \<Rightarrow> bytes option result"
  mp_iter :: "'m \<Rightarrow> bytes option \<Rightarrow> (bytes \<times> bytes) iter result"
  mp_diff :: "'m \<Rightarrow> 'm \<Rightarrow> change iter result"
  mp_editor :: "'m \<Rightarrow> 'e"
  ed_put :: "'e \<Rightarrow> bytes \<Rightarrow> bytes \<Rightarrow> 'e result"
  ed_delete :: "'e \<Rightarrow> bytes \<Rightarrow> 'e result"
  ed_flush :: "'e \<Rightarrow> 'm result"

text \<open>The change of one key between two contents, as \<open>prolly.Diff\<close> reports it.\<close>

definition change_of :: "(bytes \<rightharpoonup> bytes) \<Rightarrow> (bytes \<rightharpoonup> bytes) \<Rightarrow> bytes \<Rightarrow> change" where
  "change_of a b k =
     \<lparr>ch_kind = (if a k = None then Added else if b k = None then Removed else Modified),
      ch_key = k, ch_from = a k, ch_to = (case b k of None \<Rightarrow> [] | Some v \<Rightarrow> v)\<rparr>"

locale map_laws =
  fixes P :: "('m, 'e, 'r) map_port"
    and content :: "'m \<Rightarrow> (bytes \<rightharpoonup> bytes)"
    and pending :: "'e \<Rightarrow> (bytes \<rightharpoonup> bytes)"
  assumes empty: "mp_empty P = Inr m \<Longrightarrow> content m = Map.empty"
    and open_root: "mp_open P (mp_root P m) = Inr m' \<Longrightarrow> content m' = content m"
    and get: "mp_get P m k = Inr held \<Longrightarrow> held = content m k"
    and iter: "mp_iter P m from = Inr (kvs, None) \<Longrightarrow> sorted_wrt (<) (map fst kvs) \<and>
      (\<forall>k v. (k, v) \<in> set kvs \<longleftrightarrow> content m k = Some v \<and> (\<forall>f. from = Some f \<longrightarrow> f \<le> k))"
    and diff: "mp_diff P m m' = Inr (cs, None) \<Longrightarrow> sorted_wrt (<) (map ch_key cs) \<and>
      set cs = change_of (content m) (content m') ` {k. content m k \<noteq> content m' k}"
    and editor: "pending (mp_editor P m) = content m"
    and put: "ed_put P e k v = Inr e' \<Longrightarrow> pending e' = (pending e)(k \<mapsto> v)"
    and delete: "ed_delete P e k = Inr e' \<Longrightarrow> pending e' = (pending e)(k := None)"
    and flush: "ed_flush P e = Inr m \<Longrightarrow> content m = pending e"

section \<open>Rebase\<close>

text \<open>
  The loop of \<open>Rebase\<close> over the side's changes: a key the target holds otherwise than the base
  did ends it, and so does a record that is not one.
\<close>

fun rebase_loop ::
  "('m, 'e, 'r) map_port \<Rightarrow> (bytes \<Rightarrow> bytes \<Rightarrow> unit result) \<Rightarrow> 'm \<Rightarrow> change list \<Rightarrow> error option \<Rightarrow> 'e \<Rightarrow> 'e result" where
  "rebase_loop P check onto [] stop ed = (case stop of None \<Rightarrow> Inr ed | Some e \<Rightarrow> Inl e)"
| "rebase_loop P check onto (c # cs) stop ed =
     and_then (mp_get P onto (ch_key c)) (\<lambda>held.
       if (held \<noteq> None) \<noteq> (ch_kind c \<noteq> Added) \<or>
          (case held of None \<Rightarrow> [] | Some b \<Rightarrow> b) \<noteq> (case ch_from c of None \<Rightarrow> [] | Some b \<Rightarrow> b)
       then Inl [ErrChangedSince]
       else and_then
         (if ch_kind c = Removed then ed_delete P ed (ch_key c)
          else and_then (check (ch_key c) (ch_to c)) (\<lambda>_. ed_put P ed (ch_key c) (ch_to c)))
         (\<lambda>ed. rebase_loop P check onto cs stop ed))"

definition rebase ::
  "('m, 'e, 'r) map_port \<Rightarrow> (bytes \<Rightarrow> bytes \<Rightarrow> unit result) \<Rightarrow> 'r \<Rightarrow> 'r \<Rightarrow> 'r \<Rightarrow> 'r result" where
  "rebase P check base side onto =
     and_then (mp_open P base) (\<lambda>b.
     and_then (mp_open P side) (\<lambda>s.
     and_then (mp_open P onto) (\<lambda>t.
     and_then (mp_diff P b s) (\<lambda>(cs, stop).
     and_then (rebase_loop P check t cs stop (mp_editor P t)) (\<lambda>ed.
     and_then (ed_flush P ed) (\<lambda>merged. Inr (mp_root P merged)))))))"

section \<open>Maps of records\<close>

text \<open>
  The codec of a model: the check of a key, with the sentinel it fails with, and the frames of
  its records.
\<close>

record 'v codec_port =
  cp_key :: "bytes \<Rightarrow> unit result"
  cp_encode :: "'v \<Rightarrow> bytes result"
  cp_decode :: "bytes \<Rightarrow> 'v result"

text \<open>\<open>checked\<close>: a stored key and frame; a stored key that is not one is corruption as well.\<close>

definition checked :: "'v codec_port \<Rightarrow> bytes \<Rightarrow> bytes \<Rightarrow> 'v result" where
  "checked C key frame =
     (case cp_key C key of Inl e \<Rightarrow> Inl (ErrCorrupt # e) | Inr _ \<Rightarrow> cp_decode C frame)"

definition map_get :: "('m, 'e, 'r) map_port \<Rightarrow> 'v codec_port \<Rightarrow> 'm \<Rightarrow> bytes \<Rightarrow> 'v option result" where
  "map_get P C m key =
     and_then (cp_key C key) (\<lambda>_.
     and_then (mp_get P m key) (\<lambda>held.
       case held of None \<Rightarrow> Inr None | Some f \<Rightarrow> and_then (checked C key f) (\<lambda>v. Inr (Some v))))"

text \<open>\<open>Scan\<close> and the calls of \<open>Next\<close> on what it returns, to the end or the first error.\<close>

fun scan_entries :: "'v codec_port \<Rightarrow> (bytes \<times> bytes) list \<Rightarrow> error option \<Rightarrow> (bytes \<times> 'v) iter" where
  "scan_entries C [] stop = ([], stop)"
| "scan_entries C ((k, f) # kvs) stop =
     (case checked C k f of
        Inl e \<Rightarrow> ([], Some e)
      | Inr v \<Rightarrow> (case scan_entries C kvs stop of (xs, e) \<Rightarrow> ((k, v) # xs, e)))"

definition map_scan :: "('m, 'e, 'r) map_port \<Rightarrow> 'v codec_port \<Rightarrow> 'm \<Rightarrow> bytes option \<Rightarrow> (bytes \<times> 'v) iter result" where
  "map_scan P C m from = and_then (mp_iter P m from) (\<lambda>(kvs, stop). Inr (scan_entries C kvs stop))"

definition map_set :: "('m, 'e, 'r) map_port \<Rightarrow> 'v codec_port \<Rightarrow> 'e \<Rightarrow> bytes \<Rightarrow> 'v \<Rightarrow> 'e result" where
  "map_set P C e key v =
     and_then (cp_key C key) (\<lambda>_. and_then (cp_encode C v) (\<lambda>f. ed_put P e key f))"

definition map_delete :: "('m, 'e, 'r) map_port \<Rightarrow> 'v codec_port \<Rightarrow> 'e \<Rightarrow> bytes \<Rightarrow> 'e result" where
  "map_delete P C e key = and_then (cp_key C key) (\<lambda>_. ed_delete P e key)"

text \<open>\<open>Read\<close>: every entry, or the first error.\<close>

definition map_read :: "('m, 'e, 'r) map_port \<Rightarrow> 'v codec_port \<Rightarrow> 'r \<Rightarrow> (bytes \<times> 'v) list result" where
  "map_read P C root =
     and_then (mp_open P root) (\<lambda>m.
     and_then (map_scan P C m None) (\<lambda>(xs, stop). case stop of None \<Rightarrow> Inr xs | Some e \<Rightarrow> Inl e))"

text \<open>The edits of \<open>Write\<close>, one per entry of the Go map, in the order of the keys.\<close>

fun set_all :: "('m, 'e, 'r) map_port \<Rightarrow> 'v codec_port \<Rightarrow> 'e \<Rightarrow> (bytes \<times> 'v) list \<Rightarrow> 'e result" where
  "set_all P C e [] = Inr e"
| "set_all P C e ((k, v) # kvs) = and_then (map_set P C e k v) (\<lambda>e. set_all P C e kvs)"

definition map_write :: "('m, 'e, 'r) map_port \<Rightarrow> 'v codec_port \<Rightarrow> (bytes \<times> 'v) list \<Rightarrow> 'r result" where
  "map_write P C entries =
     and_then (mp_empty P) (\<lambda>m.
     and_then (set_all P C (mp_editor P m) entries) (\<lambda>e.
     and_then (ed_flush P e) (\<lambda>m. Inr (mp_root P m))))"


section \<open>What a rebase gives\<close>

text \<open>The content a merge of two sides that changed different keys has.\<close>

definition disjoint_merge :: "(bytes \<rightharpoonup> bytes) \<Rightarrow> (bytes \<rightharpoonup> bytes) \<Rightarrow> (bytes \<rightharpoonup> bytes) \<Rightarrow> (bytes \<rightharpoonup> bytes)" where
  "disjoint_merge base side onto = (\<lambda>k. if side k = base k then onto k else side k)"

context map_laws
begin

lemma rebase_step:
  assumes "rebase_loop P check onto (c # cs) stop ed = Inr ed'" "c = change_of a b k" "a k \<noteq> b k"
  shows "content onto k = a k \<and> (\<exists>ed1. pending ed1 = (pending ed)(k := b k) \<and> rebase_loop P check onto cs stop ed1 = Inr ed')"
proof -
  from assms(1) obtain held ed1 where h: "mp_get P onto (ch_key c) = Inr held"
      "(held \<noteq> None) = (ch_kind c \<noteq> Added)"
      "(case held of None \<Rightarrow> [] | Some b \<Rightarrow> b) = (case ch_from c of None \<Rightarrow> [] | Some b \<Rightarrow> b)"
    and e: "(if ch_kind c = Removed then ed_delete P ed (ch_key c)
        else and_then (check (ch_key c) (ch_to c)) (\<lambda>_. ed_put P ed (ch_key c) (ch_to c))) = Inr ed1"
      "rebase_loop P check onto cs stop ed1 = Inr ed'"
    by (auto simp: and_then_Inr split: if_splits)
  from get [OF h(1)] have "held = content onto k" by (simp add: assms(2) change_of_def)
  with h assms(2) have "content onto k = a k"
    by (auto simp: change_of_def split: option.splits if_splits)
  moreover have "pending ed1 = (pending ed)(k := b k)"
    using e(1) assms(2,3) by (auto simp: change_of_def and_then_Inr split: if_splits option.splits dest!: delete put)
  ultimately show ?thesis using e(2) by blast
qed

lemma rebase_loop_content:
  assumes "rebase_loop P check onto cs stop ed = Inr ed'" "distinct (map ch_key cs)"
    "set cs \<subseteq> change_of a b ` {k. a k \<noteq> b k}"
  shows "stop = None \<and> (\<forall>c \<in> set cs. content onto (ch_key c) = a (ch_key c)) \<and>
    pending ed' = (\<lambda>k. if k \<in> ch_key ` set cs then b k else pending ed k)"
  using assms
proof (induction cs arbitrary: ed)
  case Nil
  then show ?case by (auto split: option.splits)
next
  case (Cons c cs)
  then obtain k where k: "c = change_of a b k" "a k \<noteq> b k" by auto
  then have key: "ch_key c = k" by (simp add: change_of_def)
  from rebase_step [OF Cons.prems(1) k] obtain ed1 where e: "content onto k = a k" "pending ed1 = (pending ed)(k := b k)"
    "rebase_loop P check onto cs stop ed1 = Inr ed'" by blast
  from Cons.IH [OF e(3)] Cons.prems(2,3) e(1,2) key show ?case by auto
qed

lemma rebase_content:
  assumes "rebase P check (mp_root P base) (mp_root P side) (mp_root P onto) = Inr r"
  obtains merged where "r = mp_root P merged"
    "content merged = disjoint_merge (content base) (content side) (content onto)"
    "\<And>k. content side k \<noteq> content base k \<Longrightarrow> content onto k = content base k"
proof -
  from assms obtain b s t cs stop ed merged where o: "mp_open P (mp_root P base) = Inr b" "mp_open P (mp_root P side) = Inr s"
      "mp_open P (mp_root P onto) = Inr t" and d: "mp_diff P b s = Inr (cs, stop)"
    and l: "rebase_loop P check t cs stop (mp_editor P t) = Inr ed" and f: "ed_flush P ed = Inr merged" "r = mp_root P merged"
    by (auto simp: rebase_def and_then_Inr)
  note c = open_root [OF o(1)] open_root [OF o(2)] open_root [OF o(3)]
  have stop: "stop = None"
  proof -
    have "rebase_loop P check t cs stop ed0 = Inr ed \<Longrightarrow> stop = None" for ed0
      by (induction cs arbitrary: ed0) (auto simp: and_then_Inr split: option.splits if_splits)
    with l show ?thesis by blast
  qed
  with d have cs: "sorted_wrt (<) (map ch_key cs)" "set cs = change_of (content b) (content s) ` {k. content b k \<noteq> content s k}"
    using diff by auto
  then have "distinct (map ch_key cs)" by (simp add: strict_sorted_iff)
  from rebase_loop_content [OF l this, of "content b" "content s"] cs(2)
  have p: "\<forall>c \<in> set cs. content t (ch_key c) = content b (ch_key c)"
    "pending ed = (\<lambda>k. if k \<in> ch_key ` set cs then content s k else content t k)" by (auto simp: editor)
  have keys: "ch_key ` set cs = {k. content b k \<noteq> content s k}"
    unfolding cs(2) image_image by (simp add: change_of_def)
  have "content merged = disjoint_merge (content base) (content side) (content onto)"
    using flush [OF f(1)] p(2) keys c by (auto simp: disjoint_merge_def)
  moreover have "content onto k = content base k" if "content side k \<noteq> content base k" for k
  proof -
    have "k \<in> ch_key ` set cs" using keys c that by auto
    then show ?thesis using p(1) c by auto
  qed
  ultimately show ?thesis using that f(2) by blast
qed

end

section \<open>Records read back\<close>

locale record_model = map_laws P content pending
  for P :: "('m, 'e, 'r) map_port" and content :: "'m \<Rightarrow> (bytes \<rightharpoonup> bytes)" and pending :: "'e \<Rightarrow> (bytes \<rightharpoonup> bytes)" +
  fixes C :: "'v codec_port" and norm :: "'v \<Rightarrow> 'v"
  assumes decode_encode: "cp_encode C v = Inr f \<Longrightarrow> cp_decode C f = Inr (norm v)"
begin

lemma set_pending:
  assumes "map_set P C e k v = Inr e'"
  shows "cp_key C k = Inr () \<and> (\<exists>f. cp_encode C v = Inr f \<and> pending e' = (pending e)(k \<mapsto> f))"
  using assms by (auto simp: map_set_def and_then_Inr dest: put)

lemma get_content:
  assumes "cp_key C k = Inr ()" "mp_get P m k = Inr held" "content m k = Some f" "cp_decode C f = Inr v"
  shows "map_get P C m k = Inr (Some v)"
  using assms get [OF assms(2)] by (simp add: map_get_def checked_def)

lemma set_flush_get:
  assumes "map_set P C e k v = Inr e'" "ed_flush P e' = Inr m" "mp_get P m k = Inr held"
  shows "map_get P C m k = Inr (Some (norm v))"
  using set_pending [OF assms(1)] flush [OF assms(2)] get_content [OF _ assms(3)] decode_encode by fastforce

lemma set_flush_other:
  assumes "map_set P C e k v = Inr e'" "ed_flush P e' = Inr m" "k' \<noteq> k"
  shows "content m k' = pending e k'"
  using set_pending [OF assms(1)] flush [OF assms(2)] assms(3) by auto

lemma delete_flush_get:
  assumes "map_delete P C e k = Inr e'" "ed_flush P e' = Inr m" "mp_get P m k = Inr held"
  shows "map_get P C m k = Inr None"
proof -
  from assms(1) have "cp_key C k = Inr ()" "pending e' = (pending e)(k := None)"
    by (auto simp: map_delete_def and_then_Inr dest: delete)
  then show ?thesis using flush [OF assms(2)] get [OF assms(3)] assms(3) by (simp add: map_get_def)
qed

lemma set_all_pending:
  assumes "set_all P C e kvs = Inr e'" "distinct (map fst kvs)"
  shows "(\<forall>(k, v) \<in> set kvs. cp_key C k = Inr () \<and> (\<exists>f. cp_encode C v = Inr f \<and> pending e' k = Some f)) \<and>
    (\<forall>k. k \<notin> fst ` set kvs \<longrightarrow> pending e' k = pending e k)"
  using assms
proof (induction kvs arbitrary: e)
  case (Cons kv kvs)
  obtain k v where kv: "kv = (k, v)" by fastforce
  with Cons.prems(1) obtain e1 where e1: "map_set P C e k v = Inr e1" "set_all P C e1 kvs = Inr e'"
    by (auto simp: and_then_Inr)
  from set_pending [OF e1(1)] Cons.IH [OF e1(2)] Cons.prems(2) kv show ?case by auto
qed simp

lemma scan_all:
  assumes "\<forall>(k, f) \<in> set kvs. cp_key C k = Inr () \<and> cp_decode C f = Inr (g k)"
  shows "scan_entries C kvs None = (map (\<lambda>(k, f). (k, g k)) kvs, None)"
  using assms by (induction kvs) (auto simp: checked_def)

lemma write_read:
  assumes "map_write P C entries = Inr r" "distinct (map fst entries)" "mp_open P r = Inr m" "mp_iter P m None = Inr (kvs, None)"
  shows "\<exists>xs. map_read P C r = Inr xs \<and> sorted_wrt (<) (map fst xs) \<and> map_of xs = map_option norm \<circ> map_of entries"
proof -
  from assms(1) obtain m0 e m1 where w: "mp_empty P = Inr m0" "set_all P C (mp_editor P m0) entries = Inr e"
      "ed_flush P e = Inr m1" "r = mp_root P m1"
    by (auto simp: map_write_def and_then_Inr)
  from set_all_pending [OF w(2) assms(2)] empty [OF w(1)] editor [of m0]
  have e: "\<And>k v. (k, v) \<in> set entries \<Longrightarrow> cp_key C k = Inr () \<and> (\<exists>f. cp_encode C v = Inr f \<and> pending e k = Some f)"
    "\<And>k. k \<notin> fst ` set entries \<Longrightarrow> pending e k = None" by auto
  have c: "content m = pending e" using open_root [of m1 m] assms(3) w(3,4) flush by simp
  have kvs: "sorted_wrt (<) (map fst kvs)" "\<And>k f. (k, f) \<in> set kvs \<longleftrightarrow> pending e k = Some f"
    using iter [OF assms(4)] c by auto
  let ?g = "\<lambda>k. norm (the (map_of entries k))"
  have decoded: "cp_key C k = Inr () \<and> cp_decode C f = Inr (?g k)" if "(k, f) \<in> set kvs" for k f
  proof -
    from that kvs(2) have p: "pending e k = Some f" by blast
    then have "k \<in> fst ` set entries" using e(2) by force
    then obtain v where v: "(k, v) \<in> set entries" by auto
    with assms(2) have "map_of entries k = Some v" by simp
    with e(1) [OF v] p decode_encode show ?thesis by fastforce
  qed
  then have "scan_entries C kvs None = (map (\<lambda>(k, f). (k, ?g k)) kvs, None)" by (intro scan_all) auto
  then have "map_read P C r = Inr (map (\<lambda>(k, f). (k, ?g k)) kvs)"
    by (simp add: map_read_def assms(3,4) map_scan_def)
  moreover have "map_of (map (\<lambda>(k, f). (k, ?g k)) kvs) = map_option norm \<circ> map_of entries"
  proof (rule ext, unfold comp_apply)
    fix k
    show "map_of (map (\<lambda>(k, f). (k, ?g k)) kvs) k = map_option norm (map_of entries k)"
  proof (cases "map_of entries k")
    case None
    then have "k \<notin> fst ` set entries" by (simp add: map_of_eq_None_iff)
    then have "k \<notin> fst ` set kvs" using e(2) kvs(2) by force
    then have "map_of (map (\<lambda>(k, f). (k, ?g k)) kvs) k = None" by (auto simp: map_of_eq_None_iff image_image case_prod_beta)
    with None show ?thesis by simp
  next
    case (Some v)
    then obtain f where f: "(k, f) \<in> set kvs" using e(1) kvs(2) by (blast dest: map_of_SomeD)
    have "distinct (map fst (map (\<lambda>(k, f). (k, ?g k)) kvs))"
      using kvs(1) by (simp add: strict_sorted_iff comp_def case_prod_beta)
    with f Some show ?thesis by (force intro!: map_of_is_SomeI)
  qed
  qed
  moreover have "sorted_wrt (<) (map fst (map (\<lambda>(k, f). (k, ?g k)) kvs))"
    using kvs(1) by (simp add: comp_def case_prod_beta)
  ultimately show ?thesis by blast
qed

end

section \<open>Finite maps are such maps\<close>

type_synonym table_map = "(bytes, bytes) fmap"

definition fmap_entries :: "table_map \<Rightarrow> (bytes \<times> bytes) list" where
  "fmap_entries m = map (\<lambda>k. (k, the (fmlookup m k))) (sorted_list_of_fset (fmdom m))"

definition fmap_port :: "(table_map, table_map, table_map) map_port" where
  "fmap_port =
     \<lparr>mp_empty = Inr fmempty, mp_open = Inr, mp_root = (\<lambda>m. m), mp_get = (\<lambda>m k. Inr (fmlookup m k)),
      mp_iter = (\<lambda>m from. Inr (filter (\<lambda>(k, _). case from of None \<Rightarrow> True | Some f \<Rightarrow> f \<le> k) (fmap_entries m), None)),
      mp_diff = (\<lambda>m m'. Inr (map (change_of (fmlookup m) (fmlookup m'))
        (filter (\<lambda>k. fmlookup m k \<noteq> fmlookup m' k) (sorted_list_of_fset (fmdom m |\<union>| fmdom m'))), None)),
      mp_editor = (\<lambda>m. m), ed_put = (\<lambda>m k v. Inr (fmupd k v m)), ed_delete = (\<lambda>m k. Inr (fmdrop k m)), ed_flush = Inr\<rparr>"

lemma fmap_port_simps [simp]:
  "mp_empty fmap_port = Inr fmempty" "mp_open fmap_port r = Inr r" "mp_root fmap_port m = m"
  "mp_get fmap_port m k = Inr (fmlookup m k)" "mp_editor fmap_port m = m" "ed_put fmap_port m k v = Inr (fmupd k v m)"
  "ed_delete fmap_port m k = Inr (fmdrop k m)" "ed_flush fmap_port m = Inr m"
  "mp_iter fmap_port m start = Inr (filter (\<lambda>(k, _). case start of None \<Rightarrow> True | Some f \<Rightarrow> f \<le> k) (fmap_entries m), None)"
  "mp_diff fmap_port m m' = Inr (map (change_of (fmlookup m) (fmlookup m'))
     (filter (\<lambda>k. fmlookup m k \<noteq> fmlookup m' k) (sorted_list_of_fset (fmdom m |\<union>| fmdom m'))), None)"
  by (simp_all add: fmap_port_def)

lemma fmap_entries_iff: "(k, v) \<in> set (fmap_entries m) \<longleftrightarrow> fmlookup m k = Some v"
  by (auto simp: fmap_entries_def sorted_list_of_fset.rep_eq fmlookup_dom_iff)

lemma fmap_entries_sorted: "sorted_wrt (<) (map fst (filter p (fmap_entries m)))"
proof -
  have "sorted_wrt (<) (map fst (fmap_entries m))"
    by (simp add: fmap_entries_def comp_def sorted_list_of_fset.rep_eq)
  then show ?thesis by (simp add: sorted_wrt_map sorted_wrt_filter)
qed

interpretation fmap_maps: map_laws fmap_port fmlookup fmlookup
proof
  fix m kvs and start :: "bytes option" assume "mp_iter fmap_port m start = Inr (kvs, None)"
  then show "sorted_wrt (<) (map fst kvs) \<and>
      (\<forall>k v. (k, v) \<in> set kvs \<longleftrightarrow> fmlookup m k = Some v \<and> (\<forall>f. start = Some f \<longrightarrow> f \<le> k))"
    using fmap_entries_sorted by (auto simp: fmap_entries_iff split: option.splits)
next
  fix m m' cs assume "mp_diff fmap_port m m' = Inr (cs, None)"
  then have cs: "cs = map (change_of (fmlookup m) (fmlookup m'))
        (filter (\<lambda>k. fmlookup m k \<noteq> fmlookup m' k) (sorted_list_of_fset (fmdom m |\<union>| fmdom m')))"
    by simp
  have "map ch_key cs = filter (\<lambda>k. fmlookup m k \<noteq> fmlookup m' k) (sorted_list_of_fset (fmdom m |\<union>| fmdom m'))"
    by (simp add: cs change_of_def comp_def)
  then have "sorted_wrt (<) (map ch_key cs)"
    by (simp add: sorted_wrt_filter sorted_list_of_fset.rep_eq)
  moreover have "{k. fmlookup m k \<noteq> fmlookup m' k} \<subseteq> fset (fmdom m |\<union>| fmdom m')" by auto (metis fmdom_notD)
  then have "set cs = change_of (fmlookup m) (fmlookup m') ` {k. fmlookup m k \<noteq> fmlookup m' k}"
    by (auto simp: cs sorted_list_of_fset.rep_eq)
  ultimately show "sorted_wrt (<) (map ch_key cs) \<and>
      set cs = change_of (fmlookup m) (fmlookup m') ` {k. fmlookup m k \<noteq> fmlookup m' k}" ..
qed (auto simp: fun_eq_iff)

end
