(* ===== verification/KV_Map.thy ===== *)
theory KV_Map
  imports Map_Object
begin

text \<open>
  The key-value model as a map object: src/model/kv/kv.go, handle.go and rebase.go over the
  storage core's maps (theory Map_Object) and the value frames (theory KV_Value). A \<open>Map\<close> is
  the map under it, a \<open>MapEditor\<close> the editor, an \<open>Entries\<close> the list of what its \<open>Next\<close> returns.
\<close>

section \<open>Definitions\<close>

definition checkKey :: "bytes \<Rightarrow> unit result" where
  "checkKey k = (if length k = 0 \<or> length k > MaxKeySize then Inl [ErrKey] else Inr ())"

definition kv_codec :: "wire \<Rightarrow> kv_value codec_port" where
  "kv_codec W = \<lparr>cp_key = checkKey, cp_encode = EncodeValue W, cp_decode = DecodeValue W\<rparr>"

definition kv_checked :: "wire \<Rightarrow> bytes \<Rightarrow> bytes \<Rightarrow> kv_value result" where
  "kv_checked W key frame =
     (case checkKey key of Inl e \<Rightarrow> Inl (ErrCorrupt # e) | Inr _ \<Rightarrow> DecodeValue W frame)"

definition kv_Get :: "wire \<Rightarrow> ('m, 'e, 'r) map_port \<Rightarrow> 'm \<Rightarrow> bytes \<Rightarrow> kv_value option result" where
  "kv_Get W P m key =
     and_then (checkKey key) (\<lambda>_.
     and_then (mp_get P m key) (\<lambda>held.
       case held of None \<Rightarrow> Inr None | Some f \<Rightarrow> and_then (kv_checked W key f) (\<lambda>v. Inr (Some v))))"

definition kv_Scan :: "wire \<Rightarrow> ('m, 'e, 'r) map_port \<Rightarrow> 'm \<Rightarrow> bytes option \<Rightarrow> (bytes \<times> kv_value) iter result" where
  "kv_Scan W P m start = map_scan P (kv_codec W) m start"

definition kv_Set :: "wire \<Rightarrow> ('m, 'e, 'r) map_port \<Rightarrow> 'e \<Rightarrow> bytes \<Rightarrow> kv_value \<Rightarrow> 'e result" where
  "kv_Set W P e key v =
     and_then (checkKey key) (\<lambda>_. and_then (EncodeValue W v) (\<lambda>f. ed_put P e key f))"

definition kv_Delete :: "('m, 'e, 'r) map_port \<Rightarrow> 'e \<Rightarrow> bytes \<Rightarrow> 'e result" where
  "kv_Delete P e key = and_then (checkKey key) (\<lambda>_. ed_delete P e key)"

definition kv_Flush :: "('m, 'e, 'r) map_port \<Rightarrow> 'e \<Rightarrow> 'm result" where
  "kv_Flush P e = ed_flush P e"

definition kv_Write :: "wire \<Rightarrow> ('m, 'e, 'r) map_port \<Rightarrow> (bytes \<times> kv_value) list \<Rightarrow> 'r result" where
  "kv_Write W P entries = map_write P (kv_codec W) entries"

definition kv_Read :: "wire \<Rightarrow> ('m, 'e, 'r) map_port \<Rightarrow> 'r \<Rightarrow> (bytes \<times> kv_value) list result" where
  "kv_Read W P root =
     and_then (mp_open P root) (\<lambda>m.
     and_then (kv_Scan W P m None) (\<lambda>(xs, stop). case stop of None \<Rightarrow> Inr xs | Some e \<Rightarrow> Inl e))"

definition kv_Validate :: "wire \<Rightarrow> ('m, 'e, 'r) map_port \<Rightarrow> 'r \<Rightarrow> unit result" where
  "kv_Validate W P root = and_then (kv_Read W P root) (\<lambda>_. Inr ())"

text \<open>\<open>Spec.Check\<close>, then \<open>Rebase\<close> with it.\<close>

definition kv_Check :: "wire \<Rightarrow> bytes \<Rightarrow> bytes \<Rightarrow> unit result" where
  "kv_Check W key frame = and_then (kv_checked W key frame) (\<lambda>_. Inr ())"

definition kv_Rebase :: "wire \<Rightarrow> ('m, 'e, 'r) map_port \<Rightarrow> 'r \<Rightarrow> 'r \<Rightarrow> 'r \<Rightarrow> 'r result" where
  "kv_Rebase W P base side onto = rebase P (kv_Check W) base side onto"

section \<open>The model is a model of records\<close>

lemma kv_codec_simps [simp]:
  "cp_key (kv_codec W) = checkKey" "cp_encode (kv_codec W) = EncodeValue W" "cp_decode (kv_codec W) = DecodeValue W"
  by (simp_all add: kv_codec_def)

lemma kv_checked_generic: "kv_checked W = checked (kv_codec W)"
  by (intro ext) (simp add: kv_checked_def checked_def split: sum.split)

lemma kv_generic:
  "kv_Get W P = map_get P (kv_codec W)" "kv_Set W P = map_set P (kv_codec W)"
  "kv_Delete P = map_delete P (kv_codec W)" "kv_Read W P = map_read P (kv_codec W)"
  unfolding fun_eq_iff kv_Get_def map_get_def kv_Set_def map_set_def kv_Delete_def map_delete_def kv_Read_def
    kv_Scan_def map_read_def kv_checked_generic by simp_all

lemma kv_record_model:
  assumes "map_laws P content pending" "wire_laws W"
  shows "record_model P content pending (kv_codec W) norm_value"
  by (intro record_model.intro record_model_axioms.intro assms(1))
    (use wire_laws.Encode_Decode [OF assms(2)] in simp)

text \<open>The model over finite maps and the standard wire format.\<close>

interpretation kv_std: record_model fmap_port fmlookup fmlookup "kv_codec std_wire" norm_value
  by (rule kv_record_model [OF fmap_maps.map_laws_axioms std.wire_laws_axioms])

section \<open>Properties\<close>

text \<open>
  A value set and flushed is the value a later \<open>Get\<close> returns, in normal form, and every other
  key keeps what it held; a key deleted and flushed is gone. Only the storage core's own read can
  then fail.
\<close>

theorem kv_set_then_get:
  assumes "map_laws P content pending" "wire_laws W" "kv_Set W P e key v = Inr e'" "kv_Flush P e' = Inr m"
    "mp_get P m key = Inr held"
  shows "kv_Get W P m key = Inr (Some (norm_value v)) \<and> (\<forall>k. k = key \<or> content m k = pending e k)"
  using record_model.set_flush_get [OF kv_record_model [OF assms(1,2)], of e key v e' m held]
    record_model.set_flush_other [OF kv_record_model [OF assms(1,2)], of e key v e' m] assms(3-5)
  by (auto simp: kv_generic kv_Flush_def)

theorem kv_set_then_get_witness:
  "kv_Get std_wire fmap_port (fmupd ''k'' (kind_byte Bytes # ''v'') fmempty) ''k'' = Inr (Some (VBytes ''v''))"
  using kv_set_then_get [OF fmap_maps.map_laws_axioms std.wire_laws_axioms, of fmempty "''k''" "VBytes ''v''"
      "fmupd ''k'' (kind_byte Bytes # ''v'') fmempty" "fmupd ''k'' (kind_byte Bytes # ''v'') fmempty" "Some (kind_byte Bytes # ''v'')"]
  by (simp add: kv_Set_def checkKey_def MaxKeySize_def EncodeValue_def payload_def MaxValueSize_def
      kv_Flush_def norm_value_def)

text \<open>
  What \<open>Write\<close> stores \<open>Read\<close> returns: every entry, its value in normal form, in the order
  of the keys, and nothing else, as soon as the storage core opens and walks the map it wrote.
\<close>

theorem kv_write_then_read:
  assumes "map_laws P content pending" "wire_laws W" "distinct (map fst entries)" "kv_Write W P entries = Inr r"
    "mp_open P r = Inr m" "mp_iter P m None = Inr (kvs, None)"
  shows "\<exists>xs. kv_Read W P r = Inr xs \<and> sorted_wrt (<) (map fst xs) \<and> map_of xs = map_option norm_value \<circ> map_of entries"
  using record_model.write_read [OF kv_record_model [OF assms(1,2)] _ assms(3,5,6)] assms(4)
  by (simp add: kv_generic kv_Write_def)

theorem kv_write_then_read_witness:
  "\<exists>xs. kv_Read std_wire fmap_port fmempty = Inr xs \<and> map_of xs = map_option norm_value \<circ> map_of []"
  using kv_write_then_read [OF fmap_maps.map_laws_axioms std.wire_laws_axioms, of "[]" fmempty fmempty "[]"]
  by (auto simp: kv_Write_def map_write_def fmap_entries_def sorted_list_of_fset.rep_eq)

text \<open>
  C39. A rebase that succeeds is the three-way merge of maps whose sides changed different keys:
  every key the side changed holds what the side made of it and every other key what the target
  holds, and no key the side changed was changed in the target since the base; so a rebase
  overwrites no change of the target.
\<close>

theorem kv_rebase_merges_disjoint:
  assumes "map_laws P content pending"
    "kv_Rebase W P (mp_root P base) (mp_root P side) (mp_root P onto) = Inr r"
  shows "\<exists>merged. r = mp_root P merged \<and>
    content merged = (\<lambda>k. if content side k = content base k then content onto k else content side k) \<and>
    (\<forall>k. content side k = content base k \<or> content onto k = content base k)"
proof (rule map_laws.rebase_content [OF assms(1) assms(2) [unfolded kv_Rebase_def]])
  fix merged
  assume "r = mp_root P merged" "content merged = disjoint_merge (content base) (content side) (content onto)"
    "\<And>k. content side k \<noteq> content base k \<Longrightarrow> content onto k = content base k"
  then show ?thesis unfolding disjoint_merge_def by blast
qed

theorem kv_rebase_merges_disjoint_witness:
  "\<exists>merged. fmupd ''a'' (kind_byte Bytes # ''1'') (fmupd ''b'' ''2'' fmempty) = mp_root fmap_port merged \<and>
    fmlookup merged ''b'' = Some ''2''"
  using kv_rebase_merges_disjoint [OF fmap_maps.map_laws_axioms, of std_wire fmempty "fmupd ''a'' (kind_byte Bytes # ''1'') fmempty"
      "fmupd ''b'' ''2'' fmempty" "fmupd ''a'' (kind_byte Bytes # ''1'') (fmupd ''b'' ''2'' fmempty)"]
  by (simp add: kv_Rebase_def rebase_def change_of_def kv_Check_def kv_checked_def checkKey_def
      MaxKeySize_def DecodeValue_def MaxValueSize_def)

end
