(* ===== verification/Doc_Json.thy ===== *)
theory Doc_Json
  imports Merge_Tree_Correct Wire
begin

text \<open>
  The document model's JSON (src/model/document/json.go): the bounded parser, the canonical
  spelling of numbers, and the encoder. The parser's state, the text, the position in it and the
  bytes of canonical text counted so far, is passed as the rest of the text and the count; the
  position is only printed in messages. \<open>members\<close>, which only sizes an allocation, is not
  modelled. \<open>value\<close>, \<open>object\<close> and \<open>array\<close> call each other on shorter rests, so a fuel of
  twice the text's length is enough; running out of it would be the error \<open>OutOfFuel\<close>, which
  no parse gives.
\<close>

section \<open>Limits\<close>

definition MaxDocument :: nat where
  "MaxDocument = 1048576"

definition MaxDepth :: nat where
  "MaxDepth = 64"

definition MaxNumberDigits :: int where
  "MaxNumberDigits = 1000"

text \<open>Every refusal of the parser is \<open>ErrDocument\<close>; the model's own one is told apart.\<close>

datatype json_error = NotADocument | OutOfFuel

type_synonym 'a parsed = "json_error + 'a \<times> bytes \<times> nat"

definition emit :: "nat \<Rightarrow> nat \<Rightarrow> json_error + nat" where
  "emit out n = (if out + n > MaxDocument then Inl NotADocument else Inr (out + n))"

text \<open>The value together with what \<open>emit\<close> says.\<close>

definition emitting :: "'a \<Rightarrow> bytes \<Rightarrow> nat \<Rightarrow> nat \<Rightarrow> 'a parsed" where
  "emitting x r out n = (case emit out n of Inl e \<Rightarrow> Inl e | Inr out \<Rightarrow> Inr (x, r, out))"

definition is_space :: "char \<Rightarrow> bool" where
  "is_space c \<longleftrightarrow> c = CHR '' '' \<or> c = CHR 0x09 \<or> c = CHR 0x0A \<or> c = CHR 0x0D"

definition space :: "bytes \<Rightarrow> bytes" where
  "space r = dropWhile is_space r"

section \<open>Strings\<close>

definition hex_char :: "char \<Rightarrow> nat option" where
  "hex_char c =
     (if CHR ''0'' \<le> c \<and> c \<le> CHR ''9'' then Some (bval c - 48)
      else if CHR ''a'' \<le> c \<and> c \<le> CHR ''f'' then Some (bval c - 87)
      else if CHR ''A'' \<le> c \<and> c \<le> CHR ''F'' then Some (bval c - 55)
      else None)"

text \<open>\<open>hex4\<close>: four bytes through \<open>strconv.ParseUint(s, 16, 32)\<close>, which takes hexadecimal digits only.\<close>

definition hex4 :: "bytes \<Rightarrow> (nat \<times> bytes) option" where
  "hex4 r =
     (if length r < 4 then None
      else case (hex_char (r ! 0), hex_char (r ! 1), hex_char (r ! 2), hex_char (r ! 3)) of
        (Some a, Some b, Some c, Some d) \<Rightarrow> Some (((a * 16 + b) * 16 + c) * 16 + d, drop 4 r)
      | _ \<Rightarrow> None)"

text \<open>\<open>escape\<close>, at the byte after the backslash.\<close>

definition escape :: "bytes \<Rightarrow> (nat \<times> bytes) option" where
  "escape r =
     (case r of [] \<Rightarrow> None
      | c # r \<Rightarrow>
         if c = CHR 0x22 \<or> c = CHR 0x5C \<or> c = CHR ''/'' then Some (bval c, r)
         else if c = CHR ''b'' then Some (8, r)
         else if c = CHR ''f'' then Some (12, r)
         else if c = CHR ''n'' then Some (10, r)
         else if c = CHR ''r'' then Some (13, r)
         else if c = CHR ''t'' then Some (9, r)
         else if c = CHR ''u'' then
           (case hex4 r of None \<Rightarrow> None
            | Some (hi, r) \<Rightarrow>
               if 0xD800 \<le> hi \<and> hi < 0xE000 then
                 (if hi \<ge> 0xDC00 \<or> length r < 2 \<or> r ! 0 \<noteq> CHR 0x5C \<or> r ! 1 \<noteq> CHR ''u'' then None
                  else case hex4 (drop 2 r) of None \<Rightarrow> None
                    | Some (lo, r) \<Rightarrow>
                       if lo < 0xDC00 \<or> lo > 0xDFFF then None
                       else Some ((hi - 0xD800) * 1024 + (lo - 0xDC00) + 0x10000, r))
               else Some (hi, r))
         else None)"

lemma hex4_shorter: "hex4 r = Some (n, r') \<Longrightarrow> length r' < length r"
  by (auto simp: hex4_def split: if_splits option.splits)

lemma escape_shorter:
  assumes "escape r = Some (n, r')"
  shows "length r' < length r"
proof -
  have "hex4 s = Some (m, t) \<Longrightarrow> length t \<le> length s" for s m t using hex4_shorter by fastforce
  then show ?thesis
    using assms by (cases r) (fastforce simp: escape_def split: if_splits option.splits dest: hex4_shorter)+
qed

text \<open>\<open>str\<close>, after the opening quote; the builder is the accumulated text.\<close>

function str_loop :: "bytes \<Rightarrow> string \<Rightarrow> (string \<times> bytes) option" where
  "str_loop r b =
     (case r of [] \<Rightarrow> None
      | c # t \<Rightarrow>
         if c = CHR 0x22 then Some (b, t)
         else if c < CHR 0x20 then None
         else if c = CHR 0x5C then
           (case escape t of None \<Rightarrow> None | Some (n, t) \<Rightarrow> str_loop t (b @ EncodeRune n))
         else str_loop (drop (snd (DecodeRune r)) r) (b @ EncodeRune (fst (DecodeRune r))))"
  by pat_completeness auto
termination
  by (relation "measure (length \<circ> fst)")
    (auto dest!: escape_shorter simp: DecodeRune_width [THEN conjunct1])

declare str_loop.simps [simp del]

definition str :: "bytes \<Rightarrow> (string \<times> bytes) option" where
  "str r = str_loop (drop 1 r) []"

definition quotedLen :: "string \<Rightarrow> nat" where
  "quotedLen s = 2 + sum_list (map (\<lambda>c.
     if c = CHR 0x22 \<or> c = CHR 0x5C \<or> c = CHR 0x08 \<or> c = CHR 0x0C \<or> c = CHR 0x0A \<or> c = CHR 0x0D \<or> c = CHR 0x09 then 2
     else if c < CHR 0x20 then 6 else 1) s)"

section \<open>Numbers\<close>

record decimal =
  intPart :: bytes
  frac :: bytes
  lead :: nat
  sig :: nat
  point :: int

definition digit :: "bytes \<Rightarrow> bytes \<Rightarrow> nat \<Rightarrow> byte" where
  "digit ip fr i = (if i < length ip then ip ! i else fr ! (i - length ip))"

text \<open>The loops that count leading zeros, and digits up to the last that is not a zero.\<close>

function lead_zeros :: "(nat \<Rightarrow> byte) \<Rightarrow> nat \<Rightarrow> nat \<Rightarrow> nat" where
  "lead_zeros d n i = (if i < n \<and> d i = CHR ''0'' then lead_zeros d n (i + 1) else i)"
  by pat_completeness auto
termination
  by (relation "measure (\<lambda>(d, n, i). n - i)") auto

fun trail_end :: "(nat \<Rightarrow> byte) \<Rightarrow> nat \<Rightarrow> nat \<Rightarrow> nat" where
  "trail_end d ld 0 = 0"
| "trail_end d ld (Suc e) = (if Suc e > ld \<and> d e = CHR ''0'' then trail_end d ld e else Suc e)"

declare lead_zeros.simps [simp del]

definition decimalOf :: "bytes \<Rightarrow> bytes \<Rightarrow> int \<Rightarrow> decimal" where
  "decimalOf ip fr exp =
     (let n = length ip + length fr;
          ld = lead_zeros (digit ip fr) n 0;
          e = trail_end (digit ip fr) ld n in
      \<lparr>intPart = ip, frac = fr, lead = ld, sig = e - ld, point = int (length ip) + exp - int ld\<rparr>)"

definition textLen :: "decimal \<Rightarrow> bool \<Rightarrow> nat option" where
  "textLen d neg =
     (if sig d = 0 then Some 1
      else
        let intDigits = (if point d \<le> 0 then 1 else point d);
            fracDigits = (if point d \<le> 0 then int (sig d) - point d
                          else if point d \<ge> int (sig d) then 0 else int (sig d) - point d) in
        if intDigits > MaxNumberDigits \<or> fracDigits > MaxNumberDigits then None
        else Some (nat (intDigits + fracDigits) + (if fracDigits > 0 then 1 else 0) + (if neg then 1 else 0)))"

definition sig_digits :: "decimal \<Rightarrow> nat \<Rightarrow> nat \<Rightarrow> bytes" where
  "sig_digits d from to = map (\<lambda>i. digit (intPart d) (frac d) (lead d + i)) [from..<to]"

definition decimal_text :: "decimal \<Rightarrow> bool \<Rightarrow> string" where
  "decimal_text d neg =
     (if sig d = 0 then ''0''
      else (if neg then ''-'' else []) @
        (if point d \<le> 0 then ''0.'' @ replicate (nat (- point d)) (CHR ''0'') @ sig_digits d 0 (sig d)
         else if point d \<ge> int (sig d) then sig_digits d 0 (sig d) @ replicate (nat (point d) - sig d) (CHR ''0'')
         else sig_digits d 0 (nat (point d)) @ ''.'' @ sig_digits d (nat (point d)) (sig d)))"

text \<open>The parts of a number as written: sign, digits, digits after the point, exponent.\<close>

definition read_frac :: "bytes \<Rightarrow> (bytes \<times> bytes) option" where
  "read_frac r =
     (case r of c # t \<Rightarrow>
        if c = CHR ''.'' then
          (let fr = takeWhile is_digit t in if fr = [] then None else Some (fr, dropWhile is_digit t))
        else Some ([], r)
      | [] \<Rightarrow> Some ([], r))"

definition read_exp :: "bytes \<Rightarrow> (int \<times> bytes) option" where
  "read_exp r =
     (case r of c # t \<Rightarrow>
        if c = CHR ''e'' \<or> c = CHR ''E'' then
          (let neg = (t \<noteq> [] \<and> hd t = CHR ''-'');
               t = (if t \<noteq> [] \<and> (hd t = CHR ''+'' \<or> hd t = CHR ''-'') then tl t else t);
               e = takeWhile is_digit t; e' = dropWhile (\<lambda>c. c = CHR ''0'') e in
           if e = [] then None
           else if length e' > 6 then None
           else Some (if neg then - int (digits_val e') else int (digits_val e'), dropWhile is_digit t))
        else Some (0, r)
      | [] \<Rightarrow> Some (0, r))"

definition read_number :: "bytes \<Rightarrow> (bool \<times> bytes \<times> bytes \<times> int \<times> bytes) option" where
  "read_number r0 =
     (let neg = (r0 \<noteq> [] \<and> hd r0 = CHR ''-'');
          r = (if neg then tl r0 else r0);
          ip = takeWhile is_digit r; r = dropWhile is_digit r in
      if ip = [] then None
      else if length ip > 1 \<and> hd ip = CHR ''0'' then None
      else case read_frac r of None \<Rightarrow> None
        | Some (fr, r) \<Rightarrow> (case read_exp r of None \<Rightarrow> None | Some (exp, r) \<Rightarrow> Some (neg, ip, fr, exp, r)))"

definition number :: "bytes \<Rightarrow> nat \<Rightarrow> node parsed" where
  "number r out =
     (case read_number r of None \<Rightarrow> Inl NotADocument
      | Some (neg, ip, fr, exp, r) \<Rightarrow>
         (let d = decimalOf ip fr exp in
          case textLen d neg of None \<Rightarrow> Inl NotADocument
          | Some n \<Rightarrow> emitting (NNumber (decimal_text d neg)) r out n))"

section \<open>Values\<close>

definition literal :: "string \<Rightarrow> bytes \<Rightarrow> bytes option" where
  "literal word r = (if prefix word r then Some (drop (length word) r) else None)"

text \<open>\<open>slices.SortFunc\<close> by name, then the check that no name comes twice.\<close>

definition close_object :: "(string \<times> node) list \<Rightarrow> bytes \<Rightarrow> nat \<Rightarrow> node parsed" where
  "close_object fs0 r out =
     (let fs = sort_key fst fs0 in
      if \<exists>i \<in> {1..<length fs}. fst (fs ! i) = fst (fs ! (i - 1)) then Inl NotADocument
      else Inr (NObject fs, r, out))"

text \<open>
  The calls of the recursive functions: a value; an object or an array from the point where a
  field or a value is expected, with what it holds so far. Each body takes the function its
  calls go to.
\<close>

datatype call =
    CValue nat
  | CObject nat "(string \<times> node) list"
  | CArray nat "node list"

type_synonym caller = "call \<Rightarrow> bytes \<Rightarrow> nat \<Rightarrow> node parsed"

text \<open>The openings of \<open>object\<close> and \<open>array\<close>: the depth check, the empty ones, the bracket's byte counted.\<close>

definition open_object :: "caller \<Rightarrow> nat \<Rightarrow> bytes \<Rightarrow> nat \<Rightarrow> node parsed" where
  "open_object call depth t out =
     (if depth > MaxDepth then Inl NotADocument
      else let t = space t in
        if t \<noteq> [] \<and> hd t = CHR ''}'' then emitting (Obj []) (tl t) out 2
        else case emit out 1 of Inl e \<Rightarrow> Inl e | Inr out \<Rightarrow> call (CObject depth []) t out)"

definition open_array :: "caller \<Rightarrow> nat \<Rightarrow> bytes \<Rightarrow> nat \<Rightarrow> node parsed" where
  "open_array call depth t out =
     (if depth > MaxDepth then Inl NotADocument
      else let t = space t in
        if t \<noteq> [] \<and> hd t = CHR '']'' then emitting (Arr []) (tl t) out 2
        else case emit out 1 of Inl e \<Rightarrow> Inl e | Inr out \<Rightarrow> call (CArray depth []) t out)"

definition json_string :: "bytes \<Rightarrow> nat \<Rightarrow> node parsed" where
  "json_string r out =
     (case str r of None \<Rightarrow> Inl NotADocument | Some (s, t) \<Rightarrow> emitting (NString s) t out (quotedLen s))"

definition literals :: "bytes \<Rightarrow> nat \<Rightarrow> node parsed" where
  "literals r out =
     (case literal ''true'' r of Some t \<Rightarrow> emitting (NBool True) t out 4
      | None \<Rightarrow> (case literal ''false'' r of Some t \<Rightarrow> emitting (NBool False) t out 5
      | None \<Rightarrow> (case literal ''null'' r of Some t \<Rightarrow> emitting NNull t out 4
      | None \<Rightarrow> Inl NotADocument)))"

definition json_value :: "caller \<Rightarrow> nat \<Rightarrow> bytes \<Rightarrow> nat \<Rightarrow> node parsed" where
  "json_value call depth r out =
     (case r of [] \<Rightarrow> Inl NotADocument
      | c # t \<Rightarrow>
         if c = CHR ''{'' then open_object call (depth + 1) t out
         else if c = CHR ''['' then open_array call (depth + 1) t out
         else if c = CHR 0x22 then json_string r out
         else if c = CHR ''-'' \<or> is_digit c then number r out
         else literals r out)"

definition object_loop :: "caller \<Rightarrow> nat \<Rightarrow> (string \<times> node) list \<Rightarrow> bytes \<Rightarrow> nat \<Rightarrow> node parsed" where
  "object_loop call depth fs r out =
     (let r = space r in
      if r = [] \<or> hd r \<noteq> CHR 0x22 then Inl NotADocument
      else case str r of None \<Rightarrow> Inl NotADocument
      | Some (name, r) \<Rightarrow>
         (case emit out (quotedLen name + 2) of Inl e \<Rightarrow> Inl e
          | Inr out \<Rightarrow>
             (let r = space r in
              if r = [] \<or> hd r \<noteq> CHR '':'' then Inl NotADocument
              else case call (CValue depth) (space (tl r)) out of Inl e \<Rightarrow> Inl e
                | Inr (v, r, out) \<Rightarrow>
                   (let fs = fs @ [(name, v)]; r = space r in
                    if r = [] then Inl NotADocument
                    else if hd r = CHR '','' then call (CObject depth fs) (tl r) out
                    else if hd r = CHR ''}'' then close_object fs (tl r) out
                    else Inl NotADocument))))"

definition array_loop :: "caller \<Rightarrow> nat \<Rightarrow> node list \<Rightarrow> bytes \<Rightarrow> nat \<Rightarrow> node parsed" where
  "array_loop call depth elems r out =
     (case call (CValue depth) (space r) out of Inl e \<Rightarrow> Inl e
      | Inr (v, r, out) \<Rightarrow>
         (let elems = elems @ [v]; r = space r in
          if r = [] then Inl NotADocument
          else case emit out 1 of Inl e \<Rightarrow> Inl e
            | Inr out \<Rightarrow>
               if hd r = CHR '','' then call (CArray depth elems) (tl r) out
               else if hd r = CHR '']'' then Inr (NArray elems, tl r, out)
               else Inl NotADocument))"

primrec run :: "nat \<Rightarrow> caller" where
  "run 0 = (\<lambda>c r out. Inl OutOfFuel)"
| "run (Suc fuel) = (\<lambda>c r out.
     case c of
       CValue depth \<Rightarrow> json_value (run fuel) depth r out
     | CObject depth fs \<Rightarrow> object_loop (run fuel) depth fs r out
     | CArray depth elems \<Rightarrow> array_loop (run fuel) depth elems r out)"

definition Parse :: "bytes \<Rightarrow> json_error + node" where
  "Parse text =
     (if length text > MaxDocument then Inl NotADocument
      else if \<not> Valid text then Inl NotADocument
      else case run (2 * length text + 1) (CValue 0) (space text) 0 of Inl e \<Rightarrow> Inl e
        | Inr (n, r, out) \<Rightarrow> if space r \<noteq> [] then Inl NotADocument else Inr n)"

section \<open>The encoder\<close>

definition hexDigits :: string where
  "hexDigits = ''0123456789abcdef''"

definition string_byte :: "char \<Rightarrow> string" where
  "string_byte c =
     (if c = CHR 0x22 then [CHR 0x5C, CHR 0x22]
      else if c = CHR 0x5C then [CHR 0x5C, CHR 0x5C]
      else if c = CHR 0x08 then [CHR 0x5C, CHR ''b'']
      else if c = CHR 0x0C then [CHR 0x5C, CHR ''f'']
      else if c = CHR 0x0A then [CHR 0x5C, CHR ''n'']
      else if c = CHR 0x0D then [CHR 0x5C, CHR ''r'']
      else if c = CHR 0x09 then [CHR 0x5C, CHR ''t'']
      else if c < CHR 0x20 then
        [CHR 0x5C, CHR ''u'', CHR ''0'', CHR ''0'', hexDigits ! (bval c div 16), hexDigits ! (bval c mod 16)]
      else [c])"

definition appendString :: "string \<Rightarrow> string" where
  "appendString s = CHR 0x22 # concat (map string_byte s) @ [CHR 0x22]"

fun Encode :: "node \<Rightarrow> string" where
  "Encode NNull = ''null''"
| "Encode (NBool b) = (if b then ''true'' else ''false'')"
| "Encode (NNumber t) = t"
| "Encode (NString t) = appendString t"
| "Encode (NArray es) = ''['' @ commas (map Encode es) @ '']''"
| "Encode (NObject fs) = ''{'' @ commas (map (\<lambda>f. appendString (fst f) @ '':'' @ Encode (snd f)) fs) @ ''}''"

end
