(* ===== verification/Doc_Number.thy ===== *)
theory Doc_Number
  imports Doc_Json
begin

text \<open>
  The numbers of the document model read back: the digits between the zeros around them have one
  spelling (\<open>spell\<close>), which is what \<open>decimalOf\<close> and \<open>text\<close> compute, whose length \<open>textLen\<close>
  gives, and which \<open>number\<close> reads as itself.
\<close>

section \<open>Significant digits\<close>

text \<open>A number's digits without the zeros around them, and its one spelling from them.\<close>

abbreviation zero :: "char \<Rightarrow> bool" where
  "zero c \<equiv> c = CHR ''0''"

definition strip :: "bytes \<Rightarrow> bytes" where
  "strip ds = rev (dropWhile zero (rev (dropWhile zero ds)))"

definition spell :: "bytes \<Rightarrow> int \<Rightarrow> bool \<Rightarrow> string" where
  "spell ss p neg =
     (if ss = [] then ''0''
      else (if neg then ''-'' else []) @
        (if p \<le> 0 then ''0.'' @ replicate (nat (- p)) (CHR ''0'') @ ss
         else if p \<ge> int (length ss) then ss @ replicate (nat p - length ss) (CHR ''0'')
         else take (nat p) ss @ ''.'' @ drop (nat p) ss))"

lemma digit_append: "i < length ip + length fr \<Longrightarrow> digit ip fr i = (ip @ fr) ! i"
  by (simp add: digit_def nth_append)

lemma lead_zeros_eq:
  assumes "i \<le> n" "n = length ds" "\<And>j. j < n \<Longrightarrow> d j = ds ! j"
  shows "lead_zeros d n i = i + length (takeWhile zero (drop i ds))"
  using assms
proof (induction d n i rule: lead_zeros.induct)
  case (1 d n i)
  show ?case
  proof (cases "i < n")
    case True
    then have "drop i ds = d i # drop (Suc i) ds" using "1.prems" by (simp add: Cons_nth_drop_Suc)
    with True 1 show ?thesis by (subst lead_zeros.simps) simp
  next
    case False
    with "1.prems" show ?thesis by (subst lead_zeros.simps) simp
  qed
qed

lemma trail_end_eq:
  assumes "e \<le> length ds" "ld \<le> e" "\<And>j. j < length ds \<Longrightarrow> d j = ds ! j"
  shows "trail_end d ld e = ld + length (dropWhile zero (rev (drop ld (take e ds))))"
  using assms
proof (induction e)
  case (Suc e)
  show ?case
  proof (cases "ld = Suc e")
    case False
    then have "drop ld (take (Suc e) ds) = drop ld (take e ds) @ [ds ! e]"
      using Suc.prems by (simp add: take_Suc_conv_app_nth)
    with False Suc show ?thesis by simp
  qed (use Suc.prems in simp)
qed simp

lemma decimalOf_spell:
  fixes ip fr exp
  defines "d \<equiv> decimalOf ip fr exp" and "ds \<equiv> ip @ fr"
  shows "lead d = length (takeWhile zero ds)" "sig d = length (strip ds)"
    "point d = int (length ip) + exp - int (length (takeWhile zero ds))"
    "a \<le> b \<Longrightarrow> b \<le> sig d \<Longrightarrow> sig_digits d a b = slice a b (strip ds)"
proof -
  let ?l = "length (takeWhile zero ds)"
  have dig: "j < length ds \<Longrightarrow> digit ip fr j = ds ! j" for j unfolding ds_def by (rule digit_append) simp
  have len: "length ip + length fr = length ds" by (simp add: ds_def)
  have l: "lead_zeros (digit ip fr) (length ds) 0 = ?l" using lead_zeros_eq [of 0 "length ds" ds "digit ip fr"] dig by simp
  have le: "?l \<le> length ds" by (rule length_takeWhile_le)
  have "drop ?l ds = dropWhile zero ds" by (rule dropWhile_eq_drop [symmetric])
  then have t: "trail_end (digit ip fr) ?l (length ds) = ?l + length (strip ds)"
    using trail_end_eq [of "length ds" ds ?l "digit ip fr"] dig le by (simp add: strip_def)
  show lead: "lead d = ?l" "sig d = length (strip ds)" "point d = int (length ip) + exp - int ?l"
    using l t by (simp_all add: d_def decimalOf_def Let_def len)
  have parts: "intPart d = ip" "frac d = fr" by (simp_all add: d_def decimalOf_def Let_def)
  have strip: "take (length (strip ds)) (drop ?l ds) = strip ds"
  proof -
    have "drop ?l ds = strip ds @ rev (takeWhile zero (rev (dropWhile zero ds)))"
      unfolding strip_def \<open>drop ?l ds = _\<close> by (metis rev_append rev_rev_ident takeWhile_dropWhile_id)
    then show ?thesis by simp
  qed
  have "length (strip ds) \<le> length ds - ?l" using strip by (metis length_drop length_take min.cobounded2 min_def nat_le_linear)
  show "sig_digits d a b = slice a b (strip ds)" if "a \<le> b" "b \<le> sig d" for a b
  proof (rule nth_equalityI)
    show "length (sig_digits d a b) = length (slice a b (strip ds))"
      using that lead(2) by (simp add: sig_digits_def)
    fix i assume i: "i < length (sig_digits d a b)"
    then have "a + i < length (strip ds)" using that lead(2) by (simp add: sig_digits_def)
    then have "strip ds ! (a + i) = ds ! (?l + (a + i))"
      using strip by (metis add_diff_cancel_left' le nth_drop nth_take)
    moreover have "?l + (a + i) < length ds"
      using \<open>a + i < _\<close> \<open>length (strip ds) \<le> _\<close> le by linarith
    ultimately show "sig_digits d a b ! i = slice a b (strip ds) ! i"
      using i that lead by (simp add: sig_digits_def slice_def dig parts add.assoc)
  qed
qed

lemma decimal_text_spell:
  "decimal_text (decimalOf ip fr exp) neg =
     spell (strip (ip @ fr)) (int (length ip) + exp - int (length (takeWhile zero (ip @ fr)))) neg"
proof -
  let ?d = "decimalOf ip fr exp"
  note d = decimalOf_spell [where ip = ip and fr = fr and exp = exp]
  have "sig_digits ?d 0 (sig ?d) = strip (ip @ fr)" using d(4) [of 0 "sig ?d"] d(2) by (simp add: slice_def)
  moreover have "sig_digits ?d 0 (nat (point ?d)) = take (nat (point ?d)) (strip (ip @ fr))"
      "sig_digits ?d (nat (point ?d)) (sig ?d) = drop (nat (point ?d)) (strip (ip @ fr))"
    if "\<not> point ?d \<le> 0" "\<not> point ?d \<ge> int (sig ?d)"
    using d(4) [of 0 "nat (point ?d)"] d(4) [of "nat (point ?d)" "sig ?d"] d(2) that by (simp_all add: slice_def)
  ultimately show ?thesis unfolding decimal_text_def spell_def using d(2,3) by auto
qed

section \<open>A spelled number reads back\<close>

definition number_ends :: "bytes \<Rightarrow> bool" where
  "number_ends r \<longleftrightarrow> r = [] \<or> \<not> (is_digit (hd r) \<or> hd r \<in> {CHR ''.'', CHR ''e'', CHR ''E''})"

lemma number_ends_reads:
  assumes "number_ends r"
  shows "takeWhile is_digit r = []" "dropWhile is_digit r = r" "read_frac r = Some ([], r)" "read_exp r = Some (0, r)"
  using assms by (cases r; auto simp: number_ends_def read_frac_def read_exp_def)+

lemma takeWhile_digits:
  "list_all is_digit ds \<Longrightarrow> r = [] \<or> \<not> is_digit (hd r) \<Longrightarrow> takeWhile is_digit (ds @ r) = ds \<and> dropWhile is_digit (ds @ r) = r"
  by (induction ds) (cases r; auto)+

lemma digit_facts: "\<not> is_digit (CHR ''.'')" "\<not> is_digit (CHR ''-'')" "is_digit (CHR ''0'')"
  by (simp_all add: is_digit_def less_eq_char_def)

lemma read_parts:
  assumes "list_all is_digit ip" "list_all is_digit fr" "ip \<noteq> []" "length ip > 1 \<longrightarrow> hd ip \<noteq> CHR ''0''" "number_ends r"
  shows "read_number ((if neg then ''-'' else []) @ ip @ (if fr = [] then [] else ''.'' @ fr) @ r) = Some (neg, ip, fr, 0, r)"
proof -
  let ?t = "(if fr = [] then [] else ''.'' @ fr) @ r"
  have nd: "r = [] \<or> \<not> is_digit (hd r)" "?t = [] \<or> \<not> is_digit (hd ?t)"
    using assms(5) digit_facts(1) by (auto simp: number_ends_def)
  have fr: "read_frac ?t = Some (fr, r)"
    using number_ends_reads(3) [OF assms(5)] takeWhile_digits [OF assms(2) nd(1)] by (cases "fr = []") (simp_all add: read_frac_def)
  have hd: "ip @ ?t \<noteq> []" "hd (ip @ ?t) \<noteq> CHR ''-''"
    using assms(1,3) digit_facts(2) by (cases ip; auto)+
  have r0: "(if (if neg then ''-'' else []) @ ip @ ?t \<noteq> [] \<and> hd ((if neg then ''-'' else []) @ ip @ ?t) = CHR ''-''
      then tl ((if neg then ''-'' else []) @ ip @ ?t) else (if neg then ''-'' else []) @ ip @ ?t) = ip @ ?t"
    "((if neg then ''-'' else []) @ ip @ ?t \<noteq> [] \<and> hd ((if neg then ''-'' else []) @ ip @ ?t) = CHR ''-'') = neg"
    using hd by auto
  show ?thesis
    unfolding read_number_def Let_def r0
    using takeWhile_digits [OF assms(1) nd(2)] assms(3,4) fr number_ends_reads(4) [OF assms(5)] by simp
qed

lemma strip_zeros:
  fixes ss :: bytes and p :: int
  assumes "ss \<noteq> []" "hd ss \<noteq> CHR ''0''" "last ss \<noteq> CHR ''0''"
  shows "strip (replicate m (CHR ''0'') @ ss @ replicate n (CHR ''0'')) = ss"
    "length (takeWhile zero (replicate m (CHR ''0'') @ ss @ replicate n (CHR ''0''))) = m"
proof -
  have dw: "dropWhile zero (replicate k (CHR ''0'') @ ys) = ys" "takeWhile zero (replicate k (CHR ''0'') @ ys) = replicate k (CHR ''0'')"
    if "ys \<noteq> []" "hd ys \<noteq> CHR ''0''" for k ys
    using that by (induction k; cases ys; simp)+
  have "hd (rev ss) \<noteq> CHR ''0''" using assms by (simp add: hd_rev)
  with assms dw [of "ss @ replicate n (CHR ''0'')" m] dw(1) [of "rev ss" n]
  show "strip (replicate m (CHR ''0'') @ ss @ replicate n (CHR ''0'')) = ss"
    "length (takeWhile zero (replicate m (CHR ''0'') @ ss @ replicate n (CHR ''0''))) = m"
    by (simp_all add: strip_def)
qed

lemma digits_strip_ends: "strip ds = [] \<or> hd (strip ds) \<noteq> CHR ''0'' \<and> last (strip ds) \<noteq> CHR ''0''"
proof (cases "strip ds = []")
  case False
  define x where "x = dropWhile zero ds"
  have s: "strip ds = rev (dropWhile zero (rev x))" by (simp add: strip_def x_def)
  have ne: "dropWhile zero (rev x) \<noteq> []" "x \<noteq> []" using False unfolding s by auto
  have "\<not> zero (hd (dropWhile zero (rev x)))" by (rule hd_dropWhile [OF ne(1)])
  moreover have "\<not> zero (hd x)" using ne(2) unfolding x_def by (rule hd_dropWhile)
  moreover have "x = strip ds @ rev (takeWhile zero (rev x))"
    unfolding s rev_append [symmetric] takeWhile_dropWhile_id by simp
  then have "hd (strip ds) = hd x" using False by (metis hd_append2)
  ultimately show ?thesis using ne(1) unfolding s by (simp add: last_rev)
qed simp

lemma strip_digits: "list_all is_digit ds \<Longrightarrow> list_all is_digit (strip ds)"
  by (auto simp: strip_def list_all_iff dest!: set_dropWhileD)

definition text_len :: "nat \<Rightarrow> int \<Rightarrow> bool \<Rightarrow> nat option" where
  "text_len n p neg = textLen \<lparr>intPart = [], frac = [], lead = 0, sig = n, point = p\<rparr> neg"

lemma textLen_eq: "textLen d neg = text_len (sig d) (point d) neg"
  by (simp only: text_len_def textLen_def decimal.select_convs)

lemma text_len_0 [simp]: "text_len 0 p neg = Some 1"
  by (simp add: text_len_def textLen_def)

lemma length_spell: "text_len (length ss) p neg = Some n \<Longrightarrow> length (spell ss p neg) = n"
  by (cases ss) (auto simp: text_len_def textLen_def spell_def Let_def split: if_splits)

text \<open>How a spelled number reads: the digits before the point, and those after it.\<close>

definition before_point :: "bytes \<Rightarrow> int \<Rightarrow> bytes" where
  "before_point ss p =
     (if p \<le> 0 then ''0'' else if p \<ge> int (length ss) then ss @ replicate (nat p - length ss) (CHR ''0'') else take (nat p) ss)"

definition after_point :: "bytes \<Rightarrow> int \<Rightarrow> bytes" where
  "after_point ss p =
     (if p \<le> 0 then replicate (nat (- p)) (CHR ''0'') @ ss else if p \<ge> int (length ss) then [] else drop (nat p) ss)"

lemma spell_points:
  fixes ss :: bytes and p :: int
  assumes "ss \<noteq> []" "hd ss \<noteq> CHR ''0''" "last ss \<noteq> CHR ''0''" "list_all is_digit ss"
  defines "ip \<equiv> before_point ss p" and "fr \<equiv> after_point ss p"
  shows "spell ss p neg = (if neg then ''-'' else []) @ ip @ (if fr = [] then [] else ''.'' @ fr)"
    "list_all is_digit ip" "list_all is_digit fr" "ip \<noteq> []" "length ip > 1 \<longrightarrow> hd ip \<noteq> CHR ''0''"
    "strip (ip @ fr) = ss" "int (length ip) - int (length (takeWhile zero (ip @ fr))) = p"
proof -
  show "spell ss p neg = (if neg then ''-'' else []) @ ip @ (if fr = [] then [] else ''.'' @ fr)"
    using assms(1) by (auto simp: spell_def ip_def fr_def before_point_def after_point_def)
  show "list_all is_digit ip" "list_all is_digit fr"
    using assms(4) digit_facts by (auto simp: ip_def fr_def before_point_def after_point_def list_all_iff dest: in_set_takeD in_set_dropD)
  show "ip \<noteq> []" "length ip > 1 \<longrightarrow> hd ip \<noteq> CHR ''0''"
    using assms(1,2) by (auto simp: ip_def before_point_def hd_append)
  have "\<exists>m n. ip @ fr = replicate m (CHR ''0'') @ ss @ replicate n (CHR ''0'') \<and> int (length ip) - int m = p"
  proof -
    consider "p \<le> 0" | "p > 0" "p \<ge> int (length ss)" | "p > 0" "p < int (length ss)" by linarith
    then show ?thesis
    proof cases
      case 1
      then show ?thesis
        by (intro exI [of _ "Suc (nat (- p))"] exI [of _ 0]) (simp add: ip_def fr_def before_point_def after_point_def)
    next
      case 2
      then show ?thesis
        by (intro exI [of _ 0] exI [of _ "nat p - length ss"]) (auto simp: ip_def fr_def before_point_def after_point_def)
    next
      case 3
      then show ?thesis
        by (intro exI [of _ 0] exI [of _ 0]) (auto simp: ip_def fr_def before_point_def after_point_def min_def)
    qed
  qed
  then show "strip (ip @ fr) = ss" "int (length ip) - int (length (takeWhile zero (ip @ fr))) = p"
    using strip_zeros [OF assms(1-3)] by auto
qed

lemma number_spelled:
  assumes "ss = [] \<or> hd ss \<noteq> CHR ''0'' \<and> last ss \<noteq> CHR ''0''" "list_all is_digit ss"
    "text_len (length ss) p neg = Some n" "number_ends r"
  shows "number (spell ss p neg @ r) out = emitting (NNumber (spell ss p neg)) r out n"
proof (cases "ss = []")
  case True
  have "read_number (''0'' @ r) = Some (False, ''0'', [], 0, r)"
    using read_parts [of "''0''" "[]" r False] assms(4) digit_facts by simp
  moreover have "strip ''0'' = []" by (simp add: strip_def)
  ultimately show ?thesis
    using True assms(3) by (simp add: number_def textLen_eq decimalOf_spell decimal_text_spell spell_def)
next
  case False
  with assms(1) have ss: "ss \<noteq> []" "hd ss \<noteq> CHR ''0''" "last ss \<noteq> CHR ''0''" by auto
  note sp = spell_points [OF ss assms(2), where p = p]
  have "read_number (spell ss p neg @ r) = Some (neg, before_point ss p, after_point ss p, 0, r)"
    unfolding sp(1) using read_parts [OF sp(2-5) assms(4), of neg] by simp
  then show ?thesis
    using sp(6,7) assms(3) by (simp add: number_def textLen_eq decimalOf_spell decimal_text_spell)
qed

text \<open>Every number read is spelled so.\<close>

lemma number_Inr:
  assumes "number r out = Inr (v, r', out')"
  obtains ss p neg n where "v = NNumber (spell ss p neg)" "ss = [] \<or> hd ss \<noteq> CHR ''0'' \<and> last ss \<noteq> CHR ''0''"
    "list_all is_digit ss" "text_len (length ss) p neg = Some n" "emit out n = Inr out'"
proof -
  from assms obtain neg ip fr exp n where 1: "read_number r = Some (neg, ip, fr, exp, r')"
      "textLen (decimalOf ip fr exp) neg = Some n" "v = NNumber (decimal_text (decimalOf ip fr exp) neg)" "emit out n = Inr out'"
    by (auto simp: number_def emitting_def Let_def split: option.splits sum.splits prod.splits)
  from 1(1) have "list_all is_digit ip" "list_all is_digit fr"
    by (auto simp: read_number_def read_frac_def Let_def list_all_iff dest: set_takeWhileD split: if_splits option.splits prod.splits list.splits)
  then have "list_all is_digit (strip (ip @ fr))" by (intro strip_digits) simp
  then show ?thesis
    using that [OF _ digits_strip_ends [of "ip @ fr"]] 1 by (simp add: textLen_eq decimalOf_spell decimal_text_spell)
qed

end
