(* ===== verification/Doc_Parser.thy ===== *)
theory Doc_Parser
  imports Doc_Number
begin

text \<open>
  The strings of the document model read back, and the parser's fuel is enough: \<open>go\<close> is the fixed
  point of the parser's bodies, on which the proofs about what it reads rest.
\<close>

section \<open>Strings read back\<close>

text \<open>One turn of the loop that reads a string.\<close>

lemma str_loop_turn:
  assumes "str_loop r b = Some (s, t)"
  obtains (quote) "r = CHR 0x22 # t" "s = b"
  | (rune) v n where "str_loop v (b @ EncodeRune n) = Some (s, t)" "length v < length r"
proof (cases r)
  case Nil
  then show ?thesis using assms by (simp add: str_loop.simps)
next
  case (Cons c u)
  have w: "length (drop (snd (DecodeRune r)) r) < length r" using DecodeRune_width [of r] Cons by simp
  have "length (snd p) < length r" if "escape u = Some p" for p
    using escape_shorter [of u "fst p" "snd p"] that Cons by simp
  then show ?thesis
    using assms Cons quote rune [OF _ w] rune [of "snd p" "fst p" for p]
    by (simp add: str_loop.simps [of "c # u"] case_prod_unfold split: if_splits option.splits)
qed

lemma str_loop_reads: "str_loop r b = Some (s, t) \<Longrightarrow> length t < length r \<and> (Valid b \<longrightarrow> Valid s)"
proof (induction r arbitrary: b rule: measure_induct_rule [of length])
  case (less r)
  have "Valid (b @ EncodeRune n)" if "Valid b" for b n
  proof -
    let ?n = "if ValidRune n then n else RuneError"
    have "EncodeRune n = EncodeRune ?n" by (auto simp: EncodeRune_def Let_def ValidRune_def RuneError_def)
    moreover have "Valid (EncodeRune ?n @ [])" by (subst Valid_EncodeRune) (auto simp: ValidRune_def RuneError_def)
    ultimately show ?thesis using that by (simp add: Valid_append)
  qed
  with less.prems less.IH show ?case by (cases rule: str_loop_turn) (force, fastforce)
qed

lemma str_shorter: "str r = Some (s, t) \<Longrightarrow> length t < length r"
  using str_loop_reads [of "drop 1 r" "[]" s t] by (cases r) (auto simp: str_def)

lemma str_Valid: "str r = Some (s, t) \<Longrightarrow> Valid s"
  using str_loop_reads [of "drop 1 r" "[]" s t] by (simp add: str_def)

lemma quotedLen_length: "length (appendString s) = quotedLen s"
proof -
  have "length (string_byte c) = (if c = CHR 0x22 \<or> c = CHR 0x5C \<or> c = CHR 0x08 \<or> c = CHR 0x0C \<or> c = CHR 0x0A \<or>
      c = CHR 0x0D \<or> c = CHR 0x09 then 2 else if c < CHR 0x20 then 6 else 1)" for c
    by (simp add: string_byte_def)
  then show ?thesis by (simp add: appendString_def quotedLen_def length_concat comp_def)
qed

text \<open>The escape of one byte below 0x80 reads back as its rune.\<close>

lemma hex_char_hexDigits: "d < 16 \<Longrightarrow> hex_char (hexDigits ! d) = Some d"
proof -
  have "map hex_char hexDigits = map Some [0..<16]" by (simp add: hexDigits_def hex_char_def less_eq_char_def upt_rec)
  then have "map hex_char hexDigits ! d = map Some [0..<16] ! d" by simp
  moreover have "length hexDigits = 16" by (simp add: hexDigits_def)
  ultimately show "d < 16 \<Longrightarrow> hex_char (hexDigits ! d) = Some d" by simp
qed

lemma escape_control:
  assumes "c < CHR 0x20"
  shows "escape (CHR ''u'' # CHR ''0'' # CHR ''0'' # hexDigits ! (bval c div 16) # hexDigits ! (bval c mod 16) # t) = Some (bval c, t)"
proof -
  have "bval c < 32" using assms by (simp add: less_char_def)
  moreover have "hex_char (CHR ''0'') = Some 0" by (simp add: hex_char_def)
  ultimately show ?thesis
    using hex_char_hexDigits [of "bval c div 16"] hex_char_hexDigits [of "bval c mod 16"]
    by (simp add: escape_def hex4_def)
qed

lemma str_loop_ascii:
  assumes "bval c < 0x80"
  shows "str_loop (string_byte c @ t) b = str_loop t (b @ [c])"
proof -
  have n: "EncodeRune (bval c) = [c]" using assms by (simp add: EncodeRune_ascii)
  have bs: "str_loop (CHR 0x5C # u) b = (case escape u of None \<Rightarrow> None | Some (n, t) \<Rightarrow> str_loop t (b @ EncodeRune n))" for u
    by (subst str_loop.simps) (simp add: less_char_def)
  show ?thesis
  proof (cases "c \<in> {CHR 0x22, CHR 0x5C, CHR 0x08, CHR 0x0C, CHR 0x0A, CHR 0x0D, CHR 0x09}")
    case True
    then have "\<exists>e. string_byte c = [CHR 0x5C, e] \<and> escape (e # t) = Some (bval c, t)"
      by (auto simp: string_byte_def escape_def)
    then show ?thesis using n by (auto simp: bs)
  next
    case False
    show ?thesis
    proof (cases "c < CHR 0x20")
      case True
      then show ?thesis using False escape_control [OF True] n by (simp add: string_byte_def bs)
    next
      case plain: False
      then show ?thesis using False assms n DecodeRune.simps(2) [of c t] by (subst str_loop.simps) (simp add: string_byte_def)
    qed
  qed
qed

lemma EncodeRune_high:
  assumes "ValidRune r" "\<not> r < 0x80"
  shows "\<forall>c \<in> set (EncodeRune r). 0x80 \<le> bval c"
proof -
  have tail: "0x80 \<le> bval (byte_of (0x80 + n mod 64))" for n by (simp add: bval_byte_of del: of_char_of)
  consider "r < 0x800" | "\<not> r < 0x800" "r < 0x10000" | "\<not> r < 0x10000" "r < 0x110000"
    using assms(1) by (fastforce simp: ValidRune_def)
  then show ?thesis
  proof cases
    case 1
    then have "r div 64 < 32" by simp
    then have "0x80 \<le> bval (byte_of (0xC0 + r div 64))" by (simp add: bval_byte_of del: of_char_of)
    with 1 assms tail show ?thesis by (simp add: EncodeRune_def del: of_char_of)
  next
    case 2
    then have "r div 4096 < 16" by simp
    then have "0x80 \<le> bval (byte_of (0xE0 + r div 4096))" by (simp add: bval_byte_of del: of_char_of)
    with 2 assms tail show ?thesis by (simp add: EncodeRune_def del: of_char_of)
  next
    case 3
    then have "r div 262144 < 8" by simp
    then have "0x80 \<le> bval (byte_of (0xF0 + r div 262144))" by (simp add: bval_byte_of del: of_char_of)
    with 3 assms tail show ?thesis by (simp add: EncodeRune_def del: of_char_of)
  qed
qed

lemma string_bytes_high:
  assumes "ValidRune r" "\<not> r < 0x80"
  shows "concat (map string_byte (EncodeRune r)) = EncodeRune r"
proof -
  note high = EncodeRune_high [OF assms]
  have "string_byte c = [c]" if "0x80 \<le> bval c" for c
  proof -
    have "\<not> c < CHR 0x20" using that by (simp add: less_char_def)
    moreover have "c \<notin> {CHR 0x22, CHR 0x5C, CHR 0x08, CHR 0x0C, CHR 0x0A, CHR 0x0D, CHR 0x09}" using that by auto
    ultimately show ?thesis by (simp add: string_byte_def)
  qed
  with high have "map string_byte (EncodeRune r) = map (\<lambda>c. [c]) (EncodeRune r)"
    using map_cong [OF refl, of "EncodeRune r" string_byte "\<lambda>c. [c]"] by blast
  then show "concat (map string_byte (EncodeRune r)) = EncodeRune r" by (simp only: concat_map_singleton list.map_ident)
qed

lemma str_loop_rune:
  assumes "ValidRune r"
  shows "str_loop (concat (map string_byte (EncodeRune r)) @ t) b = str_loop t (b @ EncodeRune r)"
proof (cases "r < 0x80")
  case True
  then show ?thesis using str_loop_ascii [of "byte_of r" t b] by (simp add: EncodeRune_ascii)
next
  case False
  have high: "\<forall>c \<in> set (EncodeRune r). 0x80 \<le> bval c" by (rule EncodeRune_high [OF assms False])
  have "concat (map string_byte (EncodeRune r)) = EncodeRune r" by (rule string_bytes_high [OF assms False])
  moreover obtain c u where e: "EncodeRune r = c # u" using EncodeRune_nonempty [of r] by (cases "EncodeRune r") auto
  with high have "c \<noteq> CHR 0x22" "\<not> c < CHR 0x20" "c \<noteq> CHR 0x5C" by (auto simp: less_char_def)
  then have "str_loop (EncodeRune r @ t) b = str_loop t (b @ EncodeRune r)"
    using DecodeRune_EncodeRune [OF assms, of t] unfolding e by (simp add: str_loop.simps [of "c # _"] e)
  ultimately show ?thesis by simp
qed

lemma str_appendString:
  assumes "Valid s"
  shows "str (appendString s @ t) = Some (s, t)"
proof -
  have "str_loop (concat (map string_byte s) @ CHR 0x22 # t) b = Some (b @ s, t)" for b
    using assms by (induction s arbitrary: b rule: Valid_induct) (simp_all add: str_loop_rune str_loop.simps [of "CHR 0x22 # t"])
  then show ?thesis by (simp add: str_def appendString_def)
qed

section \<open>Fuel\<close>

text \<open>Every call takes a text no longer than its caller's, and the fuel covers two turns a byte.\<close>

fun need :: "call \<Rightarrow> bytes \<Rightarrow> nat" where
  "need (CValue d) r = 2 * length r + 1"
| "need (CObject d fs) r = 2 * length r + 2"
| "need (CArray d es) r = 2 * length r + 2"

definition shortens :: "caller \<Rightarrow> bool" where
  "shortens call \<longleftrightarrow> (\<forall>c r out v r' out'. call c r out = Inr (v, r', out') \<longrightarrow> length r' \<le> length r)"

definition agree :: "nat \<Rightarrow> caller \<Rightarrow> caller \<Rightarrow> bool" where
  "agree n f g \<longleftrightarrow> (\<forall>c r out. need c r \<le> n \<longrightarrow> f c r out = g c r out \<and> g c r out \<noteq> Inl OutOfFuel)"

lemma length_space: "length (space r) \<le> length r"
  by (simp add: space_def length_dropWhile_le)

lemma emit_cases: "emit out n = Inl NotADocument \<and> out + n > MaxDocument \<or> emit out n = Inr (out + n) \<and> out + n \<le> MaxDocument"
  by (auto simp: emit_def)

lemma emitting_Inr: "emitting x r out n = Inr (v, r', out') \<longleftrightarrow> v = x \<and> r' = r \<and> out' = out + n \<and> out' \<le> MaxDocument"
  using emit_cases [of out n] by (auto simp: emitting_def)

lemma emitting_fuel [simp]: "emitting x r out n \<noteq> Inl OutOfFuel"
  using emit_cases [of out n] by (auto simp: emitting_def)

lemma read_number_shorter:
  assumes "read_number r = Some (neg, ip, fr, e, r')"
  shows "length r' < length r"
proof -
  have frac: "length t \<le> length s" if "read_frac s = Some (fr, t)" for s fr t
    using that by (auto simp: read_frac_def Let_def length_dropWhile_le le_SucI split: list.splits if_splits)
  have exp: "length t \<le> length s" if "read_exp s = Some (e, t)" for s e t
    using that length_dropWhile_le [of is_digit] 
    by (auto simp: read_exp_def Let_def intro: le_SucI le_trans [OF length_dropWhile_le] split: list.splits if_splits)
  have "length (dropWhile is_digit u) < length u" if "takeWhile is_digit u \<noteq> []" for u
    using that by (cases u) (auto simp: length_dropWhile_le le_imp_less_Suc split: if_splits)
  then show ?thesis
    using assms by (fastforce simp: read_number_def Let_def dest!: frac exp split: if_splits option.splits)
qed

lemma number_steps:
  "number r out = Inr (v, r', out') \<Longrightarrow> length r' \<le> length r" "number r out \<noteq> Inl OutOfFuel"
  by (auto simp: number_def Let_def emitting_Inr dest: read_number_shorter split: option.splits)

lemma json_string_steps:
  "json_string r out = Inr (v, r', out') \<Longrightarrow> length r' \<le> length r" "json_string r out \<noteq> Inl OutOfFuel"
  by (auto simp: json_string_def emitting_Inr dest: str_shorter split: option.splits)

lemma literals_steps:
  "literals r out = Inr (v, r', out') \<Longrightarrow> length r' \<le> length r" "literals r out \<noteq> Inl OutOfFuel"
  by (auto simp: literals_def literal_def emitting_Inr split: option.splits if_splits)

lemma close_object_steps:
  "close_object fs r out = Inr (v, r', out') \<Longrightarrow> r' = r \<and> out' = out" "close_object fs r out \<noteq> Inl OutOfFuel"
  by (auto simp: close_object_def Let_def split: if_splits)

lemma emit_fuel [simp]: "emit out n \<noteq> Inl OutOfFuel"
  using emit_cases [of out n] by auto

lemma shortensD: "shortens call \<Longrightarrow> call c r out = Inr (v, r', out') \<Longrightarrow> length r' \<le> length r"
  unfolding shortens_def by blast

lemma agreeD: "agree n f g \<Longrightarrow> need c r \<le> n \<Longrightarrow> f c r out = g c r out" "agree n f g \<Longrightarrow> need c r \<le> n \<Longrightarrow> g c r out \<noteq> Inl OutOfFuel"
  unfolding agree_def by blast+

subsection \<open>Values\<close>

lemma json_value_shortens:
  assumes "shortens call" "json_value call d r out = Inr (v, r', out')"
  shows "length r' \<le> length r"
proof (cases r)
  case Nil
  then show ?thesis using assms(2) by (simp add: json_value_def)
next
  case (Cons c t)
  have "length r' \<le> length t" if "open_object call (d + 1) t out = Inr (v, r', out')"
    using that length_space [of t]
    by (auto simp: open_object_def Let_def emitting_Inr dest!: shortensD [OF assms(1)] split: if_splits sum.splits)
  moreover have "length r' \<le> length t" if "open_array call (d + 1) t out = Inr (v, r', out')"
    using that length_space [of t]
    by (auto simp: open_array_def Let_def emitting_Inr dest!: shortensD [OF assms(1)] split: if_splits sum.splits)
  ultimately show ?thesis
    using assms(2) Cons number_steps(1) [of r] json_string_steps(1) [of r] literals_steps(1) [of r]
    by (auto simp: json_value_def intro: le_SucI split: if_splits)
qed

lemma json_value_agree:
  assumes "agree n f g" "2 * length r \<le> n"
  shows "json_value f d r out = json_value g d r out \<and> json_value g d r out \<noteq> Inl OutOfFuel"
proof (cases r)
  case (Cons c t)
  have "need (CObject (Suc d) []) (space t) \<le> n" "need (CArray (Suc d) []) (space t) \<le> n"
    using assms(2) Cons length_space [of t] by simp_all
  with agreeD [OF assms(1)]
  have "open_object f (Suc d) t out = open_object g (Suc d) t out \<and> open_object g (Suc d) t out \<noteq> Inl OutOfFuel"
    "open_array f (Suc d) t out = open_array g (Suc d) t out \<and> open_array g (Suc d) t out \<noteq> Inl OutOfFuel"
    by (auto simp: open_object_def open_array_def Let_def split: sum.split)
  then show ?thesis using Cons by (auto simp: json_value_def number_steps json_string_steps literals_steps)
qed (simp add: json_value_def)

subsection \<open>Objects and arrays\<close>

text \<open>One turn of each loop, up to the value it reads.\<close>

definition field_start :: "bytes \<Rightarrow> nat \<Rightarrow> json_error + string \<times> bytes \<times> nat" where
  "field_start r out =
     (let r = space r in
      if r = [] \<or> hd r \<noteq> CHR 0x22 then Inl NotADocument
      else case str r of None \<Rightarrow> Inl NotADocument
      | Some (name, r) \<Rightarrow>
         (case emit out (quotedLen name + 2) of Inl e \<Rightarrow> Inl e
          | Inr out \<Rightarrow>
             (let r = space r in
              if r = [] \<or> hd r \<noteq> CHR '':'' then Inl NotADocument else Inr (name, space (tl r), out))))"

definition field_end :: "caller \<Rightarrow> nat \<Rightarrow> (string \<times> node) list \<Rightarrow> bytes \<Rightarrow> nat \<Rightarrow> node parsed" where
  "field_end call depth fs r out =
     (let r = space r in
      if r = [] then Inl NotADocument
      else if hd r = CHR '','' then call (CObject depth fs) (tl r) out
      else if hd r = CHR ''}'' then close_object fs (tl r) out
      else Inl NotADocument)"

definition elem_end :: "caller \<Rightarrow> nat \<Rightarrow> node list \<Rightarrow> bytes \<Rightarrow> nat \<Rightarrow> node parsed" where
  "elem_end call depth elems r out =
     (let r = space r in
      if r = [] then Inl NotADocument
      else case emit out 1 of Inl e \<Rightarrow> Inl e
        | Inr out \<Rightarrow>
           if hd r = CHR '','' then call (CArray depth elems) (tl r) out
           else if hd r = CHR '']'' then Inr (NArray elems, tl r, out)
           else Inl NotADocument)"

lemma object_loop_turn:
  "object_loop call depth fs r out =
     (case field_start r out of Inl e \<Rightarrow> Inl e
      | Inr (name, r, out) \<Rightarrow>
         (case call (CValue depth) r out of Inl e \<Rightarrow> Inl e
          | Inr (v, r, out) \<Rightarrow> field_end call depth (fs @ [(name, v)]) r out))"
  by (simp add: object_loop_def field_start_def field_end_def Let_def split: option.split sum.split)

lemma array_loop_turn:
  "array_loop call depth elems r out =
     (case call (CValue depth) (space r) out of Inl e \<Rightarrow> Inl e
      | Inr (v, r, out) \<Rightarrow> elem_end call depth (elems @ [v]) r out)"
  by (simp add: array_loop_def elem_end_def Let_def split: sum.split)

lemma field_start_Inr:
  assumes "field_start r out = Inr (name, r', out')"
  shows "length r' < length r" "Valid name" "out' = out + quotedLen name + 2"
proof -
  from assms obtain t where "str (space r) = Some (name, t)" "space t \<noteq> []" "r' = space (tl (space t))" "emit out (quotedLen name + 2) = Inr out'"
    by (auto simp: field_start_def Let_def split: if_splits option.splits sum.splits)
  moreover from this have "length r' < length (space t)" using length_space [of "tl (space t)"] by (cases "space t") auto
  ultimately show "length r' < length r" "Valid name" "out' = out + quotedLen name + 2"
    using str_shorter [of "space r" name t] str_Valid [of "space r" name t] length_space [of r] length_space [of t]
      emit_cases [of out "quotedLen name + 2"] by auto
qed

lemma field_start_fuel [simp]: "field_start r out \<noteq> Inl OutOfFuel"
  by (auto simp: field_start_def Let_def split: option.split sum.split)

lemma tl_space: "space r \<noteq> [] \<Longrightarrow> length (tl (space r)) < length r"
  using length_space [of r] by (cases "space r") auto

lemma field_end_shortens:
  assumes "shortens call" "field_end call d fs r out = Inr (v, r', out')"
  shows "length r' < length r"
  using assms(2) tl_space [of r]
  by (auto simp: field_end_def Let_def dest!: shortensD [OF assms(1)] dest: close_object_steps(1) split: if_splits)

lemma elem_end_shortens:
  assumes "shortens call" "elem_end call d es r out = Inr (v, r', out')"
  shows "length r' < length r"
  using assms(2) tl_space [of r]
  by (auto simp: elem_end_def Let_def dest!: shortensD [OF assms(1)] split: if_splits sum.splits)

lemma ends_agree:
  assumes "agree n f g" "2 * length r \<le> n"
  shows "field_end f d fs r out = field_end g d fs r out \<and> field_end g d fs r out \<noteq> Inl OutOfFuel"
    "elem_end f d es r out = elem_end g d es r out \<and> elem_end g d es r out \<noteq> Inl OutOfFuel"
proof -
  have a: "f c t o' = g c t o'" "g c t o' \<noteq> Inl OutOfFuel"
    if "space r \<noteq> []" "t = tl (space r)" "c = CObject d fs \<or> c = CArray d es" for c t o'
  proof -
    have "need c t \<le> n" using tl_space [OF that(1)] that assms(2) by auto
    then show "f c t o' = g c t o'" "g c t o' \<noteq> Inl OutOfFuel" using agreeD [OF assms(1)] by metis+
  qed
  show "field_end f d fs r out = field_end g d fs r out \<and> field_end g d fs r out \<noteq> Inl OutOfFuel"
    by (auto simp: field_end_def Let_def a close_object_steps)
  show "elem_end f d es r out = elem_end g d es r out \<and> elem_end g d es r out \<noteq> Inl OutOfFuel"
    by (auto simp: elem_end_def Let_def a split: sum.split)
qed

lemma object_loop_shortens:
  assumes "shortens call" "object_loop call d fs r out = Inr (v, r', out')"
  shows "length r' \<le> length r"
  using assms(2) by (fastforce simp: object_loop_turn
    dest!: shortensD [OF assms(1)] field_end_shortens [OF assms(1)] field_start_Inr(1) split: sum.splits)

lemma array_loop_shortens:
  assumes "shortens call" "array_loop call d es r out = Inr (v, r', out')"
  shows "length r' \<le> length r"
  using assms(2) length_space [of r] by (fastforce simp: array_loop_turn
    dest!: shortensD [OF assms(1)] elem_end_shortens [OF assms(1)] split: sum.splits)

lemma object_loop_agree:
  assumes "agree n f g" "shortens g" "2 * length r \<le> n"
  shows "object_loop f d fs r out = object_loop g d fs r out \<and> object_loop g d fs r out \<noteq> Inl OutOfFuel"
proof (cases "field_start r out")
  case (Inr p)
  obtain name t o' where p: "p = (name, t, o')" by (cases p)
  have "length t < length r" using field_start_Inr(1) Inr p by blast
  then have "f (CValue d) t o' = g (CValue d) t o'" "g (CValue d) t o' \<noteq> Inl OutOfFuel"
    using agreeD [OF assms(1), of "CValue d" t o'] assms(3) by simp_all
  moreover have "field_end f d fs' u x = field_end g d fs' u x \<and> field_end g d fs' u x \<noteq> Inl OutOfFuel"
    if "g (CValue d) t o' = Inr (v, u, x)" for v u x fs'
    using ends_agree(1) [OF assms(1), of u] shortensD [OF assms(2) that] \<open>length t < length r\<close> assms(3) by simp
  ultimately show ?thesis using Inr p by (simp add: object_loop_turn split: sum.split) blast
qed (auto simp: object_loop_turn)

lemma array_loop_agree:
  assumes "agree n f g" "shortens g" "2 * length r + 1 \<le> n"
  shows "array_loop f d es r out = array_loop g d es r out \<and> array_loop g d es r out \<noteq> Inl OutOfFuel"
proof -
  have "f (CValue d) (space r) out = g (CValue d) (space r) out" "g (CValue d) (space r) out \<noteq> Inl OutOfFuel"
    using agreeD [OF assms(1), of "CValue d" "space r" out] assms(3) length_space [of r] by simp_all
  moreover have "elem_end f d es' u x = elem_end g d es' u x \<and> elem_end g d es' u x \<noteq> Inl OutOfFuel"
    if "g (CValue d) (space r) out = Inr (v, u, x)" for v u x es'
    using ends_agree(2) [OF assms(1), of u] shortensD [OF assms(2) that] length_space [of r] assms(3) by simp
  ultimately show ?thesis by (simp add: array_loop_turn split: sum.split) blast
qed

subsection \<open>The fuel is enough\<close>

lemma run_shortens: "shortens (run fuel)"
proof (induction fuel)
  case (Suc fuel)
  show ?case unfolding shortens_def
    using json_value_shortens [OF Suc] object_loop_shortens [OF Suc] array_loop_shortens [OF Suc] by (auto split: call.split)
qed (simp add: shortens_def)

lemma run_agree: "m \<le> m' \<Longrightarrow> agree m (run m) (run m')"
proof (induction m arbitrary: m')
  case 0
  have "need c r \<noteq> 0" for c r by (cases c) auto
  then show ?case unfolding agree_def by (metis le_zero_eq)
next
  case (Suc m)
  then obtain k where k: "m' = Suc k" "m \<le> k" by (cases m') auto
  note ih = Suc.IH [OF k(2)]
  show ?case
    unfolding agree_def
  proof (intro allI impI)
    fix c r out
    assume "need c r \<le> Suc m"
    then show "run (Suc m) c r out = run m' c r out \<and> run m' c r out \<noteq> Inl OutOfFuel"
      using json_value_agree [OF ih] object_loop_agree [OF ih run_shortens] array_loop_agree [OF ih run_shortens] k(1)
      by (cases c) auto
  qed
qed

text \<open>The parser as the fixed point of its bodies.\<close>

definition go :: caller where
  "go c r out = run (need c r) c r out"

lemma run_go: "need c r \<le> fuel \<Longrightarrow> run fuel c r out = go c r out"
  using agreeD(1) [OF run_agree, of "need c r" fuel c r out] by (simp add: go_def)

lemma go_fuel: "go c r out \<noteq> Inl OutOfFuel"
  using agreeD(2) [OF run_agree, of "need c r" "need c r" c r out] by (simp add: go_def)

lemma agree_go: "agree n (run n) go"
  using run_go by (auto simp: agree_def go_fuel)

lemma go_simps:
  "go (CValue d) r out = json_value go d r out"
  "go (CObject d fs) r out = object_loop go d fs r out"
  "go (CArray d es) r out = array_loop go d es r out"
proof -
  have s: "shortens go" using run_shortens unfolding shortens_def go_def by blast
  show "go (CValue d) r out = json_value go d r out"
    using json_value_agree [OF agree_go, of r "2 * length r"] by (simp add: go_def)
  show "go (CObject d fs) r out = object_loop go d fs r out"
    using object_loop_agree [OF agree_go s, of r "2 * length r + 1"] by (simp add: go_def)
  show "go (CArray d es) r out = array_loop go d es r out"
    using array_loop_agree [OF agree_go s, of r "2 * length r + 1"] by (simp add: go_def)
qed

end
