(* ===== verification/Doc_Canonical.thy ===== *)
theory Doc_Canonical
  imports Doc_Parser "HOL-Library.Multiset"
begin

text \<open>
  \<open>Parse\<close> and \<open>Encode\<close> of src/model/document/json.go together: what a parse returns is a document
  (\<open>doc\<close>) whose canonical text the parser has counted to the byte, and the canonical text of a
  document parses to it.
\<close>

section \<open>What a parse returns\<close>

text \<open>A number in canonical text; a node that is a document at a nesting depth.\<close>

definition canonical_number :: "string \<Rightarrow> bool" where
  "canonical_number t \<longleftrightarrow> (\<exists>ss p neg n. t = spell ss p neg \<and> (ss = [] \<or> hd ss \<noteq> CHR ''0'' \<and> last ss \<noteq> CHR ''0'') \<and>
     list_all is_digit ss \<and> text_len (length ss) p neg = Some n)"

fun doc :: "nat \<Rightarrow> node \<Rightarrow> bool" where
  "doc d (NNumber t) = canonical_number t"
| "doc d (NString t) = Valid t"
| "doc d (NArray es) = (d < MaxDepth \<and> (\<forall>e \<in> set es. doc (Suc d) e))"
| "doc d (NObject fs) = (d < MaxDepth \<and> sorted_wrt (<) (map fst fs) \<and> (\<forall>f \<in> set fs. Valid (fst f) \<and> doc (Suc d) (snd f)))"
| "doc d n = True"

text \<open>The canonical bytes of fields and of elements, with the byte that follows each.\<close>

definition fields_cost :: "(string \<times> node) list \<Rightarrow> nat" where
  "fields_cost fs = sum_list (map (\<lambda>f. quotedLen (fst f) + 2 + length (Encode (snd f))) fs)"

definition elems_cost :: "node list \<Rightarrow> nat" where
  "elems_cost es = sum_list (map (\<lambda>e. length (Encode e) + 1) es)"

lemma length_commas: "xs \<noteq> [] \<Longrightarrow> length (commas xs) + 1 = sum_list (map (\<lambda>x. length x + 1) xs)"
  by (induction xs rule: commas.induct) auto

lemma length_Encode_composite:
  "fs \<noteq> [] \<Longrightarrow> length (Encode (NObject fs)) = 1 + fields_cost fs"
  "es \<noteq> [] \<Longrightarrow> length (Encode (NArray es)) = 1 + elems_cost es"
  using length_commas [of "map (\<lambda>f. appendString (fst f) @ '':'' @ Encode (snd f)) fs"] length_commas [of "map Encode es"]
  by (simp_all add: fields_cost_def elems_cost_def comp_def quotedLen_length)

definition ok_fields :: "nat \<Rightarrow> (string \<times> node) list \<Rightarrow> bool" where
  "ok_fields d fs \<longleftrightarrow> (\<forall>f \<in> set fs. Valid (fst f) \<and> doc d (snd f))"

fun sound :: "call \<Rightarrow> nat \<Rightarrow> node \<Rightarrow> nat \<Rightarrow> bool" where
  "sound (CValue d) out v out' = (doc d v \<and> out' = out + length (Encode v) \<and> out' \<le> MaxDocument)"
| "sound (CObject d fs) out v out' =
     (ok_fields d fs \<longrightarrow> (\<exists>fs'. v = NObject fs' \<and> sorted_wrt (<) (map fst fs') \<and> ok_fields d fs' \<and>
        out' + 1 + fields_cost fs = out + length (Encode v) \<and> out' \<le> MaxDocument))"
| "sound (CArray d es) out v out' =
     ((\<forall>e \<in> set es. doc d e) \<longrightarrow> (\<exists>es'. v = NArray es' \<and> (\<forall>e \<in> set es'. doc d e) \<and>
        out' + 1 + elems_cost es = out + length (Encode v) \<and> out' \<le> MaxDocument))"

definition sound_caller :: "caller \<Rightarrow> bool" where
  "sound_caller call \<longleftrightarrow> (\<forall>c r out v r' out'. call c r out = Inr (v, r', out') \<longrightarrow> sound c out v out')"

lemma soundD: "sound_caller call \<Longrightarrow> call c r out = Inr (v, r', out') \<Longrightarrow> sound c out v out'"
  unfolding sound_caller_def by blast

lemma number_sound:
  assumes "number r out = Inr (v, r', out')"
  shows "sound (CValue d) out v out'"
proof (rule number_Inr [OF assms])
  fix ss p neg n
  assume *: "v = NNumber (spell ss p neg)" "ss = [] \<or> hd ss \<noteq> CHR ''0'' \<and> last ss \<noteq> CHR ''0''"
    "list_all is_digit ss" "text_len (length ss) p neg = Some n" "emit out n = Inr out'"
  then have "canonical_number (spell ss p neg)" unfolding canonical_number_def by blast
  with * length_spell [OF *(4)] emit_cases [of out n] show ?thesis by simp
qed

lemma open_sound:
  assumes "sound_caller call"
  shows "open_object call (Suc d) t out = Inr (v, r', out') \<Longrightarrow> sound (CValue d) out v out'"
    "open_array call (Suc d) t out = Inr (v, r', out') \<Longrightarrow> sound (CValue d) out v out'"
  using emit_cases [of out 1]
  by (auto simp: open_object_def open_array_def Let_def emitting_Inr Obj_def Arr_def ok_fields_def fields_cost_def
      elems_cost_def not_less dest!: soundD [OF assms] split: if_splits)

lemma json_value_sound:
  assumes "sound_caller call" "json_value call d r out = Inr (v, r', out')"
  shows "sound (CValue d) out v out'"
proof (cases r)
  case (Cons c t)
  have "sound (CValue d) out v out'" if "json_string r out = Inr (v, r', out')"
    using that by (auto simp: json_string_def emitting_Inr quotedLen_length dest: str_Valid split: option.splits)
  moreover have "sound (CValue d) out v out'" if "literals r out = Inr (v, r', out')"
    using that by (auto simp: literals_def emitting_Inr split: option.splits)
  ultimately show ?thesis
    using assms(2) Cons open_sound [OF assms(1)] number_sound by (auto simp: json_value_def split: if_splits)
qed (use assms in \<open>simp add: json_value_def\<close>)

lemma close_object_sound:
  assumes "close_object fs r out = Inr (v, r', out')" "ok_fields d fs" "fs \<noteq> []"
  shows "\<exists>fs'. v = NObject fs' \<and> sorted_wrt (<) (map fst fs') \<and> ok_fields d fs' \<and> length (Encode v) = 1 + fields_cost fs"
proof -
  let ?fs = "sort_key fst fs"
  have v: "v = NObject ?fs" and tw: "\<not> (\<exists>i \<in> {1..<length ?fs}. fst (?fs ! i) = fst (?fs ! (i - 1)))"
    using assms(1) by (auto simp: close_object_def Let_def split: if_splits)
  have "map fst ?fs ! i \<noteq> map fst ?fs ! Suc i" if "Suc i < length ?fs" for i
    using tw that by (auto dest: bspec [of _ _ "Suc i"])
  then have "sorted_wrt (<) (map fst ?fs)"
    using sorted_sort_key [of fst fs] by (simp add: sorted_wrt_iff_nth_Suc_transp sorted_iff_nth_Suc order_less_le)
  moreover have "mset ?fs = mset fs" by simp
  then have "fields_cost ?fs = fields_cost fs" by (simp add: fields_cost_def flip: sum_mset_sum_list)
  moreover have "?fs \<noteq> []" using assms(3) by (metis length_0_conv length_sort)
  ultimately show ?thesis using v assms(2) length_Encode_composite(1) [of ?fs] by (auto simp: ok_fields_def)
qed

lemma loops_sound:
  assumes "sound_caller call"
  shows "object_loop call d fs r out = Inr (v, r', out') \<Longrightarrow> sound (CObject d fs) out v out'"
    "array_loop call d es r out = Inr (v, r', out') \<Longrightarrow> sound (CArray d es) out v out'"
proof -
  show "sound (CObject d fs) out v out'" if run: "object_loop call d fs r out = Inr (v, r', out')"
  proof -
    from run obtain name r1 o1 x r2 o2 where 1: "field_start r out = Inr (name, r1, o1)" "call (CValue d) r1 o1 = Inr (x, r2, o2)"
        "field_end call d (fs @ [(name, x)]) r2 o2 = Inr (v, r', out')"
      by (auto simp: object_loop_turn split: sum.splits)
    note fs = field_start_Inr(2,3) [OF 1(1)] soundD [OF assms 1(2)]
    have ok: "ok_fields d (fs @ [(name, x)])" if "ok_fields d fs" using that fs by (simp add: ok_fields_def)
    have cost: "fields_cost (fs @ [(name, x)]) = fields_cost fs + quotedLen name + 2 + length (Encode x)" by (simp add: fields_cost_def)
    from 1(3) consider u where "call (CObject d (fs @ [(name, x)])) u o2 = Inr (v, r', out')"
      | u where "close_object (fs @ [(name, x)]) u o2 = Inr (v, r', out')"
      by (auto simp: field_end_def Let_def split: if_splits)
    then show ?thesis
    proof cases
      case 1
      from soundD [OF assms this] ok cost fs show ?thesis by auto
    next
      case 2
      from close_object_sound [OF this, of d] close_object_steps(1) [OF this] ok cost fs show ?thesis by auto
    qed
  qed
  show "sound (CArray d es) out v out'" if run: "array_loop call d es r out = Inr (v, r', out')"
  proof -
    from run obtain x r1 o1 where 1: "call (CValue d) (space r) out = Inr (x, r1, o1)" "elem_end call d (es @ [x]) r1 o1 = Inr (v, r', out')"
      by (auto simp: array_loop_turn split: sum.splits)
    note x = soundD [OF assms 1(1)]
    have cost: "elems_cost (es @ [x]) = elems_cost es + length (Encode x) + 1" by (simp add: elems_cost_def)
    from 1(2) consider u where "call (CArray d (es @ [x])) u (o1 + 1) = Inr (v, r', out')" "o1 + 1 \<le> MaxDocument"
      | "v = NArray (es @ [x])" "out' = o1 + 1" "o1 + 1 \<le> MaxDocument"
      using emit_cases [of o1 1] by (auto simp: elem_end_def Let_def split: if_splits)
    then show ?thesis
    proof cases
      case 1
      from soundD [OF assms this(1)] cost x show ?thesis by auto
    next
      case 2
      with cost x length_Encode_composite(2) [of "es @ [x]"] show ?thesis by (auto simp del: Encode.simps)
    qed
  qed
qed

lemma run_sound: "sound_caller (run fuel)"
proof (induction fuel)
  case (Suc fuel)
  show ?case unfolding sound_caller_def
    using json_value_sound [OF Suc] loops_sound [OF Suc] by (auto split: call.split simp del: sound.simps)
qed (simp add: sound_caller_def)

lemma Parse_sound:
  assumes "Parse text = Inr n"
  shows "doc 0 n" "length (Encode n) \<le> MaxDocument"
  using assms soundD [OF run_sound, of _ "CValue 0" "space text" 0 n]
  by (auto simp: Parse_def split: if_splits sum.splits simp del: run.simps)

section \<open>Canonical text parses to its node\<close>

lemma space_id: "r \<noteq> [] \<Longrightarrow> \<not> is_space (hd r) \<Longrightarrow> space r = r"
  by (cases r) (simp_all add: space_def)

lemma space_Nil [simp]: "space [] = []"
  by (simp add: space_def)

lemma digit_not_space: "is_digit c \<Longrightarrow> \<not> is_space c"
  by (auto simp: is_digit_def is_space_def less_eq_char_def)

lemma canonical_number_hd:
  assumes "canonical_number t"
  shows "t \<noteq> [] \<and> (hd t = CHR ''-'' \<or> is_digit (hd t))"
proof -
  from assms obtain ss p neg where t: "t = spell ss p neg" "list_all is_digit ss" "ss = [] \<or> hd ss \<noteq> CHR ''0'' \<and> last ss \<noteq> CHR ''0''"
    unfolding canonical_number_def by blast
  show ?thesis
  proof (cases "ss = []")
    case False
    with t(3) have ss: "ss \<noteq> []" "hd ss \<noteq> CHR ''0''" "last ss \<noteq> CHR ''0''" by auto
    note sp = spell_points [OF ss t(2), where p = p]
    from sp(2,4) show ?thesis unfolding t(1) sp(1) by (cases "before_point ss p") auto
  qed (simp add: t(1) spell_def digit_facts)
qed

text \<open>How the text of a document starts.\<close>

lemma Encode_hd:
  assumes "doc d n"
  shows "Encode n \<noteq> []" "\<not> is_space (hd (Encode n))" "hd (Encode n) \<noteq> CHR '']''"
proof -
  have "Encode n \<noteq> [] \<and> \<not> is_space (hd (Encode n)) \<and> hd (Encode n) \<noteq> CHR '']''"
    using assms
  proof (cases n)
    case (NNumber t)
    then have "t \<noteq> []" "hd t = CHR ''-'' \<or> is_digit (hd t)" using assms canonical_number_hd by auto
    then show ?thesis using NNumber by (auto simp: is_space_def is_digit_def less_eq_char_def)
  qed (auto simp: is_space_def appendString_def)
  then show "Encode n \<noteq> []" "\<not> is_space (hd (Encode n))" "hd (Encode n) \<noteq> CHR '']''" by blast+
qed

lemma space_Encode: "doc d n \<Longrightarrow> space (Encode n @ r) = Encode n @ r"
  using Encode_hd [of d n] by (intro space_id) simp_all

definition reads :: "nat \<Rightarrow> node \<Rightarrow> bool" where
  "reads d n \<longleftrightarrow> (\<forall>r out. number_ends r \<longrightarrow> out + length (Encode n) \<le> MaxDocument \<longrightarrow>
     go (CValue d) (Encode n @ r) out = Inr (n, r, out + length (Encode n)))"

lemma readsD: "reads d n \<Longrightarrow> number_ends r \<Longrightarrow> out + length (Encode n) \<le> MaxDocument \<Longrightarrow>
  go (CValue d) (Encode n @ r) out = Inr (n, r, out + length (Encode n))"
  by (simp add: reads_def)

lemma separators: "number_ends (CHR '','' # r)" "number_ends (CHR ''}'' # r)" "number_ends (CHR '']'' # r)"
  "space (CHR '','' # r) = CHR '','' # r" "space (CHR ''}'' # r) = CHR ''}'' # r" "space (CHR '']'' # r) = CHR '']'' # r"
  "space (CHR '':'' # r) = CHR '':'' # r"
  by (simp_all add: number_ends_def is_digit_def less_eq_char_def space_def is_space_def)

lemma array_reads:
  assumes "\<forall>e \<in> set es. doc d e \<and> reads d e" "es \<noteq> []" "out + elems_cost es \<le> MaxDocument"
  shows "go (CArray d acc) (commas (map Encode es) @ '']'' @ r) out = Inr (NArray (acc @ es), r, out + elems_cost es)"
  using assms
proof (induction es arbitrary: acc out)
  case (Cons e es)
  let ?rest = "if es = [] then '']'' @ r else '','' @ commas (map Encode es) @ '']'' @ r"
  have tx: "commas (map Encode (e # es)) @ '']'' @ r = Encode e @ ?rest" by (cases es) auto
  have e: "doc d e" "reads d e" using Cons.prems by auto
  have cost: "elems_cost (e # es) = length (Encode e) + 1 + elems_cost es" by (simp add: elems_cost_def)
  have v: "go (CValue d) (Encode e @ ?rest) out = Inr (e, ?rest, out + length (Encode e))"
    using readsD [OF e(2), of ?rest out] Cons.prems(3) separators by (simp add: cost)
  have "emit (out + length (Encode e)) 1 = Inr (out + length (Encode e) + 1)"
    using Cons.prems(3) by (simp add: emit_def cost)
  moreover have "go (CArray d acc) (commas (map Encode (e # es)) @ '']'' @ r) out = elem_end go d (acc @ [e]) ?rest (out + length (Encode e))"
    unfolding tx go_simps(3) array_loop_turn space_Encode [OF e(1)] v by simp
  ultimately show ?case
    using Cons.IH [of "out + length (Encode e) + 1" "acc @ [e]"] Cons.prems(1,3)
    by (cases "es = []") (simp_all add: elem_end_def separators cost elems_cost_def)
qed simp

lemma close_object_sorted:
  assumes "sorted_wrt (<) (map fst fs)"
  shows "close_object fs r out = Inr (NObject fs, r, out)"
proof -
  have "sort_key fst fs = fs" using assms by (intro sort_key_id_if_sorted strict_sorted_imp_sorted)
  moreover have "fst (fs ! i) \<noteq> fst (fs ! (i - 1))" if "i \<in> {1..<length fs}" for i
    using sorted_wrt_nth_less [OF assms, of "i - 1" i] that by auto
  ultimately show ?thesis by (auto simp: close_object_def)
qed

lemma object_reads:
  assumes "\<forall>f \<in> set fs. Valid (fst f) \<and> doc d (snd f) \<and> reads d (snd f)" "fs \<noteq> []"
    "sorted_wrt (<) (map fst (acc @ fs))" "out + fields_cost fs \<le> MaxDocument"
  shows "go (CObject d acc) (commas (map (\<lambda>f. appendString (fst f) @ '':'' @ Encode (snd f)) fs) @ ''}'' @ r) out =
    Inr (NObject (acc @ fs), r, out + fields_cost fs)"
  using assms
proof (induction fs arbitrary: acc out)
  case (Cons f fs)
  obtain name e where f: "f = (name, e)" by (cases f)
  let ?text = "\<lambda>f. appendString (fst f) @ '':'' @ Encode (snd f)"
  let ?rest = "if fs = [] then ''}'' @ r else '','' @ commas (map ?text fs) @ ''}'' @ r"
  have tx: "commas (map ?text (f # fs)) @ ''}'' @ r = appendString name @ CHR '':'' # Encode e @ ?rest" by (cases fs) (auto simp: f)
  have e: "doc d e" "reads d e" "Valid name" using Cons.prems f by auto
  have cost: "fields_cost (f # fs) = quotedLen name + 2 + length (Encode e) + fields_cost fs" by (simp add: fields_cost_def f)
  let ?o = "out + (quotedLen name + 2)"
  have "space (appendString name @ t) = appendString name @ t" for t
    by (intro space_id) (auto simp: appendString_def is_space_def)
  moreover have "hd (appendString name @ t) = CHR 0x22" "appendString name @ t \<noteq> []" for t by (simp_all add: appendString_def)
  ultimately have start: "field_start (appendString name @ CHR '':'' # Encode e @ ?rest) out = Inr (name, Encode e @ ?rest, ?o)"
    using str_appendString [OF e(3)] Cons.prems(4) e(1) by (simp add: field_start_def Let_def emit_def cost separators space_Encode)
  have v: "go (CValue d) (Encode e @ ?rest) ?o = Inr (e, ?rest, ?o + length (Encode e))"
    using readsD [OF e(2), of ?rest ?o] Cons.prems(4) separators by (simp add: cost)
  have "go (CObject d acc) (commas (map ?text (f # fs)) @ ''}'' @ r) out = field_end go d (acc @ [f]) ?rest (?o + length (Encode e))"
    unfolding tx go_simps(2) object_loop_turn start sum.case prod.case v by (simp add: f)
  moreover have "fst f = name" "snd f = e" by (simp_all add: f)
  ultimately show ?case
    using Cons.IH [of "acc @ [f]" "?o + length (Encode e)"] Cons.prems(1,3,4) close_object_sorted [of "acc @ [f]"]
    by (cases "fs = []") (simp_all add: field_end_def separators cost fields_cost_def)
qed simp

lemma doc_reads: "doc d n \<Longrightarrow> reads d n"
proof (induction d n rule: doc.induct)
  case (1 d t)
  then obtain ss p neg n where t: "t = spell ss p neg" "ss = [] \<or> hd ss \<noteq> CHR ''0'' \<and> last ss \<noteq> CHR ''0''"
      "list_all is_digit ss" "text_len (length ss) p neg = Some n"
    unfolding doc.simps canonical_number_def by blast
  have "json_value go d (t @ r) out = number (t @ r) out" for r out
    using canonical_number_hd [of t] 1 by (cases t) (auto simp: json_value_def is_digit_def less_eq_char_def)
  then show ?case
    using number_spelled [OF t(2,3,4)] length_spell [OF t(4)] t(1) by (auto simp: reads_def go_simps emitting_def emit_def)
next
  case (2 d t)
  have "json_value go d (appendString t @ r) out = json_string (appendString t @ r) out" for r out
    by (simp add: json_value_def appendString_def)
  then show ?case
    using 2 by (auto simp: reads_def go_simps json_string_def str_appendString emitting_def emit_def quotedLen_length)
next
  case (3 d es)
  show ?case
  proof (cases es)
    case Nil
    then show ?thesis using 3 by (auto simp: reads_def go_simps json_value_def open_array_def separators emitting_def emit_def Arr_def)
  next
    case (Cons e es')
    have all: "\<forall>e \<in> set es. doc (Suc d) e \<and> reads (Suc d) e" using 3 by simp
    have "commas (map Encode es) = Encode e @ (if es' = [] then [] else '','' @ commas (map Encode es'))"
      by (cases es') (auto simp: Cons)
    then have tx: "space (commas (map Encode es) @ '']'' @ r) = commas (map Encode es) @ '']'' @ r"
      "hd (commas (map Encode es) @ '']'' @ r) \<noteq> CHR '']''" for r
      using all Encode_hd [of "Suc d" e] space_Encode [of "Suc d" e] by (simp_all add: Cons)
    show ?thesis
      unfolding reads_def
    proof (intro allI impI)
      fix r out
      assume "out + length (Encode (NArray es)) \<le> MaxDocument"
      then have "out + 1 + elems_cost es \<le> MaxDocument" "length (Encode (NArray es)) = 1 + elems_cost es"
        using length_Encode_composite(2) [of es] Cons by (simp_all del: Encode.simps)
      then show "go (CValue d) (Encode (NArray es) @ r) out = Inr (NArray es, r, out + length (Encode (NArray es)))"
        using array_reads [OF all _ \<open>out + 1 + elems_cost es \<le> MaxDocument\<close>, of "[]" r] 3(2) tx [of r] Cons
        by (simp add: go_simps(1) json_value_def open_array_def emit_def)
    qed
  qed
next
  case (4 d fs)
  show ?case
  proof (cases fs)
    case Nil
    then show ?thesis using 4 by (auto simp: reads_def go_simps json_value_def open_object_def separators emitting_def emit_def Obj_def)
  next
    case (Cons f fs')
    let ?text = "\<lambda>f. appendString (fst f) @ '':'' @ Encode (snd f)"
    have all: "\<forall>f \<in> set fs. Valid (fst f) \<and> doc (Suc d) (snd f) \<and> reads (Suc d) (snd f)" using 4 by simp
    have "commas (map ?text fs) = ?text f @ (if fs' = [] then [] else '','' @ commas (map ?text fs'))"
      by (cases fs') (auto simp: Cons)
    then have tx: "space (commas (map ?text fs) @ ''}'' @ r) = commas (map ?text fs) @ ''}'' @ r"
      "hd (commas (map ?text fs) @ ''}'' @ r) \<noteq> CHR ''}''" for r
      by (simp_all add: space_def appendString_def is_space_def)
    show ?thesis
      unfolding reads_def
    proof (intro allI impI)
      fix r out
      assume "out + length (Encode (NObject fs)) \<le> MaxDocument"
      then have "out + 1 + fields_cost fs \<le> MaxDocument" "length (Encode (NObject fs)) = 1 + fields_cost fs"
        using length_Encode_composite(1) [of fs] Cons by (simp_all del: Encode.simps)
      then show "go (CValue d) (Encode (NObject fs) @ r) out = Inr (NObject fs, r, out + length (Encode (NObject fs)))"
        using object_reads [OF all, of "[]" "out + 1" r] 4(2) tx [of r] Cons
        by (simp add: go_simps(1) json_value_def open_object_def emit_def)
    qed
  qed
qed (auto simp: reads_def go_simps json_value_def literals_def literal_def is_digit_def less_eq_char_def emitting_def emit_def)

lemma Valid_ascii_list: "\<forall>c \<in> set s. bval c < 0x80 \<Longrightarrow> Valid (s @ t) = Valid t"
  by (induction s) (simp_all add: Valid_ascii)

lemma string_byte_ascii: "bval c < 0x80 \<Longrightarrow> \<forall>e \<in> set (string_byte c). bval e < 0x80"
proof -
  assume c: "bval c < 0x80"
  have hex: "bval (hexDigits ! i) < 0x80" if "i < 16" for i
  proof -
    have "list_all (\<lambda>e. bval e < 0x80) hexDigits" by (simp add: hexDigits_def)
    moreover have "length hexDigits = 16" by (simp add: hexDigits_def)
    ultimately show ?thesis using that by (simp add: list_all_length)
  qed
  have "bval c div 16 < 16" "bval c mod 16 < 16" using c by simp_all
  from hex [OF this(1)] hex [OF this(2)] c show ?thesis by (simp add: string_byte_def)
qed

lemma Valid_appendString: "Valid s \<Longrightarrow> Valid (appendString s)"
proof -
  have "Valid (concat (map string_byte s) @ t) = Valid t" if "Valid s" for s t
    using that
  proof (induction s rule: Valid_induct)
    case (Rune r u)
    show ?case
    proof (cases "r < 0x80")
      case True
      then show ?thesis
        using Valid_ascii_list [OF string_byte_ascii, of "byte_of r"] Rune by (simp add: EncodeRune_ascii)
    next
      case False
      then have "concat (map string_byte (EncodeRune r)) = EncodeRune r" by (rule string_bytes_high [OF Rune(1)])
      then show ?thesis using Rune by (simp add: Valid_EncodeRune)
    qed
  qed simp
  from this [of s "[CHR 0x22]"] show "Valid s \<Longrightarrow> Valid (appendString s)"
    by (simp add: appendString_def Valid_ascii)
qed

lemma Valid_commas: "\<forall>x \<in> set xs. Valid x \<Longrightarrow> Valid (commas xs)"
  by (induction xs rule: commas.induct) (simp_all add: Valid_append Valid_ascii)

lemma Valid_number: "canonical_number t \<Longrightarrow> Valid t"
proof -
  assume "canonical_number t"
  then obtain ss p neg where t: "t = spell ss p neg" "list_all is_digit ss" unfolding canonical_number_def by blast
  have "\<forall>c \<in> set t. bval c < 0x80"
    using t(2) by (auto simp: t(1) spell_def list_all_iff is_digit_iff dest!: in_set_takeD in_set_dropD)
  then show ?thesis using Valid_ascii_list [of t "[]"] by simp
qed

lemma Valid_Encode: "doc d n \<Longrightarrow> Valid (Encode n)"
proof (induction d n rule: doc.induct)
  case (3 d es)
  then have "Valid (commas (map Encode es))" by (intro Valid_commas) auto
  then show ?case by (simp add: Valid_append Valid_ascii)
next
  case (4 d fs)
  then have "Valid (commas (map (\<lambda>f. appendString (fst f) @ '':'' @ Encode (snd f)) fs))"
    by (intro Valid_commas) (auto simp: Valid_append Valid_ascii Valid_appendString)
  then show ?case by (simp add: Valid_append Valid_ascii)
qed (auto simp: Valid_ascii Valid_appendString Valid_number)

section \<open>Parse and Encode\<close>

lemma Parse_go:
  "Parse text =
     (if length text > MaxDocument \<or> \<not> Valid text then Inl NotADocument
      else case go (CValue 0) (space text) 0 of Inl e \<Rightarrow> Inl e
        | Inr (n, r, out) \<Rightarrow> if space r \<noteq> [] then Inl NotADocument else Inr n)"
  using run_go [of "CValue 0" "space text" "2 * length text + 1" 0] length_space [of "text"] by (simp add: Parse_def)

lemma Parse_Encode_doc:
  assumes "doc 0 n" "length (Encode n) \<le> MaxDocument"
  shows "Parse (Encode n) = Inr n"
  using readsD [OF doc_reads [OF assms(1)], of "[]" 0] space_Encode [OF assms(1), of "[]"] assms(2) Valid_Encode [OF assms(1)]
  by (simp add: Parse_go number_ends_def)

text \<open>The nodes that are documents, and their texts.\<close>

lemma Parse_Encode_iff: "Parse (Encode n) = Inr n \<longleftrightarrow> doc 0 n \<and> length (Encode n) \<le> MaxDocument"
  using Parse_sound [of "Encode n" n] Parse_Encode_doc [of n] by blast

text \<open>
  C36. \<open>Parse\<close> always returns: the fuel of the model, twice the text's length, is enough for
  every text, so a parse ends with a document or with \<open>ErrDocument\<close>.
\<close>

theorem Parse_returns: "Parse text \<noteq> Inl OutOfFuel"
  using go_fuel [of "CValue 0" "space text" 0] by (auto simp: Parse_go split: sum.split)

text \<open>
  Parsing canonicalises: whatever text a document was parsed from, its canonical text is
  within the limit and parses to the same document, so documents are equal exactly when their
  canonical texts are.
\<close>

theorem Parse_canonical:
  assumes "Parse text = Inr n" "Parse text' = Inr n'"
  shows "Parse (Encode n) = Inr n \<and> length (Encode n) \<le> MaxDocument \<and> (Encode n = Encode n' \<longleftrightarrow> n = n')"
proof -
  have "Parse (Encode n) = Inr n" "length (Encode n) \<le> MaxDocument" "Parse (Encode n') = Inr n'"
    using Parse_sound [OF assms(1)] Parse_sound [OF assms(2)] by (simp_all add: Parse_Encode_doc)
  then show ?thesis by (metis Inr_inject)
qed

theorem Parse_canonical_witness:
  "Parse '' true '' = Inr (NBool True) \<and> Parse (Encode (NBool True)) = Inr (NBool True)"
proof -
  have p: "Parse '' true '' = Inr (NBool True)"
    by (simp add: Parse_go go_simps(1) MaxDocument_def Valid_ascii space_def is_space_def json_value_def is_digit_def less_eq_char_def
      literals_def literal_def emitting_def emit_def)
  with Parse_canonical [OF p p] show ?thesis by blast
qed

end
