(* ===== verification/Doc_Record.thy ===== *)
theory Doc_Record
  imports Doc_Canonical KV_Map
begin

text \<open>
  Stored records (src/model/document/record.go): the frame of a document, the check of a node
  before it is stored and the check of a frame as it is read.
\<close>

section \<open>Records\<close>

definition Format :: byte where
  "Format = byte_of 1"

text \<open>
  \<open>check\<close>: what \<open>Parse\<close> would have produced. Every refusal is \<open>ErrDocument\<close>, so the order
  in which the elements are looked at does not show.
\<close>

fun is_document :: "node \<Rightarrow> nat \<Rightarrow> bool" where
  "is_document NNull depth = True"
| "is_document (NBool b) depth = True"
| "is_document (NNumber t) depth = (Parse t = Inr (NNumber t))"
| "is_document (NString t) depth = Valid t"
| "is_document (NArray es) depth = (\<not> depth + 1 > MaxDepth \<and> list_all (\<lambda>e. is_document e (depth + 1)) es)"
| "is_document (NObject fs) depth =
     (\<not> depth + 1 > MaxDepth \<and> list_all (\<lambda>f. Valid (fst f)) fs \<and>
      \<not> (\<exists>i \<in> {1..<length fs}. fst (fs ! (i - 1)) \<ge> fst (fs ! i)) \<and>
      list_all (\<lambda>f. is_document (snd f) (depth + 1)) fs)"

definition check :: "node \<Rightarrow> nat \<Rightarrow> unit result" where
  "check n depth = (if is_document n depth then Inr () else Inl [ErrDocument])"

definition EncodeRecord :: "node \<Rightarrow> bytes result" where
  "EncodeRecord n =
     and_then (check n 0) (\<lambda>_.
       let text = Encode n in
       if length text > MaxDocument then Inl [ErrDocument] else Inr (Format # text))"

definition DecodeRecord :: "bytes \<Rightarrow> node result" where
  "DecodeRecord b =
     (case b of [] \<Rightarrow> Inl [ErrCorrupt]
      | c # text \<Rightarrow>
         if c \<noteq> Format then Inl [ErrCorrupt]
         else case Parse text of Inl e \<Rightarrow> Inl [ErrCorrupt, ErrDocument]
           | Inr n \<Rightarrow> if Encode n \<noteq> text then Inl [ErrCorrupt] else Inr n)"

section \<open>The check is exact\<close>

lemma adjacent_sorted:
  "\<not> (\<exists>i \<in> {1..<length fs}. fst (fs ! (i - 1)) \<ge> fst (fs ! i)) \<longleftrightarrow> sorted_wrt (<) (map fst (fs :: (string \<times> node) list))"
proof
  assume *: "\<not> (\<exists>i \<in> {1..<length fs}. fst (fs ! (i - 1)) \<ge> fst (fs ! i))"
  have "fst (fs ! i) < fst (fs ! Suc i)" if "Suc i < length fs" for i
    using * that by (auto simp: not_le dest!: bspec [of _ _ "Suc i"])
  then show "sorted_wrt (<) (map fst fs)" by (simp add: sorted_wrt_iff_nth_Suc_transp)
next
  assume "sorted_wrt (<) (map fst fs)"
  from sorted_wrt_nth_less [OF this] show "\<not> (\<exists>i \<in> {1..<length fs}. fst (fs ! (i - 1)) \<ge> fst (fs ! i))" by (auto simp: not_le)
qed

lemma canonical_number_length: "canonical_number t \<Longrightarrow> length t \<le> MaxDocument"
proof -
  assume "canonical_number t"
  then obtain ss p neg n where t: "t = spell ss p neg" "text_len (length ss) p neg = Some n"
    unfolding canonical_number_def by blast
  have "n \<le> 2002" using t(2)
    by (auto simp: text_len_def textLen_def Let_def MaxNumberDigits_def split: if_splits)
  then show ?thesis using length_spell [OF t(2)] t(1) by (simp add: MaxDocument_def)
qed

lemma is_document_doc: "is_document n d \<longleftrightarrow> doc d n"
proof (induction n d rule: is_document.induct)
  case (3 t depth)
  then show ?case using Parse_Encode_iff [of "NNumber t"] canonical_number_length [of t] by auto
next
  case (5 es depth)
  then show ?case by (auto simp: list_all_iff)
next
  case (6 fs depth)
  then have "list_all (\<lambda>f. is_document (snd f) (depth + 1)) fs \<longleftrightarrow> (\<forall>f \<in> set fs. doc (depth + 1) (snd f))"
    by (auto simp: list_all_iff)
  then show ?case unfolding is_document.simps adjacent_sorted by (auto simp: list_all_iff)
qed simp_all

lemma EncodeRecord_eq: "EncodeRecord n = (if Parse (Encode n) = Inr n then Inr (Format # Encode n) else Inl [ErrDocument])"
  unfolding Parse_Encode_iff by (auto simp: EncodeRecord_def check_def is_document_doc Let_def)

lemma DecodeRecord_Inr: "DecodeRecord b = Inr n \<longleftrightarrow> Parse (Encode n) = Inr n \<and> b = Format # Encode n"
proof
  assume "DecodeRecord b = Inr n"
  then obtain t where "b = Format # t" "Parse t = Inr n" "Encode n = t"
    unfolding DecodeRecord_def by (cases b) (simp_all split: if_splits sum.splits)
  then show "Parse (Encode n) = Inr n \<and> b = Format # Encode n" by blast
qed (simp add: DecodeRecord_def)

lemma record_decodes: "EncodeRecord n = Inr b \<Longrightarrow> DecodeRecord b = Inr n"
  by (simp add: EncodeRecord_eq DecodeRecord_Inr split: if_splits)

text \<open>
  C35. Stored records and documents correspond one to one: a byte string decodes to a document
  exactly when it is what \<open>EncodeRecord\<close> writes for it. So what is stored reads back as it was,
  no record has a second spelling, and \<open>DecodeRecord\<close> accepts nothing that could not have been
  written.
\<close>

theorem DecodeRecord_iff_EncodeRecord: "DecodeRecord b = Inr n \<longleftrightarrow> EncodeRecord n = Inr b"
  by (auto simp: DecodeRecord_Inr EncodeRecord_eq)

text \<open>
  C37. \<open>EncodeRecord\<close> accepts exactly the nodes \<open>Parse\<close> produces, so whatever parses can be
  stored, and refuses every other one with \<open>ErrDocument\<close>.
\<close>

theorem EncodeRecord_accepts_parsed:
  "EncodeRecord n = (if \<exists>text. Parse text = Inr n then Inr (Format # Encode n) else Inl [ErrDocument])"
proof -
  have "(\<exists>text. Parse text = Inr n) \<longleftrightarrow> Parse (Encode n) = Inr n"
    using Parse_sound [of _ n] Parse_Encode_doc [of n] by blast
  then show ?thesis by (simp add: EncodeRecord_eq)
qed

end
