(* ===== verification/Doc_Model.thy ===== *)
theory Doc_Model
  imports Doc_Record
begin

text \<open>
  The document model (src/model/document/document.go, handle.go and rebase.go) over the storage
  core's maps: a collection is the map under it, an editor the editor, \<open>Records\<close> the list of what its
  \<open>Next\<close> returns. The decision on a record both sides changed merges the records by field; like in
  theory KV_Resolve the storage core's \<open>mapobject.Disagreement\<close> is the parameter \<open>disagree\<close>.
\<close>

section \<open>Definitions\<close>

definition MaxIDSize :: nat where
  "MaxIDSize = 4096"

definition checkID :: "bytes \<Rightarrow> unit result" where
  "checkID rid = (if length rid = 0 \<or> length rid > MaxIDSize then Inl [ErrID] else Inr ())"

definition doc_codec :: "node codec_port" where
  "doc_codec = \<lparr>cp_key = checkID, cp_encode = EncodeRecord, cp_decode = DecodeRecord\<rparr>"

definition doc_checked :: "bytes \<Rightarrow> bytes \<Rightarrow> node result" where
  "doc_checked rid frame =
     (case checkID rid of Inl e \<Rightarrow> Inl (ErrCorrupt # e) | Inr _ \<Rightarrow> DecodeRecord frame)"

definition doc_Get :: "('m, 'e, 'r) map_port \<Rightarrow> 'm \<Rightarrow> bytes \<Rightarrow> node option result" where
  "doc_Get P m rid =
     and_then (checkID rid) (\<lambda>_.
     and_then (mp_get P m rid) (\<lambda>held.
       case held of None \<Rightarrow> Inr None | Some f \<Rightarrow> and_then (doc_checked rid f) (\<lambda>n. Inr (Some n))))"

definition doc_Scan :: "('m, 'e, 'r) map_port \<Rightarrow> 'm \<Rightarrow> bytes option \<Rightarrow> (bytes \<times> node) iter result" where
  "doc_Scan P m start = map_scan P doc_codec m start"

definition doc_Put :: "('m, 'e, 'r) map_port \<Rightarrow> 'e \<Rightarrow> bytes \<Rightarrow> node \<Rightarrow> 'e result" where
  "doc_Put P e rid n =
     and_then (checkID rid) (\<lambda>_. and_then (EncodeRecord n) (\<lambda>f. ed_put P e rid f))"

definition doc_PutJSON :: "('m, 'e, 'r) map_port \<Rightarrow> 'e \<Rightarrow> bytes \<Rightarrow> bytes \<Rightarrow> 'e result" where
  "doc_PutJSON P e rid text =
     (case Parse text of Inl _ \<Rightarrow> Inl [ErrDocument] | Inr n \<Rightarrow> doc_Put P e rid n)"

definition doc_Delete :: "('m, 'e, 'r) map_port \<Rightarrow> 'e \<Rightarrow> bytes \<Rightarrow> 'e result" where
  "doc_Delete P e rid = and_then (checkID rid) (\<lambda>_. ed_delete P e rid)"

definition doc_Flush :: "('m, 'e, 'r) map_port \<Rightarrow> 'e \<Rightarrow> 'm result" where
  "doc_Flush P e = ed_flush P e"

text \<open>\<open>Write\<close>: every record is encoded, then each is put. The records are a Go map's entries, in some order.\<close>

fun doc_frames :: "(bytes \<times> node) list \<Rightarrow> (bytes \<times> bytes) list result" where
  "doc_frames [] = Inr []"
| "doc_frames ((rid, n) # rs) =
     and_then (checkID rid) (\<lambda>_. and_then (EncodeRecord n) (\<lambda>f. and_then (doc_frames rs) (\<lambda>fs. Inr ((rid, f) # fs))))"

fun put_frames :: "('m, 'e, 'r) map_port \<Rightarrow> 'e \<Rightarrow> (bytes \<times> bytes) list \<Rightarrow> 'e result" where
  "put_frames P e [] = Inr e"
| "put_frames P e ((rid, f) # fs) = and_then (ed_put P e rid f) (\<lambda>e. put_frames P e fs)"

definition doc_Write :: "('m, 'e, 'r) map_port \<Rightarrow> (bytes \<times> node) list \<Rightarrow> 'r result" where
  "doc_Write P records =
     and_then (doc_frames records) (\<lambda>frames.
     and_then (mp_empty P) (\<lambda>m.
     and_then (put_frames P (mp_editor P m) frames) (\<lambda>e.
     and_then (doc_Flush P e) (\<lambda>m. Inr (mp_root P m)))))"

definition doc_Read :: "('m, 'e, 'r) map_port \<Rightarrow> 'r \<Rightarrow> (bytes \<times> node) list result" where
  "doc_Read P root =
     and_then (mp_open P root) (\<lambda>m.
     and_then (doc_Scan P m None) (\<lambda>(xs, stop). case stop of None \<Rightarrow> Inr xs | Some e \<Rightarrow> Inl e))"

definition doc_Validate :: "('m, 'e, 'r) map_port \<Rightarrow> 'r \<Rightarrow> unit result" where
  "doc_Validate P root = and_then (doc_Read P root) (\<lambda>_. Inr ())"

definition doc_Check :: "bytes \<Rightarrow> bytes \<Rightarrow> unit result" where
  "doc_Check rid frame = and_then (doc_checked rid frame) (\<lambda>_. Inr ())"

definition doc_Rebase :: "('m, 'e, 'r) map_port \<Rightarrow> 'r \<Rightarrow> 'r \<Rightarrow> 'r \<Rightarrow> 'r result" where
  "doc_Rebase P base side onto = rebase P doc_Check base side onto"

subsection \<open>Locations\<close>

definition Locate :: "wire \<Rightarrow> bytes \<Rightarrow> path \<Rightarrow> bytes" where
  "Locate W rid path = w_lenbytes W rid @ concat (map (w_lenbytes W) path)"

text \<open>The loop of \<open>ParseLocation\<close>, with the number of parts the path may still grow by.\<close>

fun location_path :: "wire \<Rightarrow> nat \<Rightarrow> bytes \<Rightarrow> path result" where
  "location_path W 0 s = (if s = [] then Inr [] else Inl [ErrID])"
| "location_path W (Suc room) s =
     (if s = [] then Inr []
      else and_then (of_read [ErrID, ErrWire] (rd_lenbytes W MaxDocument s)) (\<lambda>(seg, s).
        and_then (location_path W room s) (\<lambda>path. Inr (seg # path))))"

definition ParseLocation :: "wire \<Rightarrow> bytes \<Rightarrow> (bytes \<times> path) result" where
  "ParseLocation W loc =
     and_then (of_read [ErrID, ErrWire] (rd_lenbytes W MaxIDSize loc)) (\<lambda>(rid, s).
       ensure (length rid \<noteq> 0) [ErrID]
         (and_then (location_path W MaxDepth s) (\<lambda>path. Inr (rid, path))))"

subsection \<open>The decision\<close>

definition doc_decide ::
  "wire \<Rightarrow> (nat \<Rightarrow> bool) \<Rightarrow> disagreement_fn \<Rightarrow> bytes \<Rightarrow> change \<Rightarrow> change \<Rightarrow> decision result" where
  "doc_decide W isprint disagree rid ours theirs =
     (let (val, put, reason) = disagree rid ours theirs in
      if reason = [] then Inr \<lparr>d_value = val, d_put = put, d_conflicts = []\<rparr>
      else if ch_kind ours \<noteq> Modified \<or> ch_kind theirs \<noteq> Modified
      then Inr \<lparr>d_value = [], d_put = False, d_conflicts = [\<lparr>mc_location = Locate W rid [], mc_reason = reason\<rparr>]\<rparr>
      else
        and_then (DecodeRecord (case ch_from ours of None \<Rightarrow> [] | Some f \<Rightarrow> f)) (\<lambda>b.
        and_then (DecodeRecord (ch_to ours)) (\<lambda>x.
        and_then (DecodeRecord (ch_to theirs)) (\<lambda>y.
          let r = Tree isprint b x y None in
          if r_conflicts r \<noteq> [] then
            Inr \<lparr>d_value = [], d_put = False,
              d_conflicts = map (\<lambda>c. \<lparr>mc_location = Locate W rid (c_path c), mc_reason = c_reason c\<rparr>) (r_conflicts r)\<rparr>
          else and_then (EncodeRecord (r_value r)) (\<lambda>frame. Inr \<lparr>d_value = frame, d_put = True, d_conflicts = []\<rparr>)))))"

section \<open>The model is a model of records\<close>

lemma doc_codec_simps [simp]: "cp_key doc_codec = checkID" "cp_encode doc_codec = EncodeRecord" "cp_decode doc_codec = DecodeRecord"
  by (simp_all add: doc_codec_def)

lemma doc_checked_generic: "doc_checked = checked doc_codec"
  by (intro ext) (simp add: doc_checked_def checked_def split: sum.split)

lemma doc_generic:
  "doc_Get P = map_get P doc_codec" "doc_Put P = map_set P doc_codec" "doc_Delete P = map_delete P doc_codec"
  "doc_Read P = map_read P doc_codec"
  unfolding fun_eq_iff doc_Get_def map_get_def doc_Put_def map_set_def doc_Delete_def map_delete_def doc_Read_def
    doc_Scan_def map_read_def doc_checked_generic by simp_all

lemma doc_record_model: "map_laws P content pending \<Longrightarrow> record_model P content pending doc_codec (\<lambda>n. n)"
  by (intro record_model.intro record_model_axioms.intro) (simp_all add: record_decodes)

interpretation doc_std: record_model fmap_port fmlookup fmlookup doc_codec "\<lambda>n. n"
  by (rule doc_record_model [OF fmap_maps.map_laws_axioms])

text \<open>Encoding first and putting then gives what encoding and putting record by record gives.\<close>

lemma put_frames_set_all:
  "doc_frames rs = Inr fs \<Longrightarrow> put_frames P e fs = set_all P doc_codec e rs"
  by (induction rs arbitrary: fs e rule: doc_frames.induct) (auto simp: map_set_def and_then_Inr)

lemma doc_Write_map_write: "doc_Write P rs = Inr r \<Longrightarrow> map_write P doc_codec rs = Inr r"
  by (auto simp: doc_Write_def doc_Flush_def map_write_def and_then_Inr put_frames_set_all)

section \<open>Locations\<close>

context wire_laws
begin

lemma location_path_roundtrip:
  "location_path W room s = Inr p \<longleftrightarrow>
     s = concat (map (w_lenbytes W) p) \<and> length p \<le> room \<and> list_all (\<lambda>seg. length seg \<le> MaxDocument) p"
proof (induction room arbitrary: s p)
  case 0
  then show ?case by auto
next
  case (Suc room)
  have ne: "w_lenbytes W b \<noteq> []" for b
    unfolding lenbytes_format by (subst AppendUvarint.simps) simp
  show ?case
  proof (cases p)
    case Nil
    then show ?thesis by (auto simp: and_then_Inr)
  next
    case (Cons seg p')
    have "rd_lenbytes W MaxDocument s = Some (seg, t) \<longleftrightarrow> s = w_lenbytes W seg @ t \<and> length seg \<le> MaxDocument" for t
      using reads_back(5) [of seg MaxDocument t] was_written(5) [of MaxDocument s seg t] by (auto simp: MaxDocument_def)
    then show ?thesis using Cons Suc ne by (auto simp: and_then_Inr)
  qed
qed

lemma doc_location:
  "ParseLocation W loc = Inr (rid, p) \<longleftrightarrow>
     loc = Locate W rid p \<and> 0 < length rid \<and> length rid \<le> MaxIDSize \<and> length p \<le> MaxDepth \<and>
     list_all (\<lambda>seg. length seg \<le> MaxDocument) p"
proof -
  have "rd_lenbytes W MaxIDSize loc = Some (rid, t) \<longleftrightarrow> loc = w_lenbytes W rid @ t \<and> length rid \<le> MaxIDSize" for t
    using reads_back(5) [of rid MaxIDSize t] was_written(5) [of MaxIDSize loc rid t] by (auto simp: MaxIDSize_def)
  then show ?thesis by (auto simp: ParseLocation_def and_then_Inr location_path_roundtrip Locate_def)
qed

end

section \<open>Documents merge to documents\<close>

definition opt_doc :: "nat \<Rightarrow> node option \<Rightarrow> bool" where
  "opt_doc d n \<longleftrightarrow> (\<forall>v. n = Some v \<longrightarrow> doc d v)"

lemma opt_doc_simps [simp]: "opt_doc d None" "opt_doc d (Some v) = doc d v"
  by (simp_all add: opt_doc_def)

lemma opt_doc_object:
  assumes "is_object n" "opt_doc d n"
  shows "d < MaxDepth" "opt_doc (Suc d) (byName n name)" "name \<in> fst ` set (fields_of n) \<Longrightarrow> Valid name"
  using assms by (cases n rule: is_object.cases; auto simp: byName_def opt_doc_def dest!: map_of_SomeD)+

lemma mergeOther_doc:
  assumes "opt_doc d b" "opt_doc d x" "opt_doc d y"
  shows "opt_doc d (r_value (mergeOther isprint None path b x y))"
proof -
  have arr: "opt_doc d (r_value (mergeArrays isprint path (elems_of b) (elems_of x) (elems_of y)))"
    if "is_array b" "is_array x" "is_array y"
  proof -
    have "n = Some (NArray (elems_of n))" if "is_array n" for n using that by (cases n rule: is_array.cases) auto
    then have "doc d (NArray (elems_of b))" "doc d (NArray (elems_of x))" "doc d (NArray (elems_of y))"
      using that assms by (metis opt_doc_simps(2))+
    then show ?thesis using Sequence_elements [of "elems_of b" "elems_of x" "elems_of y" "Canonical isprint"]
      by (auto simp: mergeArrays_def Let_def)
  qed
  then show ?thesis using assms by (simp add: mergeOther_def yields_def conflicts_at_def)
qed

lemma mergeNode_doc:
  assumes "opt_doc d b" "opt_doc d x" "opt_doc d y"
  shows "opt_doc d (r_value (mergeNode isprint None path b x y))"
  using assms
proof (induction isprint "None :: tree_options" path b x y arbitrary: d rule: mergeNode.induct)
  case (1 isprint path b x y)
  show ?case
  proof (cases "is_object x \<and> is_object y \<and> (b = None \<or> is_object b)")
    case True
    let ?ms = "map (\<lambda>name. (name, mergeNode isprint None (path @ [name]) (byName b name) (byName x name) (byName y name)))
      (names_of b x y)"
    have b: "opt_doc (Suc d) (byName b name)" for name
      using True "1.prems"(1) opt_doc_object(2) [of b d name] by (auto simp: byName_def)
    note xy = opt_doc_object [of x d] opt_doc_object [of y d]
    have sorted: "sorted (map fst ?ms)" "distinct (map fst ?ms)" using names_of_sorted [of b x y] by (simp_all only: map_fst_names)
    have f: "Valid (fst f) \<and> doc (Suc d) (snd f)" if f: "f \<in> set (present ?ms)" for f
    proof -
      obtain m where m: "(fst f, m) \<in> set ?ms" "r_value m = Some (snd f)" using f by (rule present_member)
      then have name: "fst f \<in> set (names_of b x y)" and m': "m = mergeNode isprint None (path @ [fst f]) (byName b (fst f)) (byName x (fst f)) (byName y (fst f))"
        by auto
      have "opt_doc (Suc d) (r_value m)"
        unfolding m' using "1.hyps" [OF True name b] xy(2,5) True "1.prems" by blast
      moreover have "Valid (fst f)"
        using name xy(3) [of "fst f"] xy(6) [of "fst f"] True "1.prems" opt_doc_object(3) [of b d "fst f"]
        unfolding set_names_of by (elim UnE) auto
      ultimately show ?thesis using m(2) by simp
    qed
    then show ?thesis
      using True xy(1) "1.prems" present_sorted [OF sorted] gather_value [OF sorted]
      by (simp add: mergeNode_object sorted_fields_def strict_sorted_iff)
  next
    case False
    show ?thesis using mergeOther_doc [OF "1.prems"] mergeNode_other [OF False] by simp
  qed
qed

lemma Tree_doc:
  assumes "doc 0 b" "doc 0 x" "doc 0 y"
  shows "doc 0 (r_value (Tree isprint b x y None))"
  using assms mergeNode_doc [of 0 "Some b" "Some x" "Some y" isprint "[]"]
  by (auto simp: Tree_def Let_def split: option.split)

lemma DecodeRecord_doc: "DecodeRecord f = Inr n \<Longrightarrow> doc 0 n"
  by (simp add: DecodeRecord_Inr Parse_Encode_iff)

section \<open>Properties\<close>

text \<open>
  C38. Two documents merge to a document: when both sides changed a record in place and the field
  merge has no conflict, the decision puts a frame that decodes to exactly the merged tree; the
  one refusal left is a merged text over the limit, so two valid sides never make a broken record.
\<close>

theorem doc_decide_puts_a_document:
  assumes "disagree rid ours theirs = (val, put, reason)" "reason \<noteq> []"
    "ch_kind ours = Modified" "ch_kind theirs = Modified" "ch_from ours = Some base"
    "DecodeRecord base = Inr b" "DecodeRecord (ch_to ours) = Inr x" "DecodeRecord (ch_to theirs) = Inr y"
    "r_conflicts (Tree isprint b x y None) = []"
  shows "if length (Encode (r_value (Tree isprint b x y None))) > Doc_Json.MaxDocument
    then doc_decide W isprint disagree rid ours theirs = Inl [ErrDocument]
    else \<exists>frame. doc_decide W isprint disagree rid ours theirs = Inr \<lparr>d_value = frame, d_put = True, d_conflicts = []\<rparr> \<and>
      DecodeRecord frame = Inr (r_value (Tree isprint b x y None))"
proof -
  let ?v = "r_value (Tree isprint b x y None)"
  have "doc 0 ?v" using assms(6-8) by (intro Tree_doc DecodeRecord_doc)
  then have "EncodeRecord ?v = (if length (Encode ?v) > Doc_Json.MaxDocument then Inl [ErrDocument] else Inr (Format # Encode ?v))"
    by (simp add: EncodeRecord_def check_def is_document_doc Let_def)
  then show ?thesis
    using assms record_decodes [of ?v "Format # Encode ?v"] by (simp add: doc_decide_def)
qed

theorem doc_decide_puts_a_document_witness:
  "\<exists>frame. doc_decide std_wire (\<lambda>_. True) (\<lambda>_ _ _. ([], False, ''changed on both sides'')) ''r''
      \<lparr>ch_kind = Modified, ch_key = ''r'', ch_from = Some (Format # ''null''), ch_to = Format # ''true''\<rparr>
      \<lparr>ch_kind = Modified, ch_key = ''r'', ch_from = Some (Format # ''null''), ch_to = Format # ''true''\<rparr>
    = Inr \<lparr>d_value = frame, d_put = True, d_conflicts = []\<rparr> \<and> DecodeRecord frame = Inr (NBool True)"
proof -
  have "Parse ''null'' = Inr NNull" "Parse ''true'' = Inr (NBool True)"
    using Parse_Encode_doc [of NNull] Parse_Encode_doc [of "NBool True"] by (simp_all add: MaxDocument_def)
  then have "DecodeRecord (Format # ''null'') = Inr NNull" "DecodeRecord (Format # ''true'') = Inr (NBool True)"
    by (simp_all add: DecodeRecord_def)
  moreover have "Tree (\<lambda>_. True) NNull (NBool True) (NBool True) None = \<lparr>r_value = NBool True, r_conflicts = [], r_flagged = []\<rparr>"
    by (simp add: Tree_def mergeNode.simps mergeOther_def yields_def)
  ultimately show ?thesis
    using doc_decide_puts_a_document [of "\<lambda>_ _ _. ([], False, ''changed on both sides'')" "''r''"
      "\<lparr>ch_kind = Modified, ch_key = ''r'', ch_from = Some (Format # ''null''), ch_to = Format # ''true''\<rparr>"
      "\<lparr>ch_kind = Modified, ch_key = ''r'', ch_from = Some (Format # ''null''), ch_to = Format # ''true''\<rparr>"
      "[]" False "''changed on both sides''" "Format # ''null''" NNull "NBool True" "NBool True" "\<lambda>_. True" std_wire]
    by (simp add: MaxDocument_def)
qed

text \<open>
  A JSON text put and flushed reads back as the document it parses to, and every other record
  is kept; a text that is not a document, or a bad id, changes nothing and is refused.
\<close>

theorem doc_putjson_then_get:
  assumes "map_laws P content pending" "doc_PutJSON P e rid json = Inr e'" "doc_Flush P e' = Inr m" "mp_get P m rid = Inr held"
  shows "\<exists>n. Parse json = Inr n \<and> doc_Get P m rid = Inr (Some n) \<and> (\<forall>k. k = rid \<or> content m k = pending e k)"
proof -
  from assms(2) obtain n where n: "Parse json = Inr n" "doc_Put P e rid n = Inr e'"
    by (auto simp: doc_PutJSON_def split: sum.splits)
  show ?thesis
    using record_model.set_flush_get [OF doc_record_model [OF assms(1)], of e rid n e' m held]
      record_model.set_flush_other [OF doc_record_model [OF assms(1)], of e rid n e' m] assms(3,4) n
    by (auto simp: doc_generic doc_Flush_def)
qed

theorem doc_putjson_then_get_witness:
  "doc_Get fmap_port (fmupd ''r'' (Format # ''null'') fmempty) ''r'' = Inr (Some NNull)"
proof -
  have "Parse ''null'' = Inr NNull" using Parse_Encode_doc [of NNull] by (simp add: MaxDocument_def)
  then show ?thesis
    using doc_putjson_then_get [OF fmap_maps.map_laws_axioms, of fmempty "''r''" "''null''"
      "fmupd ''r'' (Format # ''null'') fmempty" "fmupd ''r'' (Format # ''null'') fmempty" "Some (Format # ''null'')"]
    by (simp add: doc_PutJSON_def doc_Put_def checkID_def MaxIDSize_def EncodeRecord_eq doc_Flush_def)
qed

text \<open>
  What \<open>Write\<close> stores \<open>Read\<close> returns, record for record, in the order of the ids.
\<close>

theorem doc_write_then_read:
  assumes "map_laws P content pending" "distinct (map fst records)" "doc_Write P records = Inr r"
    "mp_open P r = Inr m" "mp_iter P m None = Inr (kvs, None)"
  shows "\<exists>xs. doc_Read P r = Inr xs \<and> sorted_wrt (<) (map fst xs) \<and> map_of xs = map_of records"
  using record_model.write_read [OF doc_record_model [OF assms(1)] doc_Write_map_write [OF assms(3)] assms(2,4,5)]
  by (simp add: doc_generic comp_def option.map_ident)

theorem doc_write_then_read_witness:
  "\<exists>xs. doc_Read fmap_port fmempty = Inr xs \<and> map_of xs = map_of []"
  using doc_write_then_read [OF fmap_maps.map_laws_axioms, of "[]" fmempty fmempty "[]"]
  by (auto simp: doc_Write_def doc_Flush_def fmap_entries_def sorted_list_of_fset.rep_eq)

text \<open>
  A location parses exactly to the record id and field path it was written for, for ids of 1
  to 4096 bytes and paths of at most 64 fields.
\<close>

theorem doc_location_roundtrip:
  assumes "wire_laws W"
  shows "ParseLocation W loc = Inr (rid, p) \<longleftrightarrow>
    loc = Locate W rid p \<and> 0 < length rid \<and> length rid \<le> MaxIDSize \<and> length p \<le> Doc_Json.MaxDepth \<and>
    list_all (\<lambda>seg. length seg \<le> MaxDocument) p"
  by (rule wire_laws.doc_location [OF assms])

theorem doc_location_roundtrip_witness:
  "ParseLocation std_wire (Locate std_wire ''r'' [''a'', ''b'']) = Inr (''r'', [''a'', ''b''])"
  using doc_location_roundtrip [OF std.wire_laws_axioms, of "Locate std_wire ''r'' [''a'', ''b'']" "''r''" "[''a'', ''b'']"]
  by (simp add: MaxIDSize_def MaxDepth_def MaxDocument_def)

end
