(* ===== verification/Table_Catalog.thy ===== *)
theory Table_Catalog
  imports Map_Object
begin

text \<open>
  Catalogs (src/model/table/table.go): columns, indexes and schemas, what validates as a schema, and the
  record a schema is stored as. A record decodes to a schema exactly when it is what is written for it.
\<close>

section \<open>Schemas\<close>

definition MaxColumns :: nat where "MaxColumns = 1024"
definition MaxNameLen :: nat where "MaxNameLen = 128"
definition MaxIndexes :: nat where "MaxIndexes = 64"
definition MaxVarcharLen :: nat where "MaxVarcharLen = 1048576"

type_synonym tag = "16 word"

text \<open>\<open>Type\<close>: the v1 types, and the bytes that are none.\<close>

datatype ctype =
    TypeBool | TypeInt2 | TypeInt4 | TypeInt8 | TypeFloat4 | TypeFloat8 | TypeNumeric | TypeText | TypeVarchar
  | TypeBytea | TypeDate | TypeTimestamp | TypeTimestampTZ | TypeUUID | TypeJSONB | TypeNone byte

definition type_list :: "ctype list" where
  "type_list = [TypeBool, TypeInt2, TypeInt4, TypeInt8, TypeFloat4, TypeFloat8, TypeNumeric, TypeText, TypeVarchar,
     TypeBytea, TypeDate, TypeTimestamp, TypeTimestampTZ, TypeUUID, TypeJSONB]"

text \<open>The byte of a type, and the type of a byte: the types are numbered from 1.\<close>

fun type_byte :: "ctype \<Rightarrow> byte" where
  "type_byte TypeBool = byte_of 1" | "type_byte TypeInt2 = byte_of 2" | "type_byte TypeInt4 = byte_of 3"
| "type_byte TypeInt8 = byte_of 4" | "type_byte TypeFloat4 = byte_of 5" | "type_byte TypeFloat8 = byte_of 6"
| "type_byte TypeNumeric = byte_of 7" | "type_byte TypeText = byte_of 8" | "type_byte TypeVarchar = byte_of 9"
| "type_byte TypeBytea = byte_of 10" | "type_byte TypeDate = byte_of 11" | "type_byte TypeTimestamp = byte_of 12"
| "type_byte TypeTimestampTZ = byte_of 13" | "type_byte TypeUUID = byte_of 14" | "type_byte TypeJSONB = byte_of 15"
| "type_byte (TypeNone b) = b"

definition type_of_byte :: "byte \<Rightarrow> ctype" where
  "type_of_byte b = (if 1 \<le> bval b \<and> bval b \<le> 15 then type_list ! (bval b - 1) else TypeNone b)"

record column =
  col_tag :: tag
  col_name :: string
  col_type :: ctype
  col_nullable :: bool
  col_maxlen :: "32 word"

record index =
  ix_tag :: tag
  ix_columns :: "tag list"

record schema =
  sch_columns :: "column list"
  sch_key :: "tag list"
  sch_indexes :: "index list"

definition schema_column :: "schema \<Rightarrow> tag \<Rightarrow> column option" where
  "schema_column s t = find (\<lambda>c. col_tag c = t) (sch_columns s)"

fun is_none :: "ctype \<Rightarrow> bool" where
  "is_none (TypeNone b) = True"
| "is_none _ = False"

subsection \<open>Validation\<close>

text \<open>The loops of \<open>Validate\<close>, with what each has seen.\<close>

fun check_columns :: "tag list \<Rightarrow> string list \<Rightarrow> column list \<Rightarrow> unit result" where
  "check_columns tags names [] = Inr ()"
| "check_columns tags names (c # cs) =
     (if col_tag c = 0 then Inl [ErrSchema]
      else if col_tag c \<in> set tags then Inl [ErrSchema]
      else if col_name c = [] \<or> length (col_name c) > MaxNameLen then Inl [ErrSchema]
      else if col_name c \<in> set names then Inl [ErrSchema]
      else if is_none (col_type c) then Inl [ErrSchema]
      else if col_type c = TypeVarchar \<and> (col_maxlen c = 0 \<or> unat (col_maxlen c) > MaxVarcharLen) then Inl [ErrSchema]
      else if col_type c \<noteq> TypeVarchar \<and> col_maxlen c \<noteq> 0 then Inl [ErrSchema]
      else check_columns (col_tag c # tags) (col_name c # names) cs)"

fun check_key :: "schema \<Rightarrow> tag list \<Rightarrow> tag list \<Rightarrow> unit result" where
  "check_key s seen [] = Inr ()"
| "check_key s seen (t # ts) =
     (case schema_column s t of None \<Rightarrow> Inl [ErrSchema]
      | Some c \<Rightarrow>
         if col_nullable c then Inl [ErrSchema]
         else if t \<in> set seen then Inl [ErrSchema]
         else check_key s (t # seen) ts)"

fun check_index_columns :: "schema \<Rightarrow> tag list \<Rightarrow> tag list \<Rightarrow> unit result" where
  "check_index_columns s cols [] = Inr ()"
| "check_index_columns s cols (t # ts) =
     (if schema_column s t = None then Inl [ErrSchema]
      else if t \<in> set cols then Inl [ErrSchema]
      else check_index_columns s (t # cols) ts)"

fun check_indexes :: "schema \<Rightarrow> tag list \<Rightarrow> index list \<Rightarrow> unit result" where
  "check_indexes s itags [] = Inr ()"
| "check_indexes s itags (ix # ixs) =
     (if ix_tag ix = 0 then Inl [ErrSchema]
      else if ix_tag ix \<in> set itags then Inl [ErrSchema]
      else if ix_columns ix = [] then Inl [ErrSchema]
      else and_then (check_index_columns s [] (ix_columns ix)) (\<lambda>_. check_indexes s (ix_tag ix # itags) ixs))"

definition Validate :: "schema \<Rightarrow> unit result" where
  "Validate s =
     (if sch_columns s = [] then Inl [ErrSchema]
      else if length (sch_columns s) > MaxColumns then Inl [ErrSchema]
      else
        and_then (check_columns [] [] (sch_columns s)) (\<lambda>_.
        and_then (check_key s [] (sch_key s)) (\<lambda>_.
          if length (sch_indexes s) > MaxIndexes then Inl [ErrSchema]
          else check_indexes s [] (sch_indexes s))))"

section \<open>The catalog record\<close>

definition catalogMagic :: bytes where
  "catalogMagic = ''VDTC''"

definition catalog_format :: "16 word" where
  "catalog_format = 1"

definition write_column :: "wire \<Rightarrow> column \<Rightarrow> bytes" where
  "write_column W c =
     w_u16 W (col_tag c) @ w_lenbytes W (col_name c) @ [type_byte (col_type c)] @
     [if col_nullable c then byte_of 1 else byte_of 0] @ w_u32 W (col_maxlen c)"

definition write_tags :: "wire \<Rightarrow> tag list \<Rightarrow> bytes" where
  "write_tags W ts = w_uvarint W (length ts) @ concat (map (w_u16 W) ts)"

definition write_index :: "wire \<Rightarrow> index \<Rightarrow> bytes" where
  "write_index W ix = w_u16 W (ix_tag ix) @ write_tags W (ix_columns ix)"

definition EncodeCatalog :: "wire \<Rightarrow> schema \<Rightarrow> bytes result" where
  "EncodeCatalog W s =
     and_then (Validate s) (\<lambda>_.
       Inr (catalogMagic @ w_u16 W catalog_format @
         w_uvarint W (length (sch_columns s)) @ concat (map (write_column W) (sch_columns s)) @
         write_tags W (sch_key s) @
         w_uvarint W (length (sch_indexes s)) @ concat (map (write_index W) (sch_indexes s))))"

text \<open>
  Reading: a read past the end is the wire reader's error, found by \<open>Done\<close> at the end; a value
  that is read and wrong is corruption at once.
\<close>

definition reading :: "('a \<times> bytes) option \<Rightarrow> ('a \<times> bytes) result" where
  "reading r = of_read [ErrCorrupt, ErrWire] r"

definition bounded :: "wire \<Rightarrow> nat \<Rightarrow> bytes \<Rightarrow> (nat \<times> bytes) result" where
  "bounded W limit b =
     and_then (reading (rd_uvarint W b)) (\<lambda>(n, b). if n > limit then Inl [ErrCorrupt] else Inr (n, b))"

fun read_n :: "(bytes \<Rightarrow> ('a \<times> bytes) result) \<Rightarrow> nat \<Rightarrow> bytes \<Rightarrow> ('a list \<times> bytes) result" where
  "read_n item 0 b = Inr ([], b)"
| "read_n item (Suc n) b =
     and_then (item b) (\<lambda>(x, b). and_then (read_n item n b) (\<lambda>(xs, b). Inr (x # xs, b)))"

definition read_column :: "wire \<Rightarrow> bytes \<Rightarrow> (column \<times> bytes) result" where
  "read_column W b =
     and_then (reading (rd_u16 W b)) (\<lambda>(t, b).
     and_then (reading (rd_lenbytes W MaxNameLen b)) (\<lambda>(name, b).
     and_then (reading (rd_u8 b)) (\<lambda>(ty, b).
     and_then (reading (rd_u8 b)) (\<lambda>(nullable, b).
       if nullable \<noteq> byte_of 1 \<and> nullable \<noteq> byte_of 0 then Inl [ErrCorrupt]
       else and_then (reading (rd_u32 W b)) (\<lambda>(maxlen, b).
         Inr (\<lparr>col_tag = t, col_name = name, col_type = type_of_byte ty, col_nullable = (nullable = byte_of 1),
               col_maxlen = maxlen\<rparr>, b))))))"

definition read_tags :: "wire \<Rightarrow> bytes \<Rightarrow> (tag list \<times> bytes) result" where
  "read_tags W b = and_then (bounded W MaxColumns b) (\<lambda>(n, b). read_n (\<lambda>b. reading (rd_u16 W b)) n b)"

definition read_index :: "wire \<Rightarrow> bytes \<Rightarrow> (index \<times> bytes) result" where
  "read_index W b =
     and_then (reading (rd_u16 W b)) (\<lambda>(t, b).
     and_then (read_tags W b) (\<lambda>(cols, b). Inr (\<lparr>ix_tag = t, ix_columns = cols\<rparr>, b)))"

definition read_magic :: "wire \<Rightarrow> bytes \<Rightarrow> (unit \<times> bytes) result" where
  "read_magic W b =
     and_then (reading (rd_raw (length catalogMagic) b)) (\<lambda>(magic, b).
       if magic \<noteq> catalogMagic then Inl [ErrCorrupt]
       else and_then (reading (rd_u16 W b)) (\<lambda>(v, b). if v \<noteq> catalog_format then Inl [ErrCorrupt] else Inr ((), b)))"

definition DecodeCatalog :: "wire \<Rightarrow> bytes \<Rightarrow> schema result" where
  "DecodeCatalog W b =
     and_then (read_magic W b) (\<lambda>(_, b).
     and_then (bounded W MaxColumns b) (\<lambda>(n, b).
     and_then (read_n (read_column W) n b) (\<lambda>(cols, b).
     and_then (read_tags W b) (\<lambda>(pk, b).
     and_then (bounded W MaxIndexes b) (\<lambda>(n, b).
     and_then (read_n (read_index W) n b) (\<lambda>(ixs, b).
       if b \<noteq> [] then Inl [ErrCorrupt, ErrWire]
       else
         let s = \<lparr>sch_columns = cols, sch_key = pk, sch_indexes = ixs\<rparr> in
         case Validate s of Inl e \<Rightarrow> Inl (ErrCorrupt # e) | Inr _ \<Rightarrow> Inr s))))))"

section \<open>What validates\<close>

lemma find_column_iff: "schema_column s t = None \<longleftrightarrow> t \<notin> col_tag ` set (sch_columns s)"
  by (auto simp: schema_column_def find_None_iff)

lemma find_column_tag: "schema_column s t = Some c \<Longrightarrow> c \<in> set (sch_columns s) \<and> col_tag c = t"
  by (auto simp: schema_column_def find_Some_iff)

definition column_ok :: "column \<Rightarrow> bool" where
  "column_ok c \<longleftrightarrow> col_tag c \<noteq> 0 \<and> col_name c \<noteq> [] \<and> length (col_name c) \<le> MaxNameLen \<and> \<not> is_none (col_type c) \<and>
     (if col_type c = TypeVarchar then col_maxlen c \<noteq> 0 \<and> unat (col_maxlen c) \<le> MaxVarcharLen else col_maxlen c = 0)"

definition key_ok :: "schema \<Rightarrow> bool" where
  "key_ok s \<longleftrightarrow> distinct (sch_key s) \<and> (\<forall>t \<in> set (sch_key s). \<exists>c. schema_column s t = Some c \<and> \<not> col_nullable c)"

definition indexes_ok :: "schema \<Rightarrow> bool" where
  "indexes_ok s \<longleftrightarrow> length (sch_indexes s) \<le> MaxIndexes \<and> distinct (map ix_tag (sch_indexes s)) \<and>
     (\<forall>ix \<in> set (sch_indexes s). ix_tag ix \<noteq> 0 \<and> ix_columns ix \<noteq> [] \<and> distinct (ix_columns ix) \<and>
        set (ix_columns ix) \<subseteq> col_tag ` set (sch_columns s))"

definition valid_schema :: "schema \<Rightarrow> bool" where
  "valid_schema s \<longleftrightarrow> sch_columns s \<noteq> [] \<and> length (sch_columns s) \<le> MaxColumns \<and>
     list_all column_ok (sch_columns s) \<and> distinct (map col_tag (sch_columns s)) \<and> distinct (map col_name (sch_columns s)) \<and>
     key_ok s \<and> indexes_ok s"

lemma check_columns_iff:
  "check_columns tags names cs = Inr () \<longleftrightarrow> list_all column_ok cs \<and> distinct (map col_tag cs) \<and> distinct (map col_name cs) \<and>
     set (map col_tag cs) \<inter> set tags = {} \<and> set (map col_name cs) \<inter> set names = {}"
proof (induction tags names cs rule: check_columns.induct)
  case (2 tags names c cs)
  then show ?case by (auto simp: column_ok_def)
qed simp

lemma check_key_iff:
  "check_key s seen ts = Inr () \<longleftrightarrow> distinct ts \<and> set ts \<inter> set seen = {} \<and>
     (\<forall>t \<in> set ts. \<exists>c. schema_column s t = Some c \<and> \<not> col_nullable c)"
  by (induction s seen ts rule: check_key.induct) (auto split: option.splits)

lemma check_index_columns_iff:
  "check_index_columns s seen ts = Inr () \<longleftrightarrow> distinct ts \<and> set ts \<inter> set seen = {} \<and> set ts \<subseteq> col_tag ` set (sch_columns s)"
  by (induction s seen ts rule: check_index_columns.induct) (auto simp: find_column_iff)

lemma check_indexes_iff:
  "check_indexes s itags ixs = Inr () \<longleftrightarrow> distinct (map ix_tag ixs) \<and> set (map ix_tag ixs) \<inter> set itags = {} \<and>
     (\<forall>ix \<in> set ixs. ix_tag ix \<noteq> 0 \<and> ix_columns ix \<noteq> [] \<and> distinct (ix_columns ix) \<and>
        set (ix_columns ix) \<subseteq> col_tag ` set (sch_columns s))"
  by (induction s itags ixs rule: check_indexes.induct) (auto simp: and_then_Inr check_index_columns_iff)

lemma Validate_iff: "Validate s = Inr () \<longleftrightarrow> valid_schema s"
  by (auto simp: Validate_def valid_schema_def and_then_Inr check_columns_iff check_key_iff check_indexes_iff
      key_ok_def indexes_ok_def)

lemma Validate_Inl:
  assumes "\<not> valid_schema s"
  shows "Validate s = Inl [ErrSchema]"
proof -
  have c: "check_columns tags names cs = Inr () \<or> check_columns tags names cs = Inl [ErrSchema]" for tags names cs
    by (induction tags names cs rule: check_columns.induct) auto
  have k: "check_key s seen ts = Inr () \<or> check_key s seen ts = Inl [ErrSchema]" for seen ts
    by (induction s seen ts rule: check_key.induct) (auto split: option.split)
  have ic: "check_index_columns s seen ts = Inr () \<or> check_index_columns s seen ts = Inl [ErrSchema]" for s seen ts
    by (induction s seen ts rule: check_index_columns.induct) auto
  have i: "check_indexes s itags ixs = Inr () \<or> check_indexes s itags ixs = Inl [ErrSchema]" for s itags ixs
  proof (induction s itags ixs rule: check_indexes.induct)
    case (2 s itags ix ixs)
    then show ?case using ic [of s "[]" "ix_columns ix"] by auto
  qed simp
  have "Validate s = Inr () \<or> Validate s = Inl [ErrSchema]"
    using c [of "[]" "[]" "sch_columns s"] k [of "[]" "sch_key s"] i [of s "[]" "sch_indexes s"] by (auto simp: Validate_def)
  then show ?thesis using assms Validate_iff by blast
qed

text \<open>A key or an index names at most as many columns as there are.\<close>

lemma distinct_tags_bound:
  assumes "distinct ts" "set ts \<subseteq> col_tag ` set (sch_columns s)"
  shows "length ts \<le> length (sch_columns s)"
proof -
  have "length ts = card (set ts)" using assms(1) by (simp add: distinct_card)
  also have "\<dots> \<le> card (col_tag ` set (sch_columns s))" using assms(2) by (intro card_mono) auto
  also have "\<dots> \<le> length (sch_columns s)" using card_image_le card_length le_trans by blast
  finally show ?thesis .
qed

lemma valid_bounds:
  assumes "valid_schema s"
  shows "length (sch_key s) \<le> MaxColumns" "ix \<in> set (sch_indexes s) \<Longrightarrow> length (ix_columns ix) \<le> MaxColumns"
proof -
  have "set (sch_key s) \<subseteq> col_tag ` set (sch_columns s)"
    using assms find_column_tag unfolding valid_schema_def key_ok_def by force
  then show "length (sch_key s) \<le> MaxColumns"
    using assms distinct_tags_bound [of "sch_key s" s] by (auto simp: valid_schema_def key_ok_def)
  show "ix \<in> set (sch_indexes s) \<Longrightarrow> length (ix_columns ix) \<le> MaxColumns"
    using assms distinct_tags_bound [of "ix_columns ix" s] by (auto simp: valid_schema_def indexes_ok_def)
qed

section \<open>Reading what was written\<close>

text \<open>\<open>reads ok w r\<close>: \<open>r\<close> reads exactly what \<open>w\<close> writes of the values that are \<open>ok\<close>.\<close>

definition reads_exactly :: "('a \<Rightarrow> bool) \<Rightarrow> ('a \<Rightarrow> bytes) \<Rightarrow> (bytes \<Rightarrow> ('a \<times> bytes) result) \<Rightarrow> bool" where
  "reads_exactly ok w r \<longleftrightarrow> (\<forall>b x t. r b = Inr (x, t) \<longleftrightarrow> ok x \<and> b = w x @ t)"

lemma reads_exactlyD: "reads_exactly ok w r \<Longrightarrow> r b = Inr (x, t) \<longleftrightarrow> ok x \<and> b = w x @ t"
  by (simp add: reads_exactly_def)

lemma reads_written: "reads_exactly ok w r \<Longrightarrow> ok x \<Longrightarrow> r (w x @ t) = Inr (x, t)"
  by (simp add: reads_exactly_def)

lemma reading_codec: "codec ok w r \<Longrightarrow> reads_exactly ok w (\<lambda>b. reading (r b))"
  unfolding reads_exactly_def reading_def codec_def of_read_Inr by blast

lemma reads_read_n:
  assumes "reads_exactly ok w r"
  shows "read_n r n b = Inr (xs, t) \<longleftrightarrow> length xs = n \<and> list_all ok xs \<and> b = concat (map w xs) @ t"
proof (induction n arbitrary: b xs)
  case (Suc n)
  show ?case
    by (cases xs) (auto simp: and_then_Inr reads_exactlyD [OF assms] Suc)
qed auto

lemma type_of_type_byte: "\<not> is_none ty \<Longrightarrow> type_of_byte (type_byte ty) = ty"
  by (cases ty) (simp_all add: type_of_byte_def type_list_def nth_Cons')

lemma type_byte_type_of: "type_byte (type_of_byte b) = b"
proof (cases "1 \<le> bval b \<and> bval b \<le> 15")
  case True
  then obtain i where i: "bval b = Suc i" "i < 15" by (cases "bval b") auto
  have "map type_byte type_list = map byte_of [1..<16]" by (simp add: type_list_def upt_rec)
  then have "map type_byte type_list ! i = map byte_of [1..<16] ! i" by simp
  moreover have "length type_list = 15" by (simp add: type_list_def)
  ultimately have "type_byte (type_list ! i) = byte_of (bval b)" using i by (simp del: upt_Suc of_char_of char_of_nat)
  then have "type_byte (type_list ! i) = b" by simp
  with i have "type_byte (type_list ! (bval b - 1)) = b" by simp
  then show ?thesis using True by (simp add: type_of_byte_def)
qed (auto simp: type_of_byte_def)

definition type_ok :: "ctype \<Rightarrow> bool" where
  "type_ok ty \<longleftrightarrow> type_of_byte (type_byte ty) = ty"

context wire_laws
begin

lemma reads_u16: "reads_exactly (\<lambda>_. True) (w_u16 W) (\<lambda>b. reading (rd_u16 W b))"
  by (rule reading_codec [OF u16])

lemma reads_bounded: "limit < 2 ^ 64 \<Longrightarrow> bounded W limit b = Inr (n, t) \<longleftrightarrow> n \<le> limit \<and> b = w_uvarint W n @ t"
  using reads_exactlyD [OF reading_codec [OF uvarint], of b n t]
  by (auto simp: bounded_def and_then_def split: if_splits sum.splits)

lemma reads_tags: "reads_exactly (\<lambda>ts. length ts \<le> MaxColumns) (write_tags W) (read_tags W)"
  unfolding reads_exactly_def read_tags_def
proof (intro allI)
  fix b and ts :: "tag list" and t
  have "MaxColumns < 2 ^ 64" by (simp add: MaxColumns_def)
  note reads = reads_bounded [OF this] reads_read_n [OF reads_u16]
  show "and_then (bounded W MaxColumns b) (\<lambda>(n, b). read_n (\<lambda>b. reading (rd_u16 W b)) n b) = Inr (ts, t) \<longleftrightarrow>
      length ts \<le> MaxColumns \<and> b = write_tags W ts @ t"
    by (auto simp: and_then_Inr reads write_tags_def list_all_iff)
qed

lemma reads_column:
  "reads_exactly (\<lambda>c. length (col_name c) \<le> MaxNameLen \<and> type_ok (col_type c)) (write_column W) (read_column W)"
  unfolding reads_exactly_def
proof (intro allI)
  fix b c t
  have name: "reading (rd_lenbytes W MaxNameLen b) = Inr (n, t) \<longleftrightarrow> length n \<le> MaxNameLen \<and> b = w_lenbytes W n @ t" for b n t
    using reads_exactlyD [OF reading_codec [OF lenbytes, of MaxNameLen], of b n t] by (auto simp: MaxNameLen_def)
  have u8: "reading (rd_u8 b) = Inr (x, t) \<longleftrightarrow> b = x # t" for b x t
    by (auto simp: reading_def rd_u8_def split: list.splits)
  note reads = name u8 reads_exactlyD [OF reads_u16] reads_exactlyD [OF reading_codec [OF u32]]
  have byte: "byte_of 1 \<noteq> byte_of 0" by simp
  show "read_column W b = Inr (c, t) \<longleftrightarrow> (length (col_name c) \<le> MaxNameLen \<and> type_ok (col_type c)) \<and> b = write_column W c @ t"
  proof
    assume "read_column W b = Inr (c, t)"
    then show "(length (col_name c) \<le> MaxNameLen \<and> type_ok (col_type c)) \<and> b = write_column W c @ t"
      by (auto simp: read_column_def and_then_Inr reads write_column_def type_ok_def type_byte_type_of split: if_splits)
  next
    assume "(length (col_name c) \<le> MaxNameLen \<and> type_ok (col_type c)) \<and> b = write_column W c @ t"
    moreover have "reading (rd_lenbytes W MaxNameLen (w_lenbytes W n @ t)) = Inr (n, t)" if "length n \<le> MaxNameLen" for n t
      using name that by blast
    ultimately show "read_column W b = Inr (c, t)"
      using reads_written [OF reads_u16] reads_written [OF reading_codec [OF u32]] byte
      by (cases c) (auto simp: read_column_def write_column_def type_ok_def reading_def rd_u8_def)
  qed
qed

lemma reads_index: "reads_exactly (\<lambda>ix. length (ix_columns ix) \<le> MaxColumns) (write_index W) (read_index W)"
  unfolding reads_exactly_def
proof (intro allI)
  fix b and ix :: index and t
  show "read_index W b = Inr (ix, t) \<longleftrightarrow> length (ix_columns ix) \<le> MaxColumns \<and> b = write_index W ix @ t"
    by (cases ix) (auto simp: read_index_def and_then_Inr reads_exactlyD [OF reads_u16] reads_exactlyD [OF reads_tags] write_index_def)
qed

lemma reads_magic: "read_magic W b = Inr (u, t) \<longleftrightarrow> b = catalogMagic @ w_u16 W catalog_format @ t"
proof -
  have "reading (rd_raw n b) = Inr (x, t) \<longleftrightarrow> length x = n \<and> b = x @ t" for n b x t
    using rd_raw_append [of x n t] rd_raw_Some [of n b x t] by (auto simp: reading_def)
  then show ?thesis by (auto simp: read_magic_def and_then_Inr reads_exactlyD [OF reads_u16] split: if_splits)
qed

lemma catalog_roundtrip: "DecodeCatalog W b = Inr s \<longleftrightarrow> EncodeCatalog W s = Inr b"
proof -
  have lim: "MaxColumns < 2 ^ 64" "MaxIndexes < 2 ^ 64" by (simp_all add: MaxColumns_def MaxIndexes_def)
  note reads = reads_magic reads_bounded [OF lim(1)] reads_bounded [OF lim(2)] reads_read_n [OF reads_column]
    reads_read_n [OF reads_index] reads_exactlyD [OF reads_tags]
  have "Validate s = Inr u \<longleftrightarrow> valid_schema s" for s u using Validate_iff [of s] by simp
  note valid = this
  have cols: "list_all (\<lambda>c. length (col_name c) \<le> MaxNameLen \<and> type_ok (col_type c)) (sch_columns s)" if "valid_schema s"
    using that by (auto simp: valid_schema_def list_all_iff column_ok_def type_ok_def type_of_type_byte)
  show ?thesis
  proof
    assume "DecodeCatalog W b = Inr s"
    then show "EncodeCatalog W s = Inr b"
      by (auto simp: DecodeCatalog_def EncodeCatalog_def and_then_Inr reads Let_def valid split: if_splits sum.splits)
  next
    assume "EncodeCatalog W s = Inr b"
    then have v: "valid_schema s" and b: "b = catalogMagic @ w_u16 W catalog_format @
         w_uvarint W (length (sch_columns s)) @ concat (map (write_column W) (sch_columns s)) @
         write_tags W (sch_key s) @
         w_uvarint W (length (sch_indexes s)) @ concat (map (write_index W) (sch_indexes s))"
      by (auto simp: EncodeCatalog_def and_then_Inr valid)
    have w: "bounded W MaxColumns (w_uvarint W n @ t) = Inr (n, t)" if "n \<le> MaxColumns" for n t using reads(2) that by blast
    have w': "bounded W MaxIndexes (w_uvarint W n @ t) = Inr (n, t)" if "n \<le> MaxIndexes" for n t using reads(3) that by blast
    have "read_magic W (catalogMagic @ w_u16 W catalog_format @ t) = Inr ((), t)" for t using reads(1) by blast
    moreover have "read_n (read_column W) (length (sch_columns s)) (concat (map (write_column W) (sch_columns s)) @ t) = Inr (sch_columns s, t)" for t
      using reads(4) cols [OF v] by blast
    moreover have "read_tags W (write_tags W (sch_key s) @ t) = Inr (sch_key s, t)" for t
      using reads_written [OF reads_tags] valid_bounds(1) [OF v] by blast
    moreover have "read_n (read_index W) (length (sch_indexes s)) (concat (map (write_index W) (sch_indexes s)) @ t) = Inr (sch_indexes s, t)" for t
      using reads(5) valid_bounds(2) [OF v] by (simp add: list_all_iff)
    note r = calculation this [of "[]", simplified]
    have "length (sch_columns s) \<le> MaxColumns" "length (sch_indexes s) \<le> MaxIndexes" "Validate s = Inr ()"
      using v Validate_iff [of s] by (simp_all add: valid_schema_def indexes_ok_def)
    moreover have eq: "\<lparr>sch_columns = sch_columns s, sch_key = sch_key s, sch_indexes = sch_indexes s\<rparr> = s" by simp
    ultimately show "DecodeCatalog W b = Inr s"
      unfolding b by (simp add: DecodeCatalog_def r w w' Let_def eq)
  qed
qed

end

text \<open>
  C23. A catalog record decodes to a schema exactly when it is the record \<open>EncodeCatalog\<close> writes for
  it: a stored schema is valid, reads back as it was, and has one record.
\<close>

theorem catalog_decodes_iff_encoded:
  assumes "wire_laws W"
  shows "DecodeCatalog W b = Inr s \<longleftrightarrow> EncodeCatalog W s = Inr b"
  by (rule wire_laws.catalog_roundtrip [OF assms])

definition example_schema :: schema where
  "example_schema = \<lparr>sch_columns = [\<lparr>col_tag = 1, col_name = ''id'', col_type = TypeInt4, col_nullable = False, col_maxlen = 0\<rparr>,
     \<lparr>col_tag = 2, col_name = ''name'', col_type = TypeVarchar, col_nullable = True, col_maxlen = 10\<rparr>],
     sch_key = [1], sch_indexes = [\<lparr>ix_tag = 1, ix_columns = [2]\<rparr>]\<rparr>"

theorem catalog_decodes_iff_encoded_witness:
  "\<exists>b. EncodeCatalog std_wire example_schema = Inr b \<and> DecodeCatalog std_wire b = Inr example_schema"
proof -
  have "valid_schema example_schema"
    by (simp add: valid_schema_def example_schema_def MaxColumns_def MaxIndexes_def MaxNameLen_def MaxVarcharLen_def
      column_ok_def key_ok_def indexes_ok_def schema_column_def)
  then have "\<exists>b. EncodeCatalog std_wire example_schema = Inr b"
    using Validate_iff [of example_schema] by (simp add: EncodeCatalog_def)
  then show ?thesis using catalog_decodes_iff_encoded [OF std.wire_laws_axioms] by blast
qed

end
