(* ===== verification/Table_Cell.thy ===== *)
theory Table_Cell
  imports Table_Catalog
begin

text \<open>
  Cells (src/model/table/cell.go): the values of the v1 column types and their bytes, which sort as the values do.
\<close>

unbundle bit_operations_syntax

section \<open>Cells\<close>

type_synonym float32 = "32 word"

text \<open>
  The Go values a cell may be given: one constructor per type the code switches on, \<open>CNull\<close> for
  nil, \<open>CRowID\<close> for the row id that is the key of a row without a declared key, and \<open>COther\<close> for a value
  of any other type. Floats are their IEEE 754 bit patterns; a \<open>UUID\<close>
  and a row id are their bytes, of which an array of either type always has 16.
\<close>

datatype cell =
    CNull | CBool bool | CInt2 "16 word" | CInt4 "32 word" | CInt8 "64 word" | CFloat4 float32 | CFloat8 float64
  | CNumeric string | CString string | CBytea bytes | CDate "32 word" | CTimestamp "64 word" | CTimestampTZ "64 word"
  | CUUID bytes | CJSONB bytes | CRowID bytes | COther

definition MaxCellLen :: nat where "MaxCellLen = 1048576"
definition MaxNumericLen :: nat where "MaxNumericLen = 1000"
definition maxNumericDigs :: nat where "maxNumericDigs = 1000"
definition maxExponent :: nat where "maxExponent = 999999"

subsection \<open>Integers and floats\<close>

text \<open>\<open>binary.BigEndian\<close>: the bytes of a number, most significant first, and back.\<close>

definition be_bytes :: "nat \<Rightarrow> nat \<Rightarrow> bytes" where
  "be_bytes k n = rev (le_bytes k n)"

definition be_val :: "bytes \<Rightarrow> nat" where
  "be_val b = le_val (rev b)"

definition IsNaN32 :: "float32 \<Rightarrow> bool" where
  "IsNaN32 f \<longleftrightarrow> 0x7F800000 < unat f mod 2 ^ 31"

text \<open>\<open>f == 0\<close> holds for both zeros, whose patterns differ in the sign bit.\<close>

definition orderedFloat64 :: "float64 \<Rightarrow> 64 word" where
  "orderedFloat64 f0 =
     (if IsNaN f0 then - 1
      else
        let f = (if float_eq f0 0 then 0 else f0) in
        if f AND (push_bit 63 1) \<noteq> 0 then NOT f else f XOR (push_bit 63 1))"

definition unorderedFloat64 :: "64 word \<Rightarrow> float64" where
  "unorderedFloat64 u =
     (if u = - 1 then 0x7FF8000000000001
      else if u AND (push_bit 63 1) \<noteq> 0 then u XOR (push_bit 63 1)
      else NOT u)"

definition orderedFloat32 :: "float32 \<Rightarrow> 32 word" where
  "orderedFloat32 f0 =
     (if IsNaN32 f0 then - 1
      else
        let f = (if f0 = 0 \<or> f0 = push_bit 31 1 then 0 else f0) in
        if f AND (push_bit 31 1) \<noteq> 0 then NOT f else f XOR (push_bit 31 1))"

definition unorderedFloat32 :: "32 word \<Rightarrow> float32" where
  "unorderedFloat32 u =
     (if u = - 1 then 0x7FC00000
      else if u AND (push_bit 31 1) \<noteq> 0 then u XOR (push_bit 31 1)
      else NOT u)"

subsection \<open>Strings\<close>

definition cell_escape :: "bytes \<Rightarrow> bytes" where
  "cell_escape s = concat (map (\<lambda>c. if c = CHR 0x00 then [CHR 0x00, CHR 0xFF] else [c]) s) @ [CHR 0x00, CHR 0x00]"

fun unescape :: "bytes \<Rightarrow> (bytes \<times> bytes) result" where
  "unescape [] = Inl [ErrCorrupt]"
| "unescape (c # b) =
     (if c \<noteq> CHR 0x00 then and_then (unescape b) (\<lambda>(out, rest). Inr (c # out, rest))
      else case b of [] \<Rightarrow> Inl [ErrCorrupt]
        | e # b' \<Rightarrow>
           if e = CHR 0x00 then Inr ([], b')
           else if e = CHR 0xFF then and_then (unescape b') (\<lambda>(out, rest). Inr (CHR 0x00 # out, rest))
           else Inl [ErrCorrupt])"

subsection \<open>Numerics\<close>

definition parseExponent_loop :: "string \<Rightarrow> nat option" where
  "parseExponent_loop s =
     fold (\<lambda>c e. case e of None \<Rightarrow> None
       | Some e \<Rightarrow>
          if \<not> is_digit c then None
          else let e = e * 10 + (bval c - 48) in if e > maxExponent then None else Some e) s (Some 0)"

definition parseExponent :: "string \<Rightarrow> int option" where
  "parseExponent s0 =
     (let neg = (length s0 > 0 \<and> hd s0 = CHR ''-''); s = (if neg then tl s0 else s0) in
      if length s = 0 then None
      else case parseExponent_loop s of None \<Rightarrow> None
        | Some e \<Rightarrow> Some (if neg then - int e else int e))"

text \<open>The loop of \<open>parseDecimal\<close>: the digits so far, where the point was, and at the end the exponent.\<close>

fun decimal_loop :: "string \<Rightarrow> nat list \<Rightarrow> nat option \<Rightarrow> (nat list \<times> nat option \<times> int) option" where
  "decimal_loop [] mant pt = Some (mant, pt, 0)"
| "decimal_loop (c # s) mant pt =
     (if is_digit c then decimal_loop s (mant @ [bval c - 48]) pt
      else if c = CHR ''.'' \<and> pt = None then decimal_loop s mant (Some (length mant))
      else if (c = CHR ''e'' \<or> c = CHR ''E'') \<and> mant \<noteq> [] then
        (case parseExponent s of None \<Rightarrow> None | Some e \<Rightarrow> Some (mant, pt, e))
      else None)"

text \<open>The significant digits of a mantissa.\<close>

definition strip_digits0 :: "nat list \<Rightarrow> nat list" where
  "strip_digits0 mant = rev (dropWhile (\<lambda>d. d = 0) (rev (dropWhile (\<lambda>d. d = 0) mant)))"

definition parseDecimal :: "string \<Rightarrow> (bool \<times> nat list \<times> int) result" where
  "parseDecimal s =
     (if length s = 0 \<or> length s > MaxNumericLen then Inl [ErrCell]
      else
        let neg = (hd s = CHR ''-'') in
        case decimal_loop (if neg then tl s else s) [] None of
          None \<Rightarrow> Inl [ErrCell]
        | Some (mant, pt, exp) \<Rightarrow>
           if mant = [] then Inl [ErrCell]
           else
             let pt = (case pt of None \<Rightarrow> length mant | Some p \<Rightarrow> p);
                 ld = length (takeWhile (\<lambda>d. d = 0) mant);
                 digits = strip_digits0 mant in
             if digits = [] then Inr (False, [], 0)
             else if length digits > maxNumericDigs then Inl [ErrCell]
             else Inr (neg, digits, exp + int pt - int ld))"

definition canonicalLen :: "bool \<Rightarrow> int \<Rightarrow> int \<Rightarrow> int" where
  "canonicalLen neg n exp =
     (let sgn = (if neg then 1 else 0) in
      if exp \<le> 0 then sgn + 2 - exp + n
      else if exp \<ge> n then sgn + exp
      else sgn + n + 1)"

definition canonical :: "bool \<Rightarrow> nat list \<Rightarrow> int \<Rightarrow> string" where
  "canonical neg digits exp =
     (if digits = [] then ''0''
      else (if neg then ''-'' else []) @
        (if exp \<le> 0 then ''0.'' @ replicate (nat (- exp)) (CHR ''0'') @ map digit_char digits
         else if exp \<ge> int (length digits) then map digit_char digits @ replicate (nat exp - length digits) (CHR ''0'')
         else map digit_char (take (nat exp) digits) @ ''.'' @ map digit_char (drop (nat exp) digits)))"

definition ParseNumeric :: "string \<Rightarrow> string result" where
  "ParseNumeric s =
     and_then (parseDecimal s) (\<lambda>(neg, digits, exp).
       if length digits > 0 \<and> canonicalLen neg (int (length digits)) exp > int MaxNumericLen then Inl [ErrCell]
       else Inr (canonical neg digits exp))"

definition encodeNumeric :: "string \<Rightarrow> bytes result" where
  "encodeNumeric n =
     and_then (parseDecimal n) (\<lambda>(neg, digits, exp).
       if (length digits > 0 \<and> canonicalLen neg (int (length digits)) exp \<noteq> int (length n)) \<or> canonical neg digits exp \<noteq> n
       then Inl [ErrCell]
       else if digits = [] then Inr [byte_of 2]
       else if exp < - (2 ^ 31) \<or> exp > 2 ^ 31 - 1 then Inl [ErrCell]
       else
         let e = (word_of_int exp :: 32 word) XOR (push_bit 31 1) in
         if neg then Inr ([byte_of 1] @ be_bytes 4 (unat (NOT e)) @ map (\<lambda>d. byte_of (10 - d)) digits @ [byte_of 0xFF])
         else Inr ([byte_of 3] @ be_bytes 4 (unat e) @ map (\<lambda>d. byte_of (d + 1)) digits @ [byte_of 0]))"

text \<open>The loop of \<open>decodeNumeric\<close> that reads the digits up to the end byte.\<close>

fun numeric_digits :: "bool \<Rightarrow> bytes \<Rightarrow> nat list \<Rightarrow> (nat list \<times> bytes) result" where
  "numeric_digits neg [] digits = Inl [ErrCorrupt]"
| "numeric_digits neg (c # b) digits =
     (if c = (if neg then byte_of 0xFF else byte_of 0) then Inr (digits, b)
      else if bval c < 1 \<or> bval c > 10 then Inl [ErrCorrupt]
      else
        let digits = digits @ [if neg then 10 - bval c else bval c - 1] in
        if length digits > maxNumericDigs then Inl [ErrCorrupt] else numeric_digits neg b digits)"

definition decodeNumeric :: "bytes \<Rightarrow> (string \<times> bytes) result" where
  "decodeNumeric b0 =
     (case b0 of [] \<Rightarrow> Inl [ErrCorrupt]
      | class # b \<Rightarrow>
         if class = byte_of 2 then Inr (''0'', b)
         else if class \<noteq> byte_of 1 \<and> class \<noteq> byte_of 3 then Inl [ErrCorrupt]
         else if length b < 4 then Inl [ErrCorrupt]
         else
           let e0 = (of_nat (be_val (take 4 b)) :: 32 word);
               neg = (class = byte_of 1);
               e = (if neg then NOT e0 else e0);
               exp = sint (e XOR (push_bit 31 1)) in
           and_then (numeric_digits neg (drop 4 b) []) (\<lambda>(digits, b).
             if digits = [] \<or> hd digits = 0 \<or> last digits = 0 then Inl [ErrCorrupt]
             else if canonicalLen neg (int (length digits)) exp > int MaxNumericLen then Inl [ErrCorrupt]
             else Inr (canonical neg digits exp, b)))"

subsection \<open>Cells\<close>

definition sign_flipped :: "nat \<Rightarrow> 'a::len word \<Rightarrow> bytes" where
  "sign_flipped k x = be_bytes k (unat (x XOR push_bit (8 * k - 1) 1))"

text \<open>What \<open>encodeCell\<close> appends after the marker of a value that is not NULL.\<close>

definition encode_body :: "column \<Rightarrow> cell \<Rightarrow> bytes result" where
  "encode_body c v =
     (case col_type c of
        TypeBool \<Rightarrow> (case v of CBool x \<Rightarrow> Inr [if x then byte_of 1 else byte_of 0] | _ \<Rightarrow> Inl [ErrCell])
      | TypeInt2 \<Rightarrow> (case v of CInt2 x \<Rightarrow> Inr (sign_flipped 2 x) | _ \<Rightarrow> Inl [ErrCell])
      | TypeInt4 \<Rightarrow> (case v of CInt4 x \<Rightarrow> Inr (sign_flipped 4 x) | _ \<Rightarrow> Inl [ErrCell])
      | TypeInt8 \<Rightarrow> (case v of CInt8 x \<Rightarrow> Inr (sign_flipped 8 x) | _ \<Rightarrow> Inl [ErrCell])
      | TypeFloat4 \<Rightarrow> (case v of CFloat4 x \<Rightarrow> Inr (be_bytes 4 (unat (orderedFloat32 x))) | _ \<Rightarrow> Inl [ErrCell])
      | TypeFloat8 \<Rightarrow> (case v of CFloat8 x \<Rightarrow> Inr (be_bytes 8 (unat (orderedFloat64 x))) | _ \<Rightarrow> Inl [ErrCell])
      | TypeNumeric \<Rightarrow>
          (case v of CNumeric x \<Rightarrow> (case encodeNumeric x of Inl e \<Rightarrow> Inl (ErrCell # e) | Inr b \<Rightarrow> Inr b) | _ \<Rightarrow> Inl [ErrCell])
      | TypeText \<Rightarrow> (case v of CString x \<Rightarrow> if \<not> Valid x then Inl [ErrCell] else Inr (cell_escape x) | _ \<Rightarrow> Inl [ErrCell])
      | TypeVarchar \<Rightarrow>
          (case v of CString x \<Rightarrow>
             if \<not> Valid x then Inl [ErrCell]
             else if RuneCount x > unat (col_maxlen c) then Inl [ErrCell]
             else Inr (cell_escape x)
           | _ \<Rightarrow> Inl [ErrCell])
      | TypeBytea \<Rightarrow> (case v of CBytea x \<Rightarrow> Inr (cell_escape x) | _ \<Rightarrow> Inl [ErrCell])
      | TypeDate \<Rightarrow> (case v of CDate x \<Rightarrow> Inr (sign_flipped 4 x) | _ \<Rightarrow> Inl [ErrCell])
      | TypeTimestamp \<Rightarrow> (case v of CTimestamp x \<Rightarrow> Inr (sign_flipped 8 x) | _ \<Rightarrow> Inl [ErrCell])
      | TypeTimestampTZ \<Rightarrow> (case v of CTimestampTZ x \<Rightarrow> Inr (sign_flipped 8 x) | _ \<Rightarrow> Inl [ErrCell])
      | TypeUUID \<Rightarrow> (case v of CUUID x \<Rightarrow> Inr x | _ \<Rightarrow> Inl [ErrCell])
      | TypeJSONB \<Rightarrow>
          (case v of CJSONB x \<Rightarrow> if length x = 0 \<or> \<not> Valid x then Inl [ErrCell] else Inr (cell_escape x) | _ \<Rightarrow> Inl [ErrCell])
      | TypeNone _ \<Rightarrow> Inl [ErrCell])"

definition encodeCell :: "column \<Rightarrow> cell \<Rightarrow> bytes result" where
  "encodeCell c v =
     (if v = CNull then (if \<not> col_nullable c then Inl [ErrCell] else Inr [byte_of 0])
      else and_then (encode_body c v) (\<lambda>b.
        if length (byte_of 1 # b) > MaxCellLen then Inl [ErrCell] else Inr (byte_of 1 # b)))"

text \<open>The reads of \<open>decodeCell\<close>: a number of fixed width, a string.\<close>

definition fixed :: "nat \<Rightarrow> bytes \<Rightarrow> (bytes \<Rightarrow> cell) \<Rightarrow> (cell \<times> bytes) result" where
  "fixed n b mk = (if length b < n then Inl [ErrCorrupt] else Inr (mk (take n b), drop n b))"

definition flipped_val :: "nat \<Rightarrow> bytes \<Rightarrow> 'a::len word" where
  "flipped_val k x = of_nat (be_val x) XOR push_bit (8 * k - 1) 1"

definition escaped :: "bytes \<Rightarrow> (bytes \<Rightarrow> bool) \<Rightarrow> (bytes \<Rightarrow> cell) \<Rightarrow> (cell \<times> bytes) result" where
  "escaped b ok mk = and_then (unescape b) (\<lambda>(s, rest). if ok s then Inr (mk s, rest) else Inl [ErrCorrupt])"

definition decode_body :: "column \<Rightarrow> bytes \<Rightarrow> (cell \<times> bytes) result" where
  "decode_body c b =
     (case col_type c of
        TypeBool \<Rightarrow>
          if length b < 1 then Inl [ErrCorrupt]
          else if bval (hd b) > 1 then Inl [ErrCorrupt]
          else Inr (CBool (hd b = byte_of 1), tl b)
      | TypeInt2 \<Rightarrow> fixed 2 b (\<lambda>x. CInt2 (flipped_val 2 x))
      | TypeInt4 \<Rightarrow> fixed 4 b (\<lambda>x. CInt4 (flipped_val 4 x))
      | TypeInt8 \<Rightarrow> fixed 8 b (\<lambda>x. CInt8 (flipped_val 8 x))
      | TypeFloat4 \<Rightarrow>
          if length b < 4 then Inl [ErrCorrupt]
          else let u = of_nat (be_val (take 4 b)); f = unorderedFloat32 u in
            if orderedFloat32 f \<noteq> u then Inl [ErrCorrupt] else Inr (CFloat4 f, drop 4 b)
      | TypeFloat8 \<Rightarrow>
          if length b < 8 then Inl [ErrCorrupt]
          else let u = of_nat (be_val (take 8 b)); f = unorderedFloat64 u in
            if orderedFloat64 f \<noteq> u then Inl [ErrCorrupt] else Inr (CFloat8 f, drop 8 b)
      | TypeNumeric \<Rightarrow> and_then (decodeNumeric b) (\<lambda>(n, rest). Inr (CNumeric n, rest))
      | TypeText \<Rightarrow> escaped b Valid CString
      | TypeVarchar \<Rightarrow> escaped b (\<lambda>s. Valid s \<and> \<not> RuneCount s > unat (col_maxlen c)) CString
      | TypeBytea \<Rightarrow> escaped b (\<lambda>s. True) CBytea
      | TypeDate \<Rightarrow> fixed 4 b (\<lambda>x. CDate (flipped_val 4 x))
      | TypeTimestamp \<Rightarrow> fixed 8 b (\<lambda>x. CTimestamp (flipped_val 8 x))
      | TypeTimestampTZ \<Rightarrow> fixed 8 b (\<lambda>x. CTimestampTZ (flipped_val 8 x))
      | TypeUUID \<Rightarrow> fixed 16 b CUUID
      | TypeJSONB \<Rightarrow> escaped b (\<lambda>s. length s \<noteq> 0 \<and> Valid s) CJSONB
      | TypeNone _ \<Rightarrow> Inl [ErrCorrupt])"

definition decodeCell :: "bytes \<Rightarrow> column \<Rightarrow> (cell \<times> bytes) result" where
  "decodeCell b0 c =
     (case b0 of [] \<Rightarrow> Inl [ErrCorrupt]
      | m # b \<Rightarrow>
         if m = byte_of 0 then (if \<not> col_nullable c then Inl [ErrCorrupt] else Inr (CNull, b))
         else if m \<noteq> byte_of 1 then Inl [ErrCorrupt]
         else decode_body c b)"

definition maxCell :: "column \<Rightarrow> nat" where
  "maxCell c =
     (case col_type c of
        TypeBool \<Rightarrow> 1 + 1
      | TypeInt2 \<Rightarrow> 1 + 2
      | TypeInt4 \<Rightarrow> 1 + 4 | TypeFloat4 \<Rightarrow> 1 + 4 | TypeDate \<Rightarrow> 1 + 4
      | TypeInt8 \<Rightarrow> 1 + 8 | TypeFloat8 \<Rightarrow> 1 + 8 | TypeTimestamp \<Rightarrow> 1 + 8 | TypeTimestampTZ \<Rightarrow> 1 + 8
      | TypeUUID \<Rightarrow> 1 + 16
      | _ \<Rightarrow> MaxCellLen)"

end
