(* ===== verification/Cell_Order.thy ===== *)
theory Cell_Order
  imports Table_Cell Doc_Number Complex_Main
begin

text \<open>
  The order of bytes: \<open>compares\<close> says how two byte strings sort whatever follows them, and it is shown
  for big-endian numbers, integers with their sign bit flipped, escaped strings, floats and numerics.
\<close>

section \<open>Big-endian numbers\<close>

lemma be_bytes_0 [simp]: "be_bytes 0 n = []"
  by (simp add: be_bytes_def)

lemma be_bytes_Suc: "be_bytes (Suc k) n = be_bytes k (n div 256) @ [byte_of (n mod 256)]"
  by (simp add: be_bytes_def)

lemma length_be_bytes [simp]: "length (be_bytes k n) = k"
  by (simp add: be_bytes_def)

lemma be_val_be_bytes: "n < 256 ^ k \<Longrightarrow> be_val (be_bytes k n) = n"
  by (simp add: be_val_def be_bytes_def le_val_le_bytes)

lemma be_bytes_be_val: "be_bytes (length b) (be_val b) = b"
  using le_bytes_le_val [of "rev b"] by (simp add: be_val_def be_bytes_def)

lemma be_val_less: "be_val b < 256 ^ length b"
  using le_val_less [of "rev b"] by (simp add: be_val_def)

text \<open>
  \<open>compares a b c\<close>: whatever follows, \<open>a\<close> sorts before \<open>b\<close> when \<open>c\<close> is negative, after it when it
  is positive, and with what follows when it is 0.
\<close>

definition compares :: "bytes \<Rightarrow> bytes \<Rightarrow> int \<Rightarrow> bool" where
  "compares a b c \<longleftrightarrow> (\<forall>r s. a @ r < b @ s \<longleftrightarrow> c < 0 \<or> c = 0 \<and> r < s)"

lemma comparesD: "compares a b c \<Longrightarrow> a @ r < b @ s \<longleftrightarrow> c < 0 \<or> c = 0 \<and> r < s"
  by (simp add: compares_def)

lemma compares_one: "compares [a] [b] (int (bval a) - int (bval b))"
  by (auto simp: compares_def less_char_def)

lemma compares_byte: "m < 256 \<Longrightarrow> n < 256 \<Longrightarrow> compares [byte_of m] [byte_of n] (int m - int n)"
  using compares_one [of "byte_of m" "byte_of n"] by simp

lemma compares_append:
  assumes "compares a b c" "compares a' b' c'"
  shows "compares (a @ a') (b @ b') (if c = 0 then c' else c)"
  using assms by (auto simp: compares_def)

lemma compares_cong: "compares a b c \<Longrightarrow> sgn c = sgn d \<Longrightarrow> compares a b d"
  unfolding compares_def by (auto simp: sgn_if split: if_splits)

lemma compares_be:
  assumes "m < 256 ^ k" "n < 256 ^ k"
  shows "compares (be_bytes k m) (be_bytes k n) (int m - int n)"
  using assms
proof (induction k arbitrary: m n)
  case 0
  then show ?case by (simp add: compares_def)
next
  case (Suc k)
  have "m div 256 < 256 ^ k" "n div 256 < 256 ^ k"
    using Suc.prems by (simp_all add: less_mult_imp_div_less mult.commute)
  from compares_append [OF Suc.IH [OF this] compares_byte [of "m mod 256" "n mod 256"]]
  have "compares (be_bytes (Suc k) m) (be_bytes (Suc k) n)
      (if int (m div 256) - int (n div 256) = 0 then int (m mod 256) - int (n mod 256) else int (m div 256) - int (n div 256))"
    by (simp only: be_bytes_Suc mod_less_divisor zero_less_numeral)
  moreover have "sgn (if int (m div 256) - int (n div 256) = 0 then int (m mod 256) - int (n mod 256) else int (m div 256) - int (n div 256)) =
      sgn (int m - int n)"
  proof -
    define a b c d where "a = m div 256" "b = m mod 256" "c = n div 256" "d = n mod 256"
    then have "m = a * 256 + b" "n = c * 256 + d" "b < 256" "d < 256" by simp_all
    then show ?thesis unfolding a_b_c_d_def [symmetric] by (auto simp: sgn_if)
  qed
  ultimately show ?case by (rule compares_cong)
qed

section \<open>Signed integers\<close>

lemma flip_bit_mod:
  "take_bit (Suc n) (k XOR push_bit n 1) = take_bit (Suc n) (k + 2 ^ n :: int)"
proof -
  have "(k - 2 ^ n) mod (2 * 2 ^ n) = (k - 2 ^ n + 2 * 2 ^ n) mod (2 * 2 ^ n)" by (rule mod_add_self2 [symmetric])
  then show ?thesis
    unfolding flip_bit_eq_xor [symmetric] flip_bit_eq_if
    by (simp add: set_bit_eq unset_bit_eq take_bit_eq_mod add.commute)
qed

lemma flip_add:
  fixes x :: "'a::len word"
  assumes "LENGTH('a) = Suc n"
  shows "x XOR push_bit n 1 = x + 2 ^ n"
  using assms
  by transfer (use flip_bit_mod in simp)

lemma flip_unat:
  fixes x :: "'a::len word"
  assumes "LENGTH('a) = Suc n"
  shows "int (unat (x XOR push_bit n 1)) = sint x + 2 ^ n"
proof -
  have "sint x = uint (x + 2 ^ n) - 2 ^ n"
    using assms by transfer (simp add: signed_take_bit_eq_take_bit_shift)
  then show ?thesis using flip_add [OF assms, of x] by simp
qed

lemma compares_flipped:
  fixes x y :: "'a::len word"
  assumes "LENGTH('a) = 8 * k" "0 < k"
  shows "compares (sign_flipped k x) (sign_flipped k y) (sint x - sint y)"
proof -
  have n: "LENGTH('a) = Suc (8 * k - 1)" using assms by simp
  have "(256 :: nat) ^ k = 2 ^ (8 * k)" by (simp add: power_mult)
  then have "unat z < 256 ^ k" for z :: "'a word" using assms(1) unsigned_less [of z] by simp
  from compares_be [OF this [of "x XOR push_bit (8 * k - 1) 1"] this [of "y XOR push_bit (8 * k - 1) 1"]] show ?thesis
    unfolding sign_flipped_def flip_unat [OF n] by simp
qed

lemma flipped_val_flipped:
  fixes x :: "'a::len word"
  assumes "LENGTH('a) = 8 * k"
  shows "flipped_val k (sign_flipped k x) = x" "length (sign_flipped k x) = k"
proof -
  have "(256 :: nat) ^ k = 2 ^ (8 * k)" by (simp add: power_mult)
  then have "unat z < 256 ^ k" for z :: "'a word" using assms unsigned_less [of z] by simp
  then show "flipped_val k (sign_flipped k x) = x"
    by (simp add: flipped_val_def sign_flipped_def be_val_be_bytes xor.assoc)
qed (simp add: sign_flipped_def)

lemma flipped_flipped_val:
  assumes "LENGTH('a::len) = 8 * k" "length b = k"
  shows "sign_flipped k (flipped_val k b :: 'a word) = b"
proof -
  have "(256 :: nat) ^ k = 2 ^ (8 * k)" by (simp add: power_mult)
  then have "unat (of_nat (be_val b) :: 'a word) = be_val b"
    using assms be_val_less [of b] by (simp add: unat_of_nat take_bit_nat_eq_self)
  then show ?thesis using assms(2) be_bytes_be_val [of b] by (simp add: sign_flipped_def flipped_val_def xor.assoc)
qed

section \<open>Strings\<close>

lemma compares_Cons: "compares a b c \<Longrightarrow> compares (x # a) (x # b) c"
  by (simp add: compares_def)

lemma compares_head: "x < y \<Longrightarrow> compares (x # a) (y # b) (- 1)" "y < x \<Longrightarrow> compares (x # a) (y # b) 1"
  by (auto simp: compares_def)

lemma cell_escape_simps:
  "cell_escape [] = [CHR 0x00, CHR 0x00]"
  "cell_escape (c # s) = (if c = CHR 0x00 then [CHR 0x00, CHR 0xFF] else [c]) @ cell_escape s"
  by (simp_all add: cell_escape_def)

lemma zero_least: "c \<noteq> CHR 0x00 \<Longrightarrow> CHR 0x00 < c"
proof -
  have "c = CHR 0x00" if "bval c = 0" using char_of_eqI [of 0 c] char_of_eqI [of 0 "CHR 0x00"] that by simp
  then show "c \<noteq> CHR 0x00 \<Longrightarrow> CHR 0x00 < c" by (cases "bval c = 0") (auto simp: less_char_def)
qed

definition order_of :: "'a::linorder \<Rightarrow> 'a \<Rightarrow> int" where
  "order_of x y = (if x < y then - 1 else if x = y then 0 else 1)"

lemma compares_escape: "compares (cell_escape x) (cell_escape y) (order_of x y)"
proof (induction x arbitrary: y)
  case Nil
  show ?case
  proof (cases y)
    case Nil
    then show ?thesis by (simp add: compares_def order_of_def cell_escape_simps)
  next
    case (Cons d y')
    then show ?thesis
      using zero_least [of d] by (auto simp: cell_escape_simps order_of_def compares_def)
  qed
next
  case (Cons c x)
  show ?case
  proof (cases y)
    case Nil
    then show ?thesis
      using zero_least [of c] by (auto simp: cell_escape_simps order_of_def compares_def)
  next
    case y: (Cons d y')
    show ?thesis
    proof (cases "c = d")
      case True
      then show ?thesis using Cons.IH [of y'] y by (auto simp: cell_escape_simps order_of_def compares_def)
    next
      case False
      then show ?thesis
        using y zero_least [of c] zero_least [of d] by (auto simp: cell_escape_simps order_of_def compares_def)
    qed
  qed
qed

lemma unescape_escape: "unescape (cell_escape s @ r) = Inr (s, r)"
  by (induction s) (simp_all add: cell_escape_simps)

lemma unescape_Inr: "unescape b = Inr (s, r) \<Longrightarrow> b = cell_escape s @ r"
proof (induction b arbitrary: s r rule: unescape.induct)
  case (2 c b)
  show ?case
  proof (cases "c = CHR 0x00")
    case False
    then show ?thesis using 2 by (auto simp: and_then_Inr cell_escape_simps)
  next
    case True
    with 2(3) obtain e b' where b: "b = e # b'" by (cases b) auto
    show ?thesis using 2 True b by (auto simp: and_then_Inr cell_escape_simps split: if_splits)
  qed
qed simp

section \<open>Floats\<close>

text \<open>Where a float sorts: by its position on the line, both zeros together, NaN above all.\<close>

definition float_rank :: "float64 \<Rightarrow> int" where
  "float_rank f = (if IsNaN f then 2 ^ 63 - 1 else float_pos f)"

definition float_rank32 :: "float32 \<Rightarrow> int" where
  "float_rank32 f = (if IsNaN32 f then 2 ^ 31 - 1
     else if unat f < 2 ^ 31 then int (unat f) else - int (unat f - 2 ^ 31))"

text \<open>The float a cell reads back as: zero for a negative zero, one NaN for all.\<close>

definition norm_float :: "float64 \<Rightarrow> float64" where
  "norm_float f = (if IsNaN f then 0x7FF8000000000001 else if float_eq f 0 then 0 else f)"

definition norm_float32 :: "float32 \<Rightarrow> float32" where
  "norm_float32 f = (if IsNaN32 f then 0x7FC00000 else if f = 0 \<or> f = push_bit 31 1 then 0 else f)"

lemma unat_less: "unat (x :: 'a::len word) < 2 ^ LENGTH('a)"
  by simp

lemma top_bit:
  fixes f :: "'a::len word"
  assumes "LENGTH('a) = Suc n"
  shows "f AND push_bit n 1 \<noteq> 0 \<longleftrightarrow> 2 ^ n \<le> unat f"
proof -
  have "unat f < 2 ^ n * 2" using unat_less [of f] assms by simp
  then have "unat f div 2 ^ n < 2" by (simp add: less_mult_imp_div_less mult.commute)
  then have "odd (unat f div 2 ^ n) \<longleftrightarrow> unat f div 2 ^ n = 1" by (auto simp: less_2_cases_iff)
  moreover have "f AND push_bit n 1 \<noteq> 0 \<longleftrightarrow> bit (unat f) n"
    using assms unfolding bit_iff_and_push_bit_not_eq_0 [symmetric] by (simp add: bit_unsigned_iff)
  moreover have "unat f div 2 ^ n = 1 \<longleftrightarrow> 2 ^ n \<le> unat f"
    using \<open>unat f div 2 ^ n < 2\<close> by (metis One_nat_def div_greater_zero_iff less_2_cases_iff nat_less_le zero_less_numeral zero_less_power gr0I le_0_eq less_one not_less)
  ultimately show ?thesis by (simp add: bit_iff_odd)
qed

lemma unat_flip:
  fixes x :: "'a::len word"
  assumes "LENGTH('a) = Suc n"
  shows "unat (x XOR push_bit n 1) = (if unat x < 2 ^ n then unat x + 2 ^ n else unat x - 2 ^ n)"
proof -
  have b: "unat x < 2 ^ n + 2 ^ n" using unat_less [of x] assms by simp
  have "unat (of_nat (2 ^ n) :: 'a word) = 2 ^ n" unfolding unat_of_nat using assms by (intro mod_less) simp
  then have "unat (2 ^ n :: 'a word) = 2 ^ n" by simp
  then have "unat (x + 2 ^ n) = (unat x + 2 ^ n) mod 2 ^ LENGTH('a)" by (simp add: unat_word_ariths)
  moreover have "(unat x + 2 ^ n) mod (2 ^ n + 2 ^ n) = unat x - 2 ^ n" if "2 ^ n \<le> unat x"
  proof -
    have "unat x + 2 ^ n = (unat x - 2 ^ n) + (2 ^ n + 2 ^ n)" using that by simp
    moreover have "unat x - 2 ^ n < 2 ^ n + 2 ^ n" using b by linarith
    ultimately show ?thesis by (simp only: mod_add_self2 mod_less)
  qed
  ultimately show ?thesis unfolding flip_add [OF assms] using b assms by (simp add: mult_2)
qed

lemma unat_NOT: "unat (NOT f) = 2 ^ LENGTH('a) - 1 - unat (f :: 'a::len word)"
proof -
  have "uint (NOT f) = mask LENGTH('a) - uint f" by transfer (simp add: take_bit_not_eq_mask_diff)
  then have "uint (NOT f) = 2 ^ LENGTH('a) - 1 - uint f" by (simp add: mask_eq_exp_minus_1)
  moreover obtain k m where km: "unat (NOT f) = k" "unat f = m" "uint (NOT f) = int k" "uint f = int m" by simp
  ultimately have "int (k + m + 1) = int (2 ^ LENGTH('a))" by simp
  then have "k + m + 1 = 2 ^ LENGTH('a)" unfolding of_nat_eq_iff .
  then show ?thesis unfolding km by simp
qed

text \<open>The number a float is stored as.\<close>

lemma unat_minus_1_64: "unat (- 1 :: 64 word) = 2 ^ 64 - 1" "unat (- 1 :: 32 word) = 2 ^ 32 - 1"
  using unat_NOT [of "0 :: 64 word"] unat_NOT [of "0 :: 32 word"] by simp_all

lemma unat_orderedFloat64:
  "unat (orderedFloat64 f) =
     (if IsNaN f then 2 ^ 64 - 1 else if unat f < 2 ^ 63 then unat f + 2 ^ 63
      else if unat f = 2 ^ 63 then 2 ^ 63 else 2 ^ 64 - 1 - unat f)"
proof -
  have z: "float_eq f 0 \<longleftrightarrow> unat f = 0 \<or> unat f = 2 ^ 63" if "\<not> IsNaN f"
  proof -
    define n where "n = unat f"
    show ?thesis using that unfolding float_eq_def float_pos_def n_def [symmetric] by (auto simp: IsNaN_def)
  qed
  have "unat (orderedFloat64 f) = (if IsNaN f then 2 ^ 64 - 1 else if float_eq f 0 then 2 ^ 63
      else if 2 ^ 63 \<le> unat f then 2 ^ 64 - 1 - unat f else unat f + 2 ^ 63)"
    using top_bit [of 63 f] unat_flip [of 63 f] unat_flip [of 63 "0 :: 64 word"] unat_NOT [of f]
    by (simp add: orderedFloat64_def Let_def unat_minus_1_64 del: push_bit_of_1)
  then show ?thesis using z by auto
qed

lemma unat_orderedFloat32:
  "unat (orderedFloat32 f) =
     (if IsNaN32 f then 2 ^ 32 - 1 else if unat f < 2 ^ 31 then unat f + 2 ^ 31
      else if unat f = 2 ^ 31 then 2 ^ 31 else 2 ^ 32 - 1 - unat f)"
proof -
  have z: "f = 0 \<or> f = push_bit 31 1 \<longleftrightarrow> unat f = 0 \<or> unat f = 2 ^ 31"
  proof -
    have "unat (push_bit 31 1 :: 32 word) = 2 ^ 31" by simp
    then show ?thesis by (metis unat_0 word_unat_eq_iff)
  qed
  have "unat (orderedFloat32 f) = (if IsNaN32 f then 2 ^ 32 - 1 else if f = 0 \<or> f = push_bit 31 1 then 2 ^ 31
      else if 2 ^ 31 \<le> unat f then 2 ^ 32 - 1 - unat f else unat f + 2 ^ 31)"
    using top_bit [of 31 f] unat_flip [of 31 f] unat_flip [of 31 "0 :: 32 word"] unat_NOT [of f]
    by (simp add: orderedFloat32_def Let_def unat_minus_1_64 del: push_bit_of_1)
  then show ?thesis using z by auto
qed

lemma sgn_place:
  fixes p q c :: int
  shows "sgn ((if p \<ge> 0 then p + c else p + c - 1) - (if q \<ge> 0 then q + c else q + c - 1)) = sgn (p - q)"
  by (simp add: sgn_if)

lemma float_place: "int (unat (orderedFloat64 f)) = (if float_rank f \<ge> 0 then float_rank f + 2 ^ 63 else float_rank f + 2 ^ 63 - 1)"
proof -
  define m where m: "m = unat f"
  have "m < 2 ^ 64" using unat_less [of f] by (simp add: m)
  then have "int (2 ^ 64 - 1 - m) = 2 ^ 64 - 1 - int m" by (simp add: of_nat_diff)
  then show ?thesis
    unfolding unat_orderedFloat64 float_rank_def float_pos_def m [symmetric]
    by (cases "IsNaN f"; cases "m < 2 ^ 63"; cases "m = 2 ^ 63") (simp_all add: of_nat_diff)
qed

lemma float32_place: "int (unat (orderedFloat32 f)) = (if float_rank32 f \<ge> 0 then float_rank32 f + 2 ^ 31 else float_rank32 f + 2 ^ 31 - 1)"
proof -
  define m where m: "m = unat f"
  have "m < 2 ^ 32" using unat_less [of f] by (simp add: m)
  then have "int (2 ^ 32 - 1 - m) = 2 ^ 32 - 1 - int m" by (simp add: of_nat_diff)
  then show ?thesis
    unfolding unat_orderedFloat32 float_rank32_def m [symmetric]
    by (cases "IsNaN32 f"; cases "m < 2 ^ 31"; cases "m = 2 ^ 31") (simp_all add: of_nat_diff)
qed

lemma compares_floats:
  "compares (be_bytes 8 (unat (orderedFloat64 f))) (be_bytes 8 (unat (orderedFloat64 g))) (float_rank f - float_rank g)"
  "compares (be_bytes 4 (unat (orderedFloat32 f'))) (be_bytes 4 (unat (orderedFloat32 g'))) (float_rank32 f' - float_rank32 g')"
proof -
  have b: "unat x < 256 ^ 8" "unat y < 256 ^ 4" for x :: "64 word" and y :: "32 word"
    using unat_less [of x] unat_less [of y] by simp_all
  show "compares (be_bytes 8 (unat (orderedFloat64 f))) (be_bytes 8 (unat (orderedFloat64 g))) (float_rank f - float_rank g)"
    by (rule compares_cong [OF compares_be [OF b(1) b(1)]]) (simp only: float_place sgn_place)
  show "compares (be_bytes 4 (unat (orderedFloat32 f'))) (be_bytes 4 (unat (orderedFloat32 g'))) (float_rank32 f' - float_rank32 g')"
    by (rule compares_cong [OF compares_be [OF b(2) b(2)]]) (simp only: float32_place sgn_place)
qed

lemma NaN_64: "IsNaN 0x7FF8000000000001" "IsNaN32 0x7FC00000"
  by (simp_all add: IsNaN_def IsNaN32_def)

lemma NOT_NOT_XOR: "NOT (NOT f) = (f :: 'a::len word)" "(f XOR g) XOR g = (f :: 'a::len word)"
  by (simp_all add: xor.assoc)

lemma ordered_top:
  "\<not> IsNaN f \<Longrightarrow> orderedFloat64 f \<noteq> - 1" "\<not> IsNaN32 f' \<Longrightarrow> orderedFloat32 f' \<noteq> - 1"
proof -
  have "unat (orderedFloat64 f) \<noteq> 2 ^ 64 - 1" if "\<not> IsNaN f"
    using that by (auto simp: unat_orderedFloat64 IsNaN_def)
  then show "\<not> IsNaN f \<Longrightarrow> orderedFloat64 f \<noteq> - 1" using unat_minus_1_64(1) by metis
  have "unat (orderedFloat32 f') \<noteq> 2 ^ 32 - 1" if "\<not> IsNaN32 f'"
    using that by (auto simp: unat_orderedFloat32 IsNaN32_def)
  then show "\<not> IsNaN32 f' \<Longrightarrow> orderedFloat32 f' \<noteq> - 1" using unat_minus_1_64(2) by metis
qed

lemma flip_back:
  fixes f :: "'a::len word"
  assumes "LENGTH('a) = Suc n"
  shows "(let x = (if f AND push_bit n 1 \<noteq> 0 then NOT f else f XOR push_bit n 1) in
    if x AND push_bit n 1 \<noteq> 0 then x XOR push_bit n 1 else NOT x) = f"
proof -
  have "bit (NOT f) n \<longleftrightarrow> \<not> bit f n" "bit (f XOR push_bit n 1) n \<longleftrightarrow> \<not> bit f n"
    using assms by (simp_all add: bit_not_iff bit_xor_iff bit_push_bit_iff del: push_bit_of_1)
  then show ?thesis unfolding bit_iff_and_push_bit_not_eq_0 [symmetric] Let_def by (simp add: NOT_NOT_XOR)
qed

lemma unordered_ordered:
  "unorderedFloat64 (orderedFloat64 f) = norm_float f" "unorderedFloat32 (orderedFloat32 f') = norm_float32 f'"
proof -
  show "unorderedFloat64 (orderedFloat64 f) = norm_float f"
  proof (cases "IsNaN f")
    case True
    then show ?thesis by (simp add: orderedFloat64_def unorderedFloat64_def norm_float_def)
  next
    case False
    let ?g = "if float_eq f 0 then 0 else f"
    have o: "orderedFloat64 f = (if ?g AND push_bit 63 1 \<noteq> 0 then NOT ?g else ?g XOR push_bit 63 1)"
      unfolding orderedFloat64_def Let_def using False by simp
    from ordered_top(1) [OF False] flip_back [of 63 ?g] have "unorderedFloat64 (orderedFloat64 f) = ?g"
      unfolding unorderedFloat64_def o Let_def by simp
    then show ?thesis using False by (simp add: norm_float_def)
  qed
  show "unorderedFloat32 (orderedFloat32 f') = norm_float32 f'"
  proof (cases "IsNaN32 f'")
    case True
    then show ?thesis by (simp add: orderedFloat32_def unorderedFloat32_def norm_float32_def)
  next
    case False
    let ?g = "if f' = 0 \<or> f' = push_bit 31 1 then 0 else f'"
    have o: "orderedFloat32 f' = (if ?g AND push_bit 31 1 \<noteq> 0 then NOT ?g else ?g XOR push_bit 31 1)"
      unfolding orderedFloat32_def Let_def using False by simp
    from ordered_top(2) [OF False] flip_back [of 31 ?g] have "unorderedFloat32 (orderedFloat32 f') = ?g"
      unfolding unorderedFloat32_def o Let_def by simp
    then show ?thesis using False by (simp add: norm_float32_def)
  qed
qed

lemma ordered_norm: "orderedFloat64 (norm_float f) = orderedFloat64 f" "orderedFloat32 (norm_float32 f') = orderedFloat32 f'"
proof -
  have z: "\<not> IsNaN 0" "\<not> IsNaN32 0" "float_eq 0 0" by (simp_all add: IsNaN_def IsNaN32_def float_eq_def)
  show "orderedFloat64 (norm_float f) = orderedFloat64 f"
    using NaN_64(1) z by (simp add: norm_float_def orderedFloat64_def del: push_bit_of_1)
  show "orderedFloat32 (norm_float32 f') = orderedFloat32 f'"
    using NaN_64(2) z by (simp add: norm_float32_def orderedFloat32_def del: push_bit_of_1)
qed

section \<open>Numerics\<close>

text \<open>The significant digits a numeric has: none for zero, else no zero at either end.\<close>

definition sig_ok :: "nat list \<Rightarrow> bool" where
  "sig_ok ds \<longleftrightarrow> list_all (\<lambda>d. d < 10) ds \<and> (ds = [] \<or> hd ds \<noteq> 0 \<and> last ds \<noteq> 0)"

lemma digit_char_bval: "d < 10 \<Longrightarrow> bval (digit_char d) = d + 48"
  by (simp add: digit_char_def)

lemma decimal_loop_digits:
  "list_all (\<lambda>d. d < 10) ds \<Longrightarrow> decimal_loop (map digit_char ds @ s) mant pt = decimal_loop s (mant @ ds) pt"
  by (induction ds arbitrary: mant) (simp_all add: is_digit_digit_char digit_char_bval)

lemma decimal_loop_plain:
  assumes "list_all (\<lambda>d. d < 10) ip" "list_all (\<lambda>d. d < 10) fr"
  shows "decimal_loop (map digit_char ip @ (if fr = [] then [] else ''.'' @ map digit_char fr)) [] None =
    Some (ip @ fr, if fr = [] then None else Some (length ip), 0)"
  using decimal_loop_digits [OF assms(1), of "[]" "[]" None] decimal_loop_digits [OF assms(1), of "CHR ''.'' # map digit_char fr" "[]" None]
    decimal_loop_digits [OF assms(2), of "[]" ip "Some (length ip)"]
  by (auto simp: is_digit_def less_eq_char_def)

lemma map_digit_strip:
  assumes "list_all (\<lambda>d. d < 10) ds"
  shows "strip (map digit_char ds) = map digit_char (strip_digits0 ds)"
    "length (takeWhile zero (map digit_char ds)) = length (takeWhile (\<lambda>d. d = 0) ds)"
proof -
  have z: "zero (digit_char d) \<longleftrightarrow> d = 0" if "d < 10" for d
  proof -
    have "digit_char 0 = CHR ''0''" unfolding digit_char_def by (rule char_of_eqI) simp
    moreover have "bval (CHR ''0'') = 48" by simp
    ultimately show ?thesis using digit_char_bval [OF that] by (metis add_cancel_left_left)
  qed
  have dw: "dropWhile zero (map digit_char es) = map digit_char (dropWhile (\<lambda>d. d = 0) es)"
    "length (takeWhile zero (map digit_char es)) = length (takeWhile (\<lambda>d. d = 0) es)"
    if "list_all (\<lambda>d. d < 10) es" for es
    using that z by (induction es) auto
  have "list_all (\<lambda>d. d < 10) (rev (dropWhile (\<lambda>d. d = 0) ds))"
    using assms by (auto simp: list_all_iff dest: set_dropWhileD)
  from dw(1) [OF this] dw(1) [OF assms] show "strip (map digit_char ds) = map digit_char (strip_digits0 ds)"
    by (simp add: strip_def strip_digits0_def rev_map)
  show "length (takeWhile zero (map digit_char ds)) = length (takeWhile (\<lambda>d. d = 0) ds)" by (rule dw(2) [OF assms])
qed

lemma canonical_spell: "canonical neg ds e = spell (map digit_char ds) e neg"
  by (simp add: canonical_def spell_def take_map drop_map)

lemma length_canonical:
  assumes "ds \<noteq> []"
  shows "int (length (canonical neg ds e)) = canonicalLen neg (int (length ds)) e"
  using assms by (cases ds) (auto simp: canonical_def canonicalLen_def Let_def)

lemma undigit:
  assumes "list_all is_digit s"
  obtains ds where "s = map digit_char ds" "list_all (\<lambda>d. d < 10) ds"
proof -
  have "digit_char (bval c - 48) = c \<and> bval c - 48 < 10" if "is_digit c" for c
    using that char_of_eqI [of "bval c" c] by (auto simp: is_digit_iff digit_char_def)
  then have "s = map digit_char (map (\<lambda>c. bval c - 48) s)" "list_all (\<lambda>d. d < 10) (map (\<lambda>c. bval c - 48) s)"
    using assms by (auto simp: list_all_iff intro!: nth_equalityI)
  then show ?thesis using that by blast
qed

lemma map_digit_inj: "list_all (\<lambda>d. d < 10) a \<Longrightarrow> list_all (\<lambda>d. d < 10) b \<Longrightarrow> map digit_char a = map digit_char b \<Longrightarrow> a = b"
proof (induction a arbitrary: b)
  case (Cons x a)
  then obtain y b' where b: "b = y # b'" "digit_char x = digit_char y" "map digit_char a = map digit_char b'" by (cases b) auto
  with Cons.prems have "x < 10" "y < 10" by auto
  then have "x + 48 = y + 48" using digit_char_bval [of x] digit_char_bval [of y] b(2) by metis
  then have "x = y" by simp
  with Cons b show ?case by simp
qed simp

lemma sig_ok_strip: "list_all (\<lambda>d. d < 10) m \<Longrightarrow> sig_ok (strip_digits0 m)"
proof -
  assume m: "list_all (\<lambda>d. d < 10) m"
  define x where "x = dropWhile (\<lambda>d. d = 0) m"
  have s: "strip_digits0 m = rev (dropWhile (\<lambda>d. d = 0) (rev x))" by (simp add: strip_digits0_def x_def)
  have "list_all (\<lambda>d. d < 10) (strip_digits0 m)"
    using m unfolding s x_def by (auto simp: list_all_iff dest!: set_dropWhileD)
  moreover have "hd (strip_digits0 m) \<noteq> 0 \<and> last (strip_digits0 m) \<noteq> 0" if ne: "strip_digits0 m \<noteq> []"
  proof -
    have ne': "dropWhile (\<lambda>d. d = 0) (rev x) \<noteq> []" "x \<noteq> []" using ne unfolding s by auto
    have "last (strip_digits0 m) \<noteq> 0" unfolding s using hd_dropWhile [OF ne'(1)] ne'(1) by (simp add: last_rev)
    moreover have "x = strip_digits0 m @ rev (takeWhile (\<lambda>d. d = 0) (rev x))"
      unfolding s rev_append [symmetric] takeWhile_dropWhile_id by simp
    then have "hd (strip_digits0 m) = hd x" using ne by (metis hd_append2)
    moreover have "hd x \<noteq> 0" using ne'(2) hd_dropWhile [of "\<lambda>d. d = 0" m] unfolding x_def by blast
    ultimately show ?thesis by simp
  qed
  ultimately show ?thesis by (auto simp: sig_ok_def)
qed

lemma decimal_loop_bound:
  "decimal_loop s mant pt = Some (m, p, e) \<Longrightarrow> list_all (\<lambda>d. d < 10) mant \<Longrightarrow> list_all (\<lambda>d. d < 10) m"
proof (induction s mant pt rule: decimal_loop.induct)
  case (2 c s mant pt)
  then show ?case by (auto simp: is_digit_iff split: if_splits option.splits)
qed simp

lemma parseDecimal_sig:
  assumes "parseDecimal s = Inr (neg, ds, e)"
  shows "sig_ok ds" "ds = [] \<Longrightarrow> \<not> neg \<and> e = 0" "length ds \<le> maxNumericDigs"
proof -
  have sig: "sig_ok (strip_digits0 m)" if "decimal_loop u [] None = Some (m, p, x)" for u m p x
    using decimal_loop_bound [OF that] by (intro sig_ok_strip) simp
  from assms have "sig_ok ds \<and> (ds = [] \<longrightarrow> \<not> neg \<and> e = 0) \<and> length ds \<le> maxNumericDigs"
    by (auto simp: parseDecimal_def Let_def sig_ok_def [of "[]"] dest: sig split: if_splits option.splits)
  then show "sig_ok ds" "ds = [] \<Longrightarrow> \<not> neg \<and> e = 0" "length ds \<le> maxNumericDigs" by blast+
qed

lemma parseDecimal_canonical:
  assumes "sig_ok ds" "ds \<noteq> []" "canonicalLen neg (int (length ds)) e \<le> int MaxNumericLen" "length ds \<le> maxNumericDigs"
  shows "parseDecimal (canonical neg ds e) = Inr (neg, ds, e)"
proof -
  let ?ss = "map digit_char ds"
  have dig: "list_all (\<lambda>d. d < 10) ds" and ends: "hd ds \<noteq> 0" "last ds \<noteq> 0" using assms(1,2) by (auto simp: sig_ok_def)
  have z: "digit_char d = CHR ''0'' \<longleftrightarrow> d = 0" if "d \<in> set ds" for d
  proof -
    have "d < 10" using dig that by (auto simp: list_all_iff)
    moreover have "digit_char 0 = CHR ''0''" unfolding digit_char_def by (rule char_of_eqI) simp
    moreover have "bval (CHR ''0'') = 48" by simp
    ultimately show ?thesis using digit_char_bval [of d] by (metis add_cancel_left_left)
  qed
  have ss: "?ss \<noteq> []" "hd ?ss \<noteq> CHR ''0''" "last ?ss \<noteq> CHR ''0''"
    using assms(2) ends z [of "hd ds"] z [of "last ds"] by (simp_all add: hd_map last_map)
  have digs: "list_all is_digit ?ss" using dig by (auto simp: list_all_iff is_digit_digit_char)
  note sp = spell_points [OF ss digs, where p = e]
  obtain ip where ip: "before_point ?ss e = map digit_char ip" "list_all (\<lambda>d. d < 10) ip" using undigit [OF sp(2)] .
  obtain fr where fr: "after_point ?ss e = map digit_char fr" "list_all (\<lambda>d. d < 10) fr" using undigit [OF sp(3)] .
  have c: "canonical neg ds e = (if neg then ''-'' else []) @ map digit_char ip @ (if fr = [] then [] else ''.'' @ map digit_char fr)"
    unfolding canonical_spell sp(1) ip fr by simp
  have ne: "ip \<noteq> []" using sp(4) ip by auto
  have first: "hd (canonical neg ds e) = CHR ''-'' \<longleftrightarrow> neg"
  proof -
    have "is_digit (hd (map digit_char ip))" using sp(2,4) ip(1) by (cases "before_point ?ss e") auto
    then have "hd (map digit_char ip) \<noteq> CHR ''-''" by (auto simp: is_digit_def less_eq_char_def)
    then show ?thesis unfolding c using ne by simp
  qed
  have tail: "(if neg then tl (canonical neg ds e) else canonical neg ds e) =
      map digit_char ip @ (if fr = [] then [] else ''.'' @ map digit_char fr)" unfolding c by simp
  have l: "list_all (\<lambda>d. d < 10) (ip @ fr)" using ip fr by simp
  have st: "strip_digits0 (ip @ fr) = ds"
    using sp(6) map_digit_strip(1) [OF l] map_digit_inj [of "strip_digits0 (ip @ fr)" ds] sig_ok_strip [OF l] dig ip(1) fr(1)
    by (simp add: sig_ok_def)
  have ld: "int (length ip) - int (length (takeWhile (\<lambda>d. d = 0) (ip @ fr))) = e"
    using sp(7) map_digit_strip(2) [OF l] ip(1) fr(1) by simp
  have len: "length (canonical neg ds e) \<noteq> 0" "\<not> length (canonical neg ds e) > MaxNumericLen"
    using length_canonical [OF assms(2), of neg e] assms(3) ne c by auto
  have pt: "(case if fr = [] then None else Some (length ip) of None \<Rightarrow> length (ip @ fr) | Some p \<Rightarrow> p) = length ip" by simp
  show ?thesis
    unfolding parseDecimal_def Let_def first tail decimal_loop_plain [OF ip(2) fr(2)]
    using len ne assms(2,4) ld by (simp add: st pt)
qed

definition numeric_parts :: "bool \<Rightarrow> nat list \<Rightarrow> int \<Rightarrow> bool" where
  "numeric_parts neg ds e \<longleftrightarrow> sig_ok ds \<and> ds \<noteq> [] \<and> length ds \<le> maxNumericDigs \<and> canonicalLen neg (int (length ds)) e \<le> int MaxNumericLen"

definition numeric_bytes :: "bool \<Rightarrow> nat list \<Rightarrow> int \<Rightarrow> bytes" where
  "numeric_bytes neg ds e =
     (let x = (word_of_int e :: 32 word) XOR push_bit 31 1 in
      if neg then [byte_of 1] @ be_bytes 4 (unat (NOT x)) @ map (\<lambda>d. byte_of (10 - d)) ds @ [byte_of 0xFF]
      else [byte_of 3] @ be_bytes 4 (unat x) @ map (\<lambda>d. byte_of (d + 1)) ds @ [byte_of 0])"

lemma numeric_parts_exp: "numeric_parts neg ds e \<Longrightarrow> - 2000 \<le> e \<and> e \<le> 2000"
  by (auto simp: numeric_parts_def canonicalLen_def Let_def MaxNumericLen_def maxNumericDigs_def split: if_splits)

lemma encodeNumeric_Inr:
  "encodeNumeric n = Inr b \<longleftrightarrow> n = ''0'' \<and> b = [byte_of 2] \<or>
     (\<exists>neg ds e. numeric_parts neg ds e \<and> n = canonical neg ds e \<and> b = numeric_bytes neg ds e)"
proof
  assume "encodeNumeric n = Inr b"
  then obtain neg ds e where p: "parseDecimal n = Inr (neg, ds, e)" "canonical neg ds e = n"
      "ds \<noteq> [] \<Longrightarrow> canonicalLen neg (int (length ds)) e = int (length n)"
      "b = (if ds = [] then [byte_of 2] else numeric_bytes neg ds e)"
    by (auto simp: encodeNumeric_def and_then_Inr numeric_bytes_def Let_def split: if_splits)
  have "length n \<le> MaxNumericLen" using p(1) by (auto simp: parseDecimal_def split: if_splits)
  show "n = ''0'' \<and> b = [byte_of 2] \<or> (\<exists>neg ds e. numeric_parts neg ds e \<and> n = canonical neg ds e \<and> b = numeric_bytes neg ds e)"
  proof (cases "ds = []")
    case True
    then show ?thesis using p(2,4) by (simp add: canonical_def)
  next
    case False
    then have "numeric_parts neg ds e"
      unfolding numeric_parts_def p(3) [OF False] using \<open>length n \<le> MaxNumericLen\<close> parseDecimal_sig [OF p(1)] by simp
    then show ?thesis using False p(2,4) by (metis (full_types))
  qed
next
  assume "n = ''0'' \<and> b = [byte_of 2] \<or> (\<exists>neg ds e. numeric_parts neg ds e \<and> n = canonical neg ds e \<and> b = numeric_bytes neg ds e)"
  then show "encodeNumeric n = Inr b"
  proof
    assume n: "n = ''0'' \<and> b = [byte_of 2]"
    have "parseDecimal ''0'' = Inr (False, [], 0)"
      by (simp add: parseDecimal_def MaxNumericLen_def is_digit_def less_eq_char_def strip_digits0_def)
    then show ?thesis using n by (simp add: encodeNumeric_def canonical_def)
  next
    assume "\<exists>neg ds e. numeric_parts neg ds e \<and> n = canonical neg ds e \<and> b = numeric_bytes neg ds e"
    then obtain neg ds e where p: "numeric_parts neg ds e" "n = canonical neg ds e" "b = numeric_bytes neg ds e" by blast
    then have "parseDecimal n = Inr (neg, ds, e)" "ds \<noteq> []" using parseDecimal_canonical by (auto simp: numeric_parts_def)
    then show ?thesis
      using p length_canonical [of ds neg e] numeric_parts_exp [OF p(1)]
      by (auto simp: encodeNumeric_def numeric_bytes_def Let_def)
  qed
qed

lemma exp_reads_back:
  assumes "- 2000 \<le> e" "e \<le> 2000"
  shows "sint (((word_of_int e :: 32 word) XOR push_bit 31 1) XOR push_bit 31 1) = e"
proof -
  have "sint (word_of_int e :: 32 word) = e" using assms by (simp add: sint_sbintrunc' signed_take_bit_int_eq_self)
  then show ?thesis by (simp add: NOT_NOT_XOR)
qed

lemma word_be: "of_nat (be_val (be_bytes 4 (unat x))) = (x :: 32 word)"
  using unat_less [of x] by (simp add: be_val_be_bytes)

lemma be_word: "length b = 4 \<Longrightarrow> be_bytes 4 (unat (of_nat (be_val b) :: 32 word)) = b"
  using be_val_less [of b] be_bytes_be_val [of b] by (simp add: unat_of_nat)

lemma numeric_digits_written:
  assumes "list_all (\<lambda>d. d < 10) ds" "length acc + length ds \<le> maxNumericDigs"
  shows "numeric_digits True (map (\<lambda>d. byte_of (10 - d)) ds @ [byte_of 0xFF] @ r) acc = Inr (acc @ ds, r)"
    "numeric_digits False (map (\<lambda>d. byte_of (d + 1)) ds @ [byte_of 0] @ r) acc = Inr (acc @ ds, r)"
proof -
  have b: "bval (byte_of n) = n" if "n < 256" for n using that by simp
  have ne: "byte_of m \<noteq> byte_of n" if "m < 256" "n < 256" "m \<noteq> n" for m n using b [OF that(1)] b [OF that(2)] that(3) by metis
  show "numeric_digits True (map (\<lambda>d. byte_of (10 - d)) ds @ [byte_of 0xFF] @ r) acc = Inr (acc @ ds, r)"
    using assms
  proof (induction ds arbitrary: acc)
    case (Cons d ds)
    then have "byte_of (10 - d) \<noteq> byte_of 255" "bval (byte_of (10 - d)) = 10 - d" using ne [of "10 - d" 255] b [of "10 - d"] by auto
    with Cons show ?case by (simp del: of_char_of)
  qed simp
  show "numeric_digits False (map (\<lambda>d. byte_of (d + 1)) ds @ [byte_of 0] @ r) acc = Inr (acc @ ds, r)"
    using assms
  proof (induction ds arbitrary: acc)
    case (Cons d ds)
    then have "byte_of (d + 1) \<noteq> byte_of 0" "bval (byte_of (d + 1)) = d + 1" using ne [of "d + 1" 0] b [of "d + 1"] by auto
    with Cons show ?case by (simp del: of_char_of)
  qed simp
qed

lemma numeric_digits_Inr:
  assumes "numeric_digits neg b acc = Inr (ds, r)"
  shows "\<exists>es. ds = acc @ es \<and> list_all (\<lambda>d. d < 10) es \<and> (es = [] \<or> length ds \<le> maxNumericDigs) \<and>
    b = map (\<lambda>d. byte_of (if neg then 10 - d else d + 1)) es @ [if neg then byte_of 0xFF else byte_of 0] @ r"
  using assms
proof (induction neg b acc rule: numeric_digits.induct)
  case (2 neg c b acc)
  show ?case
  proof (cases "c = (if neg then byte_of 0xFF else byte_of 0)")
    case True
    then show ?thesis using 2(2) by auto
  next
    case False
    let ?d = "if neg then 10 - bval c else bval c - 1"
    have c: "1 \<le> bval c" "bval c \<le> 10" and l: "length (acc @ [?d]) \<le> maxNumericDigs"
      and n: "numeric_digits neg b (acc @ [?d]) = Inr (ds, r)"
      using 2(2) False by (auto simp: Let_def split: if_splits)
    from 2(1) [OF False _ refl _ n] c l obtain es where es: "ds = (acc @ [?d]) @ es" "list_all (\<lambda>d. d < 10) es"
        "es = [] \<or> length ds \<le> maxNumericDigs"
        "b = map (\<lambda>d. byte_of (if neg then 10 - d else d + 1)) es @ [if neg then byte_of 0xFF else byte_of 0] @ r"
      by (auto simp: not_less)
    have "byte_of (if neg then 10 - ?d else ?d + 1) = c" using c char_of_eqI [of "bval c" c] by auto
    then show ?thesis
      using es c l by (intro exI [of _ "?d # es"]) auto
  qed
qed simp

lemma numeric_exp_bytes:
  assumes "length b = 4"
  defines "x \<equiv> (of_nat (be_val b) :: 32 word)"
  shows "be_bytes 4 (unat ((word_of_int (sint (x XOR push_bit 31 1)) :: 32 word) XOR push_bit 31 1)) = b"
    "be_bytes 4 (unat (NOT ((word_of_int (sint (NOT x XOR push_bit 31 1)) :: 32 word) XOR push_bit 31 1))) = b"
  using be_word [OF assms(1)] by (simp_all add: x_def NOT_NOT_XOR del: push_bit_of_1)

lemma decodeNumeric_written: "numeric_parts neg ds e \<Longrightarrow> decodeNumeric (numeric_bytes neg ds e @ r) = Inr (canonical neg ds e, r)"
proof -
  assume p: "numeric_parts neg ds e"
  then have ds: "list_all (\<lambda>d. d < 10) ds" "ds \<noteq> []" "hd ds \<noteq> 0" "last ds \<noteq> 0" "length ds \<le> maxNumericDigs"
      "\<not> canonicalLen neg (int (length ds)) e > int MaxNumericLen"
    by (auto simp: numeric_parts_def sig_ok_def)
  have cls: "byte_of 1 \<noteq> byte_of 2" "byte_of 3 \<noteq> byte_of 2" "byte_of 3 \<noteq> byte_of 1" by simp_all
  define x where "x = (word_of_int e :: 32 word) XOR push_bit 31 1"
  have x: "sint (x XOR push_bit 31 1) = e" unfolding x_def using exp_reads_back numeric_parts_exp [OF p] by blast
  have t4: "take 4 (be_bytes 4 y @ t) = be_bytes 4 y" "drop 4 (be_bytes 4 y @ t) = t" for y t by simp_all
  note dig = numeric_digits_written [OF ds(1), of "[]", simplified, OF ds(5)]
  show ?thesis
  proof (cases neg)
    case True
    have "decodeNumeric (numeric_bytes neg ds e @ r) =
      and_then (numeric_digits True (map (\<lambda>d. byte_of (10 - d)) ds @ [byte_of 0xFF] @ r) []) (\<lambda>(digits, b).
         if digits = [] \<or> hd digits = 0 \<or> last digits = 0 then Inl [ErrCorrupt]
         else if canonicalLen True (int (length digits)) e > int MaxNumericLen then Inl [ErrCorrupt]
         else Inr (canonical True digits e, b))"
      unfolding numeric_bytes_def x_def [symmetric] Let_def decodeNumeric_def
      using True cls x t4 word_be [of "NOT x"] by (simp add: NOT_NOT_XOR del: push_bit_of_1 of_nat_unat cong: if_cong)
    then show ?thesis using dig(1) ds True by simp
  next
    case False
    have "decodeNumeric (numeric_bytes neg ds e @ r) =
      and_then (numeric_digits False (map (\<lambda>d. byte_of (d + 1)) ds @ [byte_of 0] @ r) []) (\<lambda>(digits, b).
         if digits = [] \<or> hd digits = 0 \<or> last digits = 0 then Inl [ErrCorrupt]
         else if canonicalLen False (int (length digits)) e > int MaxNumericLen then Inl [ErrCorrupt]
         else Inr (canonical False digits e, b))"
      unfolding numeric_bytes_def x_def [symmetric] Let_def decodeNumeric_def
      using False cls x t4 word_be [of x] by (simp add: NOT_NOT_XOR del: push_bit_of_1 of_nat_unat cong: if_cong)
    then show ?thesis using dig(2) ds False by simp
  qed
qed

lemma decodeNumeric_Inr: "decodeNumeric b = Inr (n, r) \<longleftrightarrow> (\<exists>f. encodeNumeric n = Inr f \<and> b = f @ r)"
proof
  assume d: "decodeNumeric b = Inr (n, r)"
  then obtain c t where b: "b = c # t" by (cases b) (auto simp: decodeNumeric_def)
  show "\<exists>f. encodeNumeric n = Inr f \<and> b = f @ r"
  proof (cases "c = byte_of 2")
    case True
    then have "n = ''0''" "b = [byte_of 2] @ r" using d b by (auto simp: decodeNumeric_def)
    then show ?thesis using encodeNumeric_Inr [of n "[byte_of 2]"] by blast
  next
    case False
    define neg where "neg = (c = byte_of 1)"
    define x where "x = (of_nat (be_val (take 4 t)) :: 32 word)"
    define e where "e = sint ((if neg then NOT x else x) XOR push_bit 31 1)"
    have c: "c = (if neg then byte_of 1 else byte_of 3)" "4 \<le> length t" using d b False by (auto simp: decodeNumeric_def neg_def split: if_splits)
    have eq: "decodeNumeric b = and_then (numeric_digits neg (drop 4 t) []) (\<lambda>(digits, b).
         if digits = [] \<or> hd digits = 0 \<or> last digits = 0 then Inl [ErrCorrupt]
         else if canonicalLen neg (int (length digits)) e > int MaxNumericLen then Inl [ErrCorrupt]
         else Inr (canonical neg digits e, b))"
    proof -
      have "c \<noteq> byte_of 1 \<and> c \<noteq> byte_of 3 \<longleftrightarrow> False" "length t < 4 \<longleftrightarrow> False" "c = byte_of 2 \<longleftrightarrow> False" using c False by auto
      then show ?thesis
        unfolding decodeNumeric_def b list.case Let_def neg_def [symmetric] x_def [symmetric] e_def [symmetric] by (simp only: if_False)
    qed
    obtain ds where ds: "numeric_digits neg (drop 4 t) [] = Inr (ds, r)" "ds \<noteq> []" "hd ds \<noteq> 0" "last ds \<noteq> 0"
        "canonicalLen neg (int (length ds)) e \<le> int MaxNumericLen" "n = canonical neg ds e"
      using d unfolding eq by (auto simp: and_then_Inr split: if_splits)
    from numeric_digits_Inr [OF ds(1)] ds(2-) have parts: "numeric_parts neg ds e"
      and t: "drop 4 t = map (\<lambda>d. byte_of (if neg then 10 - d else d + 1)) ds @ [if neg then byte_of 0xFF else byte_of 0] @ r"
      by (auto simp: numeric_parts_def sig_ok_def)
    have "b = c # take 4 t @ drop 4 t" by (simp add: b)
    then have "b = numeric_bytes neg ds e @ r"
      unfolding t c(1) numeric_bytes_def Let_def e_def x_def using numeric_exp_bytes [of "take 4 t"] c(2) by simp
    then show ?thesis using encodeNumeric_Inr [of n "numeric_bytes neg ds e"] parts ds(6) by blast
  qed
next
  assume "\<exists>f. encodeNumeric n = Inr f \<and> b = f @ r"
  then obtain f where f: "encodeNumeric n = Inr f" "b = f @ r" by blast
  from f(1) show "decodeNumeric b = Inr (n, r)"
    unfolding encodeNumeric_Inr f(2) using decodeNumeric_written by (auto simp: decodeNumeric_def)
qed

section \<open>The order of numerics\<close>

text \<open>The value of digits after the point, and of a numeric's text.\<close>

fun frac_val :: "nat list \<Rightarrow> rat" where
  "frac_val [] = 0"
| "frac_val (d # ds) = (of_nat d + frac_val ds) / 10"

definition decimal_value :: "bool \<Rightarrow> nat list \<Rightarrow> int \<Rightarrow> rat" where
  "decimal_value neg ds e = (if neg then - 1 else 1) * (frac_val ds * 10 powi e)"

definition numeric_value :: "string \<Rightarrow> rat" where
  "numeric_value s = (case parseDecimal s of Inl _ \<Rightarrow> 0 | Inr (neg, ds, e) \<Rightarrow> decimal_value neg ds e)"

lemma frac_bounds:
  assumes "list_all (\<lambda>d. d < 10) ds"
  shows "0 \<le> frac_val ds" "frac_val ds < 1"
proof -
  have "0 \<le> frac_val ds \<and> frac_val ds < 1"
    using assms
  proof (induction ds)
    case (Cons d ds)
    then have "d \<le> 9" by simp
    then have "of_nat d \<le> (of_nat 9 :: rat)" by (simp only: of_nat_le_iff)
    with Cons show ?case by simp
  qed simp
  then show "0 \<le> frac_val ds" "frac_val ds < 1" by blast+
qed

lemma frac_pos:
  assumes "list_all (\<lambda>d. d < 10) ds" "ds \<noteq> []" "last ds \<noteq> 0"
  shows "0 < frac_val ds"
  using assms
proof (induction ds)
  case (Cons d ds)
  show ?case
  proof (cases "ds = []")
    case False
    with Cons have "0 < frac_val ds" by simp
    then show ?thesis by (simp add: add_nonneg_pos)
  qed (use Cons in simp)
qed simp

lemma frac_ge: "list_all (\<lambda>d. d < 10) ds \<Longrightarrow> ds \<noteq> [] \<Longrightarrow> hd ds \<noteq> 0 \<Longrightarrow> 1 / 10 \<le> frac_val ds"
  using frac_bounds(1) by (cases ds) (auto simp: Suc_le_eq divide_right_mono add_increasing2)

text \<open>Ends of digit lists without a trailing zero.\<close>

definition no_trail :: "nat list \<Rightarrow> bool" where
  "no_trail ds \<longleftrightarrow> list_all (\<lambda>d. d < 10) ds \<and> (ds = [] \<or> last ds \<noteq> 0)"

lemma no_trail_Cons: "no_trail (d # ds) \<Longrightarrow> d < 10 \<and> no_trail ds"
  by (auto simp: no_trail_def split: if_splits)

lemma frac_order_Cons:
  assumes "no_trail (c # a)" "no_trail (d # b)"
  shows "order_of (frac_val (c # a)) (frac_val (d # b)) = (if c = d then order_of (frac_val a) (frac_val b) else order_of c d)"
proof -
  have "list_all (\<lambda>d. d < 10) a" "list_all (\<lambda>d. d < 10) b" using assms by (auto simp: no_trail_def)
  note fb = frac_bounds [OF this(1)] frac_bounds [OF this(2)]
  have "(of_nat c :: rat) + 1 \<le> of_nat d" if "c < d" using that by (metis Suc_leI of_nat_Suc of_nat_le_iff add.commute)
  moreover have "(of_nat d :: rat) + 1 \<le> of_nat c" if "d < c" using that by (metis Suc_leI of_nat_Suc of_nat_le_iff add.commute)
  ultimately show ?thesis using fb by (cases c d rule: linorder_cases) (auto simp: order_of_def divide_strict_right_mono)
qed

lemma compares_digits:
  assumes "no_trail a" "no_trail b"
  shows "compares (map (\<lambda>d. byte_of (d + 1)) a @ [byte_of 0]) (map (\<lambda>d. byte_of (d + 1)) b @ [byte_of 0]) (order_of (frac_val a) (frac_val b))"
    "compares (map (\<lambda>d. byte_of (10 - d)) a @ [byte_of 255]) (map (\<lambda>d. byte_of (10 - d)) b @ [byte_of 255]) (order_of (frac_val b) (frac_val a))"
proof -
  have lt: "byte_of m < byte_of n" if "m < n" "n < 256" for m n using that by (simp add: less_char_def)
  have pos: "0 < frac_val (d # ds)" if "no_trail (d # ds)" for d ds using frac_pos [of "d # ds"] that by (auto simp: no_trail_def)
  have neg_sym: "order_of x y = - order_of y x" for x y :: rat by (auto simp: order_of_def)
  show "compares (map (\<lambda>d. byte_of (d + 1)) a @ [byte_of 0]) (map (\<lambda>d. byte_of (d + 1)) b @ [byte_of 0]) (order_of (frac_val a) (frac_val b))"
    using assms
  proof (induction a arbitrary: b)
    case Nil
    show ?case
    proof (cases b)
      case (Cons d b')
      then have "order_of (frac_val []) (frac_val b) = - 1" "d < 10"
        using pos [of d b'] no_trail_Cons [of d b'] Nil.prems by (simp_all add: order_of_def del: frac_val.simps(2))
      then show ?thesis using compares_head(1) [OF lt [of 0 "d + 1"]] by (simp add: Cons del: frac_val.simps)
    qed (simp add: order_of_def compares_def)
  next
    case (Cons c a)
    note ca = no_trail_Cons [OF Cons.prems(1)]
    show ?case
    proof (cases b)
      case Nil
      moreover have "order_of (frac_val (c # a)) (frac_val []) = 1" using pos [OF Cons.prems(1)] by (simp add: order_of_def)
      ultimately show ?thesis using compares_head(2) [OF lt [of 0 "c + 1"]] ca by (simp del: frac_val.simps)
    next
      case b: (Cons d b')
      with Cons.prems(2) have d: "d < 10" "no_trail b'" using no_trail_Cons by auto
      have o: "order_of (frac_val (c # a)) (frac_val (d # b')) = (if c = d then order_of (frac_val a) (frac_val b') else order_of c d)"
        by (rule frac_order_Cons) (use Cons.prems b in auto)
      show ?thesis
        using Cons.IH [of b'] ca d lt [of "c + 1" "d + 1"] lt [of "d + 1" "c + 1"] compares_head compares_Cons
        unfolding b o by (cases c d rule: linorder_cases) (auto simp: order_of_def simp del: frac_val.simps)
    qed
  qed
  show "compares (map (\<lambda>d. byte_of (10 - d)) a @ [byte_of 255]) (map (\<lambda>d. byte_of (10 - d)) b @ [byte_of 255]) (order_of (frac_val b) (frac_val a))"
    using assms
  proof (induction a arbitrary: b)
    case Nil
    show ?case
    proof (cases b)
      case (Cons d b')
      then have "order_of (frac_val b) (frac_val []) = 1" "d < 10"
        using pos [of d b'] no_trail_Cons [of d b'] Nil.prems by (simp_all add: order_of_def del: frac_val.simps(2))
      then show ?thesis using compares_head(2) [OF lt [of "10 - d" 255]] by (simp add: Cons del: frac_val.simps)
    qed (simp add: order_of_def compares_def)
  next
    case (Cons c a)
    note ca = no_trail_Cons [OF Cons.prems(1)]
    show ?case
    proof (cases b)
      case Nil
      moreover have "order_of (frac_val []) (frac_val (c # a)) = - 1" using pos [OF Cons.prems(1)] by (simp add: order_of_def)
      ultimately show ?thesis using compares_head(1) [OF lt [of "10 - c" 255]] ca by (simp del: frac_val.simps)
    next
      case b: (Cons d b')
      with Cons.prems(2) have d: "d < 10" "no_trail b'" using no_trail_Cons by auto
      have o: "order_of (frac_val (d # b')) (frac_val (c # a)) = (if d = c then order_of (frac_val b') (frac_val a) else order_of d c)"
        by (rule frac_order_Cons) (use Cons.prems b in auto)
      show ?thesis
        using Cons.IH [of b'] ca d lt [of "10 - c" "10 - d"] lt [of "10 - d" "10 - c"] compares_head compares_Cons
        unfolding b o by (cases c d rule: linorder_cases) (auto simp: order_of_def simp del: frac_val.simps)
    qed
  qed
qed

lemma sig_no_trail: "sig_ok ds \<Longrightarrow> no_trail ds"
  by (auto simp: sig_ok_def no_trail_def)

lemma magnitude_order:
  assumes "sig_ok a" "a \<noteq> []" "sig_ok b" "b \<noteq> []"
  shows "order_of (frac_val a * 10 powi e) (frac_val b * 10 powi f) = (if e = f then order_of (frac_val a) (frac_val b) else order_of e f)"
proof -
  have bound: "1 / 10 \<le> frac_val ds \<and> frac_val ds < 1" if "sig_ok ds" "ds \<noteq> []" for ds
    using that frac_ge [of ds] frac_bounds(2) [of ds] by (auto simp: sig_ok_def)
  have less: "frac_val x * 10 powi i < frac_val y * 10 powi j" if "sig_ok x" "x \<noteq> []" "sig_ok y" "y \<noteq> []" "i < j" for x y i j
  proof -
    have "frac_val x * 10 powi i < 1 * 10 powi i" using bound [OF that(1,2)] by (intro mult_strict_right_mono) auto
    also have "\<dots> \<le> 10 powi (j - 1)" using that(5) by (simp add: power_int_increasing)
    also have "\<dots> = 1 / 10 * 10 powi j" by (simp add: power_int_diff)
    also have "\<dots> \<le> frac_val y * 10 powi j" using bound [OF that(3,4)] by (intro mult_right_mono) auto
    finally show ?thesis .
  qed
  show ?thesis
  proof (cases e f rule: linorder_cases)
    case less_ef: less
    then show ?thesis using less [OF assms, of e f] by (simp add: order_of_def)
  next
    case greater
    then show ?thesis using less [OF assms(3,4,1,2), of f e] by (simp add: order_of_def)
  qed (simp add: order_of_def)
qed

lemma exp_number:
  assumes "- 2000 \<le> e" "e \<le> 2000"
  shows "int (unat ((word_of_int e :: 32 word) XOR push_bit 31 1)) = e + 2 ^ 31"
    "int (unat (NOT ((word_of_int e :: 32 word) XOR push_bit 31 1))) = 2 ^ 31 - 1 - e"
proof -
  have "sint (word_of_int e :: 32 word) = e" using assms by (simp add: sint_sbintrunc' signed_take_bit_int_eq_self)
  then show 1: "int (unat ((word_of_int e :: 32 word) XOR push_bit 31 1)) = e + 2 ^ 31"
    using flip_unat [of 31 "word_of_int e :: 32 word"] by simp
  show "int (unat (NOT ((word_of_int e :: 32 word) XOR push_bit 31 1))) = 2 ^ 31 - 1 - e"
  proof -
    define m where "m = unat ((word_of_int e :: 32 word) XOR push_bit 31 1)"
    have "int m = e + 2 ^ 31" unfolding m_def by (rule 1)
    moreover have "unat (NOT ((word_of_int e :: 32 word) XOR push_bit 31 1)) = 2 ^ 32 - 1 - m"
      unfolding m_def using unat_NOT [of "(word_of_int e :: 32 word) XOR push_bit 31 1"] by (simp del: push_bit_of_1)
    ultimately show ?thesis using assms by simp
  qed
qed

lemma compares_numeric_bytes:
  assumes "numeric_parts neg a e" "numeric_parts neg' b f"
  shows "compares (numeric_bytes neg a e) (numeric_bytes neg' b f) (order_of (decimal_value neg a e) (decimal_value neg' b f))"
proof -
  have ok: "sig_ok a" "a \<noteq> []" "sig_ok b" "b \<noteq> []" using assms by (auto simp: numeric_parts_def)
  have pos: "0 < frac_val ds * 10 powi i" if "sig_ok ds" "ds \<noteq> []" for ds i
    using that frac_pos [of ds] by (auto simp: sig_ok_def)
  have lt: "byte_of 1 < byte_of 3" by (simp add: less_char_def)
  note num = exp_number [of e] exp_number [of f] numeric_parts_exp [OF assms(1)] numeric_parts_exp [OF assms(2)]
  define x y where xy: "x = (word_of_int e :: 32 word) XOR push_bit 31 1" "y = (word_of_int f :: 32 word) XOR push_bit 31 1"
  have nx: "int (unat x) = e + 2 ^ 31" "int (unat (NOT x)) = 2 ^ 31 - 1 - e" "int (unat y) = f + 2 ^ 31" "int (unat (NOT y)) = 2 ^ 31 - 1 - f"
    using num unfolding xy by blast+
  have b: "unat z < 256 ^ 4" for z :: "32 word" using unat_less [of z] by simp
  note be = compares_be [OF b b]
  have d: "2 ^ 31 - 1 - e - (2 ^ 31 - 1 - f) = f - e" "e + 2 ^ 31 - (f + 2 ^ 31) = e - f" by simp_all
  have same: "compares (c # s) (c # t) k" if "compares s t k" for c s t k using that by (rule compares_Cons)
  consider "neg" "neg'" | "\<not> neg" "\<not> neg'" | "neg" "\<not> neg'" | "\<not> neg" "neg'" by blast
  then show ?thesis
  proof cases
    case 1
    have "compares (be_bytes 4 (unat (NOT x)) @ map (\<lambda>d. byte_of (10 - d)) a @ [byte_of 255])
        (be_bytes 4 (unat (NOT y)) @ map (\<lambda>d. byte_of (10 - d)) b @ [byte_of 255])
        (if f - e = 0 then order_of (frac_val b) (frac_val a) else f - e)"
      using compares_append [OF be [of "NOT x" "NOT y"] compares_digits(2) [OF sig_no_trail [OF ok(1)] sig_no_trail [OF ok(3)]]]
      unfolding nx d(1) .
    moreover have "sgn (if f - e = 0 then order_of (frac_val b) (frac_val a) else f - e) =
        sgn (order_of (decimal_value neg a e) (decimal_value neg' b f))"
    proof -
      have "order_of (decimal_value neg a e) (decimal_value neg' b f) = order_of (frac_val b * 10 powi f) (frac_val a * 10 powi e)"
        using 1 by (simp add: decimal_value_def order_of_def eq_commute)
      then show ?thesis unfolding magnitude_order [OF ok(3,4,1,2)] by (auto simp: order_of_def sgn_if)
    qed
    ultimately have "compares (be_bytes 4 (unat (NOT x)) @ map (\<lambda>d. byte_of (10 - d)) a @ [byte_of 255])
        (be_bytes 4 (unat (NOT y)) @ map (\<lambda>d. byte_of (10 - d)) b @ [byte_of 255]) (order_of (decimal_value neg a e) (decimal_value neg' b f))"
      by (rule compares_cong)
    from same [OF this, of "byte_of 1"] show ?thesis using 1 unfolding numeric_bytes_def xy [symmetric] Let_def by simp
  next
    case 2
    have "compares (be_bytes 4 (unat x) @ map (\<lambda>d. byte_of (d + 1)) a @ [byte_of 0])
        (be_bytes 4 (unat y) @ map (\<lambda>d. byte_of (d + 1)) b @ [byte_of 0])
        (if e - f = 0 then order_of (frac_val a) (frac_val b) else e - f)"
      using compares_append [OF be [of x y] compares_digits(1) [OF sig_no_trail [OF ok(1)] sig_no_trail [OF ok(3)]]]
      unfolding nx d(2) .
    moreover have "sgn (if e - f = 0 then order_of (frac_val a) (frac_val b) else e - f) =
        sgn (order_of (decimal_value neg a e) (decimal_value neg' b f))"
      using 2 magnitude_order [OF ok, of e f] by (auto simp: decimal_value_def order_of_def sgn_if)
    ultimately have "compares (be_bytes 4 (unat x) @ map (\<lambda>d. byte_of (d + 1)) a @ [byte_of 0])
        (be_bytes 4 (unat y) @ map (\<lambda>d. byte_of (d + 1)) b @ [byte_of 0]) (order_of (decimal_value neg a e) (decimal_value neg' b f))"
      by (rule compares_cong)
    from same [OF this, of "byte_of 3"] show ?thesis using 2 unfolding numeric_bytes_def xy [symmetric] Let_def by simp
  next
    case 3
    have "decimal_value neg a e < decimal_value neg' b f"
      using 3 pos [OF ok(1,2), of e] pos [OF ok(3,4), of f] by (simp add: decimal_value_def)
    then show ?thesis using 3 compares_head(1) [OF lt] by (simp add: numeric_bytes_def Let_def order_of_def)
  next
    case 4
    have "decimal_value neg' b f < decimal_value neg a e"
      using 4 pos [OF ok(1,2), of e] pos [OF ok(3,4), of f] by (simp add: decimal_value_def)
    then show ?thesis using 4 compares_head(2) [OF lt] by (simp add: numeric_bytes_def Let_def order_of_def)
  qed
qed

lemma compares_numeric:
  assumes "encodeNumeric m = Inr a" "encodeNumeric n = Inr b"
  shows "compares a b (order_of (numeric_value m) (numeric_value n))"
proof -
  have zero: "numeric_value ''0'' = 0"
    by (simp add: numeric_value_def parseDecimal_def MaxNumericLen_def is_digit_def less_eq_char_def strip_digits0_def decimal_value_def)
  have val: "numeric_value (canonical neg ds e) = decimal_value neg ds e" if "numeric_parts neg ds e" for neg ds e
    using that parseDecimal_canonical [of ds neg e] by (simp add: numeric_value_def numeric_parts_def)
  have sign: "if neg then decimal_value neg ds e < 0 else 0 < decimal_value neg ds e" if "numeric_parts neg ds e" for neg ds e
    using that frac_pos [of ds] by (auto simp: numeric_parts_def sig_ok_def decimal_value_def)
  have lt: "byte_of 1 < byte_of 2" "byte_of 2 < byte_of 3" by (simp_all add: less_char_def)
  have z: "compares [byte_of 2] (numeric_bytes neg ds e) (order_of 0 (decimal_value neg ds e))"
      "compares (numeric_bytes neg ds e) [byte_of 2] (order_of (decimal_value neg ds e) 0)" if "numeric_parts neg ds e" for neg ds e
    using sign [OF that] lt compares_head [of "byte_of 2" "byte_of 3"] compares_head [of "byte_of 1" "byte_of 2"]
    by (auto simp: numeric_bytes_def Let_def order_of_def split: if_splits)
  show ?thesis
    using assms z zero val compares_numeric_bytes unfolding encodeNumeric_Inr
    by (auto simp: order_of_def [of 0 0] compares_def [of "[_]" "[_]" 0])
qed

end
