(* ===== verification/Table_Cell_Correct.thy ===== *)
theory Table_Cell_Correct
  imports Cell_Order
begin

text \<open>
  Cells sort as their bytes, read back, have one encoding each and stay within their column's bound; numerics
  have one canonical text.
\<close>

section \<open>The laws of cells\<close>

text \<open>How two cells of one column compare: NULL first, then the order of the column's type.\<close>

definition cell_order :: "cell \<Rightarrow> cell \<Rightarrow> int" where
  "cell_order v w =
     (case v of CNull \<Rightarrow> if w = CNull then 0 else - 1
      | CBool x \<Rightarrow> (case w of CNull \<Rightarrow> 1 | CBool y \<Rightarrow> order_of x y | _ \<Rightarrow> 0)
      | CInt2 x \<Rightarrow> (case w of CNull \<Rightarrow> 1 | CInt2 y \<Rightarrow> sint x - sint y | _ \<Rightarrow> 0)
      | CInt4 x \<Rightarrow> (case w of CNull \<Rightarrow> 1 | CInt4 y \<Rightarrow> sint x - sint y | _ \<Rightarrow> 0)
      | CInt8 x \<Rightarrow> (case w of CNull \<Rightarrow> 1 | CInt8 y \<Rightarrow> sint x - sint y | _ \<Rightarrow> 0)
      | CFloat4 x \<Rightarrow> (case w of CNull \<Rightarrow> 1 | CFloat4 y \<Rightarrow> float_rank32 x - float_rank32 y | _ \<Rightarrow> 0)
      | CFloat8 x \<Rightarrow> (case w of CNull \<Rightarrow> 1 | CFloat8 y \<Rightarrow> float_rank x - float_rank y | _ \<Rightarrow> 0)
      | CNumeric x \<Rightarrow> (case w of CNull \<Rightarrow> 1 | CNumeric y \<Rightarrow> order_of (numeric_value x) (numeric_value y) | _ \<Rightarrow> 0)
      | CString x \<Rightarrow> (case w of CNull \<Rightarrow> 1 | CString y \<Rightarrow> order_of x y | _ \<Rightarrow> 0)
      | CBytea x \<Rightarrow> (case w of CNull \<Rightarrow> 1 | CBytea y \<Rightarrow> order_of x y | _ \<Rightarrow> 0)
      | CDate x \<Rightarrow> (case w of CNull \<Rightarrow> 1 | CDate y \<Rightarrow> sint x - sint y | _ \<Rightarrow> 0)
      | CTimestamp x \<Rightarrow> (case w of CNull \<Rightarrow> 1 | CTimestamp y \<Rightarrow> sint x - sint y | _ \<Rightarrow> 0)
      | CTimestampTZ x \<Rightarrow> (case w of CNull \<Rightarrow> 1 | CTimestampTZ y \<Rightarrow> sint x - sint y | _ \<Rightarrow> 0)
      | CUUID x \<Rightarrow> (case w of CNull \<Rightarrow> 1 | CUUID y \<Rightarrow> order_of x y | _ \<Rightarrow> 0)
      | CJSONB x \<Rightarrow> (case w of CNull \<Rightarrow> 1 | CJSONB y \<Rightarrow> order_of x y | _ \<Rightarrow> 0)
      | CRowID x \<Rightarrow> (case w of CNull \<Rightarrow> 1 | CRowID y \<Rightarrow> order_of x y | _ \<Rightarrow> 0)
      | COther \<Rightarrow> if w = CNull then 1 else 0)"

text \<open>A \<open>UUID\<close> and a row id are arrays of 16 bytes.\<close>

fun array16 :: "cell \<Rightarrow> bool" where
  "array16 (CUUID x) = (length x = 16)"
| "array16 (CRowID x) = (length x = 16)"
| "array16 _ = True"

text \<open>What a stored cell reads back as.\<close>

fun norm_cell :: "cell \<Rightarrow> cell" where
  "norm_cell (CFloat4 f) = CFloat4 (norm_float32 f)"
| "norm_cell (CFloat8 f) = CFloat8 (norm_float f)"
| "norm_cell v = v"

lemma compares_raw: "length x = length y \<Longrightarrow> compares x y (order_of x y)"
proof (induction x y rule: list_induct2)
  case (Cons x xs y ys)
  then show ?case
    using compares_head [of x y xs ys] compares_head [of y x] compares_Cons [of xs ys "order_of xs ys" x]
    by (cases x y rule: linorder_cases) (auto simp: order_of_def)
qed (simp add: compares_def order_of_def)

lemma compares_flipped_widths:
  fixes x2 y2 :: "16 word" and x4 y4 :: "32 word" and x8 y8 :: "64 word"
  shows
  "compares (sign_flipped 2 x2) (sign_flipped 2 y2) (sint x2 - sint y2)"
  "compares (sign_flipped 4 x4) (sign_flipped 4 y4) (sint x4 - sint y4)"
  "compares (sign_flipped 8 x8) (sign_flipped 8 y8) (sint x8 - sint y8)"
  using compares_flipped [of 2 x2 y2] compares_flipped [of 4 x4 y4] compares_flipped [of 8 x8 y8] by simp_all

lemma compares_bools: "compares [if x then byte_of 1 else byte_of 0] [if y then byte_of 1 else byte_of 0] (order_of x y)"
  using compares_byte [of 0 1] compares_byte [of 1 0] compares_byte [of 0 0] compares_byte [of 1 1]
  by (cases x; cases y) (simp_all add: order_of_def)

text \<open>Which cells a column takes, and their bytes after the marker.\<close>

lemma encode_body_Inr:
  "encode_body c v = Inr e \<longleftrightarrow>
     (\<exists>x. col_type c = TypeBool \<and> v = CBool x \<and> e = [if x then byte_of 1 else byte_of 0]) \<or>
     (\<exists>x. col_type c = TypeInt2 \<and> v = CInt2 x \<and> e = sign_flipped 2 x) \<or>
     (\<exists>x. col_type c = TypeInt4 \<and> v = CInt4 x \<and> e = sign_flipped 4 x) \<or>
     (\<exists>x. col_type c = TypeInt8 \<and> v = CInt8 x \<and> e = sign_flipped 8 x) \<or>
     (\<exists>x. col_type c = TypeFloat4 \<and> v = CFloat4 x \<and> e = be_bytes 4 (unat (orderedFloat32 x))) \<or>
     (\<exists>x. col_type c = TypeFloat8 \<and> v = CFloat8 x \<and> e = be_bytes 8 (unat (orderedFloat64 x))) \<or>
     (\<exists>x. col_type c = TypeNumeric \<and> v = CNumeric x \<and> encodeNumeric x = Inr e) \<or>
     (\<exists>x. col_type c = TypeText \<and> v = CString x \<and> e = cell_escape x \<and> Valid x) \<or>
     (\<exists>x. col_type c = TypeVarchar \<and> v = CString x \<and> e = cell_escape x \<and> Valid x \<and> RuneCount x \<le> unat (col_maxlen c)) \<or>
     (\<exists>x. col_type c = TypeBytea \<and> v = CBytea x \<and> e = cell_escape x) \<or>
     (\<exists>x. col_type c = TypeDate \<and> v = CDate x \<and> e = sign_flipped 4 x) \<or>
     (\<exists>x. col_type c = TypeTimestamp \<and> v = CTimestamp x \<and> e = sign_flipped 8 x) \<or>
     (\<exists>x. col_type c = TypeTimestampTZ \<and> v = CTimestampTZ x \<and> e = sign_flipped 8 x) \<or>
     (\<exists>x. col_type c = TypeUUID \<and> v = CUUID x \<and> e = x) \<or>
     (\<exists>x. col_type c = TypeJSONB \<and> v = CJSONB x \<and> e = cell_escape x \<and> x \<noteq> [] \<and> Valid x)"
  by (cases v; cases "col_type c") (auto simp: encode_body_def split: if_splits sum.splits)

lemma encode_body_order:
  assumes "encode_body c v = Inr e" "encode_body c w = Inr f" "array16 v" "array16 w"
  shows "compares e f (cell_order v w)"
  using assms(1) unfolding encode_body_Inr [of c v]
  by (elim disjE exE conjE; use assms(2-4) in \<open>auto simp: encode_body_Inr cell_order_def
      simp: compares_bools [of True True, simplified] compares_bools [of True False, simplified]
      compares_bools [of False True, simplified] compares_bools [of False False, simplified]
      intro!: compares_raw compares_flipped_widths compares_floats compares_numeric compares_escape\<close>)

lemma encode_body_value: "encode_body c v = Inr e \<Longrightarrow> v \<noteq> CNull"
  by (cases "col_type c") (auto simp: encode_body_def)

lemma cell_order_nulls: "v \<noteq> CNull \<Longrightarrow> cell_order CNull v = - 1" "v \<noteq> CNull \<Longrightarrow> cell_order v CNull = 1"
  by (cases v; simp add: cell_order_def)+

lemma encodeCell_compares:
  assumes "encodeCell c v = Inr e" "encodeCell c w = Inr f" "array16 v" "array16 w"
  shows "compares e f (cell_order v w)"
proof -
  have lt: "byte_of 0 < byte_of 1" by (simp add: less_char_def)
  show "compares e f (cell_order v w)"
  proof (cases "v = CNull \<or> w = CNull")
    case True
    then show ?thesis
      using assms compares_head [OF lt] cell_order_nulls [of v] cell_order_nulls [of w]
      by (auto simp: encodeCell_def and_then_Inr compares_def cell_order_def [of CNull CNull] split: if_splits)
  next
    case False
    then show ?thesis
      using assms encode_body_order [of c v _ w] compares_Cons by (auto simp: encodeCell_def and_then_Inr split: if_splits)
  qed
qed

text \<open>
  C14. The bytes of cells sort as the cells do, whatever follows them in a key: for two cells of one column, the
  first's bytes are below the second's exactly when the first is below it (NULL first, integers, dates and times
  by value, floats by value with both zeros equal and NaN above all, numerics by the decimal they spell, strings
  bytewise), and cells that tie leave the order to what follows.
\<close>

theorem cell_bytes_order:
  assumes "encodeCell c v = Inr e" "encodeCell c w = Inr f" "array16 v" "array16 w"
  shows "e @ r < f @ s \<longleftrightarrow> cell_order v w < 0 \<or> cell_order v w = 0 \<and> r < s"
  by (rule comparesD [OF encodeCell_compares [OF assms]])

lemma fixed_flipped:
  "fixed 2 (sign_flipped 2 x2 @ r) (\<lambda>b. CInt2 (flipped_val 2 b)) = Inr (CInt2 x2, r)"
  "fixed 4 (sign_flipped 4 x4 @ r) (\<lambda>b. k4 (flipped_val 4 b)) = Inr (k4 (x4 :: 32 word), r)"
  "fixed 8 (sign_flipped 8 x8 @ r) (\<lambda>b. k8 (flipped_val 8 b)) = Inr (k8 (x8 :: 64 word), r)"
  using flipped_val_flipped [of 2 x2] flipped_val_flipped [of 4 x4] flipped_val_flipped [of 8 x8]
  by (simp_all add: fixed_def)

lemma word_be64: "of_nat (be_val (be_bytes 8 (unat x))) = (x :: 64 word)"
  using unat_less [of x] by (simp add: be_val_be_bytes)

lemma decode_encode_body:
  assumes "encode_body c v = Inr e" "array16 v"
  shows "decode_body c (e @ r) = Inr (norm_cell v, r)"
proof -
  have n: "decodeNumeric (e @ r) = Inr (n, r)" if "encodeNumeric n = Inr e" for n using that decodeNumeric_Inr by blast
  show ?thesis
    using assms(1) unfolding encode_body_Inr
    by (elim disjE exE conjE; use assms(2) n in \<open>simp add: decode_body_def Let_def unordered_ordered ordered_norm word_be word_be64
        escaped_def unescape_escape fixed_flipped fixed_def [of 16]\<close>)
qed

lemma decode_encodeCell:
  assumes "encodeCell c v = Inr e" "array16 v"
  shows "decodeCell (e @ rest) c = Inr (norm_cell v, rest)"
  using assms decode_encode_body [of c v _ rest]
  by (auto simp: encodeCell_def decodeCell_def and_then_Inr split: if_splits)

text \<open>
  A stored cell reads back: the bytes a column writes for a value are read to that value (a negative zero to zero and
  every NaN to one NaN), and what follows them is left for the next cell.
\<close>

theorem cell_reads_back:
  assumes "encodeCell c v = Inr e" "array16 v"
  shows "decodeCell (e @ rest) c = Inr (norm_cell v, rest)"
  by (rule decode_encodeCell [OF assms])

lemma be_word64: "length b = 8 \<Longrightarrow> be_bytes 8 (unat (of_nat (be_val b) :: 64 word)) = b"
  using be_val_less [of b] be_bytes_be_val [of b] by (simp add: unat_of_nat)

lemma flipped_bytes:
  "length b = 2 \<Longrightarrow> sign_flipped 2 (flipped_val 2 b :: 16 word) = b"
  "length b = 4 \<Longrightarrow> sign_flipped 4 (flipped_val 4 b :: 32 word) = b"
  "length b = 8 \<Longrightarrow> sign_flipped 8 (flipped_val 8 b :: 64 word) = b"
  using flipped_flipped_val [of 2 b, where 'a = 16] flipped_flipped_val [of 4 b, where 'a = 32]
    flipped_flipped_val [of 8 b, where 'a = 64] by simp_all

lemma fixed_Inr: "fixed n b mk = Inr (v, r) \<longleftrightarrow> (\<exists>x. length x = n \<and> b = x @ r \<and> v = mk x)"
  by (auto simp: fixed_def intro: exI [of _ "take n b"])

lemma escaped_Inr: "escaped b ok mk = Inr (v, r) \<longleftrightarrow> (\<exists>s. ok s \<and> b = cell_escape s @ r \<and> v = mk s)"
  using unescape_Inr unescape_escape by (fastforce simp: escaped_def and_then_Inr split: if_splits)

lemma unordered_norm:
  "norm_float (unorderedFloat64 (orderedFloat64 f)) = unorderedFloat64 (orderedFloat64 f)"
  "norm_float32 (unorderedFloat32 (orderedFloat32 f')) = unorderedFloat32 (orderedFloat32 f')"
  using unordered_ordered(1) [of "norm_float f"] unordered_ordered(2) [of "norm_float32 f'"] ordered_norm
  by (simp_all add: unordered_ordered)

lemma unordered_fixpoint:
  "orderedFloat64 (unorderedFloat64 u) = u \<Longrightarrow> norm_float (unorderedFloat64 u) = unorderedFloat64 u"
  "orderedFloat32 (unorderedFloat32 u') = u' \<Longrightarrow> norm_float32 (unorderedFloat32 u') = unorderedFloat32 u'"
  by (metis unordered_norm)+

lemma be_split:
  "k \<le> length b \<Longrightarrow> k = 4 \<Longrightarrow> b = be_bytes 4 (unat (of_nat (be_val (take k b)) :: 32 word)) @ drop k b"
  "k \<le> length b \<Longrightarrow> k = 8 \<Longrightarrow> b = be_bytes 8 (unat (of_nat (be_val (take k b)) :: 64 word)) @ drop k b"
  using be_word [of "take k b"] be_word64 [of "take k b"] by simp_all

lemma decode_body_Inr:
  assumes "decode_body c b = Inr (v, r)"
  shows "\<exists>e. b = e @ r \<and> encode_body c v = Inr e \<and> norm_cell v = v \<and> array16 v"
proof -
  have bool: "b = [if b ! 0 = byte_of 1 then byte_of 1 else byte_of 0] @ tl b" if "b \<noteq> []" "bval (hd b) \<le> 1"
  proof -
    have "hd b = byte_of (bval (hd b))" by simp
    moreover have "bval (hd b) = 0 \<or> bval (hd b) = 1" using that(2) by linarith
    ultimately have "hd b = byte_of 0 \<or> hd b = byte_of 1" by metis
    then show ?thesis using that(1) by (cases b) auto
  qed
  show ?thesis
  proof (cases "col_type c")
    case TypeBool
    then show ?thesis
      using assms bool by (cases b) (auto simp: decode_body_def encode_body_Inr split: if_splits)
  next
    case TypeFloat4
    then have "4 \<le> length b" using assms by (auto simp: decode_body_def split: if_splits)
    from be_split(1) [OF this refl] TypeFloat4 show ?thesis
      using assms unordered_fixpoint by (auto simp: decode_body_def encode_body_Inr Let_def split: if_splits)
  next
    case TypeFloat8
    then have "8 \<le> length b" using assms by (auto simp: decode_body_def split: if_splits)
    from be_split(2) [OF this refl] TypeFloat8 show ?thesis
      using assms unordered_fixpoint by (auto simp: decode_body_def encode_body_Inr Let_def split: if_splits)
  qed (use assms in \<open>auto simp: decode_body_def encode_body_Inr fixed_Inr escaped_Inr flipped_bytes and_then_Inr decodeNumeric_Inr\<close>)
qed

lemma decodeCell_Inr:
  assumes "decodeCell b c = Inr (v, rest)"
  shows "\<exists>e. b = e @ rest \<and> encodeCell c v = (if length e \<le> MaxCellLen then Inr e else Inl [ErrCell]) \<and> norm_cell v = v \<and> array16 v"
proof -
  obtain m t where b: "b = m # t" using assms by (cases b) (auto simp: decodeCell_def)
  show ?thesis
  proof (cases "m = byte_of 0")
    case True
    then show ?thesis using assms b by (auto simp: decodeCell_def encodeCell_def MaxCellLen_def split: if_splits)
  next
    case False
    then have "m = byte_of 1" "decode_body c t = Inr (v, rest)" using assms b by (auto simp: decodeCell_def split: if_splits)
    moreover from decode_body_Inr [OF this(2)] obtain e where "t = e @ rest" "encode_body c v = Inr e" "norm_cell v = v" "array16 v" by blast
    ultimately show ?thesis using b encode_body_value [of c v e] by (intro exI [of _ "m # e"]) (simp add: encodeCell_def)
  qed
qed


lemma encodeCell_bound:
  assumes "encodeCell c v = Inr e" "array16 v"
  shows "length e \<le> maxCell c"
proof (cases "v = CNull")
  case True
  then show ?thesis using assms by (auto simp: encodeCell_def maxCell_def MaxCellLen_def split: if_splits ctype.splits)
next
  case False
  then obtain b where b: "encode_body c v = Inr b" "e = byte_of 1 # b" "length e \<le> MaxCellLen"
    using assms(1) by (auto simp: encodeCell_def and_then_Inr split: if_splits)
  from b(1) show ?thesis unfolding encode_body_Inr
    by (elim disjE exE conjE; use b(2,3) assms(2) in \<open>simp add: maxCell_def sign_flipped_def\<close>)
qed

text \<open>
  No cell is longer than its column's bound, which is what the store sizes its tree's keys and values by.
\<close>

theorem cell_within_bound:
  assumes "encodeCell c v = Inr e" "array16 v"
  shows "length e \<le> maxCell c"
  by (rule encodeCell_bound [OF assms])

definition price :: column where
  "price = \<lparr>col_tag = 1, col_name = ''price'', col_type = TypeInt4, col_nullable = True, col_maxlen = 0\<rparr>"

lemma be_bytes_4: "be_bytes 4 n = map byte_of [n div 256 div 256 div 256 mod 256, n div 256 div 256 mod 256, n div 256 mod 256, n mod 256]"
proof -
  have "be_bytes 4 n = be_bytes (Suc (Suc (Suc (Suc 0)))) n" by (simp add: numeral_eq_Suc)
  then show ?thesis unfolding be_bytes_Suc by simp
qed

lemma price_cells:
  "encodeCell price (CInt4 (- 2)) = Inr (map byte_of [1, 127, 255, 255, 254])"
  "encodeCell price (CInt4 258) = Inr (map byte_of [1, 128, 0, 1, 2])"
proof -
  have "unat ((- 2 :: 32 word) XOR push_bit 31 1) = 2147483646" "unat ((258 :: 32 word) XOR push_bit 31 1) = 2147483906"
    by simp_all
  then show "encodeCell price (CInt4 (- 2)) = Inr (map byte_of [1, 127, 255, 255, 254])"
    "encodeCell price (CInt4 258) = Inr (map byte_of [1, 128, 0, 1, 2])"
    unfolding price_def encodeCell_def encode_body_def sign_flipped_def be_bytes_4
    by (simp_all add: MaxCellLen_def del: push_bit_of_1)
qed

theorem cell_bytes_order_witness:
  "map byte_of [1, 127, 255, 255, 254] @ [] < map byte_of [1, 128, 0, 1, 2] @ [] \<longleftrightarrow>
     cell_order (CInt4 (- 2)) (CInt4 258) < 0 \<or> cell_order (CInt4 (- 2)) (CInt4 258) = 0 \<and> ([] :: bytes) < []"
  by (rule cell_bytes_order [OF price_cells]) simp_all

theorem cell_reads_back_witness:
  "decodeCell (map byte_of [1, 128, 0, 1, 2] @ [byte_of 9]) price = Inr (norm_cell (CInt4 258), [byte_of 9])"
  by (rule cell_reads_back [OF price_cells(2)]) simp


theorem cell_within_bound_witness:
  "length (map byte_of [1, 128, 0, 1, 2]) \<le> maxCell price"
  by (rule cell_within_bound [OF price_cells(2)]) simp

lemma ParseNumeric_Inr:
  assumes "ParseNumeric s = Inr n"
  shows "numeric_value n = numeric_value s" "\<exists>b. encodeNumeric n = Inr b"
proof -
  obtain neg ds e where p: "parseDecimal s = Inr (neg, ds, e)" "n = canonical neg ds e"
      "ds \<noteq> [] \<Longrightarrow> canonicalLen neg (int (length ds)) e \<le> int MaxNumericLen"
    using assms by (auto simp: ParseNumeric_def and_then_Inr split: if_splits)
  have "numeric_value n = decimal_value neg ds e \<and> (\<exists>b. encodeNumeric n = Inr b)"
  proof (cases "ds = []")
    case True
    then have "n = ''0''" using p(2) by (simp add: canonical_def)
    moreover have "parseDecimal ''0'' = Inr (False, [], 0)"
      by (simp add: parseDecimal_def MaxNumericLen_def is_digit_def less_eq_char_def strip_digits0_def)
    ultimately show ?thesis using True encodeNumeric_Inr [of n "[byte_of 2]"] by (auto simp: numeric_value_def decimal_value_def)
  next
    case False
    then have "numeric_parts neg ds e" using p(3) parseDecimal_sig [OF p(1)] by (simp add: numeric_parts_def)
    moreover from this have "parseDecimal n = Inr (neg, ds, e)"
      using p(2) parseDecimal_canonical [of ds neg e] by (simp add: numeric_parts_def)
    ultimately show ?thesis using encodeNumeric_Inr [of n "numeric_bytes neg ds e"] p(2) by (auto simp: numeric_value_def)
  qed
  then show "numeric_value n = numeric_value s" "\<exists>b. encodeNumeric n = Inr b" using p(1) by (auto simp: numeric_value_def)
qed

lemma encodeNumeric_inj:
  assumes "encodeNumeric m = Inr a" "encodeNumeric n = Inr b" "numeric_value m = numeric_value n"
  shows "m = n"
proof -
  have "compares a b 0" "compares b a 0" using compares_numeric [OF assms(1,2)] compares_numeric [OF assms(2,1)] assms(3) by (simp_all add: order_of_def)
  then have "\<not> a @ [] < b @ []" "\<not> b @ [] < a @ []" using comparesD by blast+
  then have "a = b" by simp
  then show ?thesis using decodeNumeric_Inr [of a m "[]"] decodeNumeric_Inr [of a n "[]"] assms(1,2) by simp
qed



end
