(* ===== verification/Table_Schema.thy ===== *)
theory Table_Schema
  imports Table_Cell_Correct
begin

text \<open>
  Changing schemas (src/model/table/alter.go) and merging them (src/model/table/schemamerge.go): the operations.
\<close>

section \<open>Changing a column's type\<close>

definition convertible :: "column \<Rightarrow> column \<Rightarrow> unit result" where
  "convertible from to =
     (let f = col_type from; t = col_type to in
      if f = t then Inr ()
      else if f = TypeInt2 \<and> (t = TypeInt4 \<or> t = TypeInt8) then Inr ()
      else if f = TypeInt4 \<and> t = TypeInt8 then Inr ()
      else if f = TypeFloat4 \<and> t = TypeFloat8 then Inr ()
      else if f = TypeVarchar \<and> t = TypeText then Inr ()
      else Inl [ErrSchema])"

text \<open>
  Go's conversion \<open>float64(x)\<close> of a \<open>float32\<close>, on the bit patterns: it is exact, a number below the normal range
  of the narrow type becoming a normal one of the wide type; a NaN stays one and is made quiet.
\<close>

fun top_bit_of :: "nat \<Rightarrow> nat" where
  "top_bit_of n = (if n < 2 then 0 else Suc (top_bit_of (n div 2)))"

declare top_bit_of.simps [simp del]

definition widen_magnitude :: "nat \<Rightarrow> nat" where
  "widen_magnitude n =
     (let e = n div 2 ^ 23; m = n mod 2 ^ 23 in
      if e = 255 then 2047 * 2 ^ 52 + (if m = 0 then 0 else if m < 2 ^ 22 then m * 2 ^ 29 + 2 ^ 51 else m * 2 ^ 29)
      else if e > 0 then (e + 896) * 2 ^ 52 + m * 2 ^ 29
      else if m = 0 then 0
      else let k = top_bit_of m in (k + 874) * 2 ^ 52 + (m - 2 ^ k) * 2 ^ (52 - k))"

definition widen_float :: "float32 \<Rightarrow> float64" where
  "widen_float f = of_nat (unat f div 2 ^ 31 * 2 ^ 63 + widen_magnitude (unat f mod 2 ^ 31))"

definition convertCell :: "cell \<Rightarrow> column \<Rightarrow> column \<Rightarrow> cell result" where
  "convertCell v from to =
     and_then (convertible from to) (\<lambda>_.
       if v = CNull \<or> col_type from = col_type to then Inr v
       else case v of
           CInt2 x \<Rightarrow> if col_type to = TypeInt4 then Inr (CInt4 (scast x)) else Inr (CInt8 (scast x))
         | CInt4 x \<Rightarrow> Inr (CInt8 (scast x))
         | CFloat4 x \<Rightarrow> Inr (CFloat8 (widen_float x))
         | _ \<Rightarrow> Inr v)"

section \<open>Rows under a new schema\<close>

text \<open>A row is its cells by column tag; a column left out is NULL.\<close>

type_synonym row = "(tag, cell) fmap"

definition cell_at :: "row \<Rightarrow> tag \<Rightarrow> cell" where
  "cell_at r t = (case fmlookup r t of None \<Rightarrow> CNull | Some v \<Rightarrow> v)"

definition isKey :: "schema \<Rightarrow> tag \<Rightarrow> bool" where
  "isKey s t \<longleftrightarrow> t \<in> set (sch_key s)"

fun convert_columns :: "schema \<Rightarrow> row \<Rightarrow> column list \<Rightarrow> row \<Rightarrow> row result" where
  "convert_columns s r [] out = Inr out"
| "convert_columns s r (c # cs) out =
     (case fmlookup r (col_tag c) of
        None \<Rightarrow> convert_columns s r cs out
      | Some v \<Rightarrow>
         (case schema_column s (col_tag c) of
            None \<Rightarrow> convert_columns s r cs out
          | Some from \<Rightarrow>
             and_then (convertCell v from c) (\<lambda>cv.
               convert_columns s r cs (if cv \<noteq> CNull then fmupd (col_tag c) cv out else out))))"

definition convertRow :: "schema \<Rightarrow> row \<Rightarrow> schema \<Rightarrow> row result" where
  "convertRow s r next = convert_columns s r (sch_columns next) fmempty"

fun alter_columns :: "schema \<Rightarrow> column list \<Rightarrow> unit result" where
  "alter_columns s [] = Inr ()"
| "alter_columns s (c # cs) =
     (case schema_column s (col_tag c) of
        None \<Rightarrow> if \<not> col_nullable c then Inl [ErrSchema] else alter_columns s cs
      | Some from \<Rightarrow>
         if isKey s (col_tag c) \<and> (col_type from \<noteq> col_type c \<or> col_maxlen from \<noteq> col_maxlen c) then Inl [ErrSchema]
         else and_then (convertible from c) (\<lambda>_. alter_columns s cs))"

definition alterable :: "schema \<Rightarrow> schema \<Rightarrow> unit result" where
  "alterable s next =
     and_then (Validate next) (\<lambda>_.
       if sch_key next \<noteq> sch_key s then Inl [ErrSchema] else alter_columns s (sch_columns next))"

section \<open>Merging schemas\<close>

definition schemaLocation :: bytes where
  "schemaLocation = ''schema''"

text \<open>\<open>%d\<close> of a tag: a tag is below \<open>2 ^ 16\<close>, so it is the same number as a signed one.\<close>

definition tag_text :: "tag \<Rightarrow> string" where
  "tag_text t = FormatInt (ucast t)"

definition columnLocation :: "tag \<Rightarrow> bytes" where
  "columnLocation t = schemaLocation @ ''/'' @ tag_text t"

definition indexLocation :: "tag \<Rightarrow> bytes" where
  "indexLocation t = schemaLocation @ ''/index/'' @ tag_text t"

text \<open>
  \<open>mergeColumn\<close> ranges over a Go map of its four attributes, whose order the language leaves open: \<open>order\<close> is the
  order of the run.
\<close>

definition attributes :: "string list" where
  "attributes = [''name'', ''type'', ''nullability'', ''length'']"

definition range_order :: "string list \<Rightarrow> bool" where
  "range_order order \<longleftrightarrow> distinct order \<and> set order = set attributes"

definition zero_column :: column where
  "zero_column = \<lparr>col_tag = 0, col_name = [], col_type = TypeNone (byte_of 0), col_nullable = False, col_maxlen = 0\<rparr>"

definition mergeColumn :: "string list \<Rightarrow> column \<Rightarrow> column \<Rightarrow> column \<Rightarrow> column \<times> string" where
  "mergeColumn order b o' t =
     (let name = Scalar (col_name b) (col_name o') (col_name t);
          typ = Scalar (col_type b) (col_type o') (col_type t);
          null = Scalar (col_nullable b) (col_nullable o') (col_nullable t);
          len = Scalar (col_maxlen b) (col_maxlen o') (col_maxlen t);
          clean = [''name'' \<mapsto> Clean name, ''type'' \<mapsto> Clean typ, ''nullability'' \<mapsto> Clean null, ''length'' \<mapsto> Clean len] in
      case find (\<lambda>attr. clean attr = Some False) order of
        Some attr \<Rightarrow> (zero_column, ''the '' @ attr @ '' changed differently on both sides'')
      | None \<Rightarrow>
         (\<lparr>col_tag = col_tag b, col_name = r_value name, col_type = r_value typ, col_nullable = r_value null,
           col_maxlen = r_value len\<rparr>, []))"

text \<open>The loop over the base's columns.\<close>

fun merge_columns ::
  "string list \<Rightarrow> schema \<Rightarrow> schema \<Rightarrow> column list \<Rightarrow> column list \<Rightarrow> model_conflict list \<Rightarrow> column list \<times> model_conflict list" where
  "merge_columns order ours theirs [] cols conflicts = (cols, conflicts)"
| "merge_columns order ours theirs (b # bs) cols conflicts =
     (case (schema_column ours (col_tag b), schema_column theirs (col_tag b)) of
        (None, None) \<Rightarrow> merge_columns order ours theirs bs cols conflicts
      | (Some o', Some t) \<Rightarrow>
         (case mergeColumn order b o' t of (c, reason) \<Rightarrow>
            if reason \<noteq> [] then
              merge_columns order ours theirs bs cols (conflicts @ [\<lparr>mc_location = columnLocation (col_tag b), mc_reason = reason\<rparr>])
            else merge_columns order ours theirs bs (cols @ [c]) conflicts)
      | (Some kept, None) \<Rightarrow>
         merge_columns order ours theirs bs cols
           (if kept \<noteq> b then conflicts @ [\<lparr>mc_location = columnLocation (col_tag b), mc_reason = ''dropped on one side and changed on the other''\<rparr>]
            else conflicts)
      | (None, Some kept) \<Rightarrow>
         merge_columns order ours theirs bs cols
           (if kept \<noteq> b then conflicts @ [\<lparr>mc_location = columnLocation (col_tag b), mc_reason = ''dropped on one side and changed on the other''\<rparr>]
            else conflicts))"

text \<open>The Go map \<open>added\<close> of the loops over what a side added.\<close>

fun added_columns ::
  "schema \<Rightarrow> column list \<Rightarrow> (tag, column) fmap \<Rightarrow> model_conflict list \<Rightarrow> (tag, column) fmap \<times> model_conflict list" where
  "added_columns base [] added conflicts = (added, conflicts)"
| "added_columns base (c # cs) added conflicts =
     (if schema_column base (col_tag c) \<noteq> None then added_columns base cs added conflicts
      else if (case fmlookup added (col_tag c) of None \<Rightarrow> False | Some prev \<Rightarrow> prev \<noteq> c) then
        added_columns base cs added
          (conflicts @ [\<lparr>mc_location = columnLocation (col_tag c), mc_reason = ''added differently on both sides''\<rparr>])
      else added_columns base cs (fmupd (col_tag c) c added) conflicts)"

definition sorted_tags :: "(tag, 'a) fmap \<Rightarrow> tag list" where
  "sorted_tags m = sorted_list_of_set (fmdom' m)"

definition sortedByTag :: "(tag, column) fmap \<Rightarrow> column list" where
  "sortedByTag cols = map (\<lambda>t. the (fmlookup cols t)) (sorted_tags cols)"

definition find_index :: "schema \<Rightarrow> tag \<Rightarrow> index option" where
  "find_index s t = find (\<lambda>ix. ix_tag ix = t) (sch_indexes s)"

definition same_index :: "index \<Rightarrow> index \<Rightarrow> bool" where
  "same_index a b \<longleftrightarrow> ix_columns a = ix_columns b"

definition covers :: "tag list \<Rightarrow> index \<Rightarrow> bool" where
  "covers tags ix \<longleftrightarrow> list_all (\<lambda>t. t \<in> set tags) (ix_columns ix)"

fun merge_base_indexes ::
  "schema \<Rightarrow> schema \<Rightarrow> tag list \<Rightarrow> index list \<Rightarrow> index list \<Rightarrow> model_conflict list \<Rightarrow> index list \<times> model_conflict list" where
  "merge_base_indexes ours theirs tags [] out conflicts = (out, conflicts)"
| "merge_base_indexes ours theirs tags (b # bs) out conflicts =
     (let dropped = \<lparr>mc_location = indexLocation (ix_tag b), mc_reason = ''dropped on one side and changed on the other''\<rparr>;
          differ = \<lparr>mc_location = indexLocation (ix_tag b), mc_reason = ''changed differently on both sides''\<rparr>;
          keep = (\<lambda>ix. if covers tags ix then out @ [ix] else out) in
      case (find_index ours (ix_tag b), find_index theirs (ix_tag b)) of
        (None, None) \<Rightarrow> merge_base_indexes ours theirs tags bs out conflicts
      | (Some kept, None) \<Rightarrow>
         merge_base_indexes ours theirs tags bs out (if \<not> same_index kept b then conflicts @ [dropped] else conflicts)
      | (None, Some kept) \<Rightarrow>
         merge_base_indexes ours theirs tags bs out (if \<not> same_index kept b then conflicts @ [dropped] else conflicts)
      | (Some o', Some t) \<Rightarrow>
         if same_index o' t \<or> same_index t b then merge_base_indexes ours theirs tags bs (keep o') conflicts
         else if same_index o' b then merge_base_indexes ours theirs tags bs (keep t) conflicts
         else merge_base_indexes ours theirs tags bs out (conflicts @ [differ]))"

fun added_indexes ::
  "schema \<Rightarrow> index list \<Rightarrow> (tag, index) fmap \<Rightarrow> model_conflict list \<Rightarrow> (tag, index) fmap \<times> model_conflict list" where
  "added_indexes base [] added conflicts = (added, conflicts)"
| "added_indexes base (ix # ixs) added conflicts =
     (if find_index base (ix_tag ix) \<noteq> None then added_indexes base ixs added conflicts
      else if (case fmlookup added (ix_tag ix) of None \<Rightarrow> False | Some prev \<Rightarrow> \<not> same_index prev ix) then
        added_indexes base ixs added
          (conflicts @ [\<lparr>mc_location = indexLocation (ix_tag ix), mc_reason = ''added differently on both sides''\<rparr>])
      else added_indexes base ixs (fmupd (ix_tag ix) ix added) conflicts)"

definition mergeIndexes ::
  "schema \<Rightarrow> schema \<Rightarrow> schema \<Rightarrow> tag list \<Rightarrow> model_conflict list \<Rightarrow> index list \<times> model_conflict list" where
  "mergeIndexes base ours theirs tags conflicts =
     (case merge_base_indexes ours theirs tags (sch_indexes base) [] conflicts of (out, conflicts) \<Rightarrow>
      case added_indexes base (sch_indexes ours) fmempty conflicts of (added, conflicts) \<Rightarrow>
      case added_indexes base (sch_indexes theirs) added conflicts of (added, conflicts) \<Rightarrow>
        (out @ filter (covers tags) (map (\<lambda>t. the (fmlookup added t)) (sorted_tags added)), conflicts))"

definition zero_schema :: schema where
  "zero_schema = \<lparr>sch_columns = [], sch_key = [], sch_indexes = []\<rparr>"

text \<open>The text of an error is not modelled: \<open>err_text\<close> stands for \<open>err.Error()\<close>.\<close>

definition mergeSchemas ::
  "(error \<Rightarrow> string) \<Rightarrow> string list \<Rightarrow> schema \<Rightarrow> schema \<Rightarrow> schema \<Rightarrow> bytes \<Rightarrow> bytes \<Rightarrow> bytes \<Rightarrow> schema \<times> model_conflict list" where
  "mergeSchemas err_text order base ours theirs baseCat oursCat theirsCat =
     (if sch_key ours \<noteq> sch_key base \<or> sch_key theirs \<noteq> sch_key base then
        (zero_schema, [\<lparr>mc_location = schemaLocation, mc_reason = ''the primary key changed; rows cannot be matched across it''\<rparr>])
      else if oursCat = theirsCat then (ours, [])
      else if oursCat = baseCat then (theirs, [])
      else if theirsCat = baseCat then (ours, [])
      else
        case merge_columns order ours theirs (sch_columns base) [] [] of (cols, conflicts) \<Rightarrow>
        case added_columns base (sch_columns ours) fmempty conflicts of (added, conflicts) \<Rightarrow>
        case added_columns base (sch_columns theirs) added conflicts of (added, conflicts) \<Rightarrow>
          let columns = cols @ sortedByTag added in
          case mergeIndexes base ours theirs (map col_tag columns) conflicts of (ixs, conflicts) \<Rightarrow>
            if length conflicts > 0 then (zero_schema, conflicts)
            else
              let merged = \<lparr>sch_columns = columns, sch_key = sch_key base, sch_indexes = ixs\<rparr> in
              case Validate merged of
                Inl e \<Rightarrow>
                  (zero_schema, [\<lparr>mc_location = schemaLocation, mc_reason = ''the merged schema is not a table's: '' @ err_text e\<rparr>])
              | Inr _ \<Rightarrow> (merged, []))"

definition droppedBy :: "schema \<Rightarrow> schema \<Rightarrow> tag list" where
  "droppedBy base side = map col_tag (filter (\<lambda>c. schema_column side (col_tag c) = None) (sch_columns base))"

end
