(* ===== verification/Schema_Merge.thy ===== *)
theory Schema_Merge
  imports Table_Schema
begin

text \<open>
  Merges of schemas without conflicts are three-way by column.
\<close>

section \<open>Clean schema merges\<close>

lemma schema_column_Some:
  assumes "valid_schema s"
  shows "schema_column s t = Some c \<longleftrightarrow> c \<in> set (sch_columns s) \<and> col_tag c = t"
proof -
  have "distinct (map col_tag cs) \<Longrightarrow> find (\<lambda>c. col_tag c = t) cs = Some c \<longleftrightarrow> c \<in> set cs \<and> col_tag c = t" for cs
    by (induction cs) force+
  then show ?thesis using assms by (simp add: schema_column_def valid_schema_def)
qed

lemma find_index_Some:
  assumes "valid_schema s"
  shows "find_index s t = Some ix \<longleftrightarrow> ix \<in> set (sch_indexes s) \<and> ix_tag ix = t"
proof -
  have "distinct (map ix_tag ixs) \<Longrightarrow> find (\<lambda>ix. ix_tag ix = t) ixs = Some ix \<longleftrightarrow> ix \<in> set ixs \<and> ix_tag ix = t" for ixs
    by (induction ixs) force+
  then show ?thesis using assms by (simp add: find_index_def valid_schema_def indexes_ok_def)
qed

lemma Scalar_clean: "Clean (Scalar b x y) \<longleftrightarrow> x = y \<or> x = b \<or> y = b"
  by (auto simp: Scalar_by_def Clean_def)

lemma column_scalar_value: "x = y \<or> x = b \<or> y = b \<Longrightarrow> r_value (Scalar b x y) = (if x = b then y else x)"
  by (auto simp: Scalar_by_def)

text \<open>What a column both sides kept merges to, when it does.\<close>

definition merged_column :: "column \<Rightarrow> column \<Rightarrow> column \<Rightarrow> column" where
  "merged_column b o' t =
     \<lparr>col_tag = col_tag b, col_name = (if col_name o' = col_name b then col_name t else col_name o'),
      col_type = (if col_type o' = col_type b then col_type t else col_type o'),
      col_nullable = (if col_nullable o' = col_nullable b then col_nullable t else col_nullable o'),
      col_maxlen = (if col_maxlen o' = col_maxlen b then col_maxlen t else col_maxlen o')\<rparr>"

definition column_clean :: "column \<Rightarrow> column \<Rightarrow> column \<Rightarrow> bool" where
  "column_clean b o' t \<longleftrightarrow> (col_name o' = col_name t \<or> col_name o' = col_name b \<or> col_name t = col_name b) \<and>
     (col_type o' = col_type t \<or> col_type o' = col_type b \<or> col_type t = col_type b) \<and>
     (col_nullable o' = col_nullable t \<or> col_nullable o' = col_nullable b \<or> col_nullable t = col_nullable b) \<and>
     (col_maxlen o' = col_maxlen t \<or> col_maxlen o' = col_maxlen b \<or> col_maxlen t = col_maxlen b)"

lemma mergeColumn_clean:
  assumes "range_order order"
  shows "snd (mergeColumn order b o' t) = [] \<longleftrightarrow> column_clean b o' t"
    "column_clean b o' t \<Longrightarrow> mergeColumn order b o' t = (merged_column b o' t, [])"
proof -
  let ?clean = "[''name'' \<mapsto> Clean (Scalar (col_name b) (col_name o') (col_name t)), ''type'' \<mapsto> Clean (Scalar (col_type b) (col_type o') (col_type t)),
        ''nullability'' \<mapsto> Clean (Scalar (col_nullable b) (col_nullable o') (col_nullable t)),
        ''length'' \<mapsto> Clean (Scalar (col_maxlen b) (col_maxlen o') (col_maxlen t))]"
  have "find (\<lambda>attr. ?clean attr = Some False) order = None \<longleftrightarrow> (\<forall>a\<in>set attributes. ?clean a \<noteq> Some False)"
    using assms unfolding range_order_def find_None_iff by blast
  also have "\<dots> \<longleftrightarrow> column_clean b o' t" by (simp add: attributes_def column_clean_def Scalar_clean)
  finally have none: "find (\<lambda>attr. ?clean attr = Some False) order = None \<longleftrightarrow> column_clean b o' t" .
  show clean: "mergeColumn order b o' t = (merged_column b o' t, [])" if "column_clean b o' t"
    unfolding mergeColumn_def Let_def none [THEN iffD2, OF that] option.case
    using that unfolding column_clean_def merged_column_def by (simp only: column_scalar_value)
  show "snd (mergeColumn order b o' t) = [] \<longleftrightarrow> column_clean b o' t"
  proof (cases "column_clean b o' t")
    case False
    then obtain attr where "find (\<lambda>attr. ?clean attr = Some False) order = Some attr" using none by fastforce
    then have "mergeColumn order b o' t = (zero_column, ''the '' @ attr @ '' changed differently on both sides'')"
      unfolding mergeColumn_def Let_def by (simp only: option.case)
    then show ?thesis using False by simp
  qed (simp add: clean)
qed

lemma merged_column_swap: "column_clean b o' t \<Longrightarrow> merged_column b o' t = merged_column b t o'"
  by (auto simp: merged_column_def column_clean_def)

lemma column_clean_swap: "column_clean b o' t \<longleftrightarrow> column_clean b t o'"
  by (auto simp: column_clean_def)

text \<open>Which base columns merge without a conflict, and what is left of them.\<close>

definition base_clean :: "schema \<Rightarrow> schema \<Rightarrow> column \<Rightarrow> bool" where
  "base_clean ours theirs b =
     (case (schema_column ours (col_tag b), schema_column theirs (col_tag b)) of
        (None, None) \<Rightarrow> True | (Some k, None) \<Rightarrow> k = b | (None, Some k) \<Rightarrow> k = b | (Some o', Some t) \<Rightarrow> column_clean b o' t)"

definition base_column :: "schema \<Rightarrow> schema \<Rightarrow> column \<Rightarrow> column option" where
  "base_column ours theirs b =
     (case (schema_column ours (col_tag b), schema_column theirs (col_tag b)) of
        (Some o', Some t) \<Rightarrow> Some (merged_column b o' t) | _ \<Rightarrow> None)"

lemma merge_columns_clean:
  assumes "range_order order"
  shows "merge_columns order ours theirs bs cols cf = (cols', []) \<longleftrightarrow>
    cf = [] \<and> list_all (base_clean ours theirs) bs \<and> cols' = cols @ List.map_filter (base_column ours theirs) bs"
proof (induction bs arbitrary: cols cf)
  case (Cons b bs)
  show ?case
  proof (cases "schema_column ours (col_tag b)"; cases "schema_column theirs (col_tag b)")
    fix o' t assume ot: "schema_column ours (col_tag b) = Some o'" "schema_column theirs (col_tag b) = Some t"
    show ?thesis
    proof (cases "column_clean b o' t")
      case True
      then show ?thesis using mergeColumn_clean(2) [OF assms True] Cons ot
        by (auto simp: base_clean_def base_column_def map_filter_simps)
    next
      case False
      then have "snd (mergeColumn order b o' t) \<noteq> []" using mergeColumn_clean(1) [OF assms] by blast
      then show ?thesis using False Cons ot by (auto simp: base_clean_def split: prod.splits)
    qed
  qed (auto simp: Cons base_clean_def base_column_def map_filter_simps)
qed (auto simp: map_filter_simps)

text \<open>The Go map of additions, as a function of the tag, for a side whose tags are its own.\<close>

definition added_ok :: "schema \<Rightarrow> (tag, column) fmap \<Rightarrow> column list \<Rightarrow> bool" where
  "added_ok base added cs \<longleftrightarrow> (\<forall>c p. c \<in> set cs \<and> schema_column base (col_tag c) = None \<and> fmlookup added (col_tag c) = Some p \<longrightarrow> p = c)"

definition additions :: "schema \<Rightarrow> column list \<Rightarrow> (tag, column) fmap" where
  "additions base cs = fmap_of_list (map (\<lambda>c. (col_tag c, c)) (filter (\<lambda>c. schema_column base (col_tag c) = None) cs))"

lemma additions_lookup:
  "fmlookup (additions base cs) t = (if schema_column base t = None then find (\<lambda>c. col_tag c = t) cs else None)"
  unfolding additions_def fmlookup_of_list by (induction cs) auto

lemma fmadd_lookup: "fmlookup (m ++\<^sub>f n) x = (case fmlookup n x of Some v \<Rightarrow> Some v | None \<Rightarrow> fmlookup m x)"
  by (cases "fmlookup n x") (simp_all add: fmdom_notI fmdomI)

declare fmlookup_add [simp del]

lemma additions_Cons:
  assumes "schema_column base (col_tag c) = None" "col_tag c \<notin> col_tag ` set cs"
  shows "fmupd (col_tag c) c added ++\<^sub>f additions base cs = added ++\<^sub>f additions base (c # cs)"
proof (rule fmap_ext)
  fix t
  have "find (\<lambda>x. col_tag x = col_tag c) cs = None" unfolding find_None_iff using assms(2) by (metis imageI)
  then have n: "fmlookup (additions base cs) (col_tag c) = None" "fmlookup (additions base (c # cs)) (col_tag c) = Some c"
    using assms(1) by (simp_all add: additions_lookup)
  have e: "fmlookup (additions base (c # cs)) t = fmlookup (additions base cs) t" if "t \<noteq> col_tag c"
    using that by (simp add: additions_lookup)
  show "fmlookup (fmupd (col_tag c) c added ++\<^sub>f additions base cs) t = fmlookup (added ++\<^sub>f additions base (c # cs)) t"
    using n e by (cases "t = col_tag c") (simp_all add: fmadd_lookup split: option.split)
qed

lemma added_columns_clean:
  assumes "distinct (map col_tag cs)"
  shows "added_columns base cs added cf = (added', []) \<longleftrightarrow> cf = [] \<and> added_ok base added cs \<and> added' = added ++\<^sub>f additions base cs"
  using assms
proof (induction cs arbitrary: added cf)
  case (Cons c cs)
  then have IH: "added_columns base cs a k = (added', []) \<longleftrightarrow> k = [] \<and> added_ok base a cs \<and> added' = a ++\<^sub>f additions base cs" for a k
    by simp
  have tag: "col_tag c \<notin> col_tag ` set cs" using Cons.prems by simp
  show ?case
  proof (cases "schema_column base (col_tag c) = None")
    case True
    show ?thesis
    proof (cases "\<exists>p. fmlookup added (col_tag c) = Some p \<and> p \<noteq> c")
      case True
      then show ?thesis using IH \<open>schema_column base (col_tag c) = None\<close> by (auto simp: added_ok_def)
    next
      case False
      have "added_ok base (fmupd (col_tag c) c added) cs \<longleftrightarrow> added_ok base added (c # cs)"
      proof -
        have "col_tag x \<noteq> col_tag c" if "x \<in> set cs" for x using tag that by (metis imageI)
        then show ?thesis using False unfolding added_ok_def by (metis fmupd_lookup set_ConsD list.set_intros(2))
      qed
      then show ?thesis using IH True False additions_Cons [OF True tag, of added] by (auto split: option.splits)
    qed
  next
    case False
    then have "additions base (c # cs) = additions base cs" by (auto simp: additions_def)
    then show ?thesis using False IH by (auto simp: added_ok_def)
  qed
qed (auto simp: added_ok_def additions_def)

lemma base_indexes_conflicts: "length cf \<le> length (snd (merge_base_indexes ours theirs tags bs out cf))"
proof (induction bs arbitrary: out cf)
  case (Cons b bs)
  have more: "length cf \<le> length (snd (merge_base_indexes ours theirs tags bs out (cf @ [x])))" for out cf x
    using Cons.IH [of "cf @ [x]" out] by simp
  show ?case by (simp add: Let_def Cons.IH more split: option.split)
qed simp

lemma added_indexes_conflicts: "length cf \<le> length (snd (added_indexes base ixs added cf))"
proof (induction ixs arbitrary: added cf)
  case (Cons ix ixs)
  have more: "length cf \<le> length (snd (added_indexes base ixs added (cf @ [x])))" for added cf x
    using Cons.IH [of "cf @ [x]" added] by simp
  show ?case by (simp add: Cons.IH more)
qed simp

lemma mergeIndexes_conflicts:
  assumes "mergeIndexes base ours theirs tags cf = (ixs, [])"
  shows "cf = []"
proof -
  obtain out c1 a1 c2 a2 where "merge_base_indexes ours theirs tags (sch_indexes base) [] cf = (out, c1)"
      "added_indexes base (sch_indexes ours) fmempty c1 = (a1, c2)" "added_indexes base (sch_indexes theirs) a1 c2 = (a2, [])"
    using assms by (auto simp: mergeIndexes_def split: prod.splits)
  then show ?thesis
    using base_indexes_conflicts [of cf ours theirs tags "sch_indexes base" "[]"]
      added_indexes_conflicts [of c1 base "sch_indexes ours" fmempty] added_indexes_conflicts [of c2 base "sch_indexes theirs" a1]
    by simp
qed

lemma sortedByTag_set:
  assumes "\<And>t c. fmlookup cols t = Some c \<Longrightarrow> col_tag c = t"
  shows "c \<in> set (sortedByTag cols) \<longleftrightarrow> fmlookup cols (col_tag c) = Some c"
proof -
  have "set (sorted_tags cols) = fmdom' cols" by (simp add: sorted_tags_def)
  moreover have "(\<lambda>t. the (fmlookup cols t)) ` fmdom' cols = {c. \<exists>t. fmlookup cols t = Some c}"
  proof (intro set_eqI iffI)
    fix c assume "c \<in> {c. \<exists>t. fmlookup cols t = Some c}"
    then obtain t where "fmlookup cols t = Some c" by blast
    then show "c \<in> (\<lambda>t. the (fmlookup cols t)) ` fmdom' cols" by (intro image_eqI [of _ _ t]) (simp_all add: fmdom'I)
  qed (auto simp: fmlookup_dom'_iff)
  ultimately have "set (sortedByTag cols) = {c. \<exists>t. fmlookup cols t = Some c}" by (simp add: sortedByTag_def)
  then show ?thesis using assms by auto
qed

text \<open>A clean merge that takes no side whole.\<close>

lemma mergeSchemas_clean:
  assumes "mergeSchemas et order base ours theirs bc oc tc = (s, [])" "range_order order"
    "oc \<noteq> tc" "oc \<noteq> bc" "tc \<noteq> bc" "valid_schema base" "valid_schema ours" "valid_schema theirs"
  shows "list_all (base_clean ours theirs) (sch_columns base)" "valid_schema s" "sch_key s = sch_key base"
    "added_ok base (additions base (sch_columns ours)) (sch_columns theirs)"
    "sch_columns s = List.map_filter (base_column ours theirs) (sch_columns base) @
       sortedByTag (additions base (sch_columns ours) ++\<^sub>f additions base (sch_columns theirs))"
proof -
  have d: "distinct (map col_tag (sch_columns ours))" "distinct (map col_tag (sch_columns theirs))"
    using assms(7,8) by (auto simp: valid_schema_def)
  obtain cols c1 added1 c2 added2 c3 ixs where runs:
      "merge_columns order ours theirs (sch_columns base) [] [] = (cols, c1)"
      "added_columns base (sch_columns ours) fmempty c1 = (added1, c2)"
      "added_columns base (sch_columns theirs) added1 c2 = (added2, c3)"
      "mergeIndexes base ours theirs (map col_tag (cols @ sortedByTag added2)) c3 = (ixs, [])"
      "s = \<lparr>sch_columns = cols @ sortedByTag added2, sch_key = sch_key base, sch_indexes = ixs\<rparr>" "Validate s = Inr ()"
    using assms(1,3-5) by (auto simp: mergeSchemas_def Let_def split: if_splits prod.splits sum.splits)
  have "c3 = []" using mergeIndexes_conflicts [OF runs(4)] .
  with runs(3) d(2) have 3: "c2 = []" "added_ok base added1 (sch_columns theirs)" "added2 = added1 ++\<^sub>f additions base (sch_columns theirs)"
    by (simp_all add: added_columns_clean)
  with runs(2) d(1) have 2: "c1 = []" "added1 = additions base (sch_columns ours)" by (simp_all add: added_columns_clean)
  with runs(1) have "list_all (base_clean ours theirs) (sch_columns base)" "cols = List.map_filter (base_column ours theirs) (sch_columns base)"
    by (simp_all add: merge_columns_clean [OF assms(2)])
  with 2 3 runs(5,6) show "list_all (base_clean ours theirs) (sch_columns base)" "valid_schema s" "sch_key s = sch_key base"
    "added_ok base (additions base (sch_columns ours)) (sch_columns theirs)"
    "sch_columns s = List.map_filter (base_column ours theirs) (sch_columns base) @
       sortedByTag (additions base (sch_columns ours) ++\<^sub>f additions base (sch_columns theirs))"
    using Validate_iff by simp_all
qed

lemma in_map_filter: "y \<in> set (List.map_filter f xs) \<longleftrightarrow> (\<exists>x\<in>set xs. f x = Some y)"
  by (induction xs) (auto simp: map_filter_simps split: option.split)

text \<open>A column of the merged schema, from the base's, ours and theirs.\<close>

definition column3 :: "column option \<Rightarrow> column option \<Rightarrow> column option \<Rightarrow> column option" where
  "column3 b x y =
     (case b of
        None \<Rightarrow> (case x of Some c \<Rightarrow> Some c | None \<Rightarrow> y)
      | Some b \<Rightarrow> (case (x, y) of (Some x, Some y) \<Rightarrow> Some (merged_column b x y) | _ \<Rightarrow> None))"

lemma merged_columns_iff:
  assumes "mergeSchemas et order base ours theirs bc oc tc = (s, [])" "range_order order"
    "oc \<noteq> tc" "oc \<noteq> bc" "tc \<noteq> bc" "valid_schema base" "valid_schema ours" "valid_schema theirs"
  shows "schema_column s t = Some c \<longleftrightarrow>
    column3 (schema_column base t) (schema_column ours t) (schema_column theirs t) = Some c"
proof -
  note m = mergeSchemas_clean [OF assms]
  note sc = schema_column_Some [OF assms(6)] schema_column_Some [OF assms(7)] schema_column_Some [OF assms(8)]
  let ?A = "additions base (sch_columns ours) ++\<^sub>f additions base (sch_columns theirs)"
  have look: "fmlookup ?A t' = (if schema_column base t' = None then (case schema_column theirs t' of Some y \<Rightarrow> Some y | None \<Rightarrow> schema_column ours t') else None)" for t'
    unfolding fmadd_lookup additions_lookup schema_column_def by (auto split: option.splits)
  have tags: "col_tag c' = t'" if "fmlookup ?A t' = Some c'" for t' c'
    using that find_column_tag [of ours t' c'] find_column_tag [of theirs t' c'] by (auto simp: look split: if_splits option.splits)
  have agree: "x = y" if "schema_column base t' = None" "schema_column ours t' = Some x" "schema_column theirs t' = Some y" for t' x y
    using m(4) that find_column_tag [OF that(2)] find_column_tag [OF that(3)]
    unfolding added_ok_def additions_lookup schema_column_def [of ours, symmetric] by (metis (full_types))
  have "schema_column s t = Some c \<longleftrightarrow> c \<in> set (sch_columns s) \<and> col_tag c = t" by (rule schema_column_Some [OF m(2)])
  also have "\<dots> \<longleftrightarrow> ((\<exists>b\<in>set (sch_columns base). base_column ours theirs b = Some c) \<or> fmlookup ?A (col_tag c) = Some c) \<and> col_tag c = t"
    unfolding m(5) set_append Un_iff in_map_filter using sortedByTag_set [of ?A c, OF tags] by (simp only:)
  also have "\<dots> \<longleftrightarrow> (case schema_column base t of
       Some b \<Rightarrow> base_column ours theirs b = Some c \<and> col_tag c = t | None \<Rightarrow> schema_column ours t = Some c \<or> schema_column theirs t = Some c)"
  proof (cases "schema_column base t")
    case None
    have "\<not> (\<exists>b\<in>set (sch_columns base). base_column ours theirs b = Some c \<and> col_tag c = t)"
      using None by (auto simp: base_column_def merged_column_def find_column_iff split: option.splits)
    then show ?thesis
      using None agree [OF None] find_column_tag [of ours t c] find_column_tag [of theirs t c]
      by (auto simp: look split: option.splits)
  next
    case (Some b)
    have "b' = b" if "b' \<in> set (sch_columns base)" "base_column ours theirs b' = Some c" "col_tag c = t" for b'
    proof -
      have "col_tag b' = t" using that(2,3) by (auto simp: base_column_def merged_column_def split: option.splits)
      then show ?thesis using sc(1) [of t b'] that(1) Some by simp
    qed
    moreover have "b \<in> set (sch_columns base)" using Some sc(1) by blast
    moreover have "fmlookup ?A t = None" using Some by (simp add: look)
    ultimately show ?thesis unfolding Some option.case by (metis option.distinct(1))
  qed
  also have "\<dots> \<longleftrightarrow> column3 (schema_column base t) (schema_column ours t) (schema_column theirs t) = Some c"
  proof (cases "schema_column base t")
    case None
    then show ?thesis using agree [OF None] by (auto simp: column3_def split: option.splits)
  next
    case (Some b)
    then have "col_tag b = t" using sc(1) by blast
    then show ?thesis unfolding Some by (auto simp: column3_def base_column_def merged_column_def split: option.splits)
  qed
  finally show ?thesis .
qed

lemma merged_column_unchanged:
  "col_tag b = col_tag t \<Longrightarrow> merged_column b b t = t" "col_tag b = col_tag t \<Longrightarrow> merged_column b t b = t"
  "col_tag b = col_tag t \<Longrightarrow> merged_column b t t = t"
  by (auto simp: merged_column_def)

context wire_laws
begin

lemma EncodeCatalog_inj: "EncodeCatalog W s = Inr b \<Longrightarrow> EncodeCatalog W s' = Inr b \<Longrightarrow> s = s'"
  unfolding catalog_roundtrip [symmetric] by simp

end

lemma column3_same:
  assumes "\<And>c. x = Some c \<Longrightarrow> col_tag c = t" "\<And>c. b = Some c \<Longrightarrow> col_tag c = t"
  shows "column3 b x x = x" "column3 b b x = x" "column3 b x b = x"
  using assms merged_column_unchanged by (auto simp: column3_def split: option.splits)

text \<open>
  C18. A merge of schemas without conflicts gives a schema: it validates, keeps the base's primary key, and each of its
  columns is the three-way merge, by tag, of the base's, ours' and theirs': a column the base lacks is the one a side
  added, a column a side dropped is gone, and of a column both kept each attribute is the one the side that
  changed it gave it.
\<close>

theorem schema_merge_three_way:
  assumes "wire_laws W" "EncodeCatalog W base = Inr bc" "EncodeCatalog W ours = Inr oc" "EncodeCatalog W theirs = Inr tc"
    "range_order order" "mergeSchemas et order base ours theirs bc oc tc = (s, [])"
  shows "Validate s = Inr () \<and> sch_key s = sch_key base \<and>
    schema_column s t = column3 (schema_column base t) (schema_column ours t) (schema_column theirs t)"
proof -
  have v: "valid_schema base" "valid_schema ours" "valid_schema theirs"
    using assms(2-4) by (auto simp: EncodeCatalog_def and_then_Inr Validate_iff)
  have inj: "x = y" if "EncodeCatalog W x = Inr b" "EncodeCatalog W y = Inr b" for x y b
    using wire_laws.EncodeCatalog_inj [OF assms(1)] that by blast
  have key: "sch_key ours = sch_key base" "sch_key theirs = sch_key base"
    using assms(6) by (auto simp: mergeSchemas_def split: if_splits)
  have same: "column3 (schema_column x t) (schema_column y t) (schema_column y t) = schema_column y t"
    "column3 (schema_column x t) (schema_column x t) (schema_column y t) = schema_column y t"
    "column3 (schema_column x t) (schema_column y t) (schema_column x t) = schema_column y t" for x y
    using column3_same [of "schema_column y t" t "schema_column x t"] find_column_tag by blast+
  consider "oc = tc" "s = ours" | "oc = bc" "s = theirs" | "tc = bc" "s = ours" | "oc \<noteq> tc" "oc \<noteq> bc" "tc \<noteq> bc"
    using assms(6) key by (auto simp: mergeSchemas_def split: if_splits)
  then show ?thesis
  proof cases
    case 4
    note m = mergeSchemas_clean [OF assms(6,5) 4 v] and c = merged_columns_iff [OF assms(6,5) 4 v, of t]
    have "schema_column s t = column3 (schema_column base t) (schema_column ours t) (schema_column theirs t)"
      using c by (metis option.exhaust)
    then show ?thesis using m(2,3) Validate_iff by blast
  next
    case 1
    then have "ours = theirs" using inj assms(3,4) by blast
    then show ?thesis using 1(2) v key same(1) Validate_iff by simp
  next
    case 2
    then have "ours = base" using inj assms(2,3) by blast
    then show ?thesis using 2(2) v key same(2) Validate_iff by simp
  next
    case 3
    then have "theirs = base" using inj assms(2,4) by blast
    then show ?thesis using 3(2) v key same(3) Validate_iff by simp
  qed
qed

text \<open>The example's table, renamed on one side and widened on the other.\<close>

definition renamed_schema :: schema where
  "renamed_schema = \<lparr>sch_columns = [\<lparr>col_tag = 1, col_name = ''id'', col_type = TypeInt4, col_nullable = False, col_maxlen = 0\<rparr>,
     \<lparr>col_tag = 2, col_name = ''title'', col_type = TypeVarchar, col_nullable = True, col_maxlen = 10\<rparr>],
     sch_key = [1], sch_indexes = [\<lparr>ix_tag = 1, ix_columns = [2]\<rparr>]\<rparr>"

definition widened_schema :: schema where
  "widened_schema = \<lparr>sch_columns = [\<lparr>col_tag = 1, col_name = ''id'', col_type = TypeInt4, col_nullable = False, col_maxlen = 0\<rparr>,
     \<lparr>col_tag = 2, col_name = ''name'', col_type = TypeVarchar, col_nullable = True, col_maxlen = 20\<rparr>],
     sch_key = [1], sch_indexes = [\<lparr>ix_tag = 1, ix_columns = [2]\<rparr>]\<rparr>"

definition merged_schema :: schema where
  "merged_schema = \<lparr>sch_columns = [\<lparr>col_tag = 1, col_name = ''id'', col_type = TypeInt4, col_nullable = False, col_maxlen = 0\<rparr>,
     \<lparr>col_tag = 2, col_name = ''title'', col_type = TypeVarchar, col_nullable = True, col_maxlen = 20\<rparr>],
     sch_key = [1], sch_indexes = [\<lparr>ix_tag = 1, ix_columns = [2]\<rparr>]\<rparr>"

lemma examples_valid:
  "Validate example_schema = Inr ()" "Validate renamed_schema = Inr ()" "Validate widened_schema = Inr ()" "Validate merged_schema = Inr ()"
  unfolding Validate_iff valid_schema_def example_schema_def renamed_schema_def widened_schema_def merged_schema_def
  by (simp_all add: MaxColumns_def MaxIndexes_def MaxNameLen_def MaxVarcharLen_def column_ok_def key_ok_def indexes_ok_def schema_column_def)

lemma examples_merge:
  assumes "oc \<noteq> tc" "oc \<noteq> bc" "tc \<noteq> bc"
  shows "mergeSchemas et attributes example_schema renamed_schema widened_schema bc oc tc = (merged_schema, [])"
proof -
  have "merge_columns attributes renamed_schema widened_schema (sch_columns example_schema) [] [] = (sch_columns merged_schema, [])"
    by (simp add: attributes_def example_schema_def renamed_schema_def widened_schema_def merged_schema_def schema_column_def
        mergeColumn_def Scalar_by_def Clean_def)
  moreover have "added_columns example_schema (sch_columns renamed_schema) fmempty [] = (fmempty, [])"
      "added_columns example_schema (sch_columns widened_schema) fmempty [] = (fmempty, [])"
    by (simp_all add: example_schema_def renamed_schema_def widened_schema_def schema_column_def)
  moreover have "mergeIndexes example_schema renamed_schema widened_schema (map col_tag (sch_columns merged_schema)) [] = (sch_indexes merged_schema, [])"
    by (simp add: mergeIndexes_def example_schema_def renamed_schema_def widened_schema_def merged_schema_def find_index_def same_index_def
        covers_def sorted_tags_def)
  moreover have "sch_key example_schema = [1]" "sch_key renamed_schema = [1]" "sch_key widened_schema = [1]"
      "\<lparr>sch_columns = sch_columns merged_schema, sch_key = [1], sch_indexes = sch_indexes merged_schema\<rparr> = merged_schema"
    by (simp_all add: example_schema_def renamed_schema_def widened_schema_def merged_schema_def)
  ultimately show ?thesis
    using assms examples_valid(4) by (simp add: mergeSchemas_def sortedByTag_def sorted_tags_def)
qed

theorem schema_merge_three_way_witness:
  "Validate merged_schema = Inr () \<and> sch_key merged_schema = sch_key example_schema \<and>
    schema_column merged_schema 2 = column3 (schema_column example_schema 2) (schema_column renamed_schema 2) (schema_column widened_schema 2)"
proof -
  obtain bc oc tc where e: "EncodeCatalog std_wire example_schema = Inr bc" "EncodeCatalog std_wire renamed_schema = Inr oc"
      "EncodeCatalog std_wire widened_schema = Inr tc"
    using examples_valid by (simp add: EncodeCatalog_def)
  have "example_schema \<noteq> renamed_schema" "example_schema \<noteq> widened_schema" "renamed_schema \<noteq> widened_schema"
    by (simp_all add: example_schema_def renamed_schema_def widened_schema_def)
  then have ne: "oc \<noteq> tc" "oc \<noteq> bc" "tc \<noteq> bc" using e std.EncodeCatalog_inj by blast+
  show ?thesis
    by (rule schema_merge_three_way [OF std.wire_laws_axioms e _ examples_merge [OF ne]]) (simp add: range_order_def attributes_def)
qed

end
