(* ===== verification/Table_Widen.thy ===== *)
theory Table_Widen
  imports Schema_Merge
begin

text \<open>
  Widening a column keeps the order of its values and their fit, floats included.
\<close>

section \<open>Widening\<close>

lemma top_bit_of_bounds: "0 < n \<Longrightarrow> 2 ^ top_bit_of n \<le> n \<and> n < 2 ^ Suc (top_bit_of n)"
proof (induction n rule: top_bit_of.induct)
  case (1 n)
  show ?case
  proof (cases "n < 2")
    case True
    then show ?thesis using 1 by (simp add: top_bit_of.simps)
  next
    case False
    with 1 have "2 ^ top_bit_of (n div 2) \<le> n div 2" "n div 2 < 2 ^ Suc (top_bit_of (n div 2))" by simp_all
    then have "2 * 2 ^ top_bit_of (n div 2) \<le> n" "n < 2 * (2 * 2 ^ top_bit_of (n div 2))"
      using div_times_less_eq_dividend [of n 2] by (linarith, simp add: div_less_iff_less_mult mult.commute)
    with False show ?thesis by (subst (1 2) top_bit_of.simps) simp
  qed
qed

lemma top_bit_of_less: "0 < n \<Longrightarrow> n < 2 ^ k \<Longrightarrow> top_bit_of n < k"
  using top_bit_of_bounds [of n] by (meson le_less_trans nat_power_less_imp_less pos2)

lemma widen_zero: "widen_magnitude 0 = 0"
  by (simp add: widen_magnitude_def)

lemma widen_subnormal:
  assumes "0 < n" "n < 2 ^ 23"
  shows "widen_magnitude n = (top_bit_of n + 874) * 2 ^ 52 + (n - 2 ^ top_bit_of n) * 2 ^ (52 - top_bit_of n)"
    "(top_bit_of n + 874) * 2 ^ 52 \<le> widen_magnitude n" "widen_magnitude n < (top_bit_of n + 875) * 2 ^ 52" "top_bit_of n \<le> 22"
proof -
  let ?k = "top_bit_of n"
  show k: "?k \<le> 22" using top_bit_of_less [OF assms] by simp
  show w: "widen_magnitude n = (?k + 874) * 2 ^ 52 + (n - 2 ^ ?k) * 2 ^ (52 - ?k)"
    using assms by (simp add: widen_magnitude_def Let_def)
  have "n - 2 ^ ?k < 2 ^ ?k" using top_bit_of_bounds [OF assms(1)] by (auto simp: less_diff_conv2)
  then have "(n - 2 ^ ?k) * 2 ^ (52 - ?k) < 2 ^ ?k * 2 ^ (52 - ?k)" by simp
  also have "\<dots> = 2 ^ 52" using k by (simp flip: power_add)
  finally show "widen_magnitude n < (?k + 875) * 2 ^ 52" unfolding w by simp
  show "(?k + 874) * 2 ^ 52 \<le> widen_magnitude n" unfolding w by simp
qed

lemma widen_normal: "2 ^ 23 \<le> n \<Longrightarrow> n < 255 * 2 ^ 23 \<Longrightarrow> widen_magnitude n = n * 2 ^ 29 + 896 * 2 ^ 52"
proof -
  assume n: "2 ^ 23 \<le> n" "n < 255 * 2 ^ 23"
  then have "n div 2 ^ 23 < 255" "0 < n div 2 ^ 23" by (simp_all add: less_mult_imp_div_less div_greater_zero_iff)
  then have "widen_magnitude n = (n div 2 ^ 23 + 896) * 2 ^ 52 + n mod 2 ^ 23 * 2 ^ 29" by (simp add: widen_magnitude_def Let_def)
  also have "\<dots> = (n div 2 ^ 23 * 2 ^ 23 + n mod 2 ^ 23) * 2 ^ 29 + 896 * 2 ^ 52"
    unfolding distrib_right by (simp del: div_mult_mod_eq)
  finally show ?thesis unfolding div_mult_mod_eq .
qed

lemma widen_infinity: "widen_magnitude (255 * 2 ^ 23) = 2047 * 2 ^ 52"
  by (simp add: widen_magnitude_def)

lemma widen_nan: "255 * 2 ^ 23 < n \<Longrightarrow> n < 2 ^ 31 \<Longrightarrow> 2047 * 2 ^ 52 < widen_magnitude n \<and> widen_magnitude n < 2 ^ 63"
proof -
  assume n: "255 * 2 ^ 23 < n" "n < 2 ^ 31"
  then have "n div 2 ^ 23 = 255" by simp
  moreover from this n(1) have "0 < n mod 2 ^ 23" using div_mult_mod_eq [of n "2 ^ 23"] by (metis add_0_right gr0I less_irrefl)
  moreover have "n mod 2 ^ 23 < 2 ^ 23" by simp
  ultimately show ?thesis by (simp add: widen_magnitude_def Let_def)
qed

lemma widen_mono:
  assumes "a < b" "b \<le> 255 * 2 ^ 23"
  shows "widen_magnitude a < widen_magnitude b"
proof -
  consider "b < 2 ^ 23" | "2 ^ 23 \<le> b" "b < 255 * 2 ^ 23" | "b = 255 * 2 ^ 23" using assms(2) by linarith
  then show ?thesis
  proof cases
    case 1
    note wb = widen_subnormal [of b]
    show ?thesis
    proof (cases "a = 0")
      case True
      then show ?thesis using wb(2) 1 assms(1) by (simp add: widen_zero)
    next
      case False
      note wa = widen_subnormal [of a]
      have le: "top_bit_of a \<le> top_bit_of b"
        using top_bit_of_less [of a "Suc (top_bit_of b)"] top_bit_of_bounds [of b] False assms(1) by simp
      show ?thesis
      proof (cases "top_bit_of a = top_bit_of b")
        case True
        have "a - 2 ^ top_bit_of a < b - 2 ^ top_bit_of a"
          using assms(1) top_bit_of_bounds [of a] \<open>a \<noteq> 0\<close> by (intro diff_less_mono) auto
        then show ?thesis using wa(1) wb(1) 1 assms(1) False True by simp
      next
        case False
        with le have "(top_bit_of a + 875) * 2 ^ 52 \<le> (top_bit_of b + 874) * 2 ^ 52" by simp
        then show ?thesis using wa(3) wb(2) 1 assms(1) \<open>a \<noteq> 0\<close> by (meson gr0I less_le_trans less_trans)
      qed
    qed
  next
    case 2
    have "896 * 2 ^ 52 + 2 ^ 52 \<le> widen_magnitude b" using widen_normal [OF 2] 2(1) by simp
    moreover have "widen_magnitude a < 897 * 2 ^ 52" if "a < 2 ^ 23"
      using widen_subnormal(3,4) [of a] that widen_zero by (cases "a = 0") auto
    ultimately show ?thesis using widen_normal [OF 2] widen_normal [of a] assms(1) 2 by (cases "a < 2 ^ 23") auto
  next
    case 3
    have "widen_magnitude a < 897 * 2 ^ 52" if "a < 2 ^ 23"
      using widen_subnormal(3,4) [of a] that widen_zero by (cases "a = 0") auto
    then show ?thesis using widen_normal [of a] assms(1) 3 widen_infinity by (cases "a < 2 ^ 23") auto
  qed
qed

definition wide_rank :: "int \<Rightarrow> int" where
  "wide_rank i = (if i \<ge> 0 then int (widen_magnitude (nat i)) else - int (widen_magnitude (nat (- i))))"

lemma widen_bound: "n < 2 ^ 31 \<Longrightarrow> widen_magnitude n < 2 ^ 63"
  using widen_nan [of n] widen_mono [of n "255 * 2 ^ 23"] widen_infinity by (cases "n < 255 * 2 ^ 23"; cases "n = 255 * 2 ^ 23") auto

lemma unat_widen_float: "unat (widen_float f) = unat f div 2 ^ 31 * 2 ^ 63 + widen_magnitude (unat f mod 2 ^ 31)"
proof -
  have "unat f < 2 ^ 32" using unat_less [of f] by simp
  then have "unat f div 2 ^ 31 < 2" by simp
  moreover have "widen_magnitude (unat f mod 2 ^ 31) < 2 ^ 63" by (rule widen_bound) simp
  ultimately have "unat f div 2 ^ 31 * 2 ^ 63 + widen_magnitude (unat f mod 2 ^ 31) < 2 ^ 64"
    by (cases "unat f div 2 ^ 31") auto
  then show ?thesis unfolding widen_float_def unat_of_nat by simp
qed

lemma widen_IsNaN: "IsNaN (widen_float f) \<longleftrightarrow> IsNaN32 f"
proof -
  let ?n = "unat f mod 2 ^ 31"
  have w: "widen_magnitude ?n < 2 ^ 63" by (rule widen_bound) simp
  have "IsNaN (widen_float f) \<longleftrightarrow> 2047 * 2 ^ 52 < widen_magnitude ?n"
    unfolding IsNaN_def unat_widen_float using mod_less [OF w] by simp
  also have "\<dots> \<longleftrightarrow> 255 * 2 ^ 23 < ?n"
    using widen_nan [of ?n] widen_mono [of ?n "255 * 2 ^ 23"] widen_infinity
    by (cases "?n < 255 * 2 ^ 23"; cases "?n = 255 * 2 ^ 23") auto
  finally show ?thesis by (simp add: IsNaN32_def)
qed

lemma widen_rank: "\<not> IsNaN32 f \<Longrightarrow> float_rank (widen_float f) = wide_rank (float_rank32 f)"
proof -
  assume nan: "\<not> IsNaN32 f"
  define n where n: "n = unat f"
  have b: "n < 2 ^ 32" using unat_less [of f] by (simp add: n)
  have w: "widen_magnitude (n mod 2 ^ 31) < 2 ^ 63" by (rule widen_bound) simp
  show ?thesis
  proof (cases "n < 2 ^ 31")
    case True
    then show ?thesis using w nan widen_IsNaN [of f]
      by (simp add: float_rank_def float_rank32_def float_pos_def wide_rank_def unat_widen_float n [symmetric])
  next
    case False
    then have "n div 2 ^ 31 = 1" "n mod 2 ^ 31 = n - 2 ^ 31" using b by (simp_all add: le_div_geq le_mod_geq)
    then show ?thesis using w nan widen_IsNaN [of f] widen_zero False
      by (cases "n = 2 ^ 31") (simp_all add: float_rank_def float_rank32_def float_pos_def wide_rank_def unat_widen_float n [symmetric] nat_diff_distrib' of_nat_diff)
  qed
qed

lemma float_rank32_bound: "\<not> IsNaN32 f \<Longrightarrow> \<bar>float_rank32 f\<bar> \<le> 255 * 2 ^ 23"
proof -
  assume "\<not> IsNaN32 f"
  then have m: "unat f mod 2 ^ 31 \<le> 255 * 2 ^ 23" by (simp add: IsNaN32_def)
  define n where n: "n = unat f"
  have "n < 2 ^ 32" using unat_less [of f] by (simp add: n)
  then show ?thesis using m \<open>\<not> IsNaN32 f\<close>
    by (cases "n < 2 ^ 31") (simp_all add: float_rank32_def n [symmetric] le_mod_geq of_nat_diff)
qed

lemma wide_rank_mono:
  assumes "i < j" "\<bar>i\<bar> \<le> 255 * 2 ^ 23" "\<bar>j\<bar> \<le> 255 * 2 ^ 23"
  shows "wide_rank i < wide_rank j"
proof -
  have pos: "0 < widen_magnitude n" if "0 < n" "n \<le> 255 * 2 ^ 23" for n
    using widen_mono [OF that] widen_zero by simp
  consider "0 \<le> i" | "i < 0" "0 \<le> j" | "j < 0" by linarith
  then show ?thesis
  proof cases
    case 1
    then show ?thesis using assms widen_mono [of "nat i" "nat j"] by (simp add: wide_rank_def)
  next
    case 2
    then have "0 < widen_magnitude (nat (- i))" using assms by (intro pos) auto
    then show ?thesis using 2 by (simp add: wide_rank_def)
  next
    case 3
    then show ?thesis using assms widen_mono [of "nat (- j)" "nat (- i)"] by (simp add: wide_rank_def)
  qed
qed

lemma wide_rank_top: "\<bar>i\<bar> \<le> 255 * 2 ^ 23 \<Longrightarrow> wide_rank i < 2 ^ 63 - 1"
proof (cases "0 \<le> i")
  case True
  assume "\<bar>i\<bar> \<le> 255 * 2 ^ 23"
  with True have "nat i \<le> 255 * 2 ^ 23" by simp
  then have "widen_magnitude (nat i) \<le> 2047 * 2 ^ 52" using widen_mono [of "nat i" "255 * 2 ^ 23"] widen_infinity by (cases "nat i = 255 * 2 ^ 23") auto
  then show ?thesis using True by (simp add: wide_rank_def)
qed (simp add: wide_rank_def)

lemma widen_order: "sgn (float_rank (widen_float f) - float_rank (widen_float g)) = sgn (float_rank32 f - float_rank32 g)"
proof -
  have nan: "float_rank (widen_float h) = 2 ^ 63 - 1" "float_rank32 h = 2 ^ 31 - 1" if "IsNaN32 h" for h
    using that by (simp_all add: float_rank_def float_rank32_def widen_IsNaN)
  note num = widen_rank float_rank32_bound wide_rank_top [OF float_rank32_bound]
  show ?thesis
  proof (cases "IsNaN32 f"; cases "IsNaN32 g")
    assume "\<not> IsNaN32 f" "\<not> IsNaN32 g"
    then show ?thesis
      using num [of f] num [of g] wide_rank_mono [of "float_rank32 f" "float_rank32 g"] wide_rank_mono [of "float_rank32 g" "float_rank32 f"]
      by (cases "float_rank32 f" "float_rank32 g" rule: linorder_cases) (simp_all add: sgn_if)
  qed (use nan num [of f] num [of g] in \<open>auto simp: sgn_if abs_le_iff\<close>)
qed

lemma sint_scast:
  "sint (scast x4 :: 64 word) = sint (x4 :: 32 word)" "sint (scast x2 :: 64 word) = sint (x2 :: 16 word)"
  "sint (scast x2 :: 32 word) = sint (x2 :: 16 word)"
  by (simp_all add: sint_up_scast is_up)

lemma convertCell_cases:
  assumes "convertCell v from to = Inr v'" "encode_body from v = Inr e"
  obtains "col_type from = col_type to" "v' = v"
  | x where "v = CInt2 x" "col_type from = TypeInt2" "col_type to = TypeInt4" "v' = CInt4 (scast x)"
  | x where "v = CInt2 x" "col_type from = TypeInt2" "col_type to = TypeInt8" "v' = CInt8 (scast x)"
  | x where "v = CInt4 x" "col_type from = TypeInt4" "col_type to = TypeInt8" "v' = CInt8 (scast x)"
  | x where "v = CFloat4 x" "col_type from = TypeFloat4" "col_type to = TypeFloat8" "v' = CFloat8 (widen_float x)"
  | x where "v = CString x" "col_type from = TypeVarchar" "col_type to = TypeText" "v' = v" "Valid x" "e = cell_escape x"
  using assms encode_body_value [OF assms(2)] unfolding encode_body_Inr
  by (auto simp: convertCell_def convertible_def and_then_Inr Let_def split: if_splits)

lemma cell_order_values:
  "cell_order (CInt2 x) (CInt2 y) = sint x - sint y" "cell_order (CInt4 a) (CInt4 b) = sint a - sint b"
  "cell_order (CInt8 c) (CInt8 d) = sint c - sint d" "cell_order (CFloat4 f) (CFloat4 g) = float_rank32 f - float_rank32 g"
  "cell_order (CFloat8 h) (CFloat8 i) = float_rank h - float_rank i"
  by (simp_all add: cell_order_def)

lemma convertCell_order:
  assumes "convertCell v from to = Inr v'" "convertCell w from to = Inr w'" "encode_body from v = Inr e" "encode_body from w = Inr f"
  shows "sgn (cell_order v' w') = sgn (cell_order v w)"
  by (rule convertCell_cases [OF assms(1,3)]; rule convertCell_cases [OF assms(2,4)])
    (simp_all add: cell_order_values sint_scast widen_order)

lemma convertCell_fits:
  assumes "convertCell v from to = Inr v'" "encode_body from v = Inr e" "length e < MaxCellLen"
    "col_type from = TypeVarchar \<Longrightarrow> col_type to = TypeVarchar \<Longrightarrow> col_maxlen from \<le> col_maxlen to"
  shows "\<exists>f. encode_body to v' = Inr f \<and> length f < MaxCellLen"
proof (rule convertCell_cases [OF assms(1,2)])
  assume same: "col_type from = col_type to" "v' = v"
  have "encode_body to v = Inr e"
  proof (cases "col_type to = TypeVarchar")
    case True
    then have "unat (col_maxlen from) \<le> unat (col_maxlen to)" using assms(4) same by (simp add: word_le_nat_alt)
    then show ?thesis using assms(2) same(1) True unfolding encode_body_Inr by auto
  next
    case False
    then show ?thesis using assms(2) unfolding encode_body_Inr same(1) by simp
  qed
  then show ?thesis using same assms(3) by auto
qed (use assms(3) in \<open>auto simp: encode_body_Inr sign_flipped_def MaxCellLen_def\<close>)

text \<open>
  C19. Widening a column keeps its values: two values stored under the old column convert to values of the new one that
  sort as they did (an integer and a float keep their value, a varchar its text), and a value that is
  converted fits the new column, unless it is NULL in a column that is not nullable or the varchar's length shrank.
\<close>

theorem widening_keeps_values:
  assumes "encodeCell from v = Inr e" "encodeCell from w = Inr f" "convertCell v from to = Inr v'" "convertCell w from to = Inr w'"
    "col_nullable from \<longrightarrow> col_nullable to" "col_type from = TypeVarchar \<and> col_type to = TypeVarchar \<longrightarrow> col_maxlen from \<le> col_maxlen to"
  shows "sgn (cell_order v' w') = sgn (cell_order v w) \<and> (\<exists>e'. encodeCell to v' = Inr e')"
proof -
  have body: "\<exists>b. encode_body from x = Inr b \<and> length b < MaxCellLen" if "encodeCell from x = Inr g" "x \<noteq> CNull" for x g
    using that by (auto simp: encodeCell_def and_then_Inr split: if_splits)
  have null: "x' = CNull" if "convertCell CNull from to = Inr x'" for x'
    using that by (auto simp: convertCell_def and_then_Inr)
  have nonnull: "x' \<noteq> CNull" if "convertCell x from to = Inr x'" "x \<noteq> CNull" for x x'
    using that by (auto simp: convertCell_def and_then_Inr split: if_splits cell.splits)
  have fits: "\<exists>e'. encodeCell to v' = Inr e'"
  proof (cases "v = CNull")
    case True
    then show ?thesis using assms(1,3,5) null by (auto simp: encodeCell_def split: if_splits)
  next
    case False
    from body [OF assms(1) False] obtain b where "encode_body from v = Inr b" "length b < MaxCellLen" by blast
    from convertCell_fits [OF assms(3) this] assms(6) obtain f where "encode_body to v' = Inr f" "length f < MaxCellLen" by blast
    then show ?thesis using nonnull [OF assms(3) False] by (simp add: encodeCell_def)
  qed
  have "sgn (cell_order v' w') = sgn (cell_order v w)"
  proof (cases "v = CNull \<or> w = CNull")
    case True
    then show ?thesis
      using assms(3,4) null nonnull [OF assms(3)] nonnull [OF assms(4)] cell_order_nulls by (cases "v = CNull"; cases "w = CNull") force+
  next
    case False
    then show ?thesis using body [OF assms(1)] body [OF assms(2)] convertCell_order [OF assms(3,4)] by blast
  qed
  with fits show ?thesis by blast
qed

definition wide_price :: column where
  "wide_price = price\<lparr>col_type := TypeInt8\<rparr>"

theorem widening_keeps_values_witness:
  "sgn (cell_order (CInt8 (scast (- 2 :: 32 word))) (CInt8 (scast (258 :: 32 word)))) = sgn (cell_order (CInt4 (- 2)) (CInt4 258)) \<and>
    (\<exists>e'. encodeCell wide_price (CInt8 (scast (- 2 :: 32 word))) = Inr e')"
  by (rule widening_keeps_values [OF price_cells])
    (simp_all add: convertCell_def convertible_def wide_price_def price_def)

text \<open>\<open>mergeColumn\<close> gives one of two reasons for the same three columns, by the order its map is ranged over.\<close>

theorem mergeColumn_reason_varies:
  "let b = price\<lparr>col_type := TypeVarchar, col_maxlen := 5\<rparr>;
       x = b\<lparr>col_name := ''cost'', col_maxlen := 6\<rparr>; y = b\<lparr>col_name := ''sum'', col_maxlen := 7\<rparr> in
   range_order attributes \<and> range_order (rev attributes) \<and>
   snd (mergeColumn attributes b x y) = ''the name changed differently on both sides'' \<and>
   snd (mergeColumn (rev attributes) b x y) = ''the length changed differently on both sides''"
proof -
  have "set (rev attributes) = set attributes" by (rule set_rev)
  then show ?thesis by (simp add: mergeColumn_def attributes_def range_order_def price_def Scalar_by_def Clean_def Let_def)
qed

end
