(* ===== verification/Table_Store.thy ===== *)
theory Table_Store
  imports Table_Widen
begin

text \<open>
  The table store (src/model/table/store.go): rows, keys and index entries as bytes, tables over the storage core's maps,
  the editor and its flush, the root record, opening and creating tables. A table's schema, primary map and index
  maps are the record \<open>table\<close>; the storage core is the record \<open>table_port\<close>, and what the table relies on of it the
  locale \<open>table_laws\<close>.
\<close>

section \<open>The storage core under a table\<close>

text \<open>
  The maps a table is kept in and the store of its root record, with the configuration fixed but for the longest value
  of a map, which the table sets: \<open>prolly.Empty\<close>, \<open>Open\<close>, \<open>Get\<close>, \<open>IterRange\<close> (an empty lower bound is the start, no upper
  bound the end), \<open>Diff\<close>, the editor, and the chunk store's \<open>Put\<close> and \<open>Get\<close>. A hash is its 32 bytes.
\<close>

record ('m, 'e) table_port =
  tp_max_key :: nat
  tp_empty :: "nat \<Rightarrow> 'm result"
  tp_open :: "nat \<Rightarrow> bytes \<Rightarrow> 'm result"
  tp_root :: "'m \<Rightarrow> bytes"
  tp_count :: "'m \<Rightarrow> uint64"
  tp_get :: "'m \<Rightarrow> bytes \<Rightarrow> bytes option result"
  tp_range :: "'m \<Rightarrow> bytes \<Rightarrow> bytes option \<Rightarrow> (bytes \<times> bytes) iter result"
  tp_diff :: "'m \<Rightarrow> 'm \<Rightarrow> change iter result"
  tp_editor :: "'m \<Rightarrow> 'e"
  te_put :: "'e \<Rightarrow> bytes \<Rightarrow> bytes \<Rightarrow> 'e result"
  te_delete :: "'e \<Rightarrow> bytes \<Rightarrow> 'e result"
  te_flush :: "'e \<Rightarrow> 'm result"
  cs_put :: "bytes \<Rightarrow> bytes result"
  cs_get :: "bytes \<Rightarrow> bytes result"

text \<open>What the table relies on, as laws of the content of a map whenever an operation succeeds.\<close>

locale table_laws =
  fixes P :: "('m, 'e) table_port"
    and content :: "'m \<Rightarrow> (bytes \<rightharpoonup> bytes)"
    and pending :: "'e \<Rightarrow> (bytes \<rightharpoonup> bytes)"
  assumes tp_empty: "tp_empty P n = Inr m \<Longrightarrow> content m = Map.empty"
    and tp_get: "tp_get P m k = Inr held \<Longrightarrow> held = content m k"
    and tp_range: "tp_range P m lo hi = Inr (kvs, None) \<Longrightarrow> sorted_wrt (<) (map fst kvs) \<and>
      (\<forall>k v. (k, v) \<in> set kvs \<longleftrightarrow> content m k = Some v \<and> lo \<le> k \<and> (\<forall>h. hi = Some h \<longrightarrow> k < h))"
    and tp_diff: "tp_diff P m m' = Inr (cs, None) \<Longrightarrow> sorted_wrt (<) (map ch_key cs) \<and>
      set cs = change_of (content m) (content m') ` {k. content m k \<noteq> content m' k}"
    and tp_editor: "pending (tp_editor P m) = content m"
    and te_put: "te_put P e k v = Inr e' \<Longrightarrow> pending e' = (pending e)(k \<mapsto> v)"
    and te_delete: "te_delete P e k = Inr e' \<Longrightarrow> pending e' = (pending e)(k := None)"
    and te_flush: "te_flush P e = Inr m \<Longrightarrow> content m = pending e"

section \<open>Rows\<close>

type_synonym key = "cell list"

definition keyed :: "schema \<Rightarrow> bool" where
  "keyed s \<longleftrightarrow> length (sch_key s) > 0"

text \<open>\<open>c, _, _ := t.schema.column(tag)\<close>.\<close>

definition column_of :: "schema \<Rightarrow> tag \<Rightarrow> column" where
  "column_of s t = (case schema_column s t of None \<Rightarrow> zero_column | Some c \<Rightarrow> c)"

text \<open>The loops that append and read one cell per column.\<close>

fun encode_cells :: "(column \<times> cell) list \<Rightarrow> bytes result" where
  "encode_cells [] = Inr []"
| "encode_cells ((c, v) # cvs) = and_then (encodeCell c v) (\<lambda>b. and_then (encode_cells cvs) (\<lambda>bs. Inr (b @ bs)))"

fun decode_cells :: "column list \<Rightarrow> bytes \<Rightarrow> (cell list \<times> bytes) result" where
  "decode_cells [] b = Inr ([], b)"
| "decode_cells (c # cs) b =
     and_then (decodeCell b c) (\<lambda>(v, b). and_then (decode_cells cs b) (\<lambda>(vs, b). Inr (v # vs, b)))"

definition encodeKey :: "('m, 'e) table_port \<Rightarrow> schema \<Rightarrow> key \<Rightarrow> bytes result" where
  "encodeKey P s key =
     (if \<not> keyed s then
        (if length key \<noteq> 1 then Inl [ErrCell]
         else case key ! 0 of CRowID rid \<Rightarrow> Inr rid | _ \<Rightarrow> Inl [ErrCell])
      else if length key \<noteq> length (sch_key s) then Inl [ErrCell]
      else
        and_then (encode_cells (zip (map (column_of s) (sch_key s)) key)) (\<lambda>b.
          if length b > tp_max_key P then Inl [ErrCell] else Inr b))"

definition decodeKey :: "schema \<Rightarrow> bytes \<Rightarrow> key result" where
  "decodeKey s b =
     (if \<not> keyed s then (if length b \<noteq> 16 then Inl [ErrCorrupt] else Inr [CRowID b])
      else and_then (decode_cells (map (column_of s) (sch_key s)) b) (\<lambda>(key, b).
        if length b \<noteq> 0 then Inl [ErrCorrupt] else Inr key))"

definition value_columns :: "schema \<Rightarrow> column list" where
  "value_columns s = filter (\<lambda>c. \<not> isKey s (col_tag c)) (sch_columns s)"

definition encodeValue :: "schema \<Rightarrow> row \<Rightarrow> bytes result" where
  "encodeValue s r =
     (if \<not> fBall (fmdom r) (\<lambda>t. schema_column s t \<noteq> None) then Inl [ErrCell]
      else encode_cells (map (\<lambda>c. (c, cell_at r (col_tag c))) (value_columns s)))"

definition set_cell :: "column \<times> cell \<Rightarrow> row \<Rightarrow> row" where
  "set_cell cv r = (if snd cv \<noteq> CNull then fmupd (col_tag (fst cv)) (snd cv) r else r)"

definition decodeValue :: "schema \<Rightarrow> bytes \<Rightarrow> row \<Rightarrow> row result" where
  "decodeValue s b r =
     and_then (decode_cells (value_columns s) b) (\<lambda>(vs, b).
       if length b \<noteq> 0 then Inl [ErrCorrupt] else Inr (fold set_cell (zip (value_columns s) vs) r))"

text \<open>\<open>for i, tag := range t.schema.PrimaryKey { row[tag] = key[i] }\<close>\<close>

definition with_key :: "schema \<Rightarrow> key \<Rightarrow> row \<Rightarrow> row" where
  "with_key s key r = fold (\<lambda>(t, v) r. fmupd t v r) (zip (sch_key s) key) r"

definition decodeRow :: "schema \<Rightarrow> bytes \<Rightarrow> bytes \<Rightarrow> (key \<times> row) result" where
  "decodeRow s kb vb =
     and_then (decodeKey s kb) (\<lambda>key.
     and_then (decodeValue s vb (with_key s key fmempty)) (\<lambda>r. Inr (key, r)))"

fun key_cells :: "tag list \<Rightarrow> row \<Rightarrow> key result" where
  "key_cells [] r = Inr []"
| "key_cells (t # ts) r =
     (case fmlookup r t of None \<Rightarrow> Inl [ErrCell] | Some v \<Rightarrow> and_then (key_cells ts r) (\<lambda>vs. Inr (v # vs)))"

definition keyOf :: "schema \<Rightarrow> row \<Rightarrow> key result" where
  "keyOf s r = key_cells (sch_key s) r"

definition indexKey :: "('m, 'e) table_port \<Rightarrow> schema \<Rightarrow> index \<Rightarrow> row \<Rightarrow> bytes \<Rightarrow> bytes result" where
  "indexKey P s ix r kb =
     and_then (encode_cells (map (\<lambda>t. (column_of s t, cell_at r t)) (ix_columns ix))) (\<lambda>b.
       if length (b @ kb) > tp_max_key P then Inl [ErrCell] else Inr (b @ kb))"

definition rowKeyOfIndexEntry :: "schema \<Rightarrow> index \<Rightarrow> bytes \<Rightarrow> bytes result" where
  "rowKeyOfIndexEntry s ix b =
     and_then (decode_cells (map (column_of s) (ix_columns ix)) b) (\<lambda>(_, b). Inr b)"

section \<open>Tables\<close>

record model_root =
  root_hash :: bytes
  root_size :: uint64
  root_format :: "16 word"
  root_depth :: nat

record 'm table =
  tb_schema :: schema
  tb_catalog :: bytes
  tb_primary :: 'm
  tb_indexes :: "(tag, 'm) fmap"
  tb_root :: model_root

definition rowConfig :: "schema \<Rightarrow> nat" where
  "rowConfig s = max (sum_list (map maxCell (value_columns s))) 1"

definition indexConfig :: nat where
  "indexConfig = 1"

definition table_Get :: "('m, 'e) table_port \<Rightarrow> 'm table \<Rightarrow> key \<Rightarrow> row option result" where
  "table_Get P t key =
     and_then (encodeKey P (tb_schema t) key) (\<lambda>kb.
     and_then (tp_get P (tb_primary t) kb) (\<lambda>held.
       case held of None \<Rightarrow> Inr None
       | Some vb \<Rightarrow> and_then (decodeRow (tb_schema t) kb vb) (\<lambda>(_, r). Inr (Some r))))"

text \<open>The rows \<open>Rows.Next\<close> returns, to the end or the first error: of a scan, and of an index.\<close>

fun scan_rows :: "schema \<Rightarrow> (bytes \<times> bytes) list \<Rightarrow> error option \<Rightarrow> (key \<times> row) iter" where
  "scan_rows s [] stop = ([], stop)"
| "scan_rows s ((kb, vb) # kvs) stop =
     (case decodeRow s kb vb of
        Inl e \<Rightarrow> ([], Some e)
      | Inr kr \<Rightarrow> (case scan_rows s kvs stop of (rs, e) \<Rightarrow> (kr # rs, e)))"

definition index_row :: "('m, 'e) table_port \<Rightarrow> 'm table \<Rightarrow> index \<Rightarrow> bytes \<Rightarrow> bytes \<Rightarrow> (key \<times> row) result" where
  "index_row P t ix b vb =
     (if length vb \<noteq> 0 then Inl [ErrCorrupt]
      else
        and_then (rowKeyOfIndexEntry (tb_schema t) ix b) (\<lambda>kb.
        and_then (tp_get P (tb_primary t) kb) (\<lambda>held.
          case held of None \<Rightarrow> Inl [ErrCorrupt] | Some vb \<Rightarrow> decodeRow (tb_schema t) kb vb)))"

fun index_rows :: "('m, 'e) table_port \<Rightarrow> 'm table \<Rightarrow> index \<Rightarrow> (bytes \<times> bytes) list \<Rightarrow> error option \<Rightarrow> (key \<times> row) iter" where
  "index_rows P t ix [] stop = ([], stop)"
| "index_rows P t ix ((b, vb) # kvs) stop =
     (case index_row P t ix b vb of
        Inl e \<Rightarrow> ([], Some e)
      | Inr kr \<Rightarrow> (case index_rows P t ix kvs stop of (rs, e) \<Rightarrow> (kr # rs, e)))"

definition table_Scan :: "('m, 'e) table_port \<Rightarrow> 'm table \<Rightarrow> (key \<times> row) iter result" where
  "table_Scan P t = and_then (tp_range P (tb_primary t) [] None) (\<lambda>(kvs, stop). Inr (scan_rows (tb_schema t) kvs stop))"

fun succ_rev :: "bytes \<Rightarrow> bytes option" where
  "succ_rev [] = None"
| "succ_rev (c # cs) = (if c \<noteq> CHR 0xFF then Some (byte_of (bval c + 1) # cs) else succ_rev cs)"

text \<open>The loop of \<open>successor\<close> goes from the last byte to the first.\<close>

definition successor :: "bytes \<Rightarrow> bytes option" where
  "successor p = (case succ_rev (rev p) of None \<Rightarrow> None | Some s \<Rightarrow> Some (rev s))"

text \<open>A table has a map for every index of its schema; the case of none, which in the code is a panic, does not arise.\<close>

definition IndexLookup :: "('m, 'e) table_port \<Rightarrow> 'm table \<Rightarrow> tag \<Rightarrow> cell list \<Rightarrow> (key \<times> row) iter result" where
  "IndexLookup P t idx values =
     (case find (\<lambda>ix. ix_tag ix = idx) (rev (sch_indexes (tb_schema t))) of
        None \<Rightarrow> Inl [ErrCell]
      | Some ix \<Rightarrow>
         if length values > length (ix_columns ix) then Inl [ErrCell]
         else
           and_then (encode_cells (zip (map (column_of (tb_schema t)) (ix_columns ix)) values)) (\<lambda>lo.
             case fmlookup (tb_indexes t) idx of
               None \<Rightarrow> Inl [ErrStore]
             | Some m \<Rightarrow>
                and_then (tp_range P m lo (successor lo)) (\<lambda>(kvs, stop). Inr (index_rows P t ix kvs stop))))"

section \<open>The root record\<close>

definition rootMagic :: bytes where
  "rootMagic = ''VDTR''"

definition MaxCatalogLen :: nat where
  "MaxCatalogLen = 1048576"

record indexRoot =
  ir_tag :: tag
  ir_root :: bytes
  ir_count :: uint64

record rootRecord =
  rr_catalog :: bytes
  rr_primary :: indexRoot
  rr_indexes :: "indexRoot list"

definition write_index_root :: "wire \<Rightarrow> indexRoot \<Rightarrow> bytes" where
  "write_index_root W ix = w_u16 W (ir_tag ix) @ ir_root ix @ w_u64 W (ir_count ix)"

definition encodeRoot :: "wire \<Rightarrow> rootRecord \<Rightarrow> bytes" where
  "encodeRoot W r =
     rootMagic @ w_u16 W catalog_format @ w_lenbytes W (rr_catalog r) @
     ir_root (rr_primary r) @ w_u64 W (ir_count (rr_primary r)) @
     w_uvarint W (length (rr_indexes r)) @ concat (map (write_index_root W) (rr_indexes r))"

definition read_index_root :: "wire \<Rightarrow> bytes \<Rightarrow> (indexRoot \<times> bytes) result" where
  "read_index_root W b =
     and_then (reading (rd_u16 W b)) (\<lambda>(t, b).
     and_then (reading (rd_raw 32 b)) (\<lambda>(h, b).
     and_then (reading (rd_u64 W b)) (\<lambda>(n, b). Inr (\<lparr>ir_tag = t, ir_root = h, ir_count = n\<rparr>, b))))"

fun check_index_roots :: "uint64 \<Rightarrow> indexRoot list \<Rightarrow> index list \<Rightarrow> unit result" where
  "check_index_roots n (r # rs) (ix # ixs) =
     (if ir_tag r \<noteq> ix_tag ix then Inl [ErrCorrupt]
      else if ir_count r \<noteq> n then Inl [ErrCorrupt]
      else check_index_roots n rs ixs)"
| "check_index_roots n _ _ = Inr ()"

definition decodeRoot :: "wire \<Rightarrow> bytes \<Rightarrow> rootRecord result" where
  "decodeRoot W b =
     and_then (reading (rd_raw (length rootMagic) b)) (\<lambda>(magic, b).
     ensure (magic = rootMagic) [ErrCorrupt] (
     and_then (reading (rd_u16 W b)) (\<lambda>(v, b).
     ensure (v = catalog_format) [ErrCorrupt] (
     and_then (reading (rd_lenbytes W MaxCatalogLen b)) (\<lambda>(cat, b).
     and_then (reading (rd_raw 32 b)) (\<lambda>(h, b).
     and_then (reading (rd_u64 W b)) (\<lambda>(n, b).
     and_then (bounded W MaxIndexes b) (\<lambda>(k, b).
     and_then (read_n (read_index_root W) k b) (\<lambda>(ixs, b).
     ensure (b = []) [ErrCorrupt, ErrWire] (
     and_then (DecodeCatalog W cat) (\<lambda>s.
     ensure (length ixs = length (sch_indexes s)) [ErrCorrupt] (
     and_then (check_index_roots n ixs (sch_indexes s)) (\<lambda>_.
       Inr \<lparr>rr_catalog = cat, rr_primary = \<lparr>ir_tag = 0, ir_root = h, ir_count = n\<rparr>, rr_indexes = ixs\<rparr>)))))))))))))"

section \<open>Creating and opening tables\<close>

fun empty_indexes :: "('m, 'e) table_port \<Rightarrow> index list \<Rightarrow> (tag, 'm) fmap \<Rightarrow> (tag, 'm) fmap result" where
  "empty_indexes P [] ms = Inr ms"
| "empty_indexes P (ix # ixs) ms =
     and_then (tp_empty P indexConfig) (\<lambda>m. empty_indexes P ixs (fmupd (ix_tag ix) m ms))"

definition zero_root :: model_root where
  "zero_root = \<lparr>root_hash = [], root_size = 0, root_format = 0, root_depth = 0\<rparr>"

definition empty_table :: "wire \<Rightarrow> ('m, 'e) table_port \<Rightarrow> schema \<Rightarrow> 'm table result" where
  "empty_table W P s =
     and_then (EncodeCatalog W s) (\<lambda>cat.
     and_then (tp_empty P (rowConfig s)) (\<lambda>m.
     and_then (empty_indexes P (sch_indexes s) fmempty) (\<lambda>ms.
       Inr \<lparr>tb_schema = s, tb_catalog = cat, tb_primary = m, tb_indexes = ms, tb_root = zero_root\<rparr>)))"

text \<open>\<open>t.indexes[ix.Tag]\<close>; a table has a map for each of its indexes, and the code panics on one without.\<close>

definition index_map :: "'m table \<Rightarrow> tag \<Rightarrow> 'm" where
  "index_map t i = (case fmlookup (tb_indexes t) i of Some m \<Rightarrow> m | None \<Rightarrow> tb_primary t)"

definition root_record :: "('m, 'e) table_port \<Rightarrow> 'm table \<Rightarrow> rootRecord" where
  "root_record P t =
     \<lparr>rr_catalog = tb_catalog t,
      rr_primary = \<lparr>ir_tag = 0, ir_root = tp_root P (tb_primary t), ir_count = tp_count P (tb_primary t)\<rparr>,
      rr_indexes = map (\<lambda>ix. \<lparr>ir_tag = ix_tag ix, ir_root = tp_root P (index_map t (ix_tag ix)),
        ir_count = tp_count P (index_map t (ix_tag ix))\<rparr>) (sch_indexes (tb_schema t))\<rparr>"

definition writeRoot :: "wire \<Rightarrow> ('m, 'e) table_port \<Rightarrow> 'm table \<Rightarrow> 'm table result" where
  "writeRoot W P t =
     and_then (cs_put P (encodeRoot W (root_record P t))) (\<lambda>h.
       Inr (t\<lparr>tb_root := \<lparr>root_hash = h, root_size = tp_count P (tb_primary t), root_format = catalog_format, root_depth = 0\<rparr>\<rparr>))"

definition Create :: "wire \<Rightarrow> ('m, 'e) table_port \<Rightarrow> schema \<Rightarrow> 'm table result" where
  "Create W P s = and_then (empty_table W P s) (writeRoot W P)"

definition openMap :: "('m, 'e) table_port \<Rightarrow> nat \<Rightarrow> indexRoot \<Rightarrow> 'm result" where
  "openMap P n ir =
     and_then (tp_open P n (ir_root ir)) (\<lambda>m. if tp_count P m \<noteq> ir_count ir then Inl [ErrCorrupt] else Inr m)"

fun open_indexes :: "('m, 'e) table_port \<Rightarrow> (index \<times> indexRoot) list \<Rightarrow> (tag, 'm) fmap \<Rightarrow> (tag, 'm) fmap result" where
  "open_indexes P [] ms = Inr ms"
| "open_indexes P ((ix, ir) # irs) ms =
     and_then (openMap P indexConfig ir) (\<lambda>m. open_indexes P irs (fmupd (ix_tag ix) m ms))"

definition table_Open :: "wire \<Rightarrow> ('m, 'e) table_port \<Rightarrow> model_root \<Rightarrow> 'm table result" where
  "table_Open W P rt =
     (if root_format rt \<noteq> catalog_format then Inl [ErrUnknownModel]
      else if root_depth rt \<noteq> 0 then Inl [ErrCorrupt]
      else
        and_then (cs_get P (root_hash rt)) (\<lambda>b.
        and_then (decodeRoot W b) (\<lambda>r.
        and_then (DecodeCatalog W (rr_catalog r)) (\<lambda>s.
        ensure (ir_count (rr_primary r) = root_size rt) [ErrCorrupt] (
        and_then (openMap P (rowConfig s) (rr_primary r)) (\<lambda>m.
        and_then (open_indexes P (zip (sch_indexes s) (rr_indexes r)) fmempty) (\<lambda>ms.
          Inr \<lparr>tb_schema = s, tb_catalog = rr_catalog r, tb_primary = m, tb_indexes = ms, tb_root = rt\<rparr>)))))))"

section \<open>The editor\<close>

record pendingRow =
  p_key :: key
  p_row :: "row option"
  p_vb :: bytes

record 'm editor =
  ed_t :: "'m table"
  ed_pending :: "(bytes, pendingRow) fmap"
  ed_order :: "bytes list"

definition Edit :: "'m table \<Rightarrow> 'm editor" where
  "Edit t = \<lparr>ed_t = t, ed_pending = fmempty, ed_order = []\<rparr>"

text \<open>The value of a row and whether it exists, after the pending edits: the first is used by no caller.\<close>

definition exists :: "('m, 'e) table_port \<Rightarrow> 'm editor \<Rightarrow> bytes \<Rightarrow> bytes option result" where
  "exists P e kb =
     (case fmlookup (ed_pending e) kb of
        Some p \<Rightarrow> Inr (if p_row p \<noteq> None then Some (p_vb p) else None)
      | None \<Rightarrow> tp_get P (tb_primary (ed_t e)) kb)"

definition ed_set :: "'m editor \<Rightarrow> bytes \<Rightarrow> pendingRow \<Rightarrow> 'm editor" where
  "ed_set e kb p =
     e\<lparr>ed_order := (if fmlookup (ed_pending e) kb = None then ed_order e @ [kb] else ed_order e),
       ed_pending := fmupd kb p (ed_pending e)\<rparr>"

definition cloneRow :: "row \<Rightarrow> key \<Rightarrow> schema \<Rightarrow> row" where
  "cloneRow r key s = with_key s key r"

definition pending_row :: "schema \<Rightarrow> key \<Rightarrow> row \<Rightarrow> bytes \<Rightarrow> pendingRow" where
  "pending_row s key r vb = \<lparr>p_key = key, p_row = Some (cloneRow r key s), p_vb = vb\<rparr>"

definition pending_delete :: "key \<Rightarrow> pendingRow" where
  "pending_delete key = \<lparr>p_key = key, p_row = None, p_vb = []\<rparr>"

text \<open>\<open>Insert\<close>; \<open>rand_id\<close> is what \<open>rand.Read\<close> gives for a row id.\<close>

definition Insert :: "('m, 'e) table_port \<Rightarrow> bytes result \<Rightarrow> 'm editor \<Rightarrow> row \<Rightarrow> ('m editor \<times> key) result" where
  "Insert P rand_id e r =
     (let s = tb_schema (ed_t e) in
      and_then (if keyed s then keyOf s r else and_then rand_id (\<lambda>rid. Inr [CRowID rid])) (\<lambda>key.
      and_then (encodeKey P s key) (\<lambda>kb.
      and_then (encodeValue s r) (\<lambda>vb.
      and_then (exists P e kb) (\<lambda>held.
        if held \<noteq> None then Inl [ErrDuplicate] else Inr (ed_set e kb (pending_row s key r vb), key))))))"

text \<open>\<open>sameCell\<close>: Go's \<open>==\<close> on two values of interface type, which for floats is IEEE equality, and equal bytes.\<close>

fun sameCell :: "cell \<Rightarrow> cell \<Rightarrow> bool" where
  "sameCell (CFloat4 x) b =
     (case b of CFloat4 y \<Rightarrow> \<not> IsNaN32 x \<and> \<not> IsNaN32 y \<and> (x = y \<or> (x = 0 \<or> x = push_bit 31 1) \<and> (y = 0 \<or> y = push_bit 31 1))
      | _ \<Rightarrow> False)"
| "sameCell (CFloat8 x) b = (case b of CFloat8 y \<Rightarrow> float_eq x y | _ \<Rightarrow> False)"
| "sameCell a b = (a = b)"

definition changes_key :: "schema \<Rightarrow> key \<Rightarrow> row \<Rightarrow> bool" where
  "changes_key s key r \<longleftrightarrow>
     list_ex (\<lambda>(t, k). case fmlookup r t of None \<Rightarrow> False | Some v \<Rightarrow> \<not> sameCell v k) (zip (sch_key s) key)"

definition Update :: "('m, 'e) table_port \<Rightarrow> 'm editor \<Rightarrow> key \<Rightarrow> row \<Rightarrow> 'm editor result" where
  "Update P e key r =
     (let s = tb_schema (ed_t e) in
      and_then (encodeKey P s key) (\<lambda>kb.
        if keyed s \<and> changes_key s key r then Inl [ErrCell]
        else
          and_then (encodeValue s r) (\<lambda>vb.
          and_then (exists P e kb) (\<lambda>held.
            if held = None then Inl [ErrNoRow] else Inr (ed_set e kb (pending_row s key r vb))))))"

definition ed_put_row :: "'m editor \<Rightarrow> bytes \<Rightarrow> key \<Rightarrow> row \<Rightarrow> 'm editor result" where
  "ed_put_row e kb key r =
     and_then (encodeValue (tb_schema (ed_t e)) r) (\<lambda>vb. Inr (ed_set e kb (pending_row (tb_schema (ed_t e)) key r vb)))"

definition ed_remove :: "'m editor \<Rightarrow> bytes \<Rightarrow> 'm editor result" where
  "ed_remove e kb = and_then (decodeKey (tb_schema (ed_t e)) kb) (\<lambda>key. Inr (ed_set e kb (pending_delete key)))"

definition Delete :: "('m, 'e) table_port \<Rightarrow> 'm editor \<Rightarrow> key \<Rightarrow> 'm editor result" where
  "Delete P e key =
     and_then (encodeKey P (tb_schema (ed_t e)) key) (\<lambda>kb.
     and_then (exists P e kb) (\<lambda>held.
       if held = None then Inl [ErrNoRow] else Inr (ed_set e kb (pending_delete key))))"

subsection \<open>Flush\<close>

text \<open>The editors of the maps while \<open>Flush\<close> runs: of the primary map and of every index.\<close>

type_synonym 'e editors = "'e \<times> (tag, 'e) fmap"

fun edit_indexes ::
  "('m, 'e) table_port \<Rightarrow> schema \<Rightarrow> ('e \<Rightarrow> bytes \<Rightarrow> 'e result) \<Rightarrow> row \<Rightarrow> bytes \<Rightarrow> index list \<Rightarrow> (tag, 'e) fmap \<Rightarrow> (tag, 'e) fmap result" where
  "edit_indexes P s edit r kb [] ies = Inr ies"
| "edit_indexes P s edit r kb (ix # ixs) ies =
     and_then (indexKey P s ix r kb) (\<lambda>ik.
       case fmlookup ies (ix_tag ix) of
         None \<Rightarrow> Inl [ErrStore]
       | Some e \<Rightarrow> and_then (edit e ik) (\<lambda>e. edit_indexes P s edit r kb ixs (fmupd (ix_tag ix) e ies)))"

definition flush_row :: "('m, 'e) table_port \<Rightarrow> 'm table \<Rightarrow> bytes \<Rightarrow> pendingRow \<Rightarrow> 'e editors \<Rightarrow> 'e editors result" where
  "flush_row P t kb p es =
     (let s = tb_schema t; (pe, ies) = es in
      and_then (tp_get P (tb_primary t) kb) (\<lambda>held.
      and_then
        (case held of None \<Rightarrow> Inr ies
         | Some vb \<Rightarrow>
            and_then (decodeRow s kb vb) (\<lambda>(_, old). edit_indexes P s (te_delete P) old kb (sch_indexes s) ies)) (\<lambda>ies.
        case p_row p of
          None \<Rightarrow> and_then (te_delete P pe kb) (\<lambda>pe. Inr (pe, ies))
        | Some r \<Rightarrow>
           and_then (te_put P pe kb (p_vb p)) (\<lambda>pe.
           and_then (edit_indexes P s (\<lambda>e ik. te_put P e ik []) r kb (sch_indexes s) ies) (\<lambda>ies. Inr (pe, ies))))))"

fun flush_rows :: "('m, 'e) table_port \<Rightarrow> 'm editor \<Rightarrow> bytes list \<Rightarrow> 'e editors \<Rightarrow> 'e editors result" where
  "flush_rows P e [] es = Inr es"
| "flush_rows P e (kb # kbs) es =
     (case fmlookup (ed_pending e) kb of
        None \<Rightarrow> Inl [ErrStore]
      | Some p \<Rightarrow> and_then (flush_row P (ed_t e) kb p es) (flush_rows P e kbs))"

text \<open>The indexes' editors are flushed in the order of a Go map; here in the schema's.\<close>

fun flush_indexes :: "('m, 'e) table_port \<Rightarrow> index list \<Rightarrow> (tag, 'e) fmap \<Rightarrow> (tag, 'm) fmap \<Rightarrow> (tag, 'm) fmap result" where
  "flush_indexes P [] ies ms = Inr ms"
| "flush_indexes P (ix # ixs) ies ms =
     (case fmlookup ies (ix_tag ix) of
        None \<Rightarrow> Inl [ErrStore]
      | Some e \<Rightarrow> and_then (te_flush P e) (\<lambda>m. flush_indexes P ixs ies (fmupd (ix_tag ix) m ms)))"

definition index_editors :: "('m, 'e) table_port \<Rightarrow> 'm table \<Rightarrow> (tag, 'e) fmap" where
  "index_editors P t =
     fold (\<lambda>ix ies. fmupd (ix_tag ix) (tp_editor P (index_map t (ix_tag ix))) ies) (sch_indexes (tb_schema t)) fmempty"

definition table_Flush :: "wire \<Rightarrow> ('m, 'e) table_port \<Rightarrow> 'm editor \<Rightarrow> ('m table \<times> 'm editor) result" where
  "table_Flush W P e =
     (let t = ed_t e in
      and_then (flush_rows P e (sort (ed_order e)) (tp_editor P (tb_primary t), index_editors P t)) (\<lambda>(pe, ies).
      and_then (te_flush P pe) (\<lambda>m.
      and_then (flush_indexes P (sch_indexes (tb_schema t)) ies fmempty) (\<lambda>ms.
      and_then (writeRoot W P \<lparr>tb_schema = tb_schema t, tb_catalog = tb_catalog t, tb_primary = m, tb_indexes = ms, tb_root = zero_root\<rparr>) (\<lambda>out.
        Inr (out, Edit out))))))"

end
