(* ===== verification/Table_Rows.thy ===== *)
theory Table_Rows
  imports Table_Store
begin

text \<open>
  Rows and keys read back as they were written, and keys sort as their cells.
\<close>

section \<open>Lists of cells\<close>

text \<open>The order of two lists of cells: by the first that differ.\<close>

fun cells_order :: "cell list \<Rightarrow> cell list \<Rightarrow> int" where
  "cells_order (v # vs) (w # ws) = (if cell_order v w = 0 then cells_order vs ws else cell_order v w)"
| "cells_order _ _ = 0"

lemma encode_cells_compares:
  assumes "encode_cells (zip cs vs) = Inr a" "encode_cells (zip cs ws) = Inr b" "list_all array16 vs" "list_all array16 ws"
    "length vs = length cs" "length ws = length cs"
  shows "compares a b (cells_order vs ws)"
  using assms
proof (induction cs arbitrary: vs ws a b)
  case Nil
  then show ?case by (simp add: compares_def)
next
  case (Cons c cs)
  then obtain v vs' w ws' where vw: "vs = v # vs'" "ws = w # ws'" by (metis length_Suc_conv)
  with Cons.prems obtain x a' y b' where "encodeCell c v = Inr x" "encode_cells (zip cs vs') = Inr a'" "a = x @ a'"
      "encodeCell c w = Inr y" "encode_cells (zip cs ws') = Inr b'" "b = y @ b'"
    by (auto simp: and_then_Inr)
  then show ?case
    using Cons.prems vw compares_append [OF encodeCell_compares [of c v x w y] Cons.IH [of vs' a' ws' b']] by simp
qed

lemma decode_encode_cells:
  assumes "encode_cells (zip cs vs) = Inr b" "list_all array16 vs" "length vs = length cs"
  shows "decode_cells cs (b @ r) = Inr (map norm_cell vs, r)"
  using assms
proof (induction cs arbitrary: vs b)
  case (Cons c cs)
  then obtain v vs' where v: "vs = v # vs'" by (metis length_Suc_conv)
  with Cons.prems obtain x b' where "encodeCell c v = Inr x" "encode_cells (zip cs vs') = Inr b'" "b = x @ b'"
    by (auto simp: and_then_Inr)
  then show ?case using Cons v decode_encodeCell [of c v x "b' @ r"] by simp
qed simp

lemma decode_cells_Inr:
  assumes "decode_cells cs b = Inr (vs, r)" "length b \<le> MaxCellLen + length r"
  shows "length vs = length cs \<and> list_all array16 vs \<and> map norm_cell vs = vs \<and> (\<exists>e. b = e @ r \<and> encode_cells (zip cs vs) = Inr e)"
  using assms
proof (induction cs arbitrary: b vs)
  case (Cons c cs)
  then obtain v t vs' where v: "decodeCell b c = Inr (v, t)" "decode_cells cs t = Inr (vs', r)" "vs = v # vs'"
    by (auto simp: and_then_Inr)
  from decodeCell_Inr [OF v(1)] obtain e where e: "b = e @ t" "encodeCell c v = (if length e \<le> MaxCellLen then Inr e else Inl [ErrCell])"
      "norm_cell v = v" "array16 v" by blast
  have "length t \<le> MaxCellLen + length r" using Cons.prems(2) e(1) by simp
  from Cons.IH [OF v(2) this] obtain e' where e': "length vs' = length cs" "list_all array16 vs'" "map norm_cell vs' = vs'" "t = e' @ r"
      "encode_cells (zip cs vs') = Inr e'" by blast
  have "length e \<le> MaxCellLen" using Cons.prems(2) e(1) e'(4) by simp
  then show ?case using v(3) e e' by simp
qed simp

lemma decode_cells_array16: "decode_cells cs b = Inr (vs, r) \<Longrightarrow> length vs = length cs \<and> list_all array16 vs"
proof (induction cs arbitrary: b vs)
  case (Cons c cs)
  then obtain v t vs' where "decodeCell b c = Inr (v, t)" "decode_cells cs t = Inr (vs', r)" "vs = v # vs'"
    by (auto simp: and_then_Inr)
  then show ?case using Cons.IH decodeCell_Inr [of b c v t] by auto
qed simp

lemma encode_norm: "encodeCell c (norm_cell v) = encodeCell c v"
proof -
  have "encode_body c (norm_cell v) = encode_body c v"
    by (cases v) (simp_all add: encode_body_def ordered_norm split: ctype.split)
  moreover have "norm_cell v = CNull \<longleftrightarrow> v = CNull" by (cases v) simp_all
  ultimately show ?thesis by (simp add: encodeCell_def)
qed

lemma encode_cells_cong:
  "list_all2 (\<lambda>(c, v) (d, w). encodeCell c v = encodeCell d w) xs ys \<Longrightarrow> encode_cells xs = encode_cells ys"
  by (induction xs ys rule: list_all2_induct) (auto split: prod.splits)

section \<open>Keys\<close>

definition key_arrays :: "key \<Rightarrow> bool" where
  "key_arrays key \<longleftrightarrow> list_all array16 key"

lemma decode_encodeKey:
  assumes "encodeKey P s key = Inr kb" "key_arrays key"
  shows "decodeKey s kb = Inr (map norm_cell key)"
proof (cases "keyed s")
  case True
  then have "encode_cells (zip (map (column_of s) (sch_key s)) key) = Inr kb" "length key = length (sch_key s)"
    using assms(1) by (auto simp: encodeKey_def and_then_Inr split: if_splits)
  then show ?thesis
    using True assms(2) decode_encode_cells [of "map (column_of s) (sch_key s)" key kb "[]"] by (simp add: decodeKey_def key_arrays_def)
next
  case False
  then obtain rid where "key = [CRowID rid]" "kb = rid"
    using assms(1) by (cases key) (auto simp: encodeKey_def split: cell.splits if_splits)
  then show ?thesis using False assms(2) by (simp add: decodeKey_def key_arrays_def)
qed

lemma encodeKey_compares:
  assumes "encodeKey P s key = Inr a" "encodeKey P s key' = Inr b" "key_arrays key" "key_arrays key'"
  shows "compares a b (cells_order key key')"
proof (cases "keyed s")
  case True
  then show ?thesis
    using assms encode_cells_compares [of "map (column_of s) (sch_key s)" key a key' b]
    by (auto simp: encodeKey_def and_then_Inr key_arrays_def split: if_splits)
next
  case False
  then obtain x y where "key = [CRowID x]" "a = x" "key' = [CRowID y]" "b = y"
    using assms(1,2) by (cases key; cases key') (auto simp: encodeKey_def split: cell.splits if_splits)
  then show ?thesis using assms(3,4) compares_raw [of x y] by (cases "order_of x y = 0") (simp_all add: cell_order_def key_arrays_def)
qed

section \<open>Rows\<close>

definition row_arrays :: "row \<Rightarrow> bool" where
  "row_arrays r \<longleftrightarrow> (\<forall>t. array16 (cell_at r t))"

lemma with_key_lookup:
  assumes "distinct (sch_key s)"
  shows "fmlookup (with_key s key r) t = (case map_of (zip (sch_key s) key) t of Some v \<Rightarrow> Some v | None \<Rightarrow> fmlookup r t)"
proof -
  have "distinct (map fst kvs) \<Longrightarrow> fmlookup (fold (\<lambda>(t, v) r. fmupd t v r) kvs r) t = (case map_of kvs t of Some v \<Rightarrow> Some v | None \<Rightarrow> fmlookup r t)"
    for kvs :: "(tag \<times> cell) list" and r
    by (induction kvs arbitrary: r) (auto split: option.splits dest!: map_of_SomeD intro: rev_image_eqI)
  then show ?thesis using assms by (simp add: with_key_def map_fst_zip_take)
qed

lemma set_cells_lookup:
  assumes "distinct (map col_tag cs)" "length vs = length cs" "\<And>c. c \<in> set cs \<Longrightarrow> fmlookup r (col_tag c) = None"
  shows "cell_at (fold set_cell (zip cs vs) r) t = (case map_of (zip (map col_tag cs) vs) t of Some v \<Rightarrow> v | None \<Rightarrow> cell_at r t)"
  using assms
proof (induction cs arbitrary: vs r)
  case (Cons c cs)
  then obtain v vs' where v: "vs = v # vs'" "length vs' = length cs" by (cases vs) auto
  have other: "fmlookup (set_cell (c, v) r) (col_tag d) = None" if "d \<in> set cs" for d
  proof -
    have "col_tag d \<noteq> col_tag c" using Cons.prems(1) that by (metis distinct.simps(2) image_eqI list.set_map list.simps(9))
    then show ?thesis using Cons.prems(3) [of d] that by (simp add: set_cell_def)
  qed
  have "cell_at (fold set_cell (zip cs vs') (set_cell (c, v) r)) t =
      (case map_of (zip (map col_tag cs) vs') t of Some v \<Rightarrow> v | None \<Rightarrow> cell_at (set_cell (c, v) r) t)"
    by (rule Cons.IH) (use Cons.prems(1) v(2) other in auto)
  moreover have "map_of (zip (map col_tag cs) vs') (col_tag c) = None"
    using Cons.prems(1) v(2) by (auto simp: map_of_eq_None_iff dest: set_zip_leftD)
  moreover have "cell_at (set_cell (c, v) r) t = (if t = col_tag c then v else cell_at r t)"
    using Cons.prems(3) [of c] by (auto simp: set_cell_def cell_at_def)
  ultimately show ?case using v(1) by (auto split: option.splits)
qed simp

lemma value_columns_tags:
  assumes "valid_schema s"
  shows "distinct (map col_tag (value_columns s))"
    "t \<in> col_tag ` set (value_columns s) \<longleftrightarrow> schema_column s t \<noteq> None \<and> \<not> isKey s t"
  using assms by (auto simp: valid_schema_def value_columns_def distinct_map_filter find_column_iff image_iff)

lemma map_of_zip_map: "map_of (zip (map f cs) (map g cs)) t = map_option g (find (\<lambda>c. f c = t) cs)"
  by (induction cs) auto

lemma map_of_zip_tags:
  "map_of (zip (map col_tag cs) (map (\<lambda>c. f (col_tag c)) cs)) t = (if t \<in> col_tag ` set cs then Some (f t) else None)"
  by (induction cs) auto

lemma map_of_zip_map_snd: "map_of (zip ks (map f vs)) t = map_option f (map_of (zip ks vs) t)"
  by (induction ks vs rule: list_induct2') auto

lemma zip_map_self: "zip cs (map f cs) = map (\<lambda>c. (c, f c)) cs"
  by (induction cs) auto

lemma key_lookup:
  assumes "valid_schema s" "length key = length (sch_key s)"
  shows "map_of (zip (sch_key s) key) t = None \<longleftrightarrow> \<not> isKey s t"
proof -
  have "fst ` set (zip (sch_key s) key) = set (sch_key s)" using assms(2) by (metis list.set_map map_fst_zip)
  then show ?thesis by (simp add: isKey_def map_of_eq_None_iff)
qed

lemma decode_encodeValue:
  assumes "valid_schema s" "encodeValue s r = Inr vb" "row_arrays r" "\<And>t. fmlookup r0 t \<noteq> None \<longleftrightarrow> isKey s t"
  shows "\<exists>r2. decodeValue s vb r0 = Inr r2 \<and> (\<forall>t. cell_at r2 t = (if isKey s t then cell_at r0 t else norm_cell (cell_at r t)))"
proof -
  let ?cs = "value_columns s"
  let ?vs = "map (\<lambda>c. cell_at r (col_tag c)) ?cs"
  have dom: "\<forall>t. fmlookup r t \<noteq> None \<longrightarrow> schema_column s t \<noteq> None" and enc: "encode_cells (zip ?cs ?vs) = Inr vb"
    using assms(2) by (auto simp: encodeValue_def zip_map_self fmlookup_dom_iff split: if_splits)
  have "decode_cells ?cs (vb @ []) = Inr (map norm_cell ?vs, [])"
    by (rule decode_encode_cells [OF enc]) (use assms(3) in \<open>auto simp: list_all_iff row_arrays_def\<close>)
  then have dec: "decodeValue s vb r0 = Inr (fold set_cell (zip ?cs (map norm_cell ?vs)) r0)" by (simp add: decodeValue_def)
  have "fmlookup r0 (col_tag c) = None" if "c \<in> set ?cs" for c
    using that assms(4) [of "col_tag c"] by (auto simp: value_columns_def)
  then have look: "cell_at (fold set_cell (zip ?cs (map norm_cell ?vs)) r0) t =
      (case map_of (zip (map col_tag ?cs) (map norm_cell ?vs)) t of Some v \<Rightarrow> v | None \<Rightarrow> cell_at r0 t)" for t
    using set_cells_lookup [OF value_columns_tags(1) [OF assms(1)], of "map norm_cell ?vs" r0 t] by simp
  have "cell_at (fold set_cell (zip ?cs (map norm_cell ?vs)) r0) t = (if isKey s t then cell_at r0 t else norm_cell (cell_at r t))" for t
  proof -
    have "map_of (zip (map col_tag ?cs) (map norm_cell ?vs)) t = (if t \<in> col_tag ` set ?cs then Some (norm_cell (cell_at r t)) else None)"
      using map_of_zip_tags [of ?cs "\<lambda>t. norm_cell (cell_at r t)" t] by (simp add: comp_def)
    moreover have "cell_at r0 t = CNull" "cell_at r t = CNull" if "\<not> isKey s t" "schema_column s t = None"
      using that assms(4) [of t] dom by (auto simp: cell_at_def split: option.splits)
    ultimately show ?thesis unfolding look using value_columns_tags(2) [OF assms(1), of t] by auto
  qed
  with dec show ?thesis by blast
qed

lemma encodeKey_length: "encodeKey P s key = Inr kb \<Longrightarrow> keyed s \<Longrightarrow> length key = length (sch_key s)"
  by (auto simp: encodeKey_def split: if_splits)

text \<open>What is stored for a row reads back as the row with its key, cell by cell.\<close>

lemma decodeRow_written:
  assumes "valid_schema s" "encodeKey P s key = Inr kb" "encodeValue s r = Inr vb" "key_arrays key" "row_arrays r"
  shows "\<exists>r2. decodeRow s kb vb = Inr (map norm_cell key, r2) \<and> (\<forall>t. cell_at r2 t = norm_cell (cell_at (cloneRow r key s) t))"
proof -
  have d: "distinct (sch_key s)" using assms(1) by (simp add: valid_schema_def key_ok_def)
  have k: "decodeKey s kb = Inr (map norm_cell key)" by (rule decode_encodeKey [OF assms(2,4)])
  let ?r0 = "with_key s (map norm_cell key) fmempty"
  have len: "zip (sch_key s) key = [] \<or> length key = length (sch_key s)"
    using encodeKey_length [OF assms(2)] by (auto simp: keyed_def)
  have m: "map_of (zip (sch_key s) (map norm_cell key)) t = map_option norm_cell (map_of (zip (sch_key s) key) t)" for t
    by (rule map_of_zip_map_snd)
  have key: "map_of (zip (sch_key s) key) t = None \<longleftrightarrow> \<not> isKey s t" for t
    using len key_lookup [OF assms(1), of key t] encodeKey_length [OF assms(2)] by (cases "keyed s") (auto simp: keyed_def isKey_def)
  have r0: "fmlookup ?r0 t = map_option norm_cell (map_of (zip (sch_key s) key) t)" for t
    by (simp add: with_key_lookup [OF d] m split: option.split)
  then obtain r2 where r2: "decodeValue s vb ?r0 = Inr r2" "\<forall>t. cell_at r2 t = (if isKey s t then cell_at ?r0 t else norm_cell (cell_at r t))"
    using decode_encodeValue [OF assms(1,3,5), of ?r0] key by auto
  have "cell_at r2 t = norm_cell (cell_at (cloneRow r key s) t)" for t
  proof -
    have "cell_at (cloneRow r key s) t = (case map_of (zip (sch_key s) key) t of Some v \<Rightarrow> v | None \<Rightarrow> cell_at r t)"
      by (simp add: cell_at_def cloneRow_def with_key_lookup [OF d] split: option.split)
    moreover have "cell_at ?r0 t = (case map_of (zip (sch_key s) key) t of Some v \<Rightarrow> norm_cell v | None \<Rightarrow> CNull)"
      unfolding cell_at_def r0 by (simp split: option.split)
    ultimately show ?thesis using r2(2) key [of t] by (cases "map_of (zip (sch_key s) key) t") simp_all
  qed
  then show ?thesis using k r2(1) by (auto simp: decodeRow_def)
qed

end
