(* ===== verification/Table_Flush.thy ===== *)
theory Table_Flush
  imports Table_Rows
begin

text \<open>
  Flush keeps the indexes: the invariant \<open>table_ok\<close> of a table, that every row decodes and every index holds exactly the
  entries of the rows, is kept by a flush, which changes the primary map as the pending edits say.
\<close>

section \<open>Tables and their indexes\<close>

text \<open>The rows of a primary map, and the entries an index has for them.\<close>

definition row_at :: "schema \<Rightarrow> (bytes \<rightharpoonup> bytes) \<Rightarrow> bytes \<Rightarrow> row option" where
  "row_at s M kb =
     (case M kb of None \<Rightarrow> None | Some vb \<Rightarrow> (case decodeRow s kb vb of Inl _ \<Rightarrow> None | Inr (_, r) \<Rightarrow> Some r))"

definition index_entries :: "('m, 'e) table_port \<Rightarrow> schema \<Rightarrow> index \<Rightarrow> (bytes \<rightharpoonup> bytes) \<Rightarrow> bytes set" where
  "index_entries P s ix M = {ik. \<exists>kb r. row_at s M kb = Some r \<and> indexKey P s ix r kb = Inr ik}"

definition entry_map :: "bytes set \<Rightarrow> (bytes \<rightharpoonup> bytes)" where
  "entry_map A = (\<lambda>ik. if ik \<in> A then Some [] else None)"

text \<open>Every row decodes and has an entry in every index.\<close>

definition rows_ok :: "('m, 'e) table_port \<Rightarrow> schema \<Rightarrow> (bytes \<rightharpoonup> bytes) \<Rightarrow> bool" where
  "rows_ok P s M \<longleftrightarrow>
     (\<forall>kb vb. M kb = Some vb \<longrightarrow>
       (\<exists>r. row_at s M kb = Some r \<and> (\<forall>ix \<in> set (sch_indexes s). \<exists>ik. indexKey P s ix r kb = Inr ik)))"

text \<open>The invariant of a table: every index holds the entries of the rows, and nothing else.\<close>

definition table_ok :: "('m, 'e) table_port \<Rightarrow> ('m \<Rightarrow> (bytes \<rightharpoonup> bytes)) \<Rightarrow> 'm table \<Rightarrow> bool" where
  "table_ok P content t \<longleftrightarrow> valid_schema (tb_schema t) \<and> rows_ok P (tb_schema t) (content (tb_primary t)) \<and>
     (\<forall>ix \<in> set (sch_indexes (tb_schema t)). \<exists>m. fmlookup (tb_indexes t) (ix_tag ix) = Some m \<and>
        content m = entry_map (index_entries P (tb_schema t) ix (content (tb_primary t))))"

text \<open>A pending row is what its bytes decode to, as far as the indexes see.\<close>

definition pend_ok :: "('m, 'e) table_port \<Rightarrow> schema \<Rightarrow> bytes \<Rightarrow> pendingRow \<Rightarrow> bool" where
  "pend_ok P s kb p =
     (case p_row p of None \<Rightarrow> True
      | Some r \<Rightarrow> \<exists>key r2. decodeRow s kb (p_vb p) = Inr (key, r2) \<and> (\<forall>ix. indexKey P s ix r kb = indexKey P s ix r2 kb))"

definition editor_ok :: "('m, 'e) table_port \<Rightarrow> ('m \<Rightarrow> (bytes \<rightharpoonup> bytes)) \<Rightarrow> 'm editor \<Rightarrow> bool" where
  "editor_ok P content e \<longleftrightarrow> table_ok P content (ed_t e) \<and> distinct (ed_order e) \<and>
     set (ed_order e) = fmdom' (ed_pending e) \<and>
     (\<forall>kb p. fmlookup (ed_pending e) kb = Some p \<longrightarrow> pend_ok P (tb_schema (ed_t e)) kb p)"

text \<open>The primary map as the pending edits leave it.\<close>

definition pending_value :: "pendingRow \<Rightarrow> bytes option" where
  "pending_value p = (if p_row p = None then None else Some (p_vb p))"

definition edited :: "'m editor \<Rightarrow> (bytes \<rightharpoonup> bytes) \<Rightarrow> (bytes \<rightharpoonup> bytes)" where
  "edited e M kb = (case fmlookup (ed_pending e) kb of None \<Rightarrow> M kb | Some p \<Rightarrow> pending_value p)"

subsection \<open>An index entry names one row\<close>

lemma fold_values:
  assumes "\<And>x r t. x \<in> set xs \<Longrightarrow> array16 (cell_at r t) \<Longrightarrow> array16 (cell_at (f x r) t)" "array16 (cell_at r t)"
  shows "array16 (cell_at (fold f xs r) t)"
  using assms by (induction xs arbitrary: r) auto

lemma decodeRow_arrays:
  assumes "decodeRow s kb vb = Inr (key, r)"
  shows "row_arrays r"
proof -
  obtain k vs where d: "decodeKey s kb = Inr k" "decode_cells (value_columns s) vb = Inr (vs, [])"
      "r = fold set_cell (zip (value_columns s) vs) (with_key s k fmempty)"
    using assms by (auto simp: decodeRow_def decodeValue_def and_then_Inr split: if_splits)
  have upd: "array16 (cell_at (fmupd t' v r) t)" if "array16 v" "array16 (cell_at r t)" for t t' v r
    using that by (simp add: cell_at_def)
  have k: "list_all array16 k" if "keyed s"
    using d(1) that decode_cells_array16 by (fastforce simp: decodeKey_def and_then_Inr split: if_splits)
  have key: "array16 (cell_at (with_key s k fmempty) t)" for t
  proof (cases "keyed s")
    case True
    then show ?thesis unfolding with_key_def
      by (intro fold_values) (use k in \<open>auto simp: list_all_iff cell_at_def dest: set_zip_rightD intro: upd\<close>)
  qed (simp add: with_key_def keyed_def cell_at_def)
  have "list_all array16 vs" using decode_cells_array16 [OF d(2)] by blast
  then show ?thesis unfolding row_arrays_def d(3)
    by (intro allI fold_values [OF _ key]) (auto simp: list_all_iff set_cell_def dest!: set_zip_rightD intro!: upd)
qed

lemma row_at_arrays: "row_at s M kb = Some r \<Longrightarrow> row_arrays r"
  by (auto simp: row_at_def decodeRow_arrays split: option.splits sum.splits)

lemma indexKey_names_row:
  assumes "indexKey P s ix r kb = Inr ik" "row_arrays r"
  shows "rowKeyOfIndexEntry s ix ik = Inr kb"
proof -
  let ?cs = "map (column_of s) (ix_columns ix)" and ?vs = "map (cell_at r) (ix_columns ix)"
  obtain b where b: "encode_cells (zip ?cs ?vs) = Inr b" "ik = b @ kb"
    using assms(1) by (auto simp: indexKey_def and_then_Inr zip_map_map zip_same_conv_map comp_def split: if_splits)
  have "decode_cells ?cs (b @ kb) = Inr (map norm_cell ?vs, kb)"
    by (rule decode_encode_cells [OF b(1)]) (use assms(2) in \<open>auto simp: list_all_iff row_arrays_def\<close>)
  then show ?thesis by (simp add: rowKeyOfIndexEntry_def b(2))
qed

lemma index_entries_delete:
  assumes "row_at s M kb = Some r" "indexKey P s ix r kb = Inr ik"
  shows "index_entries P s ix (M(kb := None)) = index_entries P s ix M - {ik}"
proof -
  have other: "row_at s (M(kb := None)) k = (if k = kb then None else row_at s M k)" for k by (simp add: row_at_def)
  have "k = kb" if "row_at s M k = Some r'" "indexKey P s ix r' k = Inr ik" for k r'
    using indexKey_names_row [OF that(2) row_at_arrays [OF that(1)]] indexKey_names_row [OF assms(2) row_at_arrays [OF assms(1)]] by simp
  note one = this
  show ?thesis
  proof (rule set_eqI)
    fix x
    have "x \<in> index_entries P s ix (M(kb := None)) \<longleftrightarrow> (\<exists>k r. k \<noteq> kb \<and> row_at s M k = Some r \<and> indexKey P s ix r k = Inr x)"
      unfolding index_entries_def mem_Collect_eq other by (metis option.distinct(1))
    also have "\<dots> \<longleftrightarrow> x \<in> index_entries P s ix M \<and> x \<noteq> ik"
      unfolding index_entries_def mem_Collect_eq using one assms by (metis option.inject sum.inject(2))
    finally show "x \<in> index_entries P s ix (M(kb := None)) \<longleftrightarrow> x \<in> index_entries P s ix M - {ik}" by simp
  qed
qed

lemma index_entries_put:
  assumes "M kb = None" "decodeRow s kb vb = Inr (key, r)" "indexKey P s ix r kb = Inr ik"
  shows "index_entries P s ix (M(kb \<mapsto> vb)) = insert ik (index_entries P s ix M)"
proof -
  have other: "row_at s (M(kb \<mapsto> vb)) k = (if k = kb then Some r else row_at s M k)" "row_at s M kb = None" for k
    using assms(1,2) by (simp_all add: row_at_def)
  show ?thesis
  proof (rule set_eqI)
    fix x
    have "x \<in> index_entries P s ix (M(kb \<mapsto> vb)) \<longleftrightarrow> indexKey P s ix r kb = Inr x \<or>
        (\<exists>k r. row_at s M k = Some r \<and> indexKey P s ix r k = Inr x)"
      unfolding index_entries_def mem_Collect_eq other(1) using other(2) by (metis option.distinct(1) option.inject)
    then show "x \<in> index_entries P s ix (M(kb \<mapsto> vb)) \<longleftrightarrow> x \<in> insert ik (index_entries P s ix M)"
      using assms(3) by (auto simp: index_entries_def)
  qed
qed

lemma entry_map_upd: "(entry_map A)(ik := None) = entry_map (A - {ik})" "(entry_map A)(ik \<mapsto> []) = entry_map (insert ik A)"
  by (auto simp: entry_map_def)

subsection \<open>Flush keeps the indexes\<close>

text \<open>The editors of a flush: of the primary map, and one per index that holds the entries of its rows.\<close>

definition editors_ok :: "('m, 'e) table_port \<Rightarrow> ('e \<Rightarrow> (bytes \<rightharpoonup> bytes)) \<Rightarrow> schema \<Rightarrow> 'e editors \<Rightarrow> bool" where
  "editors_ok P pending s es \<longleftrightarrow> rows_ok P s (pending (fst es)) \<and>
     (\<forall>ix \<in> set (sch_indexes s). \<exists>e. fmlookup (snd es) (ix_tag ix) = Some e \<and>
        pending e = entry_map (index_entries P s ix (pending (fst es))))"

lemma edit_indexes_step:
  assumes "edit_indexes P s edit r kb ixs ies = Inr ies'" "distinct (map ix_tag ixs)"
    "\<And>e k e'. edit e k = Inr e' \<Longrightarrow> pending e' = step (pending e) k"
  shows "(\<forall>ix \<in> set ixs. \<exists>e e' ik. fmlookup ies (ix_tag ix) = Some e \<and> indexKey P s ix r kb = Inr ik \<and>
      fmlookup ies' (ix_tag ix) = Some e' \<and> pending e' = step (pending e) ik)"
  using assms(1,2)
proof (induction ixs arbitrary: ies)
  case (Cons ix ixs)
  obtain ik e e' where e: "indexKey P s ix r kb = Inr ik" "fmlookup ies (ix_tag ix) = Some e" "edit e ik = Inr e'"
      "edit_indexes P s edit r kb ixs (fmupd (ix_tag ix) e' ies) = Inr ies'"
    using Cons.prems(1) by (auto simp: and_then_Inr split: option.splits)
  have keep: "t \<notin> ix_tag ` set ixs \<Longrightarrow> edit_indexes P s edit r kb ixs ies = Inr ies' \<Longrightarrow> fmlookup ies' t = fmlookup ies t" for t ixs ies
    by (induction ixs arbitrary: ies) (auto simp: and_then_Inr split: option.splits)
  have "fmlookup ies' (ix_tag ix) = Some e'" using keep [OF _ e(4), of "ix_tag ix"] Cons.prems(2) by simp
  moreover have "\<exists>e e' ik. fmlookup ies (ix_tag ix') = Some e \<and> indexKey P s ix' r kb = Inr ik \<and>
      fmlookup ies' (ix_tag ix') = Some e' \<and> pending e' = step (pending e) ik" if "ix' \<in> set ixs" for ix'
  proof -
    have "ix_tag ix' \<noteq> ix_tag ix" using Cons.prems(2) that by (metis distinct.simps(2) image_eqI list.set_map list.simps(9))
    then show ?thesis using Cons.IH [OF e(4)] Cons.prems(2) that by fastforce
  qed
  ultimately show ?case using e assms(3) by auto
qed simp

context table_laws
begin

lemma flush_row_ok:
  assumes "flush_row P t kb p (pe, ies) = Inr (pe', ies')" "valid_schema (tb_schema t)" "pend_ok P (tb_schema t) kb p"
    "editors_ok P pending (tb_schema t) (pe, ies)" "pending pe kb = content (tb_primary t) kb"
  shows "pending pe' = (pending pe)(kb := pending_value p)" "editors_ok P pending (tb_schema t) (pe', ies')"
proof -
  let ?s = "tb_schema t"
  define M where "M = pending pe"
  define N where "N = M(kb := None)"
  have d: "distinct (map ix_tag (sch_indexes ?s))" using assms(2) by (simp add: valid_schema_def indexes_ok_def)
  have ok: "rows_ok P ?s M" "\<And>ix. ix \<in> set (sch_indexes ?s) \<Longrightarrow> \<exists>e. fmlookup ies (ix_tag ix) = Some e \<and> pending e = entry_map (index_entries P ?s ix M)"
    using assms(4) by (auto simp: editors_ok_def M_def)
  obtain ies1 where mid: "case M kb of None \<Rightarrow> ies1 = ies
      | Some vb \<Rightarrow> \<exists>k old. decodeRow ?s kb vb = Inr (k, old) \<and> edit_indexes P ?s (te_delete P) old kb (sch_indexes ?s) ies = Inr ies1"
    and rest: "(case p_row p of None \<Rightarrow> and_then (te_delete P pe kb) (\<lambda>pe. Inr (pe, ies1))
        | Some r \<Rightarrow> and_then (te_put P pe kb (p_vb p)) (\<lambda>pe.
           and_then (edit_indexes P ?s (\<lambda>e ik. te_put P e ik []) r kb (sch_indexes ?s) ies1) (\<lambda>ies. Inr (pe, ies)))) = Inr (pe', ies')"
    using assms(1,5) tp_get unfolding flush_row_def Let_def M_def
    by (fastforce simp: and_then_Inr split: option.splits)
  have N: "\<exists>e. fmlookup ies1 (ix_tag ix) = Some e \<and> pending e = entry_map (index_entries P ?s ix N)" if ix: "ix \<in> set (sch_indexes ?s)" for ix
  proof (cases "M kb")
    case None
    then have "N = M" unfolding N_def by (simp add: fun_upd_idem)
    then show ?thesis using ok(2) [OF ix] mid None by simp
  next
    case (Some vb)
    then obtain k old where old: "decodeRow ?s kb vb = Inr (k, old)" "edit_indexes P ?s (te_delete P) old kb (sch_indexes ?s) ies = Inr ies1"
      using mid by auto
    have row: "row_at ?s M kb = Some old" using Some old(1) by (simp add: row_at_def)
    from edit_indexes_step [of P ?s "te_delete P", OF old(2) d, of pending "\<lambda>m k. m(k := None)", OF te_delete] ix ok(2) [OF ix]
    obtain e' ik where "indexKey P ?s ix old kb = Inr ik" "fmlookup ies1 (ix_tag ix) = Some e'"
        "pending e' = (entry_map (index_entries P ?s ix M))(ik := None)" by fastforce
    then show ?thesis using index_entries_delete [OF row, of P ix ik] by (auto simp: entry_map_upd N_def)
  qed
  have rowN: "row_at ?s N k = (if k = kb then None else row_at ?s M k)" for k by (simp add: row_at_def N_def)
  have okN: "rows_ok P ?s N" using ok(1) unfolding rows_ok_def rowN by (simp add: N_def)
  show "pending pe' = (pending pe)(kb := pending_value p)"
    using rest te_delete te_put by (auto simp: pending_value_def and_then_Inr split: option.splits)
  show "editors_ok P pending ?s (pe', ies')"
  proof (cases "p_row p")
    case None
    then have "pending pe' = N" "ies' = ies1" using rest te_delete by (auto simp: and_then_Inr N_def M_def)
    then show ?thesis using okN N by (simp add: editors_ok_def)
  next
    case (Some r)
    then have put: "pending pe' = N(kb \<mapsto> p_vb p)" "edit_indexes P ?s (\<lambda>e ik. te_put P e ik []) r kb (sch_indexes ?s) ies1 = Inr ies'"
      using rest te_put by (auto simp: and_then_Inr N_def M_def)
    obtain key r2 where r2: "decodeRow ?s kb (p_vb p) = Inr (key, r2)" "\<And>ix. indexKey P ?s ix r kb = indexKey P ?s ix r2 kb"
      using assms(3) Some by (auto simp: pend_ok_def)
    have entry: "\<exists>e' ik. indexKey P ?s ix r2 kb = Inr ik \<and> fmlookup ies' (ix_tag ix) = Some e' \<and>
        pending e' = entry_map (index_entries P ?s ix (N(kb \<mapsto> p_vb p)))" if ix: "ix \<in> set (sch_indexes ?s)" for ix
    proof -
      from edit_indexes_step [of P ?s "\<lambda>e ik. te_put P e ik []", OF put(2) d, of pending "\<lambda>m k. m(k \<mapsto> [])", OF te_put] ix N [OF ix]
      obtain e' ik where "indexKey P ?s ix r2 kb = Inr ik" "fmlookup ies' (ix_tag ix) = Some e'"
          "pending e' = (entry_map (index_entries P ?s ix N))(ik \<mapsto> [])" by (fastforce simp: r2(2))
      then show ?thesis using index_entries_put [of N kb ?s "p_vb p" key r2 P ix ik] r2(1) by (auto simp: entry_map_upd N_def)
    qed
    have rows: "row_at ?s (N(kb \<mapsto> p_vb p)) k = (if k = kb then Some r2 else row_at ?s N k)" for k using r2(1) by (simp add: row_at_def)
    have "rows_ok P ?s (N(kb \<mapsto> p_vb p))"
      unfolding rows_ok_def rows using okN [unfolded rows_ok_def] entry by (auto split: if_splits)
    then show ?thesis using put(1) entry by (auto simp: editors_ok_def)
  qed
qed

lemma flush_rows_ok:
  assumes "flush_rows P e kbs (pe, ies) = Inr (pe', ies')" "valid_schema (tb_schema (ed_t e))" "distinct kbs"
    "\<And>kb p. fmlookup (ed_pending e) kb = Some p \<Longrightarrow> pend_ok P (tb_schema (ed_t e)) kb p"
    "editors_ok P pending (tb_schema (ed_t e)) (pe, ies)" "\<And>kb. kb \<in> set kbs \<Longrightarrow> pending pe kb = content (tb_primary (ed_t e)) kb"
  shows "pending pe' = (\<lambda>kb. if kb \<in> set kbs then edited e (pending pe) kb else pending pe kb)"
    "editors_ok P pending (tb_schema (ed_t e)) (pe', ies')"
proof -
  have "pending pe' = (\<lambda>kb. if kb \<in> set kbs then edited e (pending pe) kb else pending pe kb) \<and>
      editors_ok P pending (tb_schema (ed_t e)) (pe', ies')"
    using assms(1,3,5,6)
  proof (induction kbs arbitrary: pe ies)
    case (Cons kb kbs)
    obtain p pe1 ies1 where p: "fmlookup (ed_pending e) kb = Some p" "flush_row P (ed_t e) kb p (pe, ies) = Inr (pe1, ies1)"
        "flush_rows P e kbs (pe1, ies1) = Inr (pe', ies')"
      using Cons.prems(1) by (auto simp: and_then_Inr split: option.splits)
    have pe1: "pending pe1 = (pending pe)(kb := pending_value p)" "editors_ok P pending (tb_schema (ed_t e)) (pe1, ies1)"
      using flush_row_ok [OF p(2) assms(2) assms(4) [OF p(1)] Cons.prems(3)] Cons.prems(4) [of kb] by simp_all
    have "pending pe1 k = content (tb_primary (ed_t e)) k" if "k \<in> set kbs" for k
      using that Cons.prems(2,4) pe1(1) by auto
    from Cons.IH [OF p(3) _ pe1(2) this] Cons.prems(2)
    have "pending pe' = (\<lambda>k. if k \<in> set kbs then edited e (pending pe1) k else pending pe1 k)" "editors_ok P pending (tb_schema (ed_t e)) (pe', ies')"
      by simp_all
    moreover have "edited e (pending pe1) k = edited e (pending pe) k" if "k \<in> set kbs" for k
      using that Cons.prems(2) pe1(1) by (auto simp: edited_def split: option.split)
    moreover have "edited e (pending pe) kb = pending_value p" using p(1) by (simp add: edited_def)
    ultimately show ?case using Cons.prems(2) by (auto simp: pe1(1) fun_eq_iff)
  qed simp
  then show "pending pe' = (\<lambda>kb. if kb \<in> set kbs then edited e (pending pe) kb else pending pe kb)"
    "editors_ok P pending (tb_schema (ed_t e)) (pe', ies')" by blast+
qed

lemma flush_indexes_ok:
  assumes "flush_indexes P ixs ies ms = Inr ms'"
  shows "(\<forall>ix \<in> set ixs. \<exists>e m. fmlookup ies (ix_tag ix) = Some e \<and> fmlookup ms' (ix_tag ix) = Some m \<and> content m = pending e) \<and>
    (\<forall>t. t \<notin> ix_tag ` set ixs \<longrightarrow> fmlookup ms' t = fmlookup ms t)"
  using assms
proof (induction ixs arbitrary: ms)
  case (Cons ix ixs)
  obtain e m where e: "fmlookup ies (ix_tag ix) = Some e" "te_flush P e = Inr m" "flush_indexes P ixs ies (fmupd (ix_tag ix) m ms) = Inr ms'"
    using Cons.prems by (auto simp: and_then_Inr split: option.splits)
  note IH = Cons.IH [OF e(3)] and m = te_flush [OF e(2)]
  have "\<exists>e m. fmlookup ies (ix_tag ix) = Some e \<and> fmlookup ms' (ix_tag ix) = Some m \<and> content m = pending e"
  proof (cases "ix_tag ix \<in> ix_tag ` set ixs")
    case True
    then obtain ix' where "ix' \<in> set ixs" "ix_tag ix = ix_tag ix'" by blast
    then show ?thesis using IH by metis
  qed (use IH e(1) m in auto)
  then show ?case using IH by auto
qed simp

lemma index_editors_lookup:
  assumes "ix \<in> set (sch_indexes (tb_schema t))"
  shows "fmlookup (index_editors P t) (ix_tag ix) = Some (tp_editor P (index_map t (ix_tag ix)))"
proof -
  have "t' \<in> ix_tag ` set ixs \<or> fmlookup ies t' = Some (f t') \<Longrightarrow> fmlookup (fold (\<lambda>ix ies. fmupd (ix_tag ix) (f (ix_tag ix)) ies) ixs ies) t' = Some (f t')"
    for ixs ies t' and f :: "tag \<Rightarrow> 'e"
    by (induction ixs arbitrary: ies) auto
  note fold = this [of "ix_tag ix" "sch_indexes (tb_schema t)" fmempty "\<lambda>i. tp_editor P (index_map t i)"]
  show ?thesis unfolding index_editors_def by (rule fold) (use assms in blast)
qed

text \<open>A flush that succeeds leaves a table whose indexes are those of its rows, and its rows are the edited ones.\<close>

lemma Flush_ok:
  assumes "table_Flush W P e = Inr (t', e')" "editor_ok P content e"
  shows "table_ok P content t' \<and> content (tb_primary t') = edited e (content (tb_primary (ed_t e))) \<and>
    tb_schema t' = tb_schema (ed_t e) \<and> tb_catalog t' = tb_catalog (ed_t e) \<and> e' = Edit t'"
proof -
  let ?t = "ed_t e" and ?s = "tb_schema (ed_t e)"
  note ed = assms(2) [unfolded editor_ok_def table_ok_def]
  obtain pe ies m ms where run: "flush_rows P e (sort (ed_order e)) (tp_editor P (tb_primary ?t), index_editors P ?t) = Inr (pe, ies)"
      "te_flush P pe = Inr m" "flush_indexes P (sch_indexes ?s) ies fmempty = Inr ms" "tb_schema t' = ?s" "tb_catalog t' = tb_catalog ?t"
      "tb_primary t' = m" "tb_indexes t' = ms" "e' = Edit t'"
    using assms(1) by (auto simp: table_Flush_def writeRoot_def Let_def and_then_Inr)
  have start: "editors_ok P pending ?s (tp_editor P (tb_primary ?t), index_editors P ?t)"
    using ed index_editors_lookup tp_editor by (fastforce simp: editors_ok_def index_map_def)
  have keys: "set (sort (ed_order e)) = fmdom' (ed_pending e)" using ed by simp
  have t0: "pending (tp_editor P (tb_primary ?t)) = content (tb_primary ?t)" by (rule tp_editor)
  from flush_rows_ok [OF run(1) _ _ _ start, unfolded t0 keys] ed
  have pe: "pending pe = (\<lambda>kb. if kb \<in> fmdom' (ed_pending e) then edited e (content (tb_primary ?t)) kb else content (tb_primary ?t) kb)"
      "editors_ok P pending ?s (pe, ies)" by simp_all
  have "pending pe = edited e (content (tb_primary ?t))"
    unfolding pe(1) by (auto simp: edited_def fun_eq_iff fmdom'_notD split: option.split)
  then have c: "content m = edited e (content (tb_primary ?t))" using te_flush [OF run(2)] by simp
  have "table_ok P content t'"
    using pe(2) flush_indexes_ok [OF run(3)] ed te_flush [OF run(2)] run(4-7) unfolding table_ok_def editors_ok_def by fastforce
  then show ?thesis using c run by simp
qed

end

end
