(* ===== verification/Table_Correct.thy ===== *)
theory Table_Correct
  imports Table_Flush
begin

text \<open>
  What a table promises: it refines a map from keys to rows, an index lookup returns exactly the rows it should, no
  row record passes its map's limit. The finite maps satisfy the laws of the storage core.
\<close>

section \<open>A table refines a map of rows\<close>

text \<open>
  What a client sees of an editor, its pending edits included: for every encoded key, the cells of the row, or that there
  is none.
\<close>

type_synonym view = "bytes \<rightharpoonup> (tag \<Rightarrow> cell)"

definition view :: "('m \<Rightarrow> (bytes \<rightharpoonup> bytes)) \<Rightarrow> 'm editor \<Rightarrow> view" where
  "view content e kb = map_option cell_at (row_at (tb_schema (ed_t e)) (edited e (content (tb_primary (ed_t e)))) kb)"

text \<open>The operations of an editor, and a run of them.\<close>

datatype table_op = OpInsert bytes row | OpUpdate key row | OpDelete key | OpFlush

fun op_arrays :: "table_op \<Rightarrow> bool" where
  "op_arrays (OpInsert rid r) = (length rid = 16 \<and> row_arrays r)"
| "op_arrays (OpUpdate key r) = (key_arrays key \<and> row_arrays r)"
| "op_arrays (OpDelete key) = key_arrays key"
| "op_arrays OpFlush = True"

fun do_op :: "wire \<Rightarrow> ('m, 'e) table_port \<Rightarrow> 'm editor \<Rightarrow> table_op \<Rightarrow> 'm editor result" where
  "do_op W P e (OpInsert rid r) = and_then (Insert P (Inr rid) e r) (\<lambda>(e, _). Inr e)"
| "do_op W P e (OpUpdate key r) = Update P e key r"
| "do_op W P e (OpDelete key) = Delete P e key"
| "do_op W P e OpFlush = and_then (table_Flush W P e) (\<lambda>(_, e). Inr e)"

fun do_ops :: "wire \<Rightarrow> ('m, 'e) table_port \<Rightarrow> 'm editor \<Rightarrow> table_op list \<Rightarrow> 'm editor result" where
  "do_ops W P e [] = Inr e"
| "do_ops W P e (op # ops) = and_then (do_op W P e op) (\<lambda>e. do_ops W P e ops)"

text \<open>
  The same operations on a map: an insert needs its key free, an update and a delete need it taken, a flush changes
  nothing that is seen.
\<close>

definition stored_row :: "schema \<Rightarrow> key \<Rightarrow> row \<Rightarrow> tag \<Rightarrow> cell" where
  "stored_row s key r t = norm_cell (cell_at (cloneRow r key s) t)"

definition insert_key :: "schema \<Rightarrow> bytes \<Rightarrow> row \<Rightarrow> key" where
  "insert_key s rid r = (if keyed s then map (cell_at r) (sch_key s) else [CRowID rid])"

fun map_op :: "('m, 'e) table_port \<Rightarrow> schema \<Rightarrow> table_op \<Rightarrow> view \<Rightarrow> view option" where
  "map_op P s (OpInsert rid r) V =
     (case encodeKey P s (insert_key s rid r) of Inl _ \<Rightarrow> None
      | Inr kb \<Rightarrow> if V kb = None then Some (V(kb \<mapsto> stored_row s (insert_key s rid r) r)) else None)"
| "map_op P s (OpUpdate key r) V =
     (case encodeKey P s key of Inl _ \<Rightarrow> None
      | Inr kb \<Rightarrow> if V kb \<noteq> None then Some (V(kb \<mapsto> stored_row s key r)) else None)"
| "map_op P s (OpDelete key) V =
     (case encodeKey P s key of Inl _ \<Rightarrow> None | Inr kb \<Rightarrow> if V kb \<noteq> None then Some (V(kb := None)) else None)"
| "map_op P s OpFlush V = Some V"

fun map_ops :: "('m, 'e) table_port \<Rightarrow> schema \<Rightarrow> table_op list \<Rightarrow> view \<Rightarrow> view option" where
  "map_ops P s [] V = Some V"
| "map_ops P s (op # ops) V = (case map_op P s op V of None \<Rightarrow> None | Some V \<Rightarrow> map_ops P s ops V)"

lemma edited_set: "edited (ed_set e kb p) M = (edited e M)(kb := pending_value p)"
  by (auto simp: edited_def ed_set_def fun_eq_iff)

lemma row_at_upd:
  "row_at s (M(kb := None)) = (row_at s M)(kb := None)"
  "decodeRow s kb vb = Inr (key, r) \<Longrightarrow> row_at s (M(kb \<mapsto> vb)) = (row_at s M)(kb \<mapsto> r)"
  by (auto simp: row_at_def fun_eq_iff)

lemma key_cells_insert:
  "key_cells ts r = Inr key \<Longrightarrow> key = map (cell_at r) ts"
  by (induction ts arbitrary: key) (auto simp: and_then_Inr cell_at_def split: option.splits)

lemma indexKey_cong:
  assumes "\<And>t. encodeCell (column_of s t) (cell_at r t) = encodeCell (column_of s t) (cell_at r2 t)"
  shows "indexKey P s ix r kb = indexKey P s ix r2 kb"
proof -
  have "encode_cells (map (\<lambda>t. (column_of s t, cell_at r t)) ts) = encode_cells (map (\<lambda>t. (column_of s t, cell_at r2 t)) ts)" for ts
    by (induction ts) (simp_all add: assms)
  then show ?thesis by (simp add: indexKey_def)
qed

text \<open>A row that was checked and encoded is pending as the rows of the table are stored.\<close>

lemma pending_row_ok:
  assumes "valid_schema s" "encodeKey P s key = Inr kb" "encodeValue s r = Inr vb" "key_arrays key" "row_arrays r"
  shows "pend_ok P s kb (pending_row s key r vb)"
    "\<exists>k r2. decodeRow s kb vb = Inr (k, r2) \<and> cell_at r2 = stored_row s key r"
proof -
  obtain r2 where r2: "decodeRow s kb vb = Inr (map norm_cell key, r2)" "\<forall>t. cell_at r2 t = norm_cell (cell_at (cloneRow r key s) t)"
    using decodeRow_written [OF assms] by blast
  have "indexKey P s ix (cloneRow r key s) kb = indexKey P s ix r2 kb" for ix
    by (rule indexKey_cong) (simp add: r2(2) encode_norm)
  then show "pend_ok P s kb (pending_row s key r vb)" using r2(1) by (auto simp: pend_ok_def pending_row_def)
  show "\<exists>k r2. decodeRow s kb vb = Inr (k, r2) \<and> cell_at r2 = stored_row s key r"
    using r2 by (auto simp: stored_row_def fun_eq_iff)
qed

lemma ed_set_ok:
  assumes "editor_ok P content e" "pend_ok P (tb_schema (ed_t e)) kb p"
  shows "editor_ok P content (ed_set e kb p)"
  using assms by (auto simp: editor_ok_def ed_set_def fmdom'_notI fmdom'I)

lemma view_None:
  assumes "editor_ok P content e"
  shows "view content e kb = None \<longleftrightarrow> edited e (content (tb_primary (ed_t e))) kb = None"
proof -
  let ?M = "content (tb_primary (ed_t e))" and ?s = "tb_schema (ed_t e)"
  have "\<exists>r. row_at ?s (edited e ?M) kb = Some r" if "edited e ?M kb = Some vb" for vb
  proof (cases "fmlookup (ed_pending e) kb")
    case None
    then have "?M kb = Some vb" "row_at ?s (edited e ?M) kb = row_at ?s ?M kb" using that by (simp_all add: edited_def row_at_def)
    then show ?thesis using assms by (fastforce simp: editor_ok_def table_ok_def rows_ok_def)
  next
    case (Some p)
    then have "pend_ok P ?s kb p" "p_row p \<noteq> None" "vb = p_vb p" using assms that
      by (auto simp: editor_ok_def edited_def pending_value_def split: if_splits)
    then show ?thesis using that by (auto simp: pend_ok_def row_at_def split: option.splits)
  qed
  then show ?thesis by (cases "edited e ?M kb") (auto simp: view_def row_at_def)
qed

context table_laws
begin

lemma exists_view:
  assumes "exists P e kb = Inr held" "editor_ok P content e"
  shows "held = None \<longleftrightarrow> view content e kb = None"
proof -
  have "held = None \<longleftrightarrow> edited e (content (tb_primary (ed_t e))) kb = None"
    using assms(1) tp_get by (auto simp: exists_def edited_def pending_value_def split: option.splits if_splits)
  then show ?thesis using view_None [OF assms(2)] by simp
qed

lemma put_view:
  assumes "editor_ok P content e" "encodeKey P (tb_schema (ed_t e)) key = Inr kb" "encodeValue (tb_schema (ed_t e)) r = Inr vb" "key_arrays key" "row_arrays r"
  defines "e' \<equiv> ed_set e kb (pending_row (tb_schema (ed_t e)) key r vb)"
  shows "editor_ok P content e'" "view content e' = (view content e)(kb \<mapsto> stored_row (tb_schema (ed_t e)) key r)" "ed_t e' = ed_t e"
proof -
  have v: "valid_schema (tb_schema (ed_t e))" using assms(1) by (simp add: editor_ok_def table_ok_def)
  note p = pending_row_ok [OF v assms(2-5)]
  show "editor_ok P content e'" unfolding e'_def by (rule ed_set_ok [OF assms(1) p(1)])
  show t: "ed_t e' = ed_t e" by (simp add: e'_def ed_set_def)
  obtain k r2 where r2: "decodeRow (tb_schema (ed_t e)) kb vb = Inr (k, r2)" "cell_at r2 = stored_row (tb_schema (ed_t e)) key r" using p(2) by blast
  show "view content e' = (view content e)(kb \<mapsto> stored_row (tb_schema (ed_t e)) key r)"
    unfolding view_def [abs_def] t unfolding e'_def edited_set
    using r2 by (auto simp: row_at_upd pending_row_def pending_value_def fun_eq_iff)
qed

lemma delete_view:
  fixes kb :: bytes and key :: key
  assumes "editor_ok P content e"
  defines "e' \<equiv> ed_set e kb (pending_delete key)"
  shows "editor_ok P content e'" "view content e' = (view content e)(kb := None)" "ed_t e' = ed_t e"
proof -
  show "editor_ok P content e'" unfolding e'_def by (rule ed_set_ok [OF assms(1)]) (simp add: pend_ok_def pending_delete_def)
  show t: "ed_t e' = ed_t e" by (simp add: e'_def ed_set_def)
  show "view content e' = (view content e)(kb := None)"
    unfolding view_def [abs_def] t unfolding e'_def edited_set by (auto simp: row_at_upd pending_delete_def pending_value_def fun_eq_iff)
qed

lemma do_op_refines:
  assumes "do_op W P e op = Inr e'" "editor_ok P content e" "op_arrays op"
  shows "editor_ok P content e' \<and> map_op P (tb_schema (ed_t e)) op (view content e) = Some (view content e') \<and>
    tb_schema (ed_t e') = tb_schema (ed_t e)"
proof (cases op)
  case (OpInsert rid r)
  let ?s = "tb_schema (ed_t e)"
  obtain key kb vb where i: "(if keyed ?s then keyOf ?s r else Inr [CRowID rid]) = Inr key" "encodeKey P ?s key = Inr kb" "encodeValue ?s r = Inr vb"
      "exists P e kb = Inr None" "e' = ed_set e kb (pending_row ?s key r vb)"
    using assms(1) OpInsert by (auto simp: Insert_def Let_def and_then_Inr split: if_splits)
  have key: "key = insert_key ?s rid r"
    using i(1) by (auto simp: insert_key_def keyOf_def dest: key_cells_insert split: if_splits)
  then have "key_arrays key" "row_arrays r"
    using assms(3) OpInsert by (auto simp: insert_key_def key_arrays_def list_all_iff row_arrays_def)
  from put_view [OF assms(2) i(2,3) this] exists_view [OF i(4) assms(2)] show ?thesis
    using OpInsert i(2,5) key by simp
next
  case (OpUpdate key r)
  let ?s = "tb_schema (ed_t e)"
  obtain kb vb held where u: "encodeKey P ?s key = Inr kb" "encodeValue ?s r = Inr vb" "exists P e kb = Inr held" "held \<noteq> None"
      "e' = ed_set e kb (pending_row ?s key r vb)"
    using assms(1) OpUpdate by (auto simp: Update_def Let_def and_then_Inr split: if_splits)
  show ?thesis using put_view [OF assms(2) u(1,2)] exists_view [OF u(3) assms(2)] u assms(3) OpUpdate by simp
next
  case (OpDelete key)
  then obtain kb held where d: "encodeKey P (tb_schema (ed_t e)) key = Inr kb" "exists P e kb = Inr held" "held \<noteq> None"
      "e' = ed_set e kb (pending_delete key)"
    using assms(1) by (auto simp: Delete_def and_then_Inr split: if_splits)
  show ?thesis using delete_view [OF assms(2), of kb key] exists_view [OF d(2) assms(2)] d OpDelete by simp
next
  case OpFlush
  then obtain t' where f: "table_Flush W P e = Inr (t', e')" using assms(1) by (auto simp: and_then_Inr)
  note ok = Flush_ok [OF f assms(2)]
  then have "editor_ok P content e'" by (simp add: editor_ok_def Edit_def)
  moreover have "view content e' = view content e"
    using ok by (auto simp: view_def edited_def Edit_def fun_eq_iff row_at_def)
  ultimately show ?thesis using OpFlush ok by (simp add: Edit_def)
qed

lemma do_ops_refine:
  assumes "do_ops W P e ops = Inr e'" "editor_ok P content e" "list_all op_arrays ops"
  shows "editor_ok P content e' \<and> map_ops P (tb_schema (ed_t e)) ops (view content e) = Some (view content e')"
  using assms
proof (induction ops arbitrary: e)
  case (Cons op ops)
  then obtain e1 where e1: "do_op W P e op = Inr e1" "do_ops W P e1 ops = Inr e'" by (auto simp: and_then_Inr)
  then show ?case using do_op_refines [OF e1(1) Cons.prems(2)] Cons.IH [OF e1(2)] Cons.prems(3) by simp
qed simp

end

section \<open>Ranges of keys\<close>

text \<open>\<open>successor\<close>, from the first byte on.\<close>

fun successor' :: "bytes \<Rightarrow> bytes option" where
  "successor' [] = None"
| "successor' (c # cs) =
     (case successor' cs of Some s \<Rightarrow> Some (c # s)
      | None \<Rightarrow> if c \<noteq> CHR 0xFF then Some [byte_of (bval c + 1)] else None)"

lemma succ_rev_snoc:
  "succ_rev (xs @ [c]) = (case succ_rev xs of Some s \<Rightarrow> Some (s @ [c]) | None \<Rightarrow> if c \<noteq> CHR 0xFF then Some [byte_of (bval c + 1)] else None)"
  by (induction xs) auto

lemma successor_eq: "successor p = successor' p"
  unfolding successor_def by (induction p) (auto simp: succ_rev_snoc split: option.splits)

lemma byte_max: "c \<le> CHR 0xFF" "c \<noteq> CHR 0xFF \<Longrightarrow> d < byte_of (bval c + 1) \<longleftrightarrow> d \<le> c"
proof -
  have top: "bval (CHR 0xFF) = 255" by simp
  show "c \<le> CHR 0xFF" using bval_less [of c] top unfolding less_eq_char_def by linarith
  assume "c \<noteq> CHR 0xFF"
  then have "bval c \<noteq> 255" using top by (metis of_char_eq_iff)
  then have "bval c + 1 < 256" using bval_less [of c] by linarith
  then have "bval (byte_of (bval c + 1)) = bval c + 1" by simp
  then show "d < byte_of (bval c + 1) \<longleftrightarrow> d \<le> c" unfolding less_char_def less_eq_char_def by linarith
qed

lemma range_is_prefix: "lo \<le> k \<and> (\<forall>h. successor lo = Some h \<longrightarrow> k < h) \<longleftrightarrow> (\<exists>r. k = lo @ r)"
  unfolding successor_eq
proof (induction lo arbitrary: k)
  case (Cons c cs)
  show ?case
  proof (cases k)
    case (Cons d ks)
    note IH = Cons.IH [of ks]
    show ?thesis
    proof (cases "successor' cs")
      case None
      then show ?thesis using IH byte_max(1) [of d] byte_max(2) [of c d] unfolding Cons by (auto simp: not_less)
    next
      case (Some s)
      then show ?thesis using IH unfolding Cons by auto
    qed
  qed simp
qed simp

section \<open>Index lookups\<close>

lemma cells_order_0: "length vs = length ws \<Longrightarrow> cells_order vs ws = 0 \<longleftrightarrow> list_all2 (\<lambda>v w. cell_order v w = 0) vs ws"
  by (induction vs ws rule: list_induct2) auto

lemma less_snoc: "xs < xs @ [c :: char]" "xs < ys \<Longrightarrow> xs @ [CHR 0x00] \<le> ys"
proof -
  show "xs < xs @ [c]" by (induction xs) auto
  have z: "CHR 0x00 \<le> d" for d using zero_least [of d] by (cases "d = CHR 0x00") auto
  show "xs < ys \<Longrightarrow> xs @ [CHR 0x00] \<le> ys"
  proof (induction xs arbitrary: ys)
    case Nil
    then show ?case using z by (cases ys) (auto simp: less_le)
  next
    case (Cons x xs)
    then show ?case by (cases ys) auto
  qed
qed

lemma compares_prefix:
  assumes "compares b lo c"
  shows "(\<exists>r. b @ x = lo @ r) \<longleftrightarrow> c = 0"
proof
  assume "\<exists>r. b @ x = lo @ r"
  then obtain r where r: "b @ x = lo @ r" by blast
  then have "\<not> b @ x < lo @ r" "b @ x < lo @ (r @ [CHR 0x00])" using less_snoc(1) [of "lo @ r"] by simp_all
  then show "c = 0" using comparesD [OF assms, of x r] comparesD [OF assms, of x "r @ [CHR 0x00]"] by auto
next
  assume c: "c = 0"
  have "\<not> b < lo" "b < lo @ [CHR 0x00]"
    using comparesD [OF assms, of "[]" "[]"] comparesD [OF assms, of "[]" "[CHR 0x00]"] c by simp_all
  then have "b = lo" using less_snoc(2) [of lo b] by (meson leD not_less_iff_gr_or_eq)
  then show "\<exists>r. b @ x = lo @ r" by blast
qed

lemma encode_cells_append:
  "encode_cells (xs @ ys) = Inr b \<longleftrightarrow> (\<exists>b1 b2. encode_cells xs = Inr b1 \<and> encode_cells ys = Inr b2 \<and> b = b1 @ b2)"
  by (induction xs arbitrary: b) (fastforce simp: and_then_Inr)+

lemma index_rows_all:
  assumes "index_rows P t ix kvs None = (rows, None)"
  shows "list_all2 (\<lambda>(b, vb) kr. index_row P t ix b vb = Inr kr) kvs rows"
  using assms by (induction kvs arbitrary: rows) (auto split: sum.splits prod.splits)

lemma list_all2_members:
  assumes "list_all2 R xs ys"
  shows "y \<in> set ys \<Longrightarrow> \<exists>x\<in>set xs. R x y" "x \<in> set xs \<Longrightarrow> \<exists>y\<in>set ys. R x y"
  using assms by (induction rule: list_all2_induct) auto

lemma find_rev_index:
  assumes "valid_schema s"
  shows "find (\<lambda>ix. ix_tag ix = t) (rev (sch_indexes s)) = find_index s t"
proof -
  have "distinct (map ix_tag (rev (sch_indexes s)))" "distinct (map ix_tag (sch_indexes s))" using assms
    by (simp_all add: valid_schema_def indexes_ok_def rev_map [symmetric])
  note d = this
  have f: "distinct (map ix_tag ixs) \<Longrightarrow> find (\<lambda>ix. ix_tag ix = t) ixs = Some ix \<longleftrightarrow> ix \<in> set ixs \<and> ix_tag ix = t" for ix ixs
    by (induction ixs) force+
  have "find (\<lambda>ix. ix_tag ix = t) (rev (sch_indexes s)) = Some ix \<longleftrightarrow> find_index s t = Some ix" for ix
    unfolding find_index_def f [OF d(1)] f [OF d(2)] by simp
  then show ?thesis by (cases "find_index s t"; cases "find (\<lambda>ix. ix_tag ix = t) (rev (sch_indexes s))") auto
qed

text \<open>The rows of a table.\<close>

definition table_rows :: "('m \<Rightarrow> (bytes \<rightharpoonup> bytes)) \<Rightarrow> 'm table \<Rightarrow> (key \<times> row) set" where
  "table_rows content t = {kr. \<exists>kb vb. content (tb_primary t) kb = Some vb \<and> decodeRow (tb_schema t) kb vb = Inr kr}"

definition leading_equal :: "index \<Rightarrow> cell list \<Rightarrow> row \<Rightarrow> bool" where
  "leading_equal ix values r \<longleftrightarrow> list_all2 (\<lambda>t v. cell_order (cell_at r t) v = 0) (take (length values) (ix_columns ix)) values"

lemma zip_take_length: "zip (take (length ys) xs) ys = zip xs ys"
  by (induction xs ys rule: list_induct2') auto

lemma indexKey_prefix:
  assumes "indexKey P s ix r kb = Inr ik" "row_arrays r" "list_all array16 values" "length values \<le> length (ix_columns ix)"
    "encode_cells (zip (map (column_of s) (ix_columns ix)) values) = Inr lo"
  shows "(\<exists>x. ik = lo @ x) \<longleftrightarrow> leading_equal ix values r"
proof -
  let ?n = "length values"
  let ?cv = "\<lambda>ts. map (\<lambda>t. (column_of s t, cell_at r t)) ts"
  obtain b where b: "encode_cells (?cv (ix_columns ix)) = Inr b" "ik = b @ kb"
    using assms(1) by (auto simp: indexKey_def and_then_Inr split: if_splits)
  have "?cv (ix_columns ix) = ?cv (take ?n (ix_columns ix)) @ ?cv (drop ?n (ix_columns ix))" by (simp flip: map_append)
  then obtain b1 b2 where b12: "encode_cells (?cv (take ?n (ix_columns ix))) = Inr b1" "b = b1 @ b2"
    using b(1) by (auto simp: encode_cells_append)
  let ?cs = "map (column_of s) (take ?n (ix_columns ix))" and ?vs = "map (cell_at r) (take ?n (ix_columns ix))"
  have "encode_cells (zip ?cs ?vs) = Inr b1" using b12(1) by (simp add: zip_map_map zip_same_conv_map comp_def)
  moreover have "encode_cells (zip ?cs values) = Inr lo" using assms(5) by (simp add: take_map [symmetric] zip_take_length)
  ultimately have "compares b1 lo (cells_order ?vs values)"
    by (rule encode_cells_compares) (use assms(2-4) in \<open>auto simp: list_all_iff row_arrays_def\<close>)
  from compares_prefix [OF this, of "b2 @ kb"] have "(\<exists>x. ik = lo @ x) \<longleftrightarrow> cells_order ?vs values = 0" by (simp add: b(2) b12(2))
  also have "\<dots> \<longleftrightarrow> leading_equal ix values r"
    using assms(4) by (subst cells_order_0) (simp_all add: leading_equal_def list_all2_map1)
  finally show ?thesis .
qed

text \<open>Rows by the cells of an index, weakly.\<close>

definition index_le :: "index \<Rightarrow> key \<times> row \<Rightarrow> key \<times> row \<Rightarrow> bool" where
  "index_le ix a b \<longleftrightarrow> cells_order (map (cell_at (snd a)) (ix_columns ix)) (map (cell_at (snd b)) (ix_columns ix)) \<le> 0"

lemma indexKey_order:
  assumes "indexKey P s ix r kb = Inr ik" "indexKey P s ix r' kb' = Inr ik'" "row_arrays r" "row_arrays r'" "ik < ik'"
  shows "index_le ix (k, r) (k', r')"
proof -
  let ?cs = "map (column_of s) (ix_columns ix)"
  have bytes: "\<exists>b. encode_cells (zip ?cs (map (cell_at x) (ix_columns ix))) = Inr b \<and> i = b @ y" if "indexKey P s ix x y = Inr i" for x y i
    using that by (auto simp: indexKey_def and_then_Inr zip_map_map zip_same_conv_map comp_def split: if_splits)
  obtain b b' where b: "encode_cells (zip ?cs (map (cell_at r) (ix_columns ix))) = Inr b" "ik = b @ kb"
      "encode_cells (zip ?cs (map (cell_at r') (ix_columns ix))) = Inr b'" "ik' = b' @ kb'"
    using bytes [OF assms(1)] bytes [OF assms(2)] by blast
  have "compares b b' (cells_order (map (cell_at r) (ix_columns ix)) (map (cell_at r') (ix_columns ix)))"
    by (rule encode_cells_compares [OF b(1,3)]) (use assms(3,4) in \<open>auto simp: list_all_iff row_arrays_def\<close>)
  then show ?thesis using comparesD [of b b' _ kb kb'] assms(5) b(2,4) by (auto simp: index_le_def)
qed

context table_laws
begin

lemma IndexLookup_rows:
  assumes "table_ok P content t" "IndexLookup P t idx values = Inr (rows, None)" "find_index (tb_schema t) idx = Some ix" "list_all array16 values"
  shows "set rows = {(k, r) \<in> table_rows content t. leading_equal ix values r} \<and> sorted_wrt (index_le ix) rows"
proof -
  let ?s = "tb_schema t" and ?M = "content (tb_primary t)"
  have v: "valid_schema ?s" using assms(1) by (simp add: table_ok_def)
  have ix: "ix \<in> set (sch_indexes ?s)" "ix_tag ix = idx" using assms(3) find_index_Some [OF v] by auto
  obtain m where m: "fmlookup (tb_indexes t) idx = Some m" "content m = entry_map (index_entries P ?s ix ?M)"
    using assms(1) ix by (auto simp: table_ok_def)
  obtain lo kvs stop where run: "length values \<le> length (ix_columns ix)" "encode_cells (zip (map (column_of ?s) (ix_columns ix)) values) = Inr lo"
      "tp_range P m lo (successor lo) = Inr (kvs, stop)" "index_rows P t ix kvs stop = (rows, None)"
    using assms(2,3) m(1) by (auto simp: IndexLookup_def find_rev_index [OF v] and_then_Inr split: if_splits)
  have "index_rows P t ix kvs stop = (rs, None) \<Longrightarrow> stop = None" for rs kvs
    by (induction kvs arbitrary: rs) (auto split: sum.splits prod.splits)
  with run(4) have [simp]: "stop = None" by blast
  have all: "list_all2 (\<lambda>(b, vb) kr. index_row P t ix b vb = Inr kr) kvs rows" using run(4) index_rows_all by simp
  note range = tp_range [OF run(3) [simplified]]
  have entries: "(ik, w) \<in> set kvs \<longleftrightarrow> w = [] \<and> (\<exists>kb r. row_at ?s ?M kb = Some r \<and> indexKey P ?s ix r kb = Inr ik) \<and> (\<exists>x. ik = lo @ x)" for ik w
    using range unfolding range_is_prefix m(2) by (auto simp: entry_map_def index_entries_def)
  have same: "\<exists>vb. ?M kb = Some vb \<and> decodeRow ?s kb vb = Inr kr \<and> snd kr = r"
    if at: "row_at ?s ?M kb = Some r" and named: "indexKey P ?s ix r kb = Inr ik" and got: "index_row P t ix ik w = Inr kr" for kb r ik w kr
  proof -
    obtain vb k where vb: "?M kb = Some vb" "decodeRow ?s kb vb = Inr (k, r)"
      using at by (auto simp: row_at_def split: option.splits sum.splits)
    have "rowKeyOfIndexEntry ?s ix ik = Inr kb" by (rule indexKey_names_row [OF named row_at_arrays [OF at]])
    then obtain held where "tp_get P (tb_primary t) kb = Inr held" "(case held of None \<Rightarrow> Inl [ErrCorrupt] | Some vb \<Rightarrow> decodeRow ?s kb vb) = Inr kr"
      using got by (auto simp: index_row_def and_then_Inr split: if_splits)
    then show ?thesis using tp_get [of "tb_primary t" kb held] vb by auto
  qed
  have row: "\<exists>kb vb. ?M kb = Some vb \<and> decodeRow ?s kb vb = Inr kr \<and> indexKey P ?s ix (snd kr) kb = Inr ik \<and>
      row_arrays (snd kr) \<and> leading_equal ix values (snd kr)" if here: "(ik, w) \<in> set kvs" and got: "index_row P t ix ik w = Inr kr" for ik w kr
  proof -
    obtain kb r where r: "row_at ?s ?M kb = Some r" "indexKey P ?s ix r kb = Inr ik" "\<exists>x. ik = lo @ x"
      using entries [THEN iffD1, OF here] by blast
    note ra = row_at_arrays [OF r(1)]
    show ?thesis using same [OF r(1,2) got] ra r(2,3) indexKey_prefix [OF r(2) ra assms(4) run(1,2)] by auto
  qed
  have pair: "\<exists>ik w. (ik, w) \<in> set kvs \<and> index_row P t ix ik w = Inr kr" if "kr \<in> set rows" for kr
    using list_all2_members(1) [OF all that] by auto
  have "set rows = {(k, r) \<in> table_rows content t. leading_equal ix values r}"
  proof (intro set_eqI iffI)
    fix kr assume "kr \<in> set rows"
    then obtain ik w where "(ik, w) \<in> set kvs" "index_row P t ix ik w = Inr kr" using pair by blast
    from row [OF this] show "kr \<in> {(k, r) \<in> table_rows content t. leading_equal ix values r}" by (auto simp: table_rows_def)
  next
    fix kr assume "kr \<in> {(k, r) \<in> table_rows content t. leading_equal ix values r}"
    then obtain kb vb where kb: "?M kb = Some vb" "decodeRow ?s kb vb = Inr kr" "leading_equal ix values (snd kr)" by (auto simp: table_rows_def)
    then have r: "row_at ?s ?M kb = Some (snd kr)" by (simp add: row_at_def split: prod.split)
    moreover obtain ik where ik: "indexKey P ?s ix (snd kr) kb = Inr ik" using assms(1) kb(1) r ix(1) by (fastforce simp: table_ok_def rows_ok_def)
    ultimately have "(ik, []) \<in> set kvs"
      using entries [of ik "[]"] ik kb(3) indexKey_prefix [OF ik row_at_arrays [OF r] assms(4) run(1,2)] by blast
    then obtain kr' where "kr' \<in> set rows" "index_row P t ix ik [] = Inr kr'"
      using list_all2_members(2) [OF all] by fastforce
    moreover from same [OF r ik this(2)] kb(1,2) have "kr' = kr" by auto
    ultimately show "kr \<in> set rows" by simp
  qed
  moreover have "sorted_wrt (index_le ix) rows"
    unfolding sorted_wrt_iff_nth_less
  proof (intro allI impI)
    fix i j assume ij: "i < j" "j < length rows"
    have len: "length kvs = length rows" using all by (simp add: list_all2_lengthD)
    have nth: "index_row P t ix (fst (kvs ! n)) (snd (kvs ! n)) = Inr (rows ! n)" "(fst (kvs ! n), snd (kvs ! n)) \<in> set kvs" if "n < length rows" for n
      using all that len by (auto simp: list_all2_conv_all_nth split_beta)
    have "fst (kvs ! i) < fst (kvs ! j)" using range ij len by (auto simp: sorted_wrt_iff_nth_less)
    moreover obtain kb kb' where "indexKey P ?s ix (snd (rows ! i)) kb = Inr (fst (kvs ! i))" "row_arrays (snd (rows ! i))"
        "indexKey P ?s ix (snd (rows ! j)) kb' = Inr (fst (kvs ! j))" "row_arrays (snd (rows ! j))"
      using row [OF nth(2) nth(1), of i] row [OF nth(2) nth(1), of j] ij by auto
    ultimately show "index_le ix (rows ! i) (rows ! j)"
      using indexKey_order [of P ?s ix "snd (rows ! i)" kb "fst (kvs ! i)" "snd (rows ! j)" kb' "fst (kvs ! j)" "fst (rows ! i)" "fst (rows ! j)"] by simp
  qed
  ultimately show ?thesis by blast
qed

end

section \<open>What a table promises\<close>

context table_laws
begin

lemma empty_indexes_ok:
  assumes "empty_indexes P ixs ms = Inr ms'"
  shows "\<forall>ix \<in> set ixs. \<exists>m. fmlookup ms' (ix_tag ix) = Some m \<and> content m = Map.empty"
proof -
  have "(\<forall>ix \<in> set ixs. \<exists>m. fmlookup ms' (ix_tag ix) = Some m \<and> content m = Map.empty) \<and>
      (\<forall>t m. fmlookup ms t = Some m \<and> content m = Map.empty \<longrightarrow> (\<exists>m. fmlookup ms' t = Some m \<and> content m = Map.empty))"
    using assms
  proof (induction ixs arbitrary: ms)
    case (Cons ix ixs)
    then obtain m where m: "tp_empty P indexConfig = Inr m" "empty_indexes P ixs (fmupd (ix_tag ix) m ms) = Inr ms'"
      by (auto simp: and_then_Inr)
    from Cons.IH [OF m(2)] tp_empty [OF m(1)] show ?case by (auto simp: fmupd_lookup split: if_splits)
  qed simp
  then show ?thesis by blast
qed

lemma Create_ok:
  assumes "Create W P s = Inr t"
  shows "table_ok P content t" "content (tb_primary t) = Map.empty" "tb_schema t = s"
proof -
  obtain cat m ms where t: "EncodeCatalog W s = Inr cat" "tp_empty P (rowConfig s) = Inr m" "empty_indexes P (sch_indexes s) fmempty = Inr ms"
      "tb_schema t = s" "tb_primary t = m" "tb_indexes t = ms"
    using assms by (auto simp: Create_def empty_table_def writeRoot_def and_then_Inr)
  have "valid_schema s" using t(1) by (auto simp: EncodeCatalog_def and_then_Inr Validate_iff)
  then show "table_ok P content t"
    using empty_indexes_ok [OF t(3)] tp_empty [OF t(2)] t(4-6)
    by (fastforce simp: table_ok_def rows_ok_def entry_map_def index_entries_def row_at_def)
  show "content (tb_primary t) = Map.empty" "tb_schema t = s" using tp_empty [OF t(2)] t(4,5) by simp_all
qed

lemma run_refines:
  assumes "Create W P s = Inr t" "list_all op_arrays ops" "do_ops W P (Edit t) ops = Inr e"
  shows "map_ops P s ops Map.empty = Some (view content e) \<and> table_ok P content (ed_t e)"
proof -
  note c = Create_ok [OF assms(1)]
  have "editor_ok P content (Edit t)" using c(1) by (simp add: editor_ok_def Edit_def)
  moreover have "view content (Edit t) = Map.empty" using c(2) by (simp add: view_def edited_def Edit_def row_at_def fun_eq_iff)
  ultimately show ?thesis
    using do_ops_refine [OF assms(3) _ assms(2)] c(3) by (simp add: Edit_def editor_ok_def)
qed

end

text \<open>
  C15. A table refines a map from keys to rows: a run of inserts, updates, deletes and flushes on a new table that is not
  refused is allowed by the map (an insert found its key free, an update and a delete found theirs taken), and
  leaves exactly the rows the map has, each the cells that were given with its key, as stored; and every index of
  the table it last flushed holds exactly the entries of its rows.
\<close>

theorem table_refines_map:
  assumes "table_laws P content pending" "Create W P s = Inr t" "list_all op_arrays ops" "do_ops W P (Edit t) ops = Inr e"
  shows "map_ops P s ops Map.empty = Some (view content e) \<and> table_ok P content (ed_t e)"
  by (rule table_laws.run_refines [OF assms])

text \<open>
  C16. An index finds the rows: a lookup by the leading columns of an index that ends without an error returns exactly the
  rows of the table whose cells there equal the given ones, in the order of the index.
\<close>

theorem index_lookup_exact:
  assumes "table_laws P content pending" "table_ok P content t" "IndexLookup P t idx values = Inr (rows, None)"
    "find_index (tb_schema t) idx = Some ix" "list_all array16 values"
  shows "set rows = {(k, r) \<in> table_rows content t. leading_equal ix values r} \<and> sorted_wrt (index_le ix) rows"
  by (rule table_laws.IndexLookup_rows [OF assms])

text \<open>
  C20. No row record is longer than the limit its map is opened with.
\<close>

theorem row_within_limit:
  assumes "encodeValue s r = Inr vb" "row_arrays r"
  shows "length vb \<le> rowConfig s"
proof -
  have "encode_cells (map (\<lambda>c. (c, cell_at r (col_tag c))) cs) = Inr b \<Longrightarrow> length b \<le> sum_list (map maxCell cs)" for cs b
  proof (induction cs arbitrary: b)
    case (Cons c cs)
    then obtain x y where "encodeCell c (cell_at r (col_tag c)) = Inr x" "encode_cells (map (\<lambda>c. (c, cell_at r (col_tag c))) cs) = Inr y" "b = x @ y"
      by (auto simp: and_then_Inr)
    then show ?case using Cons.IH [of y] encodeCell_bound [of c _ x] assms(2) by (fastforce simp: row_arrays_def)
  qed simp
  then have "length vb \<le> sum_list (map maxCell (value_columns s))" using assms(1) by (auto simp: encodeValue_def split: if_splits)
  then show ?thesis by (simp add: rowConfig_def)
qed

section \<open>Finite maps as the storage core\<close>

definition fmap_tables :: "((bytes, bytes) fmap, (bytes, bytes) fmap) table_port" where
  "fmap_tables =
     \<lparr>tp_max_key = 4096, tp_empty = (\<lambda>n. Inr fmempty), tp_open = (\<lambda>n h. Inl [ErrStore]), tp_root = (\<lambda>m. replicate 32 (byte_of 0)),
      tp_count = (\<lambda>m. of_nat (fcard (fmdom m))), tp_get = (\<lambda>m k. Inr (fmlookup m k)),
      tp_range = (\<lambda>m lo hi. Inr (filter (\<lambda>(k, _). lo \<le> k \<and> (case hi of None \<Rightarrow> True | Some h \<Rightarrow> k < h)) (fmap_entries m), None)),
      tp_diff = mp_diff fmap_port, tp_editor = (\<lambda>m. m), te_put = (\<lambda>m k v. Inr (fmupd k v m)), te_delete = (\<lambda>m k. Inr (fmdrop k m)),
      te_flush = Inr, cs_put = (\<lambda>b. Inr (replicate 32 (byte_of 0))), cs_get = (\<lambda>h. Inl [ErrStore])\<rparr>"

lemma fmap_tables_simps [simp]:
  "tp_max_key fmap_tables = 4096" "tp_empty fmap_tables n = Inr fmempty" "tp_get fmap_tables m k = Inr (fmlookup m k)"
  "tp_range fmap_tables m lo hi = Inr (filter (\<lambda>(k, _). lo \<le> k \<and> (case hi of None \<Rightarrow> True | Some h \<Rightarrow> k < h)) (fmap_entries m), None)"
  "tp_editor fmap_tables m = m" "te_put fmap_tables m k v = Inr (fmupd k v m)" "te_delete fmap_tables m k = Inr (fmdrop k m)"
  "te_flush fmap_tables m = Inr m" "cs_put fmap_tables b = Inr (replicate 32 (byte_of 0))" "tp_diff fmap_tables = mp_diff fmap_port"
  by (simp_all add: fmap_tables_def)

interpretation fmap_tables: table_laws fmap_tables fmlookup fmlookup
proof
  fix m lo hi kvs assume "tp_range fmap_tables m lo hi = Inr (kvs, None)"
  then show "sorted_wrt (<) (map fst kvs) \<and>
      (\<forall>k v. (k, v) \<in> set kvs \<longleftrightarrow> fmlookup m k = Some v \<and> lo \<le> k \<and> (\<forall>h. hi = Some h \<longrightarrow> k < h))"
    using fmap_entries_sorted by (auto simp: fmap_entries_iff split: option.splits)
next
  fix m m' cs assume "tp_diff fmap_tables m m' = Inr (cs, None)"
  then show "sorted_wrt (<) (map ch_key cs) \<and> set cs = change_of (fmlookup m) (fmlookup m') ` {k. fmlookup m k \<noteq> fmlookup m' k}"
    unfolding fmap_tables_simps by (rule fmap_maps.diff)
qed auto

text \<open>A table of flags: its key and an indexed column that may be NULL.\<close>

definition flags :: schema where
  "flags = \<lparr>sch_columns = [\<lparr>col_tag = 1, col_name = ''on'', col_type = TypeBool, col_nullable = False, col_maxlen = 0\<rparr>,
     \<lparr>col_tag = 2, col_name = ''seen'', col_type = TypeBool, col_nullable = True, col_maxlen = 0\<rparr>],
     sch_key = [1], sch_indexes = [\<lparr>ix_tag = 1, ix_columns = [2]\<rparr>]\<rparr>"

definition flag_row :: row where
  "flag_row = fmupd 1 (CBool True) (fmupd 2 (CBool False) fmempty)"

lemma flags_valid: "Validate flags = Inr ()"
  unfolding Validate_iff valid_schema_def flags_def
  by (simp add: MaxColumns_def MaxIndexes_def MaxNameLen_def column_ok_def key_ok_def indexes_ok_def schema_column_def)

lemma flags_cells:
  "encodeCell (column_of flags 1) (CBool True) = Inr (map byte_of [1, 1])" "encodeCell (column_of flags 2) (CBool False) = Inr (map byte_of [1, 0])"
  by (simp_all add: flags_def column_of_def schema_column_def encodeCell_def encode_body_def MaxCellLen_def)

lemma flags_key: "encodeKey fmap_tables flags [CBool True] = Inr (map byte_of [1, 1])"
  using flags_cells(1) by (simp add: encodeKey_def keyed_def flags_def)

lemma flags_value: "encodeValue flags flag_row = Inr (map byte_of [1, 0])"
proof -
  have "value_columns flags = [column_of flags 2]" "col_tag (column_of flags 2) = 2"
    by (simp_all add: value_columns_def flags_def isKey_def column_of_def schema_column_def)
  moreover have "fBall (fmdom flag_row) (\<lambda>t. schema_column flags t \<noteq> None)" by (simp add: flag_row_def flags_def schema_column_def)
  ultimately show ?thesis using flags_cells(2) by (simp add: encodeValue_def cell_at_def flag_row_def)
qed

lemma flags_arrays: "row_arrays flag_row" "op_arrays (OpInsert (replicate 16 (byte_of 0)) flag_row)"
  by (auto simp: row_arrays_def cell_at_def flag_row_def)

theorem row_within_limit_witness: "length (map byte_of [1, 0]) \<le> rowConfig flags"
  by (rule row_within_limit [OF flags_value flags_arrays(1)])

theorem table_refines_map_witness:
  "\<exists>t e. do_ops std_wire fmap_tables (Edit t) [OpInsert (replicate 16 (byte_of 0)) flag_row] = Inr e \<and>
     map_ops fmap_tables flags [OpInsert (replicate 16 (byte_of 0)) flag_row] Map.empty = Some (view fmlookup e) \<and>
     table_ok fmap_tables fmlookup (ed_t e)"
proof -
  obtain t where t: "Create std_wire fmap_tables flags = Inr t" "tb_schema t = flags" "tb_primary t = fmempty"
    using flags_valid by (auto simp: Create_def empty_table_def writeRoot_def EncodeCatalog_def flags_def)
  have "keyOf flags flag_row = Inr [CBool True]" "keyed flags" by (simp_all add: keyOf_def keyed_def flags_def flag_row_def)
  then obtain e where e: "do_ops std_wire fmap_tables (Edit t) [OpInsert (replicate 16 (byte_of 0)) flag_row] = Inr e"
    using flags_key flags_value by (simp add: Insert_def Let_def Edit_def t exists_def)
  from table_refines_map [OF fmap_tables.table_laws_axioms t(1) _ e] flags_arrays e show ?thesis by auto
qed

definition flag_table :: "(bytes, bytes) fmap table" where
  "flag_table = \<lparr>tb_schema = flags, tb_catalog = [], tb_primary = fmupd (map byte_of [1, 1]) (map byte_of [1, 0]) fmempty,
     tb_indexes = fmupd 1 (fmupd (map byte_of [1, 0, 1, 1]) [] fmempty) fmempty, tb_root = zero_root\<rparr>"

lemma flag_decodes:
  "\<exists>r. decodeRow flags (map byte_of [1, 1]) (map byte_of [1, 0]) = Inr ([CBool True], r) \<and> cell_at r 2 = CBool False"
proof -
  have "valid_schema flags" using flags_valid Validate_iff by blast
  from decodeRow_written [OF this flags_key flags_value _ flags_arrays(1)]
  obtain r where "decodeRow flags (map byte_of [1, 1]) (map byte_of [1, 0]) = Inr (map norm_cell [CBool True], r)"
      "\<forall>t. cell_at r t = norm_cell (cell_at (cloneRow flag_row [CBool True] flags) t)" by (auto simp: key_arrays_def)
  then show ?thesis by (auto simp: cloneRow_def with_key_def flags_def flag_row_def cell_at_def)
qed

lemma flag_index:
  assumes "cell_at r 2 = CBool False"
  shows "indexKey fmap_tables flags \<lparr>ix_tag = 1, ix_columns = [2]\<rparr> r (map byte_of [1, 1]) = Inr (map byte_of [1, 0, 1, 1])"
  using assms flags_cells(2) by (simp add: indexKey_def)

lemma flag_table_ok: "table_ok fmap_tables fmlookup flag_table"
proof -
  let ?ix = "\<lparr>ix_tag = 1, ix_columns = [2]\<rparr>"
  obtain r where r: "decodeRow flags (map byte_of [1, 1]) (map byte_of [1, 0]) = Inr ([CBool True], r)" "cell_at r 2 = CBool False"
    using flag_decodes by blast
  have at: "row_at flags (fmlookup (tb_primary flag_table)) kb = (if kb = map byte_of [1, 1] then Some r else None)" for kb
    using r(1) by (auto simp: row_at_def flag_table_def)
  have ixs: "sch_indexes flags = [?ix]" by (simp add: flags_def)
  have "index_entries fmap_tables flags ?ix (fmlookup (tb_primary flag_table)) = {map byte_of [1, 0, 1, 1]}"
    unfolding index_entries_def at using flag_index [OF r(2)] by (auto split: if_splits)
  moreover have "rows_ok fmap_tables flags (fmlookup (tb_primary flag_table))"
    unfolding rows_ok_def at ixs using flag_index [OF r(2)] by (auto simp: flag_table_def split: if_splits)
  ultimately show ?thesis
    using flags_valid Validate_iff by (auto simp: table_ok_def flag_table_def ixs entry_map_def fun_eq_iff)
qed

lemma flag_lookup: "\<exists>rows. IndexLookup fmap_tables flag_table 1 [CBool False] = Inr (rows, None) \<and> length rows = 1"
proof -
  let ?ix = "\<lparr>ix_tag = 1, ix_columns = [2]\<rparr>"
  obtain r where r: "decodeRow flags (map byte_of [1, 1]) (map byte_of [1, 0]) = Inr ([CBool True], r)" "cell_at r 2 = CBool False"
    using flag_decodes by blast
  have "rowKeyOfIndexEntry flags ?ix (map byte_of [1, 0, 1, 1]) = Inr (map byte_of [1, 1])"
    using indexKey_names_row [OF flag_index [OF r(2)]] decodeRow_arrays [OF r(1)] by simp
  then have row: "index_row fmap_tables flag_table ?ix (map byte_of [1, 0, 1, 1]) [] = Inr ([CBool True], r)"
    using r(1) by (simp add: index_row_def flag_table_def)
  have ix: "find (\<lambda>ix. ix_tag ix = 1) (rev (sch_indexes flags)) = Some ?ix" by (simp add: flags_def)
  have lo: "encode_cells (zip (map (column_of flags) [2]) [CBool False]) = Inr (map byte_of [1, 0])" using flags_cells(2) by simp
  have range: "tp_range fmap_tables (fmupd (map byte_of [1, 0, 1, 1]) [] fmempty) (map byte_of [1, 0]) (successor (map byte_of [1, 0])) =
      Inr ([(map byte_of [1, 0, 1, 1], [])], None)"
    using range_is_prefix [of "map byte_of [1, 0]" "map byte_of [1, 0, 1, 1]"]
    by (auto simp: fmap_entries_def sorted_list_of_fset.rep_eq split: option.splits)
  have "IndexLookup fmap_tables flag_table 1 [CBool False] = Inr ([([CBool True], r)], None)"
    using ix lo range row unfolding IndexLookup_def by (simp add: flag_table_def)
  then show ?thesis by simp
qed

theorem index_lookup_exact_witness:
  "\<exists>rows. IndexLookup fmap_tables flag_table 1 [CBool False] = Inr (rows, None) \<and> length rows = 1 \<and>
     set rows = {(k, r) \<in> table_rows fmlookup flag_table. leading_equal \<lparr>ix_tag = 1, ix_columns = [2]\<rparr> [CBool False] r} \<and>
     sorted_wrt (index_le \<lparr>ix_tag = 1, ix_columns = [2]\<rparr>) rows"
proof -
  obtain rows where rows: "IndexLookup fmap_tables flag_table 1 [CBool False] = Inr (rows, None)" "length rows = 1" using flag_lookup by blast
  have "find_index (tb_schema flag_table) 1 = Some \<lparr>ix_tag = 1, ix_columns = [2]\<rparr>" by (simp add: flag_table_def flags_def find_index_def)
  from index_lookup_exact [OF fmap_tables.table_laws_axioms flag_table_ok rows(1) this] rows show ?thesis by simp
qed

end
