(* ===== verification/Table_Model.thy ===== *)
theory Table_Model
  imports Table_Correct
begin

text \<open>
  The table model (src/model/table/model.go, src/model/table/rebase.go and WithSchema of src/model/table/alter.go): locations of
  cells, the differences of two tables, the cell by cell merge under a merged schema, validation and rebase. Hashes and
  maps are those of the storage core's record \<open>table_port\<close>.
\<close>

section \<open>Locations\<close>

definition cellLocation :: "bytes \<Rightarrow> tag \<Rightarrow> bytes" where
  "cellLocation kb t = kb @ be_bytes 2 (unat t)"

definition table_Locate :: "('m, 'e) table_port \<Rightarrow> schema \<Rightarrow> key \<Rightarrow> tag \<Rightarrow> bytes result" where
  "table_Locate P s key t =
     and_then (encodeKey P s key) (\<lambda>kb.
       if t = 0 then Inr kb
       else if schema_column s t = None then Inl [ErrCell]
       else Inr (cellLocation kb t))"

definition table_ParseLocation :: "schema \<Rightarrow> bytes \<Rightarrow> (key \<times> tag) result" where
  "table_ParseLocation s loc =
     (case decodeKey s loc of
        Inr key \<Rightarrow> Inr (key, 0)
      | Inl _ \<Rightarrow>
         if length loc < 2 then Inl [ErrCorrupt]
         else
           and_then (decodeKey s (take (length loc - 2) loc)) (\<lambda>key.
             let t = of_nat (be_val (drop (length loc - 2) loc)) in
             if schema_column s t = None then Inl [ErrCorrupt] else Inr (key, t)))"

section \<open>Diffs\<close>

record model_change =
  mch_kind :: change_kind
  mch_location :: bytes

text \<open>What \<open>diffIter.Next\<close> queues for one change of the primary map.\<close>

definition diff_changes :: "schema \<Rightarrow> change \<Rightarrow> model_change list result" where
  "diff_changes s c =
     (if ch_kind c \<noteq> Modified then Inr [\<lparr>mch_kind = ch_kind c, mch_location = ch_key c\<rparr>]
      else
        and_then (decodeRow s (ch_key c) (case ch_from c of None \<Rightarrow> [] | Some b \<Rightarrow> b)) (\<lambda>(_, from).
        and_then (decodeRow s (ch_key c) (ch_to c)) (\<lambda>(_, to).
          Inr (map (\<lambda>col. \<lparr>mch_kind = Modified, mch_location = cellLocation (ch_key c) (col_tag col)\<rparr>)
            (filter (\<lambda>col. \<not> (isKey s (col_tag col) \<or> sameCell (cell_at from (col_tag col)) (cell_at to (col_tag col))))
              (sch_columns s))))))"

text \<open>The changes \<open>diffIter.Next\<close> returns, to the end or the first error.\<close>

fun diff_all :: "schema \<Rightarrow> change list \<Rightarrow> error option \<Rightarrow> model_change iter" where
  "diff_all s [] stop = ([], stop)"
| "diff_all s (c # cs) stop =
     (case diff_changes s c of
        Inl e \<Rightarrow> ([], Some e)
      | Inr xs \<Rightarrow> (case diff_all s cs stop of (ys, e) \<Rightarrow> (xs @ ys, e)))"

definition table_Diff :: "wire \<Rightarrow> ('m, 'e) table_port \<Rightarrow> model_root \<Rightarrow> model_root \<Rightarrow> model_change iter result" where
  "table_Diff W P from to =
     and_then (table_Open W P from) (\<lambda>ft.
     and_then (table_Open W P to) (\<lambda>tt.
     ensure (tb_catalog ft = tb_catalog tt) [ErrSchema] (
     and_then (tp_diff P (tb_primary ft) (tb_primary tt)) (\<lambda>(cs, stop). Inr (diff_all (tb_schema tt) cs stop)))))"

section \<open>Merging rows\<close>

definition mergeCell :: "column \<Rightarrow> cell \<Rightarrow> cell \<Rightarrow> cell \<Rightarrow> (cell \<times> bool) result" where
  "mergeCell c0 base ours theirs =
     (let c = c0\<lparr>col_nullable := True\<rparr> in
      and_then (encodeCell c base) (\<lambda>b.
      and_then (encodeCell c ours) (\<lambda>x.
      and_then (encodeCell c theirs) (\<lambda>y.
        let r = Scalar b x y in
        if \<not> Clean r then Inr (CNull, True)
        else if r_value r = x then Inr (ours, False)
        else Inr (theirs, False)))))"

text \<open>
  \<open>merger\<close>: what does not change while a merge runs, the schemas of the base, ours, theirs and the merged table and the
  columns each side dropped, and what does: the merged table's editor and the conflicts. \<open>seen\<close> is the set of the locations of
  the conflicts.
\<close>

record merge_ctx =
  mx_base :: schema
  mx_ours :: schema
  mx_theirs :: schema
  mx_merged :: schema
  mx_droppedByOurs :: "tag list"
  mx_droppedByTheirs :: "tag list"

record 'm merger =
  mg_ed :: "'m editor"
  mg_conflicts :: "model_conflict list"
  mg_seen :: "bytes list"

definition mg_conflict :: "'m merger \<Rightarrow> bytes \<Rightarrow> string \<Rightarrow> 'm merger" where
  "mg_conflict mg loc reason =
     (if loc \<in> set (mg_seen mg) then mg
      else mg\<lparr>mg_seen := loc # mg_seen mg, mg_conflicts := mg_conflicts mg @ [\<lparr>mc_location = loc, mc_reason = reason\<rparr>]\<rparr>)"

definition from_bytes :: "change \<Rightarrow> bytes" where
  "from_bytes c = (case ch_from c of None \<Rightarrow> [] | Some b \<Rightarrow> b)"

definition wroteDropped :: "merge_ctx \<Rightarrow> schema \<Rightarrow> change \<Rightarrow> tag list \<Rightarrow> 'm merger \<Rightarrow> 'm merger result" where
  "wroteDropped X side c dropped mg =
     (if dropped = [] \<or> ch_kind c = Removed then Inr mg
      else
        and_then (decodeRow side (ch_key c) (ch_to c)) (\<lambda>(_, to).
        and_then (if ch_kind c = Modified then and_then (decodeRow (mx_base X) (ch_key c) (from_bytes c)) (\<lambda>(_, r). Inr r) else Inr fmempty) (\<lambda>from.
          Inr (fold (\<lambda>t mg. if \<not> sameCell (cell_at from t) (cell_at to t)
             then mg_conflict mg (columnLocation t) ''dropped on one side and written to on the other'' else mg) dropped mg))))"

definition fits_not :: "error \<Rightarrow> bool" where
  "fits_not e \<longleftrightarrow> errors_Is e ErrCell \<or> errors_Is e ErrSchema"

definition putConverted ::
  "(error \<Rightarrow> string) \<Rightarrow> merge_ctx \<Rightarrow> bytes \<Rightarrow> key \<Rightarrow> row \<Rightarrow> schema \<Rightarrow> 'm merger \<Rightarrow> 'm merger result" where
  "putConverted err_text X kb key r from mg =
     (case and_then (convertRow from r (mx_merged X)) (ed_put_row (mg_ed mg) kb key) of
        Inr ed \<Rightarrow> Inr (mg\<lparr>mg_ed := ed\<rparr>)
      | Inl e \<Rightarrow> if fits_not e then Inr (mg_conflict mg kb (''the row does not fit the merged schema: '' @ err_text e)) else Inl e)"

definition mg_apply :: "(error \<Rightarrow> string) \<Rightarrow> merge_ctx \<Rightarrow> change \<Rightarrow> 'm merger \<Rightarrow> 'm merger result" where
  "mg_apply err_text X c mg =
     (if ch_kind c = Removed then and_then (ed_remove (mg_ed mg) (ch_key c)) (\<lambda>ed. Inr (mg\<lparr>mg_ed := ed\<rparr>))
      else
        and_then (decodeRow (mx_theirs X) (ch_key c) (ch_to c)) (\<lambda>(key, r).
          putConverted err_text X (ch_key c) key r (mx_theirs X) mg))"

text \<open>The loop of \<open>reconcile\<close> over the merged schema's columns.\<close>

fun reconcile_cells ::
  "(error \<Rightarrow> string) \<Rightarrow> merge_ctx \<Rightarrow> change_kind \<Rightarrow> bytes \<Rightarrow> row \<Rightarrow> row \<Rightarrow> row \<Rightarrow> column list \<Rightarrow> row \<Rightarrow> 'm merger \<Rightarrow> row \<times> 'm merger" where
  "reconcile_cells err_text X kind kb rb ro rt [] merged mg = (merged, mg)"
| "reconcile_cells err_text X kind kb rb ro rt (col # cols) merged mg =
     (let t = col_tag col in
      if isKey (mx_merged X) t then reconcile_cells err_text X kind kb rb ro rt cols (fmupd t (cell_at ro t) merged) mg
      else case mergeCell col (cell_at rb t) (cell_at ro t) (cell_at rt t) of
          Inl e \<Rightarrow> reconcile_cells err_text X kind kb rb ro rt cols merged
            (mg_conflict mg (cellLocation kb t) (''the cell does not fit the merged schema: '' @ err_text e))
        | Inr (v, conflict) \<Rightarrow>
           if conflict then reconcile_cells err_text X kind kb rb ro rt cols merged
             (mg_conflict mg (cellLocation kb t) (if kind = Added then ''added differently on both sides'' else ''changed differently on both sides''))
           else reconcile_cells err_text X kind kb rb ro rt cols (if v \<noteq> CNull then fmupd t v merged else merged) mg)"

text \<open>One of the three rows of \<open>reconcile\<close>, decoded and converted: \<open>Inr None\<close> when it does not fit, which is a conflict.\<close>

definition converted :: "merge_ctx \<Rightarrow> schema \<Rightarrow> bytes \<Rightarrow> bytes \<Rightarrow> ((key \<times> row) + error) result" where
  "converted X s kb vb =
     and_then (decodeRow s kb vb) (\<lambda>(key, r).
       case convertRow s r (mx_merged X) of Inl e \<Rightarrow> Inr (Inr e) | Inr r \<Rightarrow> Inr (Inl (key, r)))"

definition reconcile :: "(error \<Rightarrow> string) \<Rightarrow> merge_ctx \<Rightarrow> change \<Rightarrow> change \<Rightarrow> 'm merger \<Rightarrow> 'm merger result" where
  "reconcile err_text X co ct mg =
     (let kb = ch_key co; no_fit = (\<lambda>e. mg_conflict mg kb (''the row does not fit the merged schema: '' @ err_text e)) in
      if ch_kind co = Removed \<and> ch_kind ct = Removed then Inr mg
      else if ch_kind co = Removed \<or> ch_kind ct = Removed then
        Inr (mg_conflict mg kb ''deleted on one side and changed on the other'')
      else
        and_then (if ch_kind co \<noteq> Modified then Inr (Inl ([], fmempty)) else converted X (mx_base X) kb (from_bytes co)) (\<lambda>b.
        case b of Inr e \<Rightarrow> Inr (no_fit e) | Inl (_, rb) \<Rightarrow>
        and_then (converted X (mx_ours X) kb (ch_to co)) (\<lambda>x.
        case x of Inr e \<Rightarrow> Inr (no_fit e) | Inl (_, ro) \<Rightarrow>
        and_then (converted X (mx_theirs X) (ch_key ct) (ch_to ct)) (\<lambda>y.
        case y of Inr e \<Rightarrow> Inr (no_fit e) | Inl (key, rt) \<Rightarrow>
        case reconcile_cells err_text X (ch_kind co) kb rb ro rt (sch_columns (mx_merged X)) fmempty mg of (merged, mg') \<Rightarrow>
          if length (mg_conflicts mg') > length (mg_conflicts mg) then Inr mg'
          else putConverted err_text X kb key merged (mx_merged X) mg'))))"

text \<open>The loop of \<open>Merge\<close> over both sides' changes; an iterator that ends in an error ends the loop with it.\<close>

fun merge_loop ::
  "(error \<Rightarrow> string) \<Rightarrow> merge_ctx \<Rightarrow> change list \<Rightarrow> error option \<Rightarrow> change list \<Rightarrow> error option \<Rightarrow> 'm merger \<Rightarrow> 'm merger result" where
  "merge_loop err_text X [] so ts st mg =
     (case so of Some e \<Rightarrow> Inl e
      | None \<Rightarrow>
         (case ts of
            [] \<Rightarrow> (case st of Some e \<Rightarrow> Inl e | None \<Rightarrow> Inr mg)
          | ct # ts' \<Rightarrow>
             and_then (wroteDropped X (mx_theirs X) ct (mx_droppedByOurs X) mg) (\<lambda>mg.
             and_then (mg_apply err_text X ct mg) (merge_loop err_text X [] so ts' st))))"
| "merge_loop err_text X (co # os) so [] st mg =
     (case st of Some e \<Rightarrow> Inl e
      | None \<Rightarrow> and_then (wroteDropped X (mx_ours X) co (mx_droppedByTheirs X) mg) (merge_loop err_text X os so [] st))"
| "merge_loop err_text X (co # os) so (ct # ts) st mg =
     (if ch_key co < ch_key ct then
        and_then (wroteDropped X (mx_ours X) co (mx_droppedByTheirs X) mg) (merge_loop err_text X os so (ct # ts) st)
      else if ch_key ct < ch_key co then
        and_then (wroteDropped X (mx_theirs X) ct (mx_droppedByOurs X) mg) (\<lambda>mg.
        and_then (mg_apply err_text X ct mg) (merge_loop err_text X (co # os) so ts st))
      else
        and_then (wroteDropped X (mx_ours X) co (mx_droppedByTheirs X) mg) (\<lambda>mg.
        and_then (wroteDropped X (mx_theirs X) ct (mx_droppedByOurs X) mg) (\<lambda>mg.
        and_then (reconcile err_text X co ct mg) (merge_loop err_text X os so ts st))))"

section \<open>Rewriting a table under a new schema\<close>

fun alter_rows :: "('m, 'e) table_port \<Rightarrow> schema \<Rightarrow> schema \<Rightarrow> (key \<times> row) list \<Rightarrow> error option \<Rightarrow> 'm editor \<Rightarrow> 'm editor result" where
  "alter_rows P s next [] stop e = (case stop of None \<Rightarrow> Inr e | Some err \<Rightarrow> Inl err)"
| "alter_rows P s next ((key, r) # rows) stop e =
     and_then (convertRow s r next) (\<lambda>conv.
     and_then (encodeKey P next key) (\<lambda>kb.
     and_then (ed_put_row e kb key conv) (alter_rows P s next rows stop)))"

definition WithSchema :: "wire \<Rightarrow> ('m, 'e) table_port \<Rightarrow> 'm table \<Rightarrow> schema \<Rightarrow> 'm table result" where
  "WithSchema W P t next =
     and_then (alterable (tb_schema t) next) (\<lambda>_.
     and_then (empty_table W P next) (\<lambda>out.
     and_then (table_Scan P t) (\<lambda>(rows, stop).
     and_then (alter_rows P (tb_schema t) next rows stop (Edit out)) (\<lambda>e.
     and_then (table_Flush W P e) (\<lambda>(t', _). Inr t')))))"

section \<open>Merging tables\<close>

record mergeResult =
  mr_root :: model_root
  mr_conflicts :: "model_conflict list"

definition schema_conflict :: "model_root \<Rightarrow> string \<Rightarrow> mergeResult" where
  "schema_conflict ours reason = \<lparr>mr_root = ours, mr_conflicts = [\<lparr>mc_location = schemaLocation, mc_reason = reason\<rparr>]\<rparr>"

text \<open>Ours under the merged schema, or the conflict that it or theirs does not fit it.\<close>

definition merged_table ::
  "wire \<Rightarrow> ('m, 'e) table_port \<Rightarrow> (error \<Rightarrow> string) \<Rightarrow> model_root \<Rightarrow> 'm table \<Rightarrow> 'm table \<Rightarrow> schema \<Rightarrow> ('m table + mergeResult) result" where
  "merged_table W P err_text ours o' t s =
     and_then (EncodeCatalog W s) (\<lambda>cat.
       if cat = tb_catalog o' then Inr (Inl o')
       else case alterable (tb_schema o') s of
           Inl e \<Rightarrow> Inr (Inr (schema_conflict ours (''ours does not fit the merged schema: '' @ err_text e)))
         | Inr _ \<Rightarrow>
            (case alterable (tb_schema t) s of
               Inl e \<Rightarrow> Inr (Inr (schema_conflict ours (''theirs does not fit the merged schema: '' @ err_text e)))
             | Inr _ \<Rightarrow>
                (case WithSchema W P o' s of
                   Inr mt \<Rightarrow> Inr (Inl mt)
                 | Inl e \<Rightarrow>
                    if errors_Is e ErrCell
                    then Inr (Inr (schema_conflict ours (''ours' rows do not fit the merged schema: '' @ err_text e)))
                    else Inl e)))"

definition table_Merge ::
  "wire \<Rightarrow> ('m, 'e) table_port \<Rightarrow> (error \<Rightarrow> string) \<Rightarrow> string list \<Rightarrow> model_root \<Rightarrow> model_root \<Rightarrow> model_root \<Rightarrow> mergeResult result" where
  "table_Merge W P err_text order base ours theirs =
     and_then (table_Open W P base) (\<lambda>b.
     and_then (table_Open W P ours) (\<lambda>o'.
     and_then (table_Open W P theirs) (\<lambda>t.
       case mergeSchemas err_text order (tb_schema b) (tb_schema o') (tb_schema t) (tb_catalog b) (tb_catalog o') (tb_catalog t) of (s, conflicts) \<Rightarrow>
         if length conflicts > 0 then Inr \<lparr>mr_root = ours, mr_conflicts = conflicts\<rparr>
         else
           and_then (merged_table W P err_text ours o' t s) (\<lambda>m.
             case m of Inr res \<Rightarrow> Inr res
             | Inl mt \<Rightarrow>
                let X = \<lparr>mx_base = tb_schema b, mx_ours = tb_schema o', mx_theirs = tb_schema t, mx_merged = tb_schema mt,
                  mx_droppedByOurs = droppedBy (tb_schema b) (tb_schema o'), mx_droppedByTheirs = droppedBy (tb_schema b) (tb_schema t)\<rparr> in
                and_then (tp_diff P (tb_primary b) (tb_primary o')) (\<lambda>(os, so).
                and_then (tp_diff P (tb_primary b) (tb_primary t)) (\<lambda>(ts, st).
                and_then (merge_loop err_text X os so ts st \<lparr>mg_ed = Edit mt, mg_conflicts = [], mg_seen = []\<rparr>) (\<lambda>mg.
                  if length (mg_conflicts mg) > 0 then Inr \<lparr>mr_root = ours, mr_conflicts = mg_conflicts mg\<rparr>
                  else and_then (table_Flush W P (mg_ed mg)) (\<lambda>(merged, _). Inr \<lparr>mr_root = tb_root merged, mr_conflicts = []\<rparr>)))))))) "

section \<open>Validating a table\<close>

fun validate_indexes :: "('m, 'e) table_port \<Rightarrow> 'm table \<Rightarrow> uint64 \<Rightarrow> index list \<Rightarrow> unit result" where
  "validate_indexes P t n [] = Inr ()"
| "validate_indexes P t n (ix # ixs) =
     and_then (IndexLookup P t (ix_tag ix) []) (\<lambda>(rows, stop).
       case stop of Some e \<Rightarrow> Inl e
       | None \<Rightarrow> if of_nat (length rows) \<noteq> n then Inl [ErrCorrupt] else validate_indexes P t n ixs)"

definition table_Validate :: "wire \<Rightarrow> ('m, 'e) table_port \<Rightarrow> model_root \<Rightarrow> unit result" where
  "table_Validate W P rt =
     and_then (table_Open W P rt) (\<lambda>t.
     and_then (table_Scan P t) (\<lambda>(rows, stop).
       case stop of Some e \<Rightarrow> Inl e
       | None \<Rightarrow>
          if of_nat (length rows) \<noteq> root_size rt then Inl [ErrCorrupt]
          else validate_indexes P t (of_nat (length rows)) (sch_indexes (tb_schema t))))"

section \<open>Rebasing a table\<close>

fun table_rebase_loop :: "('m, 'e) table_port \<Rightarrow> 'm table \<Rightarrow> schema \<Rightarrow> change list \<Rightarrow> error option \<Rightarrow> 'm editor \<Rightarrow> 'm editor result" where
  "table_rebase_loop P onto s [] stop e = (case stop of None \<Rightarrow> Inr e | Some err \<Rightarrow> Inl err)"
| "table_rebase_loop P onto s (c # cs) stop e =
     and_then (tp_get P (tb_primary onto) (ch_key c)) (\<lambda>now.
       if (now \<noteq> None) \<noteq> (ch_kind c \<noteq> Added) \<or> (case now of None \<Rightarrow> [] | Some b \<Rightarrow> b) \<noteq> from_bytes c then Inl [ErrChangedSince]
       else
         and_then
           (if ch_kind c = Removed then ed_remove e (ch_key c)
            else and_then (decodeRow s (ch_key c) (ch_to c)) (\<lambda>(key, r). ed_put_row e (ch_key c) key r))
           (table_rebase_loop P onto s cs stop))"

definition table_Rebase :: "wire \<Rightarrow> ('m, 'e) table_port \<Rightarrow> model_root \<Rightarrow> model_root \<Rightarrow> model_root \<Rightarrow> model_root result" where
  "table_Rebase W P base side onto =
     and_then (table_Open W P base) (\<lambda>b.
     and_then (table_Open W P side) (\<lambda>s.
     and_then (table_Open W P onto) (\<lambda>t.
     ensure (tb_catalog b = tb_catalog s \<and> tb_catalog b = tb_catalog t) [ErrSchema] (
     and_then (tp_diff P (tb_primary b) (tb_primary s)) (\<lambda>(cs, stop).
     and_then (table_rebase_loop P t (tb_schema s) cs stop (Edit t)) (\<lambda>e.
     and_then (table_Flush W P e) (\<lambda>(merged, _). Inr (tb_root merged))))))))"

end
