(* ===== verification/Table_Model_Correct.thy ===== *)
theory Table_Model_Correct
  imports Table_Model
begin

text \<open>
  What the table model promises: cells merge three-way, locations read back, a root record decodes exactly when it was
  written, a rebase that succeeds is the merge of disjoint changes. The two sides' agreement on dropping a column is
  reported as a conflict, and equality of cells differs from equality of their encodings at NaN.
\<close>

section \<open>Cells merge three-way\<close>

lemma compares_eq: "compares a b c \<Longrightarrow> a = b \<longleftrightarrow> c = 0"
proof
  assume c: "compares a b c" "a = b"
  then have "\<not> c < 0" "c < 0 \<or> c = 0" using comparesD [OF c(1), of "[]" "[]"] comparesD [OF c(1), of "[]" "[CHR 0x00]"] less_snoc(1) [of a] by auto
  then show "c = 0" by simp
next
  assume c: "compares a b c" "c = 0"
  have "\<not> a < b" "a < b @ [CHR 0x00]"
    using comparesD [OF c(1), of "[]" "[]"] comparesD [OF c(1), of "[]" "[CHR 0x00]"] c(2) by simp_all
  then show "a = b" using less_snoc(2) [of b a] by (meson leD not_less_iff_gr_or_eq)
qed

lemma encodeCell_eq:
  assumes "encodeCell c v = Inr e" "encodeCell c w = Inr f" "array16 v" "array16 w"
  shows "e = f \<longleftrightarrow> cell_order v w = 0"
  by (rule compares_eq [OF encodeCell_compares [OF assms]])

text \<open>
  A cell merges three-way by value: it conflicts exactly when both sides changed it and differ, and otherwise the merged
  cell is theirs where ours is the base's and ours everywhere else, up to what the encoding tells apart.
\<close>

theorem mergeCell_three_way:
  assumes "mergeCell c b x y = Inr (v, conflict)" "array16 b" "array16 x" "array16 y"
  shows "(conflict \<longleftrightarrow> cell_order x y \<noteq> 0 \<and> cell_order x b \<noteq> 0 \<and> cell_order y b \<noteq> 0) \<and>
    (conflict \<or> v = x \<or> v = y) \<and> (conflict \<or> cell_order v (if cell_order x b = 0 then y else x) = 0)"
proof -
  let ?c = "c\<lparr>col_nullable := True\<rparr>"
  obtain eb ex ey where e: "encodeCell ?c b = Inr eb" "encodeCell ?c x = Inr ex" "encodeCell ?c y = Inr ey"
      "(if \<not> Clean (Scalar eb ex ey) then Inr (CNull, True) else if r_value (Scalar eb ex ey) = ex then Inr (x, False) else Inr (y, False)) =
        (Inr (v, conflict) :: (cell \<times> bool) result)"
    using assms(1) by (auto simp: mergeCell_def Let_def and_then_Inr)
  note eq = encodeCell_eq [OF e(2,3) assms(3,4)] encodeCell_eq [OF e(2,1) assms(3,2)] encodeCell_eq [OF e(3,1) assms(4,2)]
    encodeCell_eq [OF e(2,2) assms(3,3)] encodeCell_eq [OF e(3,3) assms(4,4)]
  show ?thesis
  proof (cases "ex = ey \<or> ex = eb \<or> ey = eb")
    case True
    then have "Clean (Scalar eb ex ey)" "r_value (Scalar eb ex ey) = (if ex = eb then ey else ex)" by (simp_all add: Scalar_clean column_scalar_value)
    then show ?thesis using e(4) eq True by (auto split: if_splits)
  next
    case False
    then show ?thesis using e(4) eq by (auto simp: Scalar_clean)
  qed
qed

theorem mergeCell_three_way_witness:
  "(False \<longleftrightarrow> cell_order (CInt4 (- 2)) (CInt4 258) \<noteq> 0 \<and> cell_order (CInt4 (- 2)) (CInt4 258) \<noteq> 0 \<and> cell_order (CInt4 258) (CInt4 258) \<noteq> 0) \<and>
    (False \<or> CInt4 (- 2) = CInt4 (- 2) \<or> CInt4 (- 2) = CInt4 258) \<and>
    (False \<or> cell_order (CInt4 (- 2)) (if cell_order (CInt4 (- 2)) (CInt4 258) = 0 then CInt4 258 else CInt4 (- 2)) = 0)"
proof (rule mergeCell_three_way)
  have "price\<lparr>col_nullable := True\<rparr> = price" by (simp add: price_def)
  then show "mergeCell price (CInt4 258) (CInt4 (- 2)) (CInt4 258) = Inr (CInt4 (- 2), False)"
    using price_cells by (simp add: mergeCell_def Scalar_by_def Clean_def)
qed simp_all

section \<open>Locations read back\<close>

lemma decode_cells_prefix:
  assumes "encodeKey P s key = Inr kb" "key_arrays key" "length x = 2"
  shows "decodeKey s (kb @ x) = Inl [ErrCorrupt]"
proof (cases "keyed s")
  case True
  then have "encode_cells (zip (map (column_of s) (sch_key s)) key) = Inr kb" "length key = length (sch_key s)"
    using assms(1) by (auto simp: encodeKey_def and_then_Inr split: if_splits)
  then have "decode_cells (map (column_of s) (sch_key s)) (kb @ x) = Inr (map norm_cell key, x)"
    using assms(2) by (intro decode_encode_cells) (auto simp: key_arrays_def)
  then show ?thesis using True assms(3) by (auto simp: decodeKey_def)
next
  case False
  then obtain rid where "key = [CRowID rid]" "kb = rid"
    using assms(1) by (cases key) (auto simp: encodeKey_def split: cell.splits if_splits)
  then show ?thesis using False assms(2,3) by (simp add: decodeKey_def key_arrays_def)
qed

lemma be_val_tag: "of_nat (be_val (be_bytes 2 (unat (t :: tag)))) = t"
  using unat_less [of t] by (simp add: be_val_be_bytes)

text \<open>
  A location reads back: what \<open>Locate\<close> gives for a row or one of its cells, \<open>ParseLocation\<close> reads as that row's key and
  column; the location of a cell is never taken for a row's.
\<close>

theorem table_location_roundtrip:
  assumes "table_Locate P s key t = Inr loc" "key_arrays key"
  shows "table_ParseLocation s loc = Inr (map norm_cell key, t)"
proof -
  obtain kb where kb: "encodeKey P s key = Inr kb" using assms(1) by (auto simp: table_Locate_def and_then_Inr)
  note d = decode_encodeKey [OF kb assms(2)]
  show ?thesis
  proof (cases "t = 0")
    case True
    then show ?thesis using assms(1) kb d by (simp add: table_Locate_def table_ParseLocation_def)
  next
    case False
    then have "loc = kb @ be_bytes 2 (unat t)" "schema_column s t \<noteq> None"
      using assms(1) kb by (auto simp: table_Locate_def cellLocation_def split: if_splits)
    then show ?thesis
      using d decode_cells_prefix [OF kb assms(2), of "be_bytes 2 (unat t)"] be_val_tag [of t] by (auto simp: table_ParseLocation_def)
  qed
qed

theorem table_location_roundtrip_witness:
  "table_ParseLocation flags (cellLocation (map byte_of [1, 1]) 2) = Inr (map norm_cell [CBool True], 2)"
proof (rule table_location_roundtrip)
  show "table_Locate fmap_tables flags [CBool True] 2 = Inr (cellLocation (map byte_of [1, 1]) 2)"
    using flags_key by (simp add: table_Locate_def) (simp add: flags_def schema_column_def)
qed (simp add: key_arrays_def)

section \<open>Where \<open>sameCell\<close> and the encoding part\<close>

fun is_nan :: "cell \<Rightarrow> bool" where
  "is_nan (CFloat4 f) = IsNaN32 f"
| "is_nan (CFloat8 f) = IsNaN f"
| "is_nan _ = False"

lemma float_rank_eq: "\<not> IsNaN f \<Longrightarrow> float_rank f = float_rank g \<longleftrightarrow> float_eq f g"
proof -
  assume f: "\<not> IsNaN f"
  have "float_rank f < 2 ^ 63 - 1"
  proof -
    define m where m: "m = unat f"
    have "m mod 2 ^ 63 \<le> 0x7FF0000000000000" using f by (simp add: IsNaN_def m)
    then show ?thesis using f by (cases "m < 2 ^ 63") (simp_all add: float_rank_def float_pos_def m [symmetric])
  qed
  then show ?thesis using f by (auto simp: float_rank_def float_eq_def)
qed

lemma float_rank32_eq:
  assumes "\<not> IsNaN32 f"
  shows "float_rank32 f = float_rank32 g \<longleftrightarrow> \<not> IsNaN32 g \<and> (f = g \<or> (f = 0 \<or> f = push_bit 31 1) \<and> (g = 0 \<or> g = push_bit 31 1))"
proof (cases "IsNaN32 g")
  case True
  then show ?thesis using float_rank32_bound [OF assms] by (auto simp: float_rank32_def)
next
  case False
  define m n where mn: "m = unat f" "n = unat g"
  have z: "unat (push_bit 31 1 :: 32 word) = 2 ^ 31" by simp
  have eq: "f = g \<longleftrightarrow> m = n" "f = 0 \<longleftrightarrow> m = 0" "g = 0 \<longleftrightarrow> n = 0" "f = push_bit 31 1 \<longleftrightarrow> m = 2 ^ 31" "g = push_bit 31 1 \<longleftrightarrow> n = 2 ^ 31"
    unfolding mn word_unat_eq_iff z by simp_all
  show ?thesis
    unfolding eq float_rank32_def mn [symmetric] using assms False by (cases "m < 2 ^ 31"; cases "n < 2 ^ 31") auto
qed

lemma order_of_0: "order_of x y = 0 \<longleftrightarrow> x = y"
  by (simp add: order_of_def)

lemma encode_body_same:
  assumes "encode_body c a = Inr x" "encode_body c b = Inr y"
  shows "sameCell a b \<longleftrightarrow> cell_order a b = 0 \<and> \<not> is_nan a"
  using assms(1) unfolding encode_body_Inr [of c a]
  by (elim disjE exE conjE; use assms(2) encodeNumeric_inj float_rank_eq float_rank32_eq in
      \<open>auto simp: encode_body_Inr cell_order_def order_of_0 float_eq_def dest: encodeNumeric_inj intro: signed_word_eqI\<close>)

text \<open>
  Two cells of a column are the same to \<open>sameCell\<close> exactly when their encodings are and they are no NaN: a NaN differs
  from itself.
\<close>

theorem sameCell_and_encoding:
  assumes "encodeCell c a = Inr x" "encodeCell c b = Inr y" "array16 a" "array16 b"
  shows "sameCell a b \<longleftrightarrow> x = y \<and> \<not> is_nan a"
proof (cases "a = CNull \<or> b = CNull")
  case True
  then show ?thesis
    unfolding encodeCell_eq [OF assms] using cell_order_nulls(1) [of b] cell_order_nulls(2) [of a]
    by (cases a; cases b) (auto simp: cell_order_def)
next
  case False
  then obtain e f where "encode_body c a = Inr e" "encode_body c b = Inr f"
    using assms(1,2) by (auto simp: encodeCell_def and_then_Inr)
  then show ?thesis using encode_body_same encodeCell_eq [OF assms] by blast
qed

section \<open>A column both sides dropped\<close>

lemma with_key_other:
  assumes "valid_schema s" "\<not> isKey s t"
  shows "fmlookup (with_key s key r) t = fmlookup r t"
proof -
  have "map_of (zip (sch_key s) key) t = None"
    using assms(2) by (metis isKey_def map_of_SomeD not_None_eq set_zip_leftD)
  then show ?thesis using assms(1) by (simp add: with_key_lookup valid_schema_def key_ok_def)
qed

lemma decoded_row_columns:
  assumes "valid_schema s" "decodeRow s kb vb = Inr (key, r)" "schema_column s t = None"
  shows "cell_at r t = CNull"
proof -
  obtain vs where d: "decode_cells (value_columns s) vb = Inr (vs, [])"
      "r = fold set_cell (zip (value_columns s) vs) (with_key s key fmempty)"
    using assms(2) by (auto simp: decodeRow_def decodeValue_def and_then_Inr split: if_splits)
  have "\<not> isKey s t" using assms(1,3) by (auto simp: valid_schema_def key_ok_def isKey_def)
  then have "fmlookup (with_key s key fmempty) t = None" using with_key_other [OF assms(1)] by simp
  moreover have "col_tag c \<noteq> t" if "c \<in> set (value_columns s)" for c
    using that assms(3) by (auto simp: value_columns_def find_column_iff)
  then have "fmlookup r0 t = None \<Longrightarrow> fmlookup (fold set_cell cvs r0) t = None" if "set cvs \<subseteq> set (zip (value_columns s) vs)" for cvs r0
    using that by (induction cvs arbitrary: r0) (auto simp: set_cell_def dest!: set_zip_leftD)
  ultimately show ?thesis unfolding d(2) by (simp add: cell_at_def)
qed

lemma mg_conflict_some: "mg_conflicts (mg_conflict mg loc reason) \<noteq> [] \<or> loc \<in> set (mg_seen mg)"
  by (simp add: mg_conflict_def)

text \<open>The locations seen are those of the conflicts.\<close>

definition seen_ok :: "'m merger \<Rightarrow> bool" where
  "seen_ok mg \<longleftrightarrow> set (mg_seen mg) = mc_location ` set (mg_conflicts mg)"

lemma mg_conflict_ok:
  assumes "seen_ok mg"
  shows "seen_ok (mg_conflict mg loc reason)" "loc \<in> mc_location ` set (mg_conflicts (mg_conflict mg loc reason))"
    "set (mg_conflicts mg) \<subseteq> set (mg_conflicts (mg_conflict mg loc reason))"
  using assms by (auto simp: seen_ok_def mg_conflict_def)

text \<open>
  \<open>wroteDropped\<close> asks whether a side's change wrote to a column the other side dropped. When the side dropped it too, its
  row has no such cell, and the base's cell differs from none: dropping the same column on both sides, in any row that
  had a value there, is reported as a conflict of a drop with a write.
\<close>

theorem both_dropped_conflicts:
  assumes "valid_schema side" "seen_ok mg" "ch_kind c = Modified" "t \<in> set dropped" "schema_column side t = None"
    "decodeRow (mx_base X) (ch_key c) (from_bytes c) = Inr (key, from)" "cell_at from t \<noteq> CNull"
    "wroteDropped X side c dropped mg = Inr mg'"
  shows "columnLocation t \<in> mc_location ` set (mg_conflicts mg')"
proof -
  define why where "why = ''dropped on one side and written to on the other''"
  have "dropped \<noteq> []" using assms(4) by auto
  then obtain k to where to: "decodeRow side (ch_key c) (ch_to c) = Inr (k, to)"
      "mg' = fold (\<lambda>t mg. if \<not> sameCell (cell_at from t) (cell_at to t) then mg_conflict mg (columnLocation t) why else mg) dropped mg"
    using assms(3,6,8) unfolding why_def by (auto simp: wroteDropped_def and_then_Inr)
  define f where "f = (\<lambda>t mg. if \<not> sameCell (cell_at from t) (cell_at to t) then mg_conflict mg (columnLocation t) why else mg :: 'a merger)"
  have "cell_at to t = CNull" by (rule decoded_row_columns [OF assms(1) to(1) assms(5)])
  then have diff: "\<not> sameCell (cell_at from t) (cell_at to t)" using assms(7) by (cases "cell_at from t") auto
  have step: "seen_ok (f t' m) \<and> set (mg_conflicts m) \<subseteq> set (mg_conflicts (f t' m))" if "seen_ok m" for t' m
    using mg_conflict_ok [OF that] that by (simp add: f_def)
  have keep: "seen_ok m \<Longrightarrow> seen_ok (fold f ts m) \<and> set (mg_conflicts m) \<subseteq> set (mg_conflicts (fold f ts m))" for ts m
  proof (induction ts arbitrary: m)
    case (Cons t' ts)
    then show ?case using step [OF Cons.prems, of t'] Cons.IH [of "f t' m"] by auto
  qed simp
  obtain xs ys where d: "dropped = xs @ t # ys" using assms(4) by (meson split_list)
  define m where "m = fold f xs mg"
  have m: "seen_ok m" using keep [OF assms(2)] by (simp add: m_def)
  have "mg' = fold f ys (f t m)" using to(2) by (simp add: d m_def f_def)
  moreover have "columnLocation t \<in> mc_location ` set (mg_conflicts (f t m))"
    using mg_conflict_ok(2) [OF m, of "columnLocation t" why] diff by (simp add: f_def)
  ultimately show ?thesis using keep [of "f t m" ys] step [OF m, of t] by auto
qed

section \<open>Rebase\<close>

lemma decode_cells_bytes: "decode_cells cs b = Inr (vs, r) \<Longrightarrow> encode_cells (zip cs vs) = Inr e \<Longrightarrow> b = e @ r"
proof (induction cs arbitrary: b vs e)
  case (Cons c cs)
  then obtain v t vs' where v: "decodeCell b c = Inr (v, t)" "decode_cells cs t = Inr (vs', r)" "vs = v # vs'"
    by (auto simp: and_then_Inr)
  from decodeCell_Inr [OF v(1)] obtain x where x: "b = x @ t" "encodeCell c v = (if length x \<le> MaxCellLen then Inr x else Inl [ErrCell])"
    by blast
  then show ?case using Cons v by (auto simp: and_then_Inr split: if_splits)
qed simp

text \<open>A stored row that is written again is written as it was.\<close>

lemma decodeRow_reencode:
  assumes "valid_schema s" "decodeRow s kb vb = Inr (key, r)" "encodeValue s r = Inr vb'"
  shows "vb' = vb" "cell_at (cloneRow r key s) = cell_at r"
proof -
  let ?cs = "value_columns s"
  have d: "distinct (sch_key s)" using assms(1) by (simp add: valid_schema_def key_ok_def)
  obtain vs where vs: "decode_cells ?cs vb = Inr (vs, [])" "r = fold set_cell (zip ?cs vs) (with_key s key fmempty)"
    using assms(2) by (auto simp: decodeRow_def decodeValue_def and_then_Inr split: if_splits)
  have len: "length vs = length ?cs" using decode_cells_array16 [OF vs(1)] by blast
  have none: "fmlookup (with_key s key fmempty) (col_tag c) = None" if "c \<in> set ?cs" for c
    using that with_key_other [OF assms(1)] by (simp add: value_columns_def)
  have look: "cell_at r t = (case map_of (zip (map col_tag ?cs) vs) t of Some v \<Rightarrow> v | None \<Rightarrow> cell_at (with_key s key fmempty) t)" for t
    unfolding vs(2) by (rule set_cells_lookup [OF value_columns_tags(1) [OF assms(1)] len none])
  have "map (\<lambda>c. cell_at r (col_tag c)) ?cs = vs"
  proof (rule nth_equalityI)
    fix i assume i: "i < length (map (\<lambda>c. cell_at r (col_tag c)) ?cs)"
    have "map_of (zip (map col_tag ?cs) vs) (map col_tag ?cs ! i) = Some (vs ! i)"
      using i len value_columns_tags(1) [OF assms(1)] by (intro map_of_zip_nth) auto
    then show "map (\<lambda>c. cell_at r (col_tag c)) ?cs ! i = vs ! i" using i by (simp add: look)
  qed (simp add: len)
  then have "encode_cells (zip ?cs vs) = Inr vb'" using assms(3) by (auto simp: encodeValue_def zip_map_self split: if_splits)
  then show "vb' = vb" using decode_cells_bytes [OF vs(1)] by simp
  show "cell_at (cloneRow r key s) = cell_at r"
  proof
    fix t
    show "cell_at (cloneRow r key s) t = cell_at r t"
    proof (cases "map_of (zip (sch_key s) key) t")
      case None
      then show ?thesis by (simp add: cloneRow_def cell_at_def with_key_lookup [OF d])
    next
      case (Some v)
      then have "t \<in> set (sch_key s)" by (auto dest!: map_of_SomeD set_zip_leftD)
      then have "t \<notin> col_tag ` set ?cs" by (auto simp: value_columns_def isKey_def)
      then have "map_of (zip (map col_tag ?cs) vs) t = None" using len by (auto simp: map_of_eq_None_iff dest: set_zip_leftD)
      then show ?thesis using Some by (simp add: look) (simp add: cloneRow_def cell_at_def with_key_lookup [OF d])
    qed
  qed
qed

section \<open>The root record reads back\<close>

text \<open>
  What a root record must be: its catalog is one, the hashes have their 32 bytes, and the indexes are the catalog's, in
  order, each as full as the primary map.
\<close>

definition root_ok :: "wire \<Rightarrow> rootRecord \<Rightarrow> bool" where
  "root_ok W r \<longleftrightarrow> ir_tag (rr_primary r) = 0 \<and> length (ir_root (rr_primary r)) = 32 \<and> length (rr_catalog r) \<le> MaxCatalogLen \<and>
     list_all (\<lambda>ix. length (ir_root ix) = 32 \<and> ir_count ix = ir_count (rr_primary r)) (rr_indexes r) \<and>
     (case DecodeCatalog W (rr_catalog r) of Inl _ \<Rightarrow> False | Inr s \<Rightarrow> map ir_tag (rr_indexes r) = map ix_tag (sch_indexes s))"

lemma check_index_roots_iff:
  "length rs = length ixs \<Longrightarrow> check_index_roots n rs ixs = Inr u \<longleftrightarrow> map ir_tag rs = map ix_tag ixs \<and> list_all (\<lambda>r. ir_count r = n) rs"
  by (induction rs ixs rule: list_induct2) auto

lemma DecodeCatalog_indexes: "DecodeCatalog W b = Inr s \<Longrightarrow> length (sch_indexes s) \<le> MaxIndexes"
proof -
  assume "DecodeCatalog W b = Inr s"
  then have "Validate s = Inr ()" by (auto simp: DecodeCatalog_def and_then_Inr Let_def split: if_splits sum.splits)
  then show ?thesis by (simp add: Validate_iff valid_schema_def indexes_ok_def)
qed

context wire_laws
begin

lemma reads_raw: "reading (rd_raw n b) = Inr (x, t) \<longleftrightarrow> length x = n \<and> b = x @ t"
  using rd_raw_append [of x n t] rd_raw_Some [of n b x t] by (auto simp: reading_def)

lemma reads_index_root: "reads_exactly (\<lambda>ix. length (ir_root ix) = 32) (write_index_root W) (read_index_root W)"
  unfolding reads_exactly_def
proof (intro allI)
  fix b and ix :: indexRoot and t
  show "read_index_root W b = Inr (ix, t) \<longleftrightarrow> length (ir_root ix) = 32 \<and> b = write_index_root W ix @ t"
    by (cases ix) (auto simp: read_index_root_def and_then_Inr reads_exactlyD [OF reads_u16] reads_raw
      reads_exactlyD [OF reading_codec [OF u64]] write_index_root_def)
qed

lemma root_roundtrip: "decodeRoot W b = Inr r \<longleftrightarrow> root_ok W r \<and> b = encodeRoot W r"
proof -
  have "MaxIndexes < 2 ^ 64" by (simp add: MaxIndexes_def)
  note lim = reads_bounded [OF this]
  have cat: "reading (rd_lenbytes W MaxCatalogLen b) = Inr (n, t) \<longleftrightarrow> length n \<le> MaxCatalogLen \<and> b = w_lenbytes W n @ t" for b n t
    using reads_exactlyD [OF reading_codec [OF lenbytes, of MaxCatalogLen], of b n t] by (auto simp: MaxCatalogLen_def)
  note reads = lim cat reads_raw reads_exactlyD [OF reads_u16] reads_exactlyD [OF reading_codec [OF u64]] reads_read_n [OF reads_index_root]
  show ?thesis
  proof
    assume "decodeRoot W b = Inr r"
    then show "root_ok W r \<and> b = encodeRoot W r"
      by (auto simp: decodeRoot_def ensure_def and_then_Inr reads check_index_roots_iff root_ok_def encodeRoot_def list_all_iff split: if_splits)
  next
    assume r: "root_ok W r \<and> b = encodeRoot W r"
    then obtain s where s: "DecodeCatalog W (rr_catalog r) = Inr s" "map ir_tag (rr_indexes r) = map ix_tag (sch_indexes s)"
      by (auto simp: root_ok_def split: sum.splits)
    have len: "length (rr_indexes r) = length (sch_indexes s)" using s(2) by (metis length_map)
    have "reading (rd_raw 4 (rootMagic @ t)) = Inr (rootMagic, t)" "reading (rd_u16 W (w_u16 W catalog_format @ t)) = Inr (catalog_format, t)"
        "reading (rd_lenbytes W MaxCatalogLen (w_lenbytes W (rr_catalog r) @ t)) = Inr (rr_catalog r, t)"
        "reading (rd_raw 32 (ir_root (rr_primary r) @ t)) = Inr (ir_root (rr_primary r), t)"
        "reading (rd_u64 W (w_u64 W (ir_count (rr_primary r)) @ t)) = Inr (ir_count (rr_primary r), t)"
        "bounded W MaxIndexes (w_uvarint W (length (rr_indexes r)) @ t) = Inr (length (rr_indexes r), t)"
        "read_n (read_index_root W) (length (rr_indexes r)) (concat (map (write_index_root W) (rr_indexes r)) @ t) = Inr (rr_indexes r, t)" for t
      using r DecodeCatalog_indexes [OF s(1)] len unfolding reads by (auto simp: root_ok_def list_all_iff rootMagic_def)
    note w = this this(7) [of "[]", simplified]
    have "check_index_roots (ir_count (rr_primary r)) (rr_indexes r) (sch_indexes s) = Inr ()"
      using r s(2) by (simp add: check_index_roots_iff [OF len] root_ok_def list_all_iff)
    moreover have "length rootMagic = 4" by (simp add: rootMagic_def)
    moreover have "\<lparr>rr_catalog = rr_catalog r, rr_primary = \<lparr>ir_tag = 0, ir_root = ir_root (rr_primary r), ir_count = ir_count (rr_primary r)\<rparr>,
        rr_indexes = rr_indexes r\<rparr> = r"
      using r by (cases r; cases "rr_primary r") (simp add: root_ok_def)
    ultimately show "decodeRoot W b = Inr r"
      using r w s(1) len by (simp add: decodeRoot_def encodeRoot_def ensure_def)
  qed
qed

end

text \<open>
  A root record decodes exactly when it is the record written for what it decodes to, and then its catalog is one and
  its indexes are the catalog's, each as full as the primary map.
\<close>

theorem root_decodes_iff_encoded:
  assumes "wire_laws W"
  shows "decodeRoot W b = Inr r \<longleftrightarrow> root_ok W r \<and> b = encodeRoot W r"
  by (rule wire_laws.root_roundtrip [OF assms])

section \<open>Rebase\<close>

definition change_value :: "change \<Rightarrow> bytes option" where
  "change_value c = (if ch_kind c = Removed then None else Some (ch_to c))"

context table_laws
begin

lemma put_decoded:
  assumes "editor_ok P content e" "decodeRow (tb_schema (ed_t e)) kb vb = Inr (key, r)" "ed_put_row e kb key r = Inr e'"
  shows "editor_ok P content e' \<and> ed_t e' = ed_t e \<and> edited e' M = (edited e M)(kb \<mapsto> vb)"
proof -
  let ?s = "tb_schema (ed_t e)"
  obtain vb' where vb': "encodeValue ?s r = Inr vb'" "e' = ed_set e kb (pending_row ?s key r vb')"
    using assms(3) by (auto simp: ed_put_row_def and_then_Inr)
  have v: "valid_schema ?s" using assms(1) by (simp add: editor_ok_def table_ok_def)
  note re = decodeRow_reencode [OF v assms(2) vb'(1)]
  have "indexKey P ?s ix (cloneRow r key ?s) kb = indexKey P ?s ix r kb" for ix by (rule indexKey_cong) (simp add: re(2))
  then have "pend_ok P ?s kb (pending_row ?s key r vb')" using assms(2) re(1) by (auto simp: pend_ok_def pending_row_def)
  from ed_set_ok [OF assms(1) this] show ?thesis
    unfolding vb'(2) edited_set by (simp add: pending_value_def pending_row_def re(1)) (simp add: ed_set_def)
qed

lemma rebase_loop_stop: "table_rebase_loop P onto s cs stop e = Inr e' \<Longrightarrow> stop = None"
proof (induction cs arbitrary: e)
  case (Cons c cs)
  then show ?case by (auto simp: and_then_Inr [of "tp_get P (tb_primary onto) (ch_key c)"] and_then_Inr [where f = "table_rebase_loop P onto s cs stop"] split: if_splits)
qed (simp split: option.splits)

lemma rebase_loop_ok:
  assumes "table_rebase_loop P onto (tb_schema onto) cs stop e = Inr e'" "editor_ok P content e" "ed_t e = onto" "distinct (map ch_key cs)"
  shows "stop = None" "editor_ok P content e'" "ed_t e' = onto"
    "edited e' M = (\<lambda>kb. case find (\<lambda>c. ch_key c = kb) cs of None \<Rightarrow> edited e M kb | Some c \<Rightarrow> change_value c)"
    "\<forall>c \<in> set cs. (content (tb_primary onto) (ch_key c) = None) = (ch_kind c = Added) \<and>
       (case content (tb_primary onto) (ch_key c) of None \<Rightarrow> [] | Some b \<Rightarrow> b) = from_bytes c"
proof -
  have "stop = None \<and> editor_ok P content e' \<and> ed_t e' = onto \<and>
      edited e' M = (\<lambda>kb. case find (\<lambda>c. ch_key c = kb) cs of None \<Rightarrow> edited e M kb | Some c \<Rightarrow> change_value c) \<and>
      (\<forall>c \<in> set cs. (content (tb_primary onto) (ch_key c) = None) = (ch_kind c = Added) \<and>
        (case content (tb_primary onto) (ch_key c) of None \<Rightarrow> [] | Some b \<Rightarrow> b) = from_bytes c)"
    using assms
  proof (induction cs arbitrary: e)
    case Nil
    then show ?case by (auto split: option.splits)
  next
    case (Cons c cs)
    let ?step = "if ch_kind c = Removed then ed_remove e (ch_key c)
        else and_then (decodeRow (tb_schema onto) (ch_key c) (ch_to c)) (\<lambda>(key, r). ed_put_row e (ch_key c) key r)"
    obtain now where now: "tp_get P (tb_primary onto) (ch_key c) = Inr now"
        "(if (now \<noteq> None) \<noteq> (ch_kind c \<noteq> Added) \<or> (case now of None \<Rightarrow> [] | Some b \<Rightarrow> b) \<noteq> from_bytes c then Inl [ErrChangedSince]
          else and_then ?step (table_rebase_loop P onto (tb_schema onto) cs stop)) = Inr e'"
      using Cons.prems(1) unfolding table_rebase_loop.simps(2) and_then_Inr [of "tp_get P (tb_primary onto) (ch_key c)"] by blast
    then have "and_then ?step (table_rebase_loop P onto (tb_schema onto) cs stop) = Inr e'" "(now = None) = (ch_kind c = Added)"
        "(case now of None \<Rightarrow> [] | Some b \<Rightarrow> b) = from_bytes c"
      by (auto split: if_splits)
    with now(1) obtain e1 where run: "tp_get P (tb_primary onto) (ch_key c) = Inr now" "(now = None) = (ch_kind c = Added)"
        "(case now of None \<Rightarrow> [] | Some b \<Rightarrow> b) = from_bytes c"
        "(if ch_kind c = Removed then ed_remove e (ch_key c)
          else and_then (decodeRow (tb_schema onto) (ch_key c) (ch_to c)) (\<lambda>(key, r). ed_put_row e (ch_key c) key r)) = Inr e1"
        "table_rebase_loop P onto (tb_schema onto) cs stop e1 = Inr e'"
      unfolding and_then_Inr [of ?step] by blast
    have e1: "editor_ok P content e1 \<and> ed_t e1 = onto \<and> edited e1 M = (edited e M)(ch_key c := change_value c)"
    proof (cases "ch_kind c = Removed")
      case True
      then obtain key where "e1 = ed_set e (ch_key c) (pending_delete key)" using run(4) by (auto simp: ed_remove_def and_then_Inr)
      then show ?thesis using delete_view [OF Cons.prems(2), of "ch_key c" key] Cons.prems(3) True
        by (simp add: edited_set change_value_def pending_delete_def pending_value_def)
    next
      case False
      then obtain key r where "decodeRow (tb_schema (ed_t e)) (ch_key c) (ch_to c) = Inr (key, r)" "ed_put_row e (ch_key c) key r = Inr e1"
        using run(4) Cons.prems(3) by (auto simp: and_then_Inr)
      from put_decoded [OF Cons.prems(2) this] show ?thesis using Cons.prems(3) False by (simp add: change_value_def)
    qed
    have "find (\<lambda>x. ch_key x = ch_key c) cs = None" unfolding find_None_iff using Cons.prems(4) by (metis distinct.simps(2) image_eqI list.set_map list.simps(9))
    then show ?case
      using Cons.IH [OF run(5)] e1 Cons.prems(4) run(2,3) tp_get [OF run(1)] by (auto simp: fun_eq_iff split: option.splits)
  qed
  then show "stop = None" "editor_ok P content e'" "ed_t e' = onto"
    "edited e' M = (\<lambda>kb. case find (\<lambda>c. ch_key c = kb) cs of None \<Rightarrow> edited e M kb | Some c \<Rightarrow> change_value c)"
    "\<forall>c \<in> set cs. (content (tb_primary onto) (ch_key c) = None) = (ch_kind c = Added) \<and>
       (case content (tb_primary onto) (ch_key c) of None \<Rightarrow> [] | Some b \<Rightarrow> b) = from_bytes c"
    by - (elim conjE, assumption)+
qed

lemma Rebase_disjoint:
  assumes "table_Open W P base = Inr b" "table_Open W P side = Inr s" "table_Open W P onto = Inr t" "table_ok P content t"
    "table_Rebase W P base side onto = Inr rt"
  shows "\<exists>m. tb_root m = rt \<and> table_ok P content m \<and>
    content (tb_primary m) = (\<lambda>kb. if content (tb_primary b) kb = content (tb_primary s) kb then content (tb_primary t) kb else content (tb_primary s) kb) \<and>
    (\<forall>kb. content (tb_primary b) kb = content (tb_primary s) kb \<or> content (tb_primary t) kb = content (tb_primary b) kb)"
proof -
  let ?B = "content (tb_primary b)" and ?S = "content (tb_primary s)" and ?T = "content (tb_primary t)"
  obtain cs stop e m e' where run: "tb_catalog b = tb_catalog s" "tb_catalog b = tb_catalog t" "tp_diff P (tb_primary b) (tb_primary s) = Inr (cs, stop)"
      "table_rebase_loop P t (tb_schema s) cs stop (Edit t) = Inr e" "table_Flush W P e = Inr (m, e')" "tb_root m = rt"
    using assms(5) unfolding table_Rebase_def assms(1-3) by (auto simp: ensure_def and_then_Inr split: if_splits)
  have decode: "DecodeCatalog W (tb_catalog x) = Inr (tb_schema x)" if "table_Open W P r = Inr x" for r x
    using that by (auto simp: table_Open_def ensure_def and_then_Inr split: if_splits)
  have schema: "tb_schema s = tb_schema t" using decode [OF assms(2)] decode [OF assms(3)] run(1,2) by simp
  have edit: "editor_ok P content (Edit t)" "ed_t (Edit t) = t" "edited (Edit t) ?T = ?T"
    using assms(4) by (simp_all add: editor_ok_def Edit_def edited_def fun_eq_iff)
  have stop: "stop = None" by (rule rebase_loop_stop [OF run(4)])
  from tp_diff [OF run(3) [unfolded stop]] have sorted: "sorted_wrt (<) (map ch_key cs)"
    and cs: "set cs = change_of ?B ?S ` {k. ?B k \<noteq> ?S k}" by blast+
  have d: "distinct (map ch_key cs)" using sorted by (simp add: strict_sorted_iff)
  note loop = rebase_loop_ok [OF run(4) [unfolded schema] edit(1,2) d]
  have key: "ch_key (change_of ?B ?S k) = k" for k by (simp add: change_of_def)
  have find: "find (\<lambda>c. ch_key c = kb) cs = (if ?B kb = ?S kb then None else Some (change_of ?B ?S kb))" for kb
  proof (cases "?B kb = ?S kb")
    case True
    then show ?thesis using cs key by (auto simp: find_None_iff)
  next
    case False
    then have "change_of ?B ?S kb \<in> set cs" using cs by blast
    moreover have "distinct (map ch_key xs) \<Longrightarrow> c \<in> set xs \<Longrightarrow> find (\<lambda>x. ch_key x = ch_key c) xs = Some c" for xs c
      by (induction xs) auto
    ultimately show ?thesis using False d key by metis
  qed
  have change: "change_value (change_of ?B ?S kb) = ?S kb" if "?B kb \<noteq> ?S kb" for kb
    using that by (auto simp: change_value_def change_of_def split: option.splits)
  have "edited e ?T = (\<lambda>kb. if ?B kb = ?S kb then ?T kb else ?S kb)"
    unfolding loop(4) [of ?T] edit(3) find using change by (auto simp: fun_eq_iff)
  moreover have "?T kb = ?B kb" if "?B kb \<noteq> ?S kb" for kb
  proof -
    have "change_of ?B ?S kb \<in> set cs" using that cs by blast
    from bspec [OF loop(5) this] show ?thesis by (auto simp: change_of_def from_bytes_def split: option.splits if_splits)
  qed
  ultimately show ?thesis using Flush_ok [OF run(5) loop(2)] loop(3) run(6) by metis
qed

end


section \<open>A store that holds the empty table of flags\<close>

definition flags_catalog :: bytes where
  "flags_catalog = (case EncodeCatalog std_wire flags of Inr b \<Rightarrow> b | Inl _ \<Rightarrow> [])"

definition zero_hash :: bytes where
  "zero_hash = replicate 32 (byte_of 0)"

definition flags_record :: rootRecord where
  "flags_record = \<lparr>rr_catalog = flags_catalog, rr_primary = \<lparr>ir_tag = 0, ir_root = zero_hash, ir_count = 0\<rparr>,
     rr_indexes = [\<lparr>ir_tag = 1, ir_root = zero_hash, ir_count = 0\<rparr>]\<rparr>"

definition flags_root :: model_root where
  "flags_root = \<lparr>root_hash = zero_hash, root_size = 0, root_format = catalog_format, root_depth = 0\<rparr>"

definition flags_store :: "((bytes, bytes) fmap, (bytes, bytes) fmap) table_port" where
  "flags_store = fmap_tables\<lparr>tp_open := (\<lambda>n h. Inr fmempty), cs_get := (\<lambda>h. Inr (encodeRoot std_wire flags_record))\<rparr>"

definition empty_flags :: "(bytes, bytes) fmap table" where
  "empty_flags = \<lparr>tb_schema = flags, tb_catalog = flags_catalog, tb_primary = fmempty, tb_indexes = fmupd 1 fmempty fmempty, tb_root = flags_root\<rparr>"

lemma flags_store_simps [simp]:
  "tp_open flags_store n h = Inr fmempty" "cs_get flags_store h = Inr (encodeRoot std_wire flags_record)"
  "tp_range flags_store = tp_range fmap_tables" "tp_get flags_store = tp_get fmap_tables" "tp_diff flags_store = tp_diff fmap_tables"
  "tp_editor flags_store = tp_editor fmap_tables" "te_put flags_store = te_put fmap_tables" "te_delete flags_store = te_delete fmap_tables"
  "te_flush flags_store = te_flush fmap_tables" "cs_put flags_store = cs_put fmap_tables" "tp_count flags_store = tp_count fmap_tables"
  "tp_root flags_store = tp_root fmap_tables" "tp_empty flags_store = tp_empty fmap_tables" "tp_max_key flags_store = tp_max_key fmap_tables"
  by (simp_all add: flags_store_def)

interpretation flags_store: table_laws flags_store fmlookup fmlookup
  by unfold_locales (use fmap_tables.tp_range fmap_tables.tp_diff in auto)

lemma flags_catalog: "EncodeCatalog std_wire flags = Inr flags_catalog" "DecodeCatalog std_wire flags_catalog = Inr flags"
proof -
  show e: "EncodeCatalog std_wire flags = Inr flags_catalog" using flags_valid by (simp add: flags_catalog_def EncodeCatalog_def)
  then show "DecodeCatalog std_wire flags_catalog = Inr flags" using std.catalog_roundtrip by blast
qed

lemma flags_catalog_len: "length flags_catalog \<le> MaxCatalogLen"
proof -
  have "length (AppendUvarint n) = 1" if "n < 128" for n using that by (subst AppendUvarint.simps) simp
  then have "length (AppendUvarint (Suc 0)) = 1" "length (AppendUvarint (Suc (Suc 0))) = 1" "length (AppendUvarint (Suc (Suc (Suc (Suc 0))))) = 1" by simp_all
  then show ?thesis
    using flags_valid by (simp add: flags_catalog_def EncodeCatalog_def MaxCatalogLen_def flags_def write_column_def write_tags_def
      write_index_def std_wire_def catalogMagic_def)
qed

lemma flags_opens: "table_Open std_wire flags_store flags_root = Inr empty_flags"
proof -
  have "root_ok std_wire flags_record"
    using flags_catalog(2) flags_catalog_len by (simp add: root_ok_def flags_record_def zero_hash_def) (simp add: flags_def)
  then have "decodeRoot std_wire (encodeRoot std_wire flags_record) = Inr flags_record" using std.root_roundtrip by blast
  moreover have "tp_count fmap_tables fmempty = 0" by (simp add: fmap_tables_def fcard.rep_eq)
  moreover have "sch_indexes flags = [\<lparr>ix_tag = 1, ix_columns = [2]\<rparr>]" by (simp add: flags_def)
  ultimately show ?thesis
    using flags_catalog(2) by (simp add: table_Open_def flags_root_def flags_record_def openMap_def ensure_def empty_flags_def)
qed

lemma empty_flags_ok: "table_ok flags_store fmlookup empty_flags"
  using flags_valid Validate_iff [of flags]
  by (auto simp: table_ok_def empty_flags_def rows_ok_def entry_map_def index_entries_def row_at_def flags_def fun_eq_iff)

theorem root_decodes_iff_encoded_witness:
  "decodeRoot std_wire (encodeRoot std_wire flags_record) = Inr flags_record \<longleftrightarrow>
     root_ok std_wire flags_record \<and> encodeRoot std_wire flags_record = encodeRoot std_wire flags_record"
  by (rule root_decodes_iff_encoded [OF std.wire_laws_axioms])


end
