(* ===== verification/Engine_Errors.thy ===== *)
theory Engine_Errors
  imports Wire
begin

text \<open>
  The errors of the engine (src/engine/errors.go, and tableErr, kvErr and docErr of src/engine/txn.go): errors as Go wraps
  them, what the API shows a caller in their place, the translation of the storage core's and the models' errors.
\<close>

section \<open>Errors as Go builds them\<close>

text \<open>
  The sentinels the engine compares errors with: its own, the storage core's and the context package's, the models' (each
  tagged with the model whose package declares it), and any other.
\<close>

datatype model_id = Tables | KVs | Documents | Blobs | Trees | OtherModel nat

datatype esentinel =
    ErrPermissionDenied | ErrSerialization | ErrNotFound | ErrExists | ErrWrongKind | ErrInvalid
  | ErrMergeInProgress | ErrClosed | ErrSessionLost | ErrInUse | ErrInternal
  | AuthDenied | AuthInvalidPrincipal
  | VcsInvalidName | VcsNoRepo | VcsBranchNotFound | VcsTagNotFound | VcsExists | VcsBranchExists | VcsTagExists
  | VcsMergeState | VcsUnresolvedConflicts | VcsBranchInUse | VcsSessionLost | VcsConflict | VcsNoMerge
  | RepoNoRepo | RepoExists | MergeTooManyConflicts | ChunkNotFound
  | Canceled | DeadlineExceeded
  | ModelErr model_id sentinel
  | OtherErr nat

text \<open>
  An error is a sentinel, a sentinel with a note (\<open>fmt.Errorf("%w: note", sentinel)\<close>), one that wraps others
  (\<open>fmt.Errorf\<close> with \<open>%w\<close>, \<open>errors.Join\<close>) with its text, an engine \<open>Error\<close>, or one marked as the caller's own. The texts of the
  models' own errors are left empty.
\<close>

datatype go_error =
    Sentinel esentinel
  | Noted esentinel string
  | Wrapped string "go_error list"
  | Error (err_kind: go_error) (err_correlation: string)
  | callerOwn go_error

text \<open>\<open>errors.Is\<close>: the error itself or one it unwraps to.\<close>

fun is_err :: "go_error \<Rightarrow> esentinel \<Rightarrow> bool" where
  "is_err (Sentinel s) k \<longleftrightarrow> s = k"
| "is_err (Noted s _) k \<longleftrightarrow> s = k"
| "is_err (Wrapped _ es) k \<longleftrightarrow> list_ex (\<lambda>e. is_err e k) es"
| "is_err (Error e _) k \<longleftrightarrow> is_err e k"
| "is_err (callerOwn e) k \<longleftrightarrow> is_err e k"

text \<open>\<open>errors.As\<close> for \<open>callerOwn\<close>: the first one in the tree, the outermost before what it wraps.\<close>

fun as_own :: "go_error \<Rightarrow> go_error option" where
  "as_own (Sentinel _) = None"
| "as_own (Noted _ _) = None"
| "as_own (Wrapped _ es) = fold (\<lambda>e found. if found = None then as_own e else found) es None"
| "as_own (Error e _) = as_own e"
| "as_own (callerOwn e) = Some e"

text \<open>The text of an error, given the texts of the sentinels.\<close>

fun Error_text :: "(esentinel \<Rightarrow> string) \<Rightarrow> go_error \<Rightarrow> string" where
  "Error_text T (Sentinel s) = T s"
| "Error_text T (Noted s t) = T s @ '': '' @ t"
| "Error_text T (Wrapped t _) = t"
| "Error_text T (Error k c) = Error_text T k @ '' [ref '' @ c @ '']''"
| "Error_text T (callerOwn e) = Error_text T e"

text \<open>\<open>fmt.Errorf("%w (%w)", to, err)\<close>.\<close>

definition wrap :: "(esentinel \<Rightarrow> string) \<Rightarrow> esentinel \<Rightarrow> go_error \<Rightarrow> go_error" where
  "wrap T to err = Wrapped (T to @ '' ('' @ Error_text T err @ '')'') [Sentinel to, err]"

section \<open>What a caller is shown\<close>

definition callerErrors :: "esentinel list" where
  "callerErrors = [ErrPermissionDenied, ErrSessionLost, ErrSerialization, ErrNotFound, ErrExists, ErrWrongKind,
     ErrInvalid, ErrMergeInProgress, ErrInUse, ErrClosed]"

definition kind_of :: "go_error \<Rightarrow> esentinel" where
  "kind_of err = (case find (is_err err) callerErrors of None \<Rightarrow> ErrInternal | Some k \<Rightarrow> k)"

definition ctx_ended :: "go_error \<Rightarrow> bool" where
  "ctx_ended err \<longleftrightarrow> is_err err Canceled \<or> is_err err DeadlineExceeded"

text \<open>
  \<open>scrub\<close>: what the API returns in place of an error (\<open>None\<close> is \<open>nil\<close>), and what it logs: the fresh correlation id and the
  error's text. The id is an argument, and whether there is a logger.
\<close>

definition scrub :: "(esentinel \<Rightarrow> string) \<Rightarrow> bool \<Rightarrow> string \<Rightarrow> go_error option \<Rightarrow> go_error option \<times> (string \<times> string) list" where
  "scrub T logger corr r =
     (case r of None \<Rightarrow> (None, [])
      | Some err \<Rightarrow>
         if ctx_ended err then (Some err, [])
         else case as_own err of Some own \<Rightarrow> (Some own, [])
         | None \<Rightarrow>
            (case err of Error _ _ \<Rightarrow> (Some err, [])
             | _ \<Rightarrow> (Some (Error (Sentinel (kind_of err)) corr), if logger then [(corr, Error_text T err)] else [])))"

definition callersOwn :: "go_error option \<Rightarrow> go_error option" where
  "callersOwn r = map_option callerOwn r"

text \<open>\<open>translate\<close>: the engine error for the storage core's, which stays wrapped.\<close>

definition translate_to :: "go_error \<Rightarrow> esentinel option" where
  "translate_to err =
     (if is_err err AuthDenied then Some ErrPermissionDenied
      else if is_err err AuthInvalidPrincipal \<or> is_err err VcsInvalidName then Some ErrInvalid
      else if is_err err RepoNoRepo \<or> is_err err VcsNoRepo \<or> is_err err VcsBranchNotFound \<or> is_err err VcsTagNotFound then Some ErrNotFound
      else if is_err err RepoExists \<or> is_err err VcsExists \<or> is_err err VcsBranchExists \<or> is_err err VcsTagExists then Some ErrExists
      else if is_err err VcsMergeState \<or> is_err err VcsUnresolvedConflicts then Some ErrMergeInProgress
      else if is_err err VcsBranchInUse then Some ErrInUse
      else if is_err err VcsSessionLost then Some ErrSessionLost
      else None)"

definition translate :: "(esentinel \<Rightarrow> string) \<Rightarrow> go_error \<Rightarrow> go_error" where
  "translate T err = (case translate_to err of None \<Rightarrow> err | Some to \<Rightarrow> wrap T to err)"

text \<open>The engine errors for the models' (\<open>tableErr\<close>, \<open>kvErr\<close>, \<open>docErr\<close> of txn.go).\<close>

definition tableErr :: "(esentinel \<Rightarrow> string) \<Rightarrow> go_error \<Rightarrow> go_error" where
  "tableErr T err =
     (if is_err err (ModelErr Tables ErrCell) \<or> is_err err (ModelErr Tables ErrSchema) then wrap T ErrInvalid err
      else if is_err err (ModelErr Tables ErrDuplicate) then wrap T ErrExists err
      else if is_err err (ModelErr Tables ErrNoRow) then wrap T ErrNotFound err
      else translate T err)"

definition kvErr :: "(esentinel \<Rightarrow> string) \<Rightarrow> go_error \<Rightarrow> go_error" where
  "kvErr T err =
     (if is_err err (ModelErr KVs ErrKey) \<or> is_err err (ModelErr KVs ErrValue) then wrap T ErrInvalid err
      else translate T err)"

definition docErr :: "(esentinel \<Rightarrow> string) \<Rightarrow> go_error \<Rightarrow> go_error" where
  "docErr T err =
     (if is_err err (ModelErr Documents ErrID) \<or> is_err err (ModelErr Documents ErrDocument) then wrap T ErrInvalid err
      else translate T err)"

section \<open>Only engine errors reach a caller\<close>

lemma find_first: "find P (xs @ [x]) = (case find P xs of None \<Rightarrow> if P x then Some x else None | Some y \<Rightarrow> Some y)"
  by (induction xs) auto

lemma find_before:
  "find P xs = Some k \<Longrightarrow> P k \<and> k \<in> set xs \<and> (\<forall>x \<in> set (takeWhile ((\<noteq>) k) xs). \<not> P x)"
  by (induction xs) (auto split: if_splits)

lemma find_eq: "find ((=) k) xs = (if k \<in> set xs then Some k else None)"
  by (induction xs) auto

lemma kind_of_first:
  assumes "kind_of err = k"
  shows "k \<in> set (callerErrors @ [ErrInternal]) \<and> (k = ErrInternal \<or> is_err err k) \<and>
    (\<forall>k' \<in> set (takeWhile ((\<noteq>) k) callerErrors). \<not> is_err err k')"
proof (cases "find (is_err err) callerErrors")
  case None
  have "takeWhile ((\<noteq>) ErrInternal) callerErrors = callerErrors" by (simp add: callerErrors_def)
  moreover have "k = ErrInternal" using None assms by (simp add: kind_of_def)
  ultimately show ?thesis using None by (auto simp: find_None_iff dest: set_takeWhileD)
next
  case (Some k')
  with assms find_before [OF Some] show ?thesis by (simp add: kind_of_def)
qed

lemma wrap_is [simp]: "is_err (wrap T to err) k \<longleftrightarrow> to = k \<or> is_err err k"
  by (simp add: wrap_def)

lemma translate_keeps: "is_err err k \<Longrightarrow> is_err (translate T err) k"
  by (simp add: translate_def split: option.splits)

lemma scrub_makes:
  assumes "\<not> ctx_ended err" "as_own err = None" "\<nexists>k c. err = Error k c"
  shows "scrub T l corr (Some err) = (Some (Error (Sentinel (kind_of err)) corr), if l then [(corr, Error_text T err)] else [])"
  using assms by (cases err) (auto simp: scrub_def)

lemma scrubbed_fixed: "scrub T l corr (Some (Error (Sentinel k) c)) = (Some (Error (Sentinel k) c), [])"
  by (simp add: scrub_def)


definition denied_detail :: go_error where
  "denied_detail = Wrapped ''write row 7: denied'' [Sentinel AuthDenied, Sentinel ErrNotFound]"


text \<open>
  What the storage core refuses reaches the caller as what the engine calls it, whatever else the error wraps: a denial
  before all, then a session lost.
\<close>

lemma denied_reaches_caller:
  assumes "is_err err AuthDenied"
  shows "kind_of (translate T err) = ErrPermissionDenied"
  using assms by (simp add: kind_of_def callerErrors_def translate_def translate_to_def)

end
