(* ===== verification/Commit_Queue.thy ===== *)
theory Commit_Queue
  imports Engine_Errors
begin

text \<open>
  The commit queue of a branch (src/engine/queue.go: enqueue, kick, take, leave, lead): the queue, the calls in it, the steps
  they take in any interleaving, and the invariant of every state they can reach. The queue is the record \<open>branchQueue\<close>,
  the fields of the calls (\<open>queued\<close>) functions of \<open>queue_state\<close>; each step is one critical section under \<open>qmu\<close> or one channel
  operation. The test seam that opens the queue during a publish (\<open>bypass\<close>) is never set.
\<close>

section \<open>The queue and its calls\<close>

text \<open>
  A call is known by the number of calls that joined the queue before it; \<open>tx\<close> says which calls are transactions' commits (\<open>c.tx != nil\<close>), the others being a session's
  commit or merge. Where a call stands in \<open>enqueue\<close>: at its \<open>select\<close>, told to lead, leading the batch it took, its run
  finished (or panicked), waiting for an outcome after its context ended, about to leave, gone.
\<close>

type_synonym call = nat
type_synonym outcome = "go_error option"

datatype answer = Returns outcome | Panics

datatype pc = Idle | Selecting | Told | Leading "call list" | Finished bool | Awaiting | Returning | Gone

definition maxBatch :: nat where "maxBatch = 64"

record branchQueue =
  waiting :: "call list"
  busy :: bool
  bypass :: bool
  calls :: int

text \<open>
  One queue object and the calls that joined it: the fields of \<open>queued\<close> by call (the token in the \<open>lead\<close> channel; the outcome,
  once \<open>done\<close> is closed), whether the database lists the queue under its branch, and, for the statements, how many calls
  have joined and what each \<open>enqueue\<close> gave its caller.
\<close>

record queue_state =
  queue :: branchQueue
  listed :: bool
  pcs :: "call \<Rightarrow> pc"
  token :: "call \<Rightarrow> bool"
  taken :: "call \<Rightarrow> bool"
  leading :: "call \<Rightarrow> bool"
  outcomes :: "call \<Rightarrow> outcome option"
  joined :: nat
  results :: "call \<Rightarrow> answer option"

definition new_queue :: queue_state where
  "new_queue = \<lparr>queue = \<lparr>waiting = [], busy = False, bypass = False, calls = 0\<rparr>, listed = True, pcs = \<lambda>_. Idle,
     token = \<lambda>_. False, taken = \<lambda>_. False, leading = \<lambda>_. False, outcomes = \<lambda>_. None, joined = 0, results = \<lambda>_. None\<rparr>"

abbreviation set_pc :: "call \<Rightarrow> pc \<Rightarrow> queue_state \<Rightarrow> queue_state" where
  "set_pc c p s \<equiv> s\<lparr>pcs := (pcs s)(c := p)\<rparr>"

definition kick :: "queue_state \<Rightarrow> queue_state" where
  "kick s = (if busy (queue s) \<or> waiting (queue s) = [] then s
     else let c = hd (waiting (queue s)) in
       s\<lparr>queue := (queue s)\<lparr>busy := True\<rparr>, leading := (leading s)(c := True), token := (token s)(c := True)\<rparr>)"

text \<open>The loop of \<open>take\<close>: the transactions in a row at the head, at most \<open>maxBatch\<close>.\<close>

function batch_len :: "(call \<Rightarrow> bool) \<Rightarrow> call list \<Rightarrow> nat \<Rightarrow> nat" where
  "batch_len tx ws n = (if n < length ws \<and> n < maxBatch \<and> tx (ws ! n) then batch_len tx ws (n + 1) else n)"
  by pat_completeness auto
termination by (relation "measure (\<lambda>(_, ws, n). length ws - n)") auto

declare batch_len.simps [simp del]

definition next_batch :: "(call \<Rightarrow> bool) \<Rightarrow> call list \<Rightarrow> call list" where
  "next_batch tx ws = List.take (if tx (hd ws) then batch_len tx ws 1 else 1) ws"

definition take_batch :: "(call \<Rightarrow> bool) \<Rightarrow> queue_state \<Rightarrow> call list \<times> queue_state" where
  "take_batch tx s =
     (let batch = next_batch tx (waiting (queue s)) in
      (batch, s\<lparr>queue := (queue s)\<lparr>waiting := drop (length batch) (waiting (queue s))\<rparr>,
        taken := (\<lambda>c. c \<in> set batch \<or> taken s c)\<rparr>))"

text \<open>\<open>enqueue\<close>, up to its \<open>select\<close>.\<close>

definition enqueue_join :: "queue_state \<Rightarrow> queue_state" where
  "enqueue_join s = (let c = joined s in kick (set_pc c Selecting (s\<lparr>
     queue := (queue s)\<lparr>calls := calls (queue s) + 1, waiting := waiting (queue s) @ [c]\<rparr>, joined := joined s + 1\<rparr>)))"

text \<open>The case that receives from \<open>lead\<close>, and the batch taken after it.\<close>

definition enqueue_told :: "call \<Rightarrow> queue_state \<Rightarrow> queue_state" where
  "enqueue_told c s = set_pc c Told (s\<lparr>token := (token s)(c := False)\<rparr>)"

definition enqueue_take :: "(call \<Rightarrow> bool) \<Rightarrow> call \<Rightarrow> queue_state \<Rightarrow> queue_state" where
  "enqueue_take tx c s = (case take_batch tx s of (batch, s) \<Rightarrow> set_pc c (Leading batch) s)"

text \<open>The case of an ended context: a call a leader holds waits for its outcome, any other leaves.\<close>

definition enqueue_cancel :: "go_error \<Rightarrow> call \<Rightarrow> queue_state \<Rightarrow> queue_state" where
  "enqueue_cancel err c s =
     (if taken s c then set_pc c Awaiting s
      else kick (set_pc c Returning (s\<lparr>queue := (queue s)\<lparr>waiting := filter ((\<noteq>) c) (waiting (queue s)),
          busy := (if leading s c then False else busy (queue s))\<rparr>, results := (results s)(c \<mapsto> Returns (Some err))\<rparr>)))"

text \<open>The case of a closed \<open>done\<close>.\<close>

definition enqueue_done :: "call \<Rightarrow> queue_state \<Rightarrow> queue_state" where
  "enqueue_done c s = set_pc c Returning (s\<lparr>results := (results s)(c := map_option Returns (outcomes s c))\<rparr>)"

text \<open>
  \<open>run\<close> inside \<open>lead\<close>: each member its outcome; on a panic the members from the \<open>k\<close>th on, not yet told theirs, fail.
\<close>

definition finish_all :: "call list \<Rightarrow> outcome list \<Rightarrow> (call \<Rightarrow> outcome option) \<Rightarrow> call \<Rightarrow> outcome option" where
  "finish_all batch errs out c = (case map_of (zip batch errs) c of None \<Rightarrow> out c | Some e \<Rightarrow> Some e)"

definition lead_run :: "call \<Rightarrow> call list \<Rightarrow> outcome list \<Rightarrow> queue_state \<Rightarrow> queue_state" where
  "lead_run c batch errs s = set_pc c (Finished False) (s\<lparr>outcomes := finish_all batch errs (outcomes s)\<rparr>)"

definition lead_panic :: "call \<Rightarrow> call list \<Rightarrow> outcome list \<Rightarrow> queue_state \<Rightarrow> queue_state" where
  "lead_panic c batch errs s = set_pc c (Finished True) (s\<lparr>outcomes :=
     finish_all batch (errs @ replicate (length batch - length errs) (Some (Noted ErrInternal ''a commit's leader panicked''))) (outcomes s)\<rparr>)"

text \<open>The end of \<open>lead\<close>: the queue is handed to the next call; a panic goes on up.\<close>

definition lead_release :: "call \<Rightarrow> bool \<Rightarrow> queue_state \<Rightarrow> queue_state" where
  "lead_release c panicked s = kick (set_pc c Returning (s\<lparr>queue := (queue s)\<lparr>busy := False\<rparr>,
     results := (results s)(c := if panicked then Some Panics else map_option Returns (outcomes s c))\<rparr>))"

definition leave :: "call \<Rightarrow> queue_state \<Rightarrow> queue_state" where
  "leave c s = set_pc c Gone (s\<lparr>queue := (queue s)\<lparr>calls := calls (queue s) - 1\<rparr>,
     listed := (listed s \<and> calls (queue s) - 1 \<noteq> 0)\<rparr>)"

section \<open>Steps\<close>

text \<open>
  The steps of the calls in flight, in any interleaving: each is one critical section or one channel operation. A call whose
  context ends (\<open>ends\<close> says which may) can find it ended whenever it is at its \<open>select\<close>; a run may give any outcomes, and may panic.
\<close>

inductive work :: "(call \<Rightarrow> bool) \<Rightarrow> (call \<Rightarrow> bool) \<Rightarrow> queue_state \<Rightarrow> queue_state \<Rightarrow> bool" for tx ends where
  told: "pcs s c = Selecting \<Longrightarrow> token s c \<Longrightarrow> work tx ends s (enqueue_told c s)"
| takes: "pcs s c = Told \<Longrightarrow> work tx ends s (enqueue_take tx c s)"
| cancelled: "pcs s c = Selecting \<Longrightarrow> ends c \<Longrightarrow> work tx ends s (enqueue_cancel err c s)"
| answered: "pcs s c = Selecting \<or> pcs s c = Awaiting \<Longrightarrow> outcomes s c \<noteq> None \<Longrightarrow> work tx ends s (enqueue_done c s)"
| runs: "pcs s c = Leading batch \<Longrightarrow> length errs = length batch \<Longrightarrow> work tx ends s (lead_run c batch errs s)"
| panics: "pcs s c = Leading batch \<Longrightarrow> length errs \<le> length batch \<Longrightarrow> work tx ends s (lead_panic c batch errs s)"
| releases: "pcs s c = Finished panicked \<Longrightarrow> work tx ends s (lead_release c panicked s)"
| leaves: "pcs s c = Returning \<Longrightarrow> work tx ends s (leave c s)"

text \<open>A new call joins while the database lists the queue.\<close>

inductive join :: "queue_state \<Rightarrow> queue_state \<Rightarrow> bool" where
  joins: "listed s \<Longrightarrow> \<not> bypass (queue s) \<Longrightarrow> join s (enqueue_join s)"

inductive queue_reach :: "(call \<Rightarrow> bool) \<Rightarrow> (call \<Rightarrow> bool) \<Rightarrow> queue_state \<Rightarrow> bool" for tx ends where
  starts: "queue_reach tx ends new_queue"
| works: "queue_reach tx ends s \<Longrightarrow> work tx ends s s' \<Longrightarrow> queue_reach tx ends s'"
| grows: "queue_reach tx ends s \<Longrightarrow> join s s' \<Longrightarrow> queue_reach tx ends s'"

section \<open>Batches\<close>

lemma batch_len_bounds: "n \<le> length ws \<Longrightarrow> n \<le> maxBatch \<Longrightarrow> n \<le> batch_len tx ws n \<and> batch_len tx ws n \<le> length ws \<and> batch_len tx ws n \<le> maxBatch"
proof (induction tx ws n rule: batch_len.induct)
  case (1 tx ws n)
  show ?case
  proof (cases "n < length ws \<and> n < maxBatch \<and> tx (ws ! n)")
    case True
    with 1(1) [OF True] show ?thesis by (simp add: batch_len.simps [of tx ws n])
  next
    case False
    then have "batch_len tx ws n = n" unfolding batch_len.simps [of tx ws n] by (rule if_not_P)
    with 1(2,3) show ?thesis by simp
  qed
qed

lemma batch_len_tx: "n \<le> i \<Longrightarrow> i < batch_len tx ws n \<Longrightarrow> tx (ws ! i)"
proof (induction tx ws n rule: batch_len.induct)
  case (1 tx ws n)
  show ?case
  proof (cases "n < length ws \<and> n < maxBatch \<and> tx (ws ! n)")
    case True
    then have "i < batch_len tx ws (n + 1)" using 1(3) by (simp add: batch_len.simps [of tx ws n])
    with 1(1) [OF True] True 1(2) show ?thesis by (cases "i = n") auto
  next
    case False
    with 1(2,3) show ?thesis by (simp add: batch_len.simps [of tx ws n] split: if_splits)
  qed
qed

text \<open>A batch: a session's call alone, or transactions only, at most \<open>maxBatch\<close>.\<close>

definition good_batch :: "(call \<Rightarrow> bool) \<Rightarrow> call list \<Rightarrow> bool" where
  "good_batch tx b \<longleftrightarrow> b \<noteq> [] \<and> length b \<le> maxBatch \<and> (length b = 1 \<or> list_all tx b)"

lemma next_batch_good:
  assumes "ws \<noteq> []"
  shows "good_batch tx (next_batch tx ws)" "hd (next_batch tx ws) = hd ws"
proof -
  obtain w ws' where ws: "ws = w # ws'" using assms by (cases ws) auto
  have m: "1 \<le> maxBatch" by (simp add: maxBatch_def)
  show "good_batch tx (next_batch tx ws)"
  proof (cases "tx (hd ws)")
    case True
    define n where "n = batch_len tx ws 1"
    have n: "1 \<le> n" "n \<le> length ws" "n \<le> maxBatch" using batch_len_bounds [of 1 ws tx] ws m unfolding n_def by auto
    have "tx (ws ! i)" if "i < n" for i
      using that True ws batch_len_tx [of 1 i tx ws] n_def by (cases i) auto
    then have "list_all tx (List.take n ws)" using n by (auto simp: list_all_length)
    then show ?thesis using True n ws by (simp add: next_batch_def good_batch_def n_def)
  next
    case False
    with ws m show ?thesis by (simp add: next_batch_def good_batch_def)
  qed
  have "hd (List.take n ws) = hd ws" if "1 \<le> n" for n using that ws by (cases n) auto
  then show "hd (next_batch tx ws) = hd ws"
    using batch_len_bounds [of 1 ws tx] ws m by (simp add: next_batch_def)
qed

lemma next_batch_split: "ws = next_batch tx ws @ drop (length (next_batch tx ws)) ws"
proof -
  have "List.take n ws @ drop (length (List.take n ws)) ws = ws" for n
    by (cases "n \<le> length ws") (simp_all add: min_def)
  then show ?thesis by (simp add: next_batch_def)
qed

section \<open>The invariant\<close>

definition in_charge :: "queue_state \<Rightarrow> call \<Rightarrow> bool" where
  "in_charge s c \<longleftrightarrow> (pcs s c = Selecting \<and> leading s c) \<or> pcs s c = Told \<or> (\<exists>b. pcs s c = Leading b) \<or> (\<exists>p. pcs s c = Finished p)"

definition live :: "queue_state \<Rightarrow> call set" where
  "live s = {c. pcs s c \<noteq> Idle \<and> pcs s c \<noteq> Gone}"

text \<open>
  The invariant. The calls that wait do so in the order they joined, and no call taken joined after one that waits. At most
  one call is in charge, at the head of the queue until it takes its batch, and there is one whenever the queue is busy.
  Whoever was taken and has no outcome is in the batch of the leader. The count is that of the calls in flight, and the
  database lists the queue while there are any.
\<close>

inductive queue_inv :: "(call \<Rightarrow> bool) \<Rightarrow> queue_state \<Rightarrow> bool" for tx s where
  queue_invI: "\<lbrakk> sorted_wrt (<) (waiting (queue s));
    \<And>c. c \<in> set (waiting (queue s)) \<longleftrightarrow> (pcs s c = Selecting \<or> pcs s c = Told) \<and> \<not> taken s c;
    \<And>x y. x \<in> set (waiting (queue s)) \<Longrightarrow> taken s y \<Longrightarrow> y < x;
    \<And>c. pcs s c = Idle \<longleftrightarrow> joined s \<le> c;
    \<And>c d. in_charge s c \<Longrightarrow> in_charge s d \<Longrightarrow> c = d;
    busy (queue s) \<longleftrightarrow> (\<exists>c. in_charge s c);
    \<And>c. pcs s c = Selecting \<Longrightarrow> leading s c \<Longrightarrow> token s c \<and> \<not> taken s c;
    \<And>c. pcs s c = Told \<Longrightarrow> \<not> taken s c;
    \<And>c. pcs s c = Told \<or> pcs s c = Selecting \<and> leading s c \<Longrightarrow> waiting (queue s) \<noteq> [] \<and> hd (waiting (queue s)) = c;
    \<And>c. token s c \<Longrightarrow> pcs s c = Selecting \<Longrightarrow> leading s c;
    \<And>c b. pcs s c = Leading b \<Longrightarrow> good_batch tx b \<and> hd b = c \<and> sorted_wrt (<) b;
    \<And>c b y. pcs s c = Leading b \<Longrightarrow> taken s y \<Longrightarrow> y \<le> last b;
    \<And>c b x. pcs s c = Leading b \<Longrightarrow> x \<in> set b \<Longrightarrow> taken s x \<and> outcomes s x = None;
    \<And>x. taken s x \<Longrightarrow> outcomes s x = None \<Longrightarrow> \<exists>c b. pcs s c = Leading b \<and> x \<in> set b;
    \<And>x. \<not> taken s x \<Longrightarrow> outcomes s x = None;
    \<And>c. pcs s c = Awaiting \<or> (\<exists>b. pcs s c = Leading b) \<or> (\<exists>p. pcs s c = Finished p) \<Longrightarrow> taken s c;
    \<And>c p. pcs s c = Finished p \<Longrightarrow> outcomes s c \<noteq> None;
    \<And>c. pcs s c = Idle \<Longrightarrow> \<not> taken s c \<and> \<not> leading s c \<and> \<not> token s c;
    finite (live s) \<and> calls (queue s) = int (card (live s)) \<and> (listed s \<or> live s = {}) \<and> \<not> bypass (queue s);
    \<And>c. pcs s c = Returning \<or> pcs s c = Gone \<Longrightarrow> results s c \<noteq> None \<rbrakk> \<Longrightarrow> queue_inv tx s"

definition inv_free :: "queue_state \<Rightarrow> bool" where
  "inv_free s \<longleftrightarrow> busy (queue s) \<or> waiting (queue s) = []"

lemma inv_sorted:
  assumes "queue_inv tx s"
  shows "sorted_wrt (<) (waiting (queue s))"
  using assms(1)
proof cases
  case queue_invI
  show ?thesis by (rule queue_invI(1))
qed

lemma inv_mem:
  assumes "queue_inv tx s"
  shows "c \<in> set (waiting (queue s)) \<longleftrightarrow> (pcs s c = Selecting \<or> pcs s c = Told) \<and> \<not> taken s c"
  using assms(1)
proof cases
  case queue_invI
  show ?thesis by (rule queue_invI(2))
qed

lemma inv_order:
  assumes "queue_inv tx s" "x \<in> set (waiting (queue s))" "taken s y"
  shows "y < x"
  using assms(1)
proof cases
  case queue_invI
  show ?thesis by (rule queue_invI(3) [OF assms(2-3)])
qed

lemma inv_idle:
  assumes "queue_inv tx s"
  shows "pcs s c = Idle \<longleftrightarrow> joined s \<le> c"
  using assms(1)
proof cases
  case queue_invI
  show ?thesis by (rule queue_invI(4))
qed

lemma inv_one:
  assumes "queue_inv tx s" "in_charge s c" "in_charge s d"
  shows "c = d"
  using assms(1)
proof cases
  case queue_invI
  show ?thesis by (rule queue_invI(5) [OF assms(2-3)])
qed

lemma inv_busy:
  assumes "queue_inv tx s"
  shows "busy (queue s) \<longleftrightarrow> (\<exists>c. in_charge s c)"
  using assms(1)
proof cases
  case queue_invI
  show ?thesis by (rule queue_invI(6))
qed

lemma inv_token:
  assumes "queue_inv tx s" "pcs s c = Selecting" "leading s c"
  shows "token s c"
  using assms(1)
proof cases
  case queue_invI
  show ?thesis using queue_invI(7) [OF assms(2-3)] by simp
qed

lemma inv_select:
  assumes "queue_inv tx s" "pcs s c = Selecting" "leading s c"
  shows "\<not> taken s c"
  using assms(1)
proof cases
  case queue_invI
  show ?thesis using queue_invI(7) [OF assms(2-3)] by simp
qed

lemma inv_told:
  assumes "queue_inv tx s" "pcs s c = Told"
  shows "\<not> taken s c"
  using assms(1)
proof cases
  case queue_invI
  show ?thesis by (rule queue_invI(8) [OF assms(2)])
qed

lemma inv_head:
  assumes "queue_inv tx s" "pcs s c = Told \<or> pcs s c = Selecting \<and> leading s c"
  shows "waiting (queue s) \<noteq> [] \<and> hd (waiting (queue s)) = c"
  using assms(1)
proof cases
  case queue_invI
  show ?thesis by (rule queue_invI(9) [OF assms(2)])
qed

lemma inv_leads:
  assumes "queue_inv tx s" "token s c" "pcs s c = Selecting"
  shows "leading s c"
  using assms(1)
proof cases
  case queue_invI
  show ?thesis by (rule queue_invI(10) [OF assms(2-3)])
qed

lemma inv_good:
  assumes "queue_inv tx s" "pcs s c = Leading b"
  shows "good_batch tx b \<and> hd b = c \<and> sorted_wrt (<) b"
  using assms(1)
proof cases
  case queue_invI
  show ?thesis by (rule queue_invI(11) [OF assms(2)])
qed

lemma inv_last:
  assumes "queue_inv tx s" "pcs s c = Leading b" "taken s y"
  shows "y \<le> last b"
  using assms(1)
proof cases
  case queue_invI
  show ?thesis by (rule queue_invI(12) [OF assms(2-3)])
qed

lemma inv_held:
  assumes "queue_inv tx s" "pcs s c = Leading b" "x \<in> set b"
  shows "taken s x \<and> outcomes s x = None"
  using assms(1)
proof cases
  case queue_invI
  show ?thesis by (rule queue_invI(13) [OF assms(2-3)])
qed

lemma inv_pending:
  assumes "queue_inv tx s" "taken s x" "outcomes s x = None"
  shows "\<exists>c b. pcs s c = Leading b \<and> x \<in> set b"
  using assms(1)
proof cases
  case queue_invI
  show ?thesis by (rule queue_invI(14) [OF assms(2-3)])
qed

lemma inv_untaken:
  assumes "queue_inv tx s" "\<not> taken s x"
  shows "outcomes s x = None"
  using assms(1)
proof cases
  case queue_invI
  show ?thesis by (rule queue_invI(15) [OF assms(2)])
qed

lemma inv_taken:
  assumes "queue_inv tx s" "pcs s c = Awaiting \<or> (\<exists>b. pcs s c = Leading b) \<or> (\<exists>p. pcs s c = Finished p)"
  shows "taken s c"
  using assms(1)
proof cases
  case queue_invI
  show ?thesis by (rule queue_invI(16) [OF assms(2)])
qed

lemma inv_finished:
  assumes "queue_inv tx s" "pcs s c = Finished p"
  shows "outcomes s c \<noteq> None"
  using assms(1)
proof cases
  case queue_invI
  show ?thesis by (rule queue_invI(17) [OF assms(2)])
qed

lemma inv_none:
  assumes "queue_inv tx s" "pcs s c = Idle"
  shows "\<not> taken s c \<and> \<not> leading s c \<and> \<not> token s c"
  using assms(1)
proof cases
  case queue_invI
  show ?thesis by (rule queue_invI(18) [OF assms(2)])
qed

lemma inv_finite:
  assumes "queue_inv tx s"
  shows "finite (live s)"
  using assms(1)
proof cases
  case queue_invI
  show ?thesis using queue_invI(19) by simp
qed

lemma inv_calls:
  assumes "queue_inv tx s"
  shows "calls (queue s) = int (card (live s))"
  using assms(1)
proof cases
  case queue_invI
  show ?thesis using queue_invI(19) by simp
qed

lemma inv_listed:
  assumes "queue_inv tx s"
  shows "listed s \<or> live s = {}"
  using assms(1)
proof cases
  case queue_invI
  show ?thesis using queue_invI(19) by simp
qed

lemma inv_bypass:
  assumes "queue_inv tx s"
  shows "\<not> bypass (queue s)"
  using assms(1)
proof cases
  case queue_invI
  show ?thesis using queue_invI(19) by simp
qed

lemma inv_result:
  assumes "queue_inv tx s" "pcs s c = Returning \<or> pcs s c = Gone"
  shows "results s c \<noteq> None"
  using assms(1)
proof cases
  case queue_invI
  show ?thesis by (rule queue_invI(20) [OF assms(2)])
qed

lemma queue_inv_init: "queue_inv tx new_queue \<and> inv_free new_queue"
  by (auto intro!: queue_invI simp: inv_free_def new_queue_def in_charge_def live_def)

section \<open>Every step keeps it\<close>

text \<open>\<open>kick\<close> puts the head of a free queue in charge.\<close>

lemma kick_simps [simp]:
  "pcs (kick s) = pcs s" "taken (kick s) = taken s" "outcomes (kick s) = outcomes s" "joined (kick s) = joined s"
  "results (kick s) = results s" "listed (kick s) = listed s" "waiting (queue (kick s)) = waiting (queue s)"
  "calls (queue (kick s)) = calls (queue s)" "bypass (queue (kick s)) = bypass (queue s)"
  by (simp_all add: kick_def Let_def)

lemma kick_keeps:
  assumes "queue_inv tx s"
  shows "queue_inv tx (kick s) \<and> inv_free (kick s)"
proof (cases "busy (queue s) \<or> waiting (queue s) = []")
  case True
  with assms show ?thesis by (simp add: kick_def inv_free_def)
next
  case False
  then obtain c ws where w: "waiting (queue s) = c # ws" "\<not> busy (queue s)" by (cases "waiting (queue s)") auto
  then have "c \<in> set (waiting (queue s))" by simp
  with inv_mem [OF assms] inv_busy [OF assms] w(2) have c: "pcs s c = Selecting" "\<not> taken s c" by (auto simp: in_charge_def)
  have k: "kick s = s\<lparr>queue := (queue s)\<lparr>busy := True\<rparr>, leading := (leading s)(c := True), token := (token s)(c := True)\<rparr>"
    using w by (simp add: kick_def Let_def)
  have none: "\<not> in_charge s d" for d using inv_busy [OF assms] w(2) by blast
  have charge: "in_charge (kick s) d \<longleftrightarrow> d = c" for d
    using none [of d] c unfolding k by (auto simp: in_charge_def)
  have sel: "pcs s d = Selecting \<Longrightarrow> leading s d \<Longrightarrow> False" "pcs s d = Told \<Longrightarrow> False" for d
    using none [of d] by (auto simp: in_charge_def)
  have tok: "token s d \<Longrightarrow> pcs s d = Selecting \<Longrightarrow> False" for d using inv_leads [OF assms] sel(1) by blast
  have "queue_inv tx (kick s)"
    apply (rule queue_invI)
    subgoal using inv_sorted [OF assms] by simp
    subgoal using inv_mem [OF assms] by simp
    subgoal using inv_order [OF assms] by simp
    subgoal using inv_idle [OF assms] by simp
    subgoal by (simp add: charge)
    subgoal by (simp add: charge) (simp add: k)
    subgoal using c sel by (auto simp: k split: if_splits)
    subgoal using sel by auto
    subgoal using sel w by (auto simp: k split: if_splits)
    subgoal using tok by (auto simp: k split: if_splits)
    subgoal using inv_good [OF assms] by simp
    subgoal using inv_last [OF assms] by simp
    subgoal using inv_held [OF assms] by simp
    subgoal using inv_pending [OF assms] by simp
    subgoal using inv_untaken [OF assms] by simp
    subgoal using inv_taken [OF assms] by simp
    subgoal using inv_finished [OF assms] by simp
    subgoal using inv_none [OF assms] c by (auto simp: k)
    subgoal using inv_finite [OF assms] inv_calls [OF assms] inv_listed [OF assms] inv_bypass [OF assms] by (simp add: live_def)
    subgoal using inv_result [OF assms] by simp
    done
  then show ?thesis unfolding inv_free_def by (simp add: k)
qed

end
