(* ===== verification/Queue_Steps.thy ===== *)
theory Queue_Steps
  imports Commit_Queue
begin

text \<open>
  Every step of the calls in a commit queue keeps the queue's invariant.
\<close>

lemma leading_kept:
  assumes "\<exists>d b. f d = Leading b \<and> x \<in> set b" "\<And>b. f c \<noteq> Leading b"
  shows "\<exists>d b. (f(c := p)) d = Leading b \<and> x \<in> set b"
  using assms by (metis fun_upd_other)

text \<open>A call that joins waits behind the others.\<close>

lemma join_keeps:
  assumes I: "queue_inv tx s" and "listed s"
  shows "queue_inv tx (enqueue_join s) \<and> inv_free (enqueue_join s)"
proof -
  define c where "c = joined s"
  define t where "t = set_pc c Selecting (s\<lparr>
     queue := (queue s)\<lparr>calls := calls (queue s) + 1, waiting := waiting (queue s) @ [c]\<rparr>, joined := joined s + 1\<rparr>)"
  have idle: "pcs s c = Idle" using inv_idle [OF I, of c] by (simp add: c_def)
  have no: "\<not> taken s c" "\<not> leading s c" "\<not> token s c" using inv_none [OF I idle] by auto
  have below: "x < c" if "pcs s x \<noteq> Idle" for x using that inv_idle [OF I, of x] by (simp add: c_def)
  have wait: "x < c" if "x \<in> set (waiting (queue s))" for x using that below [of x] inv_mem [OF I, of x] by auto
  have held: "x < c" if "taken s x" for x using that below [of x] inv_none [OF I, of x] by auto
  have charge: "in_charge t d \<longleftrightarrow> in_charge s d" for d using idle no by (auto simp: t_def in_charge_def)
  have live: "live t = insert c (live s)" "c \<notin> live s" using idle by (auto simp: t_def live_def)
  have "queue_inv tx t"
    apply (rule queue_invI)
    subgoal using inv_sorted [OF I] wait by (simp add: t_def sorted_wrt_append)
    subgoal for d using inv_mem [OF I, of d] no by (cases "d = c") (auto simp: t_def idle)
    subgoal using inv_order [OF I] held by (auto simp: t_def)
    subgoal for d using inv_idle [OF I, of d] by (cases "d = c") (auto simp: t_def c_def)
    subgoal using inv_one [OF I] by (simp add: charge)
    subgoal using inv_busy [OF I] by (simp add: charge) (simp add: t_def)
    subgoal using inv_token [OF I] inv_select [OF I] no by (auto simp: t_def split: if_splits)
    subgoal using inv_told [OF I] by (auto simp: t_def split: if_splits)
    subgoal for d using inv_head [OF I, of d] no by (auto simp: t_def hd_append split: if_splits)
    subgoal using inv_leads [OF I] no by (auto simp: t_def split: if_splits)
    subgoal using inv_good [OF I] by (auto simp: t_def split: if_splits)
    subgoal using inv_last [OF I] by (auto simp: t_def split: if_splits)
    subgoal using inv_held [OF I] by (auto simp: t_def split: if_splits)
    subgoal for x using leading_kept [OF inv_pending [OF I, of x], of c] idle by (simp add: t_def)
    subgoal using inv_untaken [OF I] by (auto simp: t_def split: if_splits)
    subgoal using inv_taken [OF I] by (auto simp: t_def split: if_splits)
    subgoal using inv_finished [OF I] by (auto simp: t_def split: if_splits)
    subgoal using inv_none [OF I] by (auto simp: t_def split: if_splits)
    subgoal using inv_finite [OF I] inv_calls [OF I] inv_bypass [OF I] assms(2) live by (simp add: t_def)
    subgoal using inv_result [OF I] by (auto simp: t_def split: if_splits)
    done
  from kick_keeps [OF this] show ?thesis by (simp add: enqueue_join_def Let_def t_def c_def)
qed

text \<open>The head of the queue learns that it leads.\<close>

lemma told_keeps:
  assumes I: "queue_inv tx s" and "pcs s c = Selecting" "token s c"
  shows "queue_inv tx (enqueue_told c s)"
proof -
  let ?t = "enqueue_told c s"
  have lead: "leading s c" using inv_leads [OF I assms(3,2)] .
  have charge: "in_charge ?t d \<longleftrightarrow> in_charge s d" for d using lead assms(2) by (auto simp: enqueue_told_def in_charge_def)
  have live: "live ?t = live s" using assms(2) by (auto simp: enqueue_told_def live_def)
  have free: "\<not> taken s c" using inv_select [OF I assms(2) lead] .
  have head: "waiting (queue s) \<noteq> [] \<and> hd (waiting (queue s)) = c" using inv_head [OF I] assms(2) lead by blast
  show ?thesis
    apply (rule queue_invI)
    subgoal using inv_sorted [OF I] by (auto simp: enqueue_told_def split: if_splits)
    subgoal for d using inv_mem [OF I, of d] assms(2) by (cases "d = c") (auto simp: enqueue_told_def)
    subgoal using inv_order [OF I] by (auto simp: enqueue_told_def split: if_splits)
    subgoal for d using inv_idle [OF I, of d] assms(2) by (cases "d = c") (auto simp: enqueue_told_def)
    subgoal using inv_one [OF I] by (simp add: charge)
    subgoal using inv_busy [OF I] by (simp add: charge) (simp add: enqueue_told_def)
    subgoal using inv_token [OF I] inv_select [OF I] by (auto simp: enqueue_told_def split: if_splits)
    subgoal using inv_told [OF I] free by (auto simp: enqueue_told_def split: if_splits)
    subgoal using inv_head [OF I] head by (auto simp: enqueue_told_def split: if_splits)
    subgoal using inv_leads [OF I] by (auto simp: enqueue_told_def split: if_splits)
    subgoal using inv_good [OF I] by (auto simp: enqueue_told_def split: if_splits)
    subgoal using inv_last [OF I] by (auto simp: enqueue_told_def split: if_splits)
    subgoal using inv_held [OF I] by (auto simp: enqueue_told_def split: if_splits)
    subgoal for x using leading_kept [OF inv_pending [OF I, of x], of c] assms(2) by (simp add: enqueue_told_def)
    subgoal using inv_untaken [OF I] by (auto simp: enqueue_told_def split: if_splits)
    subgoal using inv_taken [OF I] by (auto simp: enqueue_told_def split: if_splits)
    subgoal using inv_finished [OF I] by (auto simp: enqueue_told_def split: if_splits)
    subgoal using inv_none [OF I] by (auto simp: enqueue_told_def split: if_splits)
    subgoal unfolding live using inv_finite [OF I] inv_calls [OF I] inv_listed [OF I] inv_bypass [OF I] by (simp add: enqueue_told_def)
    subgoal using inv_result [OF I] by (auto simp: enqueue_told_def split: if_splits)
    done
qed

text \<open>It takes its batch from the head.\<close>

lemma take_keeps:
  assumes I: "queue_inv tx s" and "pcs s c = Told"
  shows "queue_inv tx (enqueue_take tx c s)"
proof -
  define ws where "ws = waiting (queue s)"
  define b where "b = next_batch tx ws"
  define t where "t = enqueue_take tx c s"
  have t: "t = set_pc c (Leading b) (s\<lparr>queue := (queue s)\<lparr>waiting := drop (length b) ws\<rparr>, taken := (\<lambda>c. c \<in> set b \<or> taken s c)\<rparr>)"
    by (simp add: t_def enqueue_take_def take_batch_def Let_def b_def ws_def)
  have head: "ws \<noteq> []" "hd ws = c" using inv_head [OF I, of c] assms(2) by (auto simp: ws_def)
  have b: "good_batch tx b" "hd b = c" using next_batch_good [OF head(1)] head(2) by (auto simp: b_def)
  have ws: "ws = b @ drop (length b) ws" unfolding b_def by (rule next_batch_split)
  have sorted: "sorted_wrt (<) b" "sorted_wrt (<) (drop (length b) ws)" "\<And>x y. x \<in> set b \<Longrightarrow> y \<in> set (drop (length b) ws) \<Longrightarrow> x < y"
    using inv_sorted [OF I] ws unfolding ws_def [symmetric] by (metis sorted_wrt_append)+
  have cb: "c \<in> set b" using b by (cases b) (auto simp: good_batch_def)
  have mem: "x \<in> set ws \<longleftrightarrow> x \<in> set b \<or> x \<in> set (drop (length b) ws)" for x
    by (subst ws) auto
  have rest: "x \<in> set (drop (length b) ws) \<Longrightarrow> x \<notin> set b" for x using sorted(3) by blast
  have none: "pcs s d \<noteq> Leading b'" for d b' using inv_one [OF I, of c d] assms(2) by (auto simp: in_charge_def)
  have free: "outcomes s x = None" if "x \<in> set b" for x using that mem [of x] inv_mem [OF I, of x] inv_untaken [OF I, of x] by (auto simp: ws_def)
  have last: "y \<le> last b" if "y \<in> set b" for y using that sorted(1) b(1)
    by (cases b rule: rev_cases) (auto simp: good_batch_def sorted_wrt_append less_imp_le)
  have charge: "in_charge t d \<longleftrightarrow> in_charge s d" for d using assms(2) by (auto simp: t in_charge_def)
  have only: "in_charge s d \<longleftrightarrow> d = c" for d using inv_one [OF I, of c d] assms(2) by (auto simp: in_charge_def)
  have lead: "x = c" if "pcs t x = Leading b'" for x b' using that none [of x] by (auto simp: t split: if_splits)
  have lt: "live t = live s" using assms(2) by (auto simp: t live_def)
  have "queue_inv tx t"
    apply (rule queue_invI)
    subgoal using sorted(2) by (simp add: t)
    subgoal for d using inv_mem [OF I, of d] mem [of d] rest [of d] cb assms(2) by (auto simp: t ws_def [symmetric])
    subgoal for x y using inv_order [OF I, of x y] mem [of x] sorted(3) [of y x] by (auto simp: t ws_def [symmetric])
    subgoal for d using inv_idle [OF I, of d] assms(2) by (auto simp: t)
    subgoal using only by (simp add: charge)
    subgoal using inv_busy [OF I] by (simp add: charge) (simp add: t)
    subgoal for d using only [of d] assms(2) by (auto simp: t in_charge_def split: if_splits)
    subgoal for d using only [of d] assms(2) by (auto simp: t in_charge_def split: if_splits)
    subgoal for d using only [of d] assms(2) by (auto simp: t in_charge_def split: if_splits)
    subgoal using inv_leads [OF I] by (auto simp: t split: if_splits)
    subgoal for d b' using none [of d b'] b sorted(1) by (auto simp: t split: if_splits)
    subgoal for d b' y using none [of d b'] last [of y] inv_order [OF I, of c y] mem [of c] cb last [of c] by (auto simp: t ws_def [symmetric] split: if_splits)
    subgoal for d b' x using none [of d b'] free [of x] by (auto simp: t split: if_splits)
    subgoal for x using inv_pending [OF I, of x] none by (auto simp: t)
    subgoal using inv_untaken [OF I] by (auto simp: t)
    subgoal using inv_taken [OF I] cb by (auto simp: t split: if_splits)
    subgoal using inv_finished [OF I] by (auto simp: t split: if_splits)
    subgoal for d using inv_none [OF I, of d] inv_mem [OF I, of d] mem [of d] assms(2) by (auto simp: t ws_def [symmetric] split: if_splits)
    subgoal unfolding lt using inv_finite [OF I] inv_calls [OF I] inv_listed [OF I] inv_bypass [OF I] by (simp add: t)
    subgoal using inv_result [OF I] by (auto simp: t split: if_splits)
    done
  then show ?thesis by (simp add: t_def)
qed

text \<open>A call whose context ended waits for the outcome a leader will give it.\<close>

lemma await_keeps:
  assumes I: "queue_inv tx s" and "pcs s c = Selecting" "taken s c"
  shows "queue_inv tx (set_pc c Awaiting s)"
proof -
  have free: "\<not> leading s c" using inv_select [OF I assms(2)] assms(3) by blast
  have charge: "in_charge (set_pc c Awaiting s) d \<longleftrightarrow> in_charge s d" for d using free assms(2) by (auto simp: in_charge_def)
  have lt: "live (set_pc c Awaiting s) = live s" using assms(2) by (auto simp: live_def)
  show ?thesis
    apply (rule queue_invI)
    subgoal using inv_sorted [OF I] by (auto split: if_splits)
    subgoal for d using inv_mem [OF I, of d] assms(2,3) by auto
    subgoal using inv_order [OF I] by (auto split: if_splits)
    subgoal for d using inv_idle [OF I, of d] assms(2) by auto
    subgoal using inv_one [OF I] by (simp add: charge)
    subgoal using inv_busy [OF I] by (simp add: charge)
    subgoal using inv_token [OF I] inv_select [OF I] by (auto split: if_splits)
    subgoal using inv_told [OF I] by (auto split: if_splits)
    subgoal using inv_head [OF I] by (auto split: if_splits)
    subgoal using inv_leads [OF I] by (auto split: if_splits)
    subgoal using inv_good [OF I] by (auto split: if_splits)
    subgoal using inv_last [OF I] by (auto split: if_splits)
    subgoal using inv_held [OF I] by (auto split: if_splits)
    subgoal for x using leading_kept [OF inv_pending [OF I, of x], of c] assms(2) by simp
    subgoal using inv_untaken [OF I] by (auto split: if_splits)
    subgoal using inv_taken [OF I] assms(3) by (auto split: if_splits)
    subgoal using inv_finished [OF I] by (auto split: if_splits)
    subgoal using inv_none [OF I] by (auto split: if_splits)
    subgoal unfolding lt using inv_finite [OF I] inv_calls [OF I] inv_listed [OF I] inv_bypass [OF I] by simp
    subgoal using inv_result [OF I] by (auto split: if_splits)
    done
qed

lemma hd_filter: "xs \<noteq> [] \<Longrightarrow> P (hd xs) \<Longrightarrow> filter P xs \<noteq> [] \<and> hd (filter P xs) = hd xs"
  by (cases xs) auto

text \<open>A call that no leader holds leaves; told to lead, it makes way for the next.\<close>

lemma cancel_keeps:
  assumes I: "queue_inv tx s" and "inv_free s" "pcs s c = Selecting"
  shows "queue_inv tx (enqueue_cancel err c s) \<and> inv_free (enqueue_cancel err c s)"
proof (cases "taken s c")
  case True
  with await_keeps [OF I assms(3)] assms(2) show ?thesis by (simp add: enqueue_cancel_def inv_free_def)
next
  case False
  define t where "t = set_pc c Returning (s\<lparr>queue := (queue s)\<lparr>waiting := filter ((\<noteq>) c) (waiting (queue s)),
      busy := (if leading s c then False else busy (queue s))\<rparr>, results := (results s)(c \<mapsto> Returns (Some err))\<rparr>)"
  have charge: "in_charge t d \<longleftrightarrow> in_charge s d \<and> d \<noteq> c" for d using assms(3) by (auto simp: t_def in_charge_def)
  have others: "busy (queue s) \<and> \<not> in_charge s c \<longleftrightarrow> (\<exists>d. in_charge t d)"
    unfolding charge using inv_busy [OF I] inv_one [OF I, of c] by metis
  have lead: "in_charge s c \<longleftrightarrow> leading s c" using assms(3) by (auto simp: in_charge_def)
  have lt: "live t = live s" using assms(3) by (auto simp: t_def live_def)
  have "queue_inv tx t"
    apply (rule queue_invI)
    subgoal using inv_sorted [OF I] by (simp add: t_def sorted_wrt_filter)
    subgoal for d using inv_mem [OF I, of d] by (auto simp: t_def)
    subgoal using inv_order [OF I] by (auto simp: t_def)
    subgoal for d using inv_idle [OF I, of d] assms(3) by (auto simp: t_def)
    subgoal using inv_one [OF I] by (simp add: charge)
    subgoal unfolding others [symmetric] using lead by (simp add: t_def)
    subgoal using inv_token [OF I] inv_select [OF I] by (auto simp: t_def split: if_splits)
    subgoal using inv_told [OF I] by (auto simp: t_def split: if_splits)
    subgoal for d using inv_head [OF I, of d] hd_filter [of "waiting (queue s)" "(\<noteq>) c"] by (cases "d = c") (simp_all add: t_def)
    subgoal using inv_leads [OF I] by (auto simp: t_def split: if_splits)
    subgoal using inv_good [OF I] by (auto simp: t_def split: if_splits)
    subgoal using inv_last [OF I] by (auto simp: t_def split: if_splits)
    subgoal using inv_held [OF I] by (auto simp: t_def split: if_splits)
    subgoal for x using leading_kept [OF inv_pending [OF I, of x], of c] assms(3) by (simp add: t_def)
    subgoal using inv_untaken [OF I] by (auto simp: t_def split: if_splits)
    subgoal using inv_taken [OF I] by (auto simp: t_def split: if_splits)
    subgoal using inv_finished [OF I] by (auto simp: t_def split: if_splits)
    subgoal for d using inv_none [OF I, of d] by (auto simp: t_def split: if_splits)
    subgoal unfolding lt using inv_finite [OF I] inv_calls [OF I] inv_listed [OF I] inv_bypass [OF I] by (simp add: t_def)
    subgoal using inv_result [OF I] by (auto simp: t_def split: if_splits)
    done
  from kick_keeps [OF this] False show ?thesis by (simp add: enqueue_cancel_def t_def)
qed

text \<open>A call that has its outcome returns it.\<close>

lemma done_keeps:
  assumes I: "queue_inv tx s" and "pcs s c = Selecting \<or> pcs s c = Awaiting" "outcomes s c \<noteq> None"
  shows "queue_inv tx (enqueue_done c s)"
proof -
  let ?t = "enqueue_done c s"
  have held: "taken s c" using inv_untaken [OF I, of c] assms(3) by blast
  have nl: "pcs s c \<noteq> Leading b" for b using assms(2) by auto
  have free: "\<not> in_charge s c" using inv_select [OF I, of c] held assms(2) by (auto simp: in_charge_def)
  have charge: "in_charge ?t d \<longleftrightarrow> in_charge s d" for d using free by (auto simp: enqueue_done_def in_charge_def)
  have lt: "live ?t = live s" using assms(2) by (auto simp: enqueue_done_def live_def)
  show ?thesis
    apply (rule queue_invI)
    subgoal using inv_sorted [OF I] by (auto simp: enqueue_done_def split: if_splits)
    subgoal for d using inv_mem [OF I, of d] held by (auto simp: enqueue_done_def)
    subgoal using inv_order [OF I] by (auto simp: enqueue_done_def split: if_splits)
    subgoal for d using inv_idle [OF I, of d] assms(2) by (auto simp: enqueue_done_def)
    subgoal using inv_one [OF I] by (simp add: charge)
    subgoal using inv_busy [OF I] by (simp add: charge) (simp add: enqueue_done_def)
    subgoal using inv_token [OF I] inv_select [OF I] by (auto simp: enqueue_done_def split: if_splits)
    subgoal using inv_told [OF I] by (auto simp: enqueue_done_def split: if_splits)
    subgoal using inv_head [OF I] by (auto simp: enqueue_done_def split: if_splits)
    subgoal using inv_leads [OF I] by (auto simp: enqueue_done_def split: if_splits)
    subgoal using inv_good [OF I] by (auto simp: enqueue_done_def split: if_splits)
    subgoal using inv_last [OF I] by (auto simp: enqueue_done_def split: if_splits)
    subgoal using inv_held [OF I] by (auto simp: enqueue_done_def split: if_splits)
    subgoal for x using leading_kept [OF inv_pending [OF I, of x], of c Returning] nl by (simp add: enqueue_done_def)
    subgoal using inv_untaken [OF I] by (auto simp: enqueue_done_def split: if_splits)
    subgoal using inv_taken [OF I] by (auto simp: enqueue_done_def split: if_splits)
    subgoal using inv_finished [OF I] by (auto simp: enqueue_done_def split: if_splits)
    subgoal using inv_none [OF I] by (auto simp: enqueue_done_def split: if_splits)
    subgoal unfolding lt using inv_finite [OF I] inv_calls [OF I] inv_listed [OF I] inv_bypass [OF I] by (simp add: enqueue_done_def)
    subgoal using inv_result [OF I] assms(3) by (auto simp: enqueue_done_def split: if_splits)
    done
qed

text \<open>A run, panicked or not, gives every member of the batch its outcome.\<close>

lemma finish_all_iff:
  assumes "length errs = length b"
  shows "finish_all b errs out x \<noteq> None \<longleftrightarrow> x \<in> set b \<or> out x \<noteq> None"
proof -
  have "map_of (zip b errs) x = None \<longleftrightarrow> x \<notin> set b" using assms by (simp add: map_of_zip_is_None)
  then show ?thesis by (auto simp: finish_all_def split: option.splits)
qed

lemma finish_keeps:
  assumes I: "queue_inv tx s" and "pcs s c = Leading b" "length errs = length b"
  shows "queue_inv tx (set_pc c (Finished p) (s\<lparr>outcomes := finish_all b errs (outcomes s)\<rparr>))"
proof -
  define t where "t = set_pc c (Finished p) (s\<lparr>outcomes := finish_all b errs (outcomes s)\<rparr>)"
  have out: "outcomes t x = None \<longleftrightarrow> x \<notin> set b \<and> outcomes s x = None" for x
    using finish_all_iff [OF assms(3), of "outcomes s" x] by (auto simp: t_def)
  have only: "d = c" if "pcs s d = Leading b'" for d b' using that inv_one [OF I, of d c] assms(2) by (auto simp: in_charge_def)
  have none: "pcs t d \<noteq> Leading b'" for d b' using only [of d b'] by (auto simp: t_def)
  have pend: "outcomes t x \<noteq> None" if "taken s x" for x using that inv_pending [OF I, of x] out [of x] only assms(2) by fastforce
  have charge: "in_charge t d \<longleftrightarrow> in_charge s d" for d using assms(2) by (auto simp: t_def in_charge_def)
  have lt: "live t = live s" using assms(2) by (auto simp: t_def live_def)
  have ct: "taken s c" using inv_taken [OF I, of c] assms(2) by blast
  have sims: "taken t = taken s" "leading t = leading s" "token t = token s" "results t = results s" "queue t = queue s" "joined t = joined s" "listed t = listed s"
    "pcs t = (pcs s)(c := Finished p)" by (simp_all add: t_def)
  have "queue_inv tx t"
    apply (rule queue_invI)
    subgoal using inv_sorted [OF I] by (auto simp: sims split: if_splits)
    subgoal for d using inv_mem [OF I, of d] ct by (auto simp: sims)
    subgoal using inv_order [OF I] by (auto simp: sims split: if_splits)
    subgoal for d using inv_idle [OF I, of d] assms(2) by (auto simp: sims)
    subgoal using inv_one [OF I] by (simp add: charge)
    subgoal using inv_busy [OF I] by (simp add: charge) (simp add: sims)
    subgoal using inv_token [OF I] inv_select [OF I] by (auto simp: sims split: if_splits)
    subgoal using inv_told [OF I] by (auto simp: sims split: if_splits)
    subgoal using inv_head [OF I] by (auto simp: sims split: if_splits)
    subgoal using inv_leads [OF I] by (auto simp: sims split: if_splits)
    subgoal using none by blast
    subgoal using none by blast
    subgoal using none by blast
    subgoal using pend by (auto simp: sims)
    subgoal for x using inv_untaken [OF I, of x] inv_held [OF I assms(2), of x] out [of x] by (auto simp: sims)
    subgoal using inv_taken [OF I] ct by (auto simp: sims split: if_splits)
    subgoal for d q using inv_taken [OF I, of d] pend [of d] ct by (auto simp: sims split: if_splits)
    subgoal using inv_none [OF I] by (auto simp: sims split: if_splits)
    subgoal unfolding lt using inv_finite [OF I] inv_calls [OF I] inv_listed [OF I] inv_bypass [OF I] by (simp add: sims)
    subgoal using inv_result [OF I] by (auto simp: sims split: if_splits)
    done
  then show ?thesis by (simp add: t_def)
qed

text \<open>The leader hands the queue on.\<close>

lemma release_keeps:
  assumes I: "queue_inv tx s" and "pcs s c = Finished p"
  shows "queue_inv tx (lead_release c p s) \<and> inv_free (lead_release c p s)"
proof -
  define t where "t = set_pc c Returning (s\<lparr>queue := (queue s)\<lparr>busy := False\<rparr>,
     results := (results s)(c := if p then Some Panics else map_option Returns (outcomes s c))\<rparr>)"
  have only: "in_charge s d \<longleftrightarrow> d = c" for d using inv_one [OF I, of c d] assms(2) by (auto simp: in_charge_def)
  have charge: "\<not> in_charge t d" for d using only [of d] assms(2) by (auto simp: t_def in_charge_def)
  have sel: "\<not> leading s d" if "pcs s d = Selecting" for d using that only [of d] assms(2) by (auto simp: in_charge_def)
  have tok: "\<not> token s d" if "pcs s d = Selecting" for d using that sel inv_leads [OF I] by blast
  have told: "pcs s d \<noteq> Told" "pcs s d \<noteq> Leading b" for d b using only [of d] assms(2) by (auto simp: in_charge_def)
  have lt: "live t = live s" using assms(2) by (auto simp: t_def live_def)
  have "queue_inv tx t"
    apply (rule queue_invI)
    subgoal using inv_sorted [OF I] by (auto simp: t_def split: if_splits)
    subgoal for d using inv_mem [OF I, of d] assms(2) by (auto simp: t_def)
    subgoal using inv_order [OF I] by (auto simp: t_def split: if_splits)
    subgoal for d using inv_idle [OF I, of d] assms(2) by (auto simp: t_def)
    subgoal using charge by blast
    subgoal using charge by (auto simp: t_def)
    subgoal using sel by (auto simp: t_def split: if_splits)
    subgoal using told by (auto simp: t_def split: if_splits)
    subgoal using sel told by (auto simp: t_def split: if_splits)
    subgoal using tok by (auto simp: t_def split: if_splits)
    subgoal using told by (auto simp: t_def split: if_splits)
    subgoal using told by (auto simp: t_def split: if_splits)
    subgoal using told by (auto simp: t_def split: if_splits)
    subgoal using inv_pending [OF I] told by (auto simp: t_def)
    subgoal using inv_untaken [OF I] by (auto simp: t_def split: if_splits)
    subgoal using inv_taken [OF I] by (auto simp: t_def split: if_splits)
    subgoal using inv_finished [OF I] by (auto simp: t_def split: if_splits)
    subgoal using inv_none [OF I] by (auto simp: t_def split: if_splits)
    subgoal unfolding lt using inv_finite [OF I] inv_calls [OF I] inv_listed [OF I] inv_bypass [OF I] by (simp add: t_def)
    subgoal using inv_result [OF I] inv_finished [OF I assms(2)] by (auto simp: t_def split: if_splits)
    done
  from kick_keeps [OF this] show ?thesis by (simp add: lead_release_def t_def)
qed

text \<open>A call that leaves is no longer counted; the last one takes the queue off the database's list.\<close>

lemma leave_keeps:
  assumes I: "queue_inv tx s" and "pcs s c = Returning"
  shows "queue_inv tx (leave c s)"
proof -
  let ?t = "leave c s"
  have charge: "in_charge ?t d \<longleftrightarrow> in_charge s d" for d using assms(2) by (auto simp: leave_def in_charge_def)
  have c: "c \<in> live s" using assms(2) by (simp add: live_def)
  have lt: "live ?t = live s - {c}" by (auto simp: leave_def live_def)
  have card: "int (card (live s - {c})) = int (card (live s)) - 1" using card_Suc_Diff1 [OF inv_finite [OF I] c] by linarith
  have listed: "listed s" using inv_listed [OF I] c by blast
  show ?thesis
    apply (rule queue_invI)
    subgoal using inv_sorted [OF I] by (auto simp: leave_def split: if_splits)
    subgoal for d using inv_mem [OF I, of d] assms(2) by (auto simp: leave_def)
    subgoal using inv_order [OF I] by (auto simp: leave_def split: if_splits)
    subgoal for d using inv_idle [OF I, of d] assms(2) by (auto simp: leave_def)
    subgoal using inv_one [OF I] by (simp add: charge)
    subgoal using inv_busy [OF I] by (simp add: charge) (simp add: leave_def)
    subgoal using inv_token [OF I] inv_select [OF I] by (auto simp: leave_def split: if_splits)
    subgoal using inv_told [OF I] by (auto simp: leave_def split: if_splits)
    subgoal using inv_head [OF I] by (auto simp: leave_def split: if_splits)
    subgoal using inv_leads [OF I] by (auto simp: leave_def split: if_splits)
    subgoal using inv_good [OF I] by (auto simp: leave_def split: if_splits)
    subgoal using inv_last [OF I] by (auto simp: leave_def split: if_splits)
    subgoal using inv_held [OF I] by (auto simp: leave_def split: if_splits)
    subgoal for x using leading_kept [OF inv_pending [OF I, of x], of c] assms(2) by (simp add: leave_def)
    subgoal using inv_untaken [OF I] by (auto simp: leave_def split: if_splits)
    subgoal using inv_taken [OF I] by (auto simp: leave_def split: if_splits)
    subgoal using inv_finished [OF I] by (auto simp: leave_def split: if_splits)
    subgoal using inv_none [OF I] by (auto simp: leave_def split: if_splits)
    subgoal unfolding lt card using inv_finite [OF I] inv_calls [OF I] inv_bypass [OF I] listed card by (auto simp: leave_def)
    subgoal using inv_result [OF I] assms(2) by (auto simp: leave_def split: if_splits)
    done
qed

section \<open>Every reachable state has it\<close>

lemma work_keeps:
  assumes "work tx ends s s'" "queue_inv tx s" "inv_free s"
  shows "queue_inv tx s' \<and> inv_free s'"
  using assms
proof cases
  case (told c)
  then show ?thesis using told_keeps assms(2,3) by (auto simp: inv_free_def enqueue_told_def)
next
  case (takes c)
  have "busy (queue s)" using takes(2) inv_busy [OF assms(2)] by (auto simp: in_charge_def)
  then show ?thesis using takes take_keeps [OF assms(2)] by (auto simp: inv_free_def enqueue_take_def take_batch_def Let_def)
next
  case (cancelled c err)
  then show ?thesis using cancel_keeps [OF assms(2,3)] by simp
next
  case (answered c)
  then show ?thesis using done_keeps [OF assms(2)] assms(3) by (auto simp: inv_free_def enqueue_done_def)
next
  case (runs c batch errs)
  then show ?thesis using finish_keeps [OF assms(2)] assms(3) by (auto simp: inv_free_def lead_run_def)
next
  case (panics c batch errs)
  then show ?thesis using finish_keeps [OF assms(2) panics(2)] assms(3) by (auto simp: inv_free_def lead_panic_def)
next
  case (releases c p)
  then show ?thesis using release_keeps [OF assms(2)] by simp
next
  case (leaves c)
  then show ?thesis using leave_keeps [OF assms(2)] assms(3) by (auto simp: inv_free_def leave_def)
qed

lemma reach_inv: "queue_reach tx ends s \<Longrightarrow> queue_inv tx s \<and> inv_free s"
proof (induction rule: queue_reach.induct)
  case (grows s s')
  then show ?case using join_keeps by (auto elim: join.cases)
qed (use queue_inv_init work_keeps in blast)+

end
