(* ===== verification/Queue_Correct.thy ===== *)
theory Queue_Correct
  imports Queue_Steps
begin

text \<open>
  What the commit queue promises: one leader with a proper batch, calls in turn, every call answered.
\<close>

section \<open>What the queue promises\<close>

text \<open>
  C5. One leader at a time, and a proper batch: in every state the calls on a branch can reach, at most one call leads; the
  batch it took begins with itself, holds at most \<open>maxBatch\<close> calls in the order they joined, and is a session's call alone or
  transactions only; a call waits only while another is in charge of the queue, and the queue is on the database's list
  while any call is in it, so no second queue of the branch can form.
\<close>

theorem queue_one_leader:
  assumes "queue_reach tx ends s"
  shows "(\<forall>c b. pcs s c = Leading b \<longrightarrow> b \<noteq> [] \<and> hd b = c \<and> length b \<le> 64 \<and> sorted_wrt (<) b \<and> (length b = 1 \<or> list_all tx b)) \<and>
    (\<forall>c d b b'. pcs s c = Leading b \<longrightarrow> pcs s d = Leading b' \<longrightarrow> c = d) \<and>
    (waiting (queue s) = [] \<or> (\<exists>!c. in_charge s c)) \<and>
    calls (queue s) = int (card (live s)) \<and> (listed s \<or> live s = {})"
proof -
  have I: "queue_inv tx s" "inv_free s" using reach_inv [OF assms] by auto
  show ?thesis
  proof (intro conjI allI impI)
    show "b \<noteq> []" "hd b = c" "length b \<le> 64" "sorted_wrt (<) b" "length b = 1 \<or> list_all tx b" if "pcs s c = Leading b" for c b
      using inv_good [OF I(1) that] by (auto simp: good_batch_def maxBatch_def)
    show "c = d" if "pcs s c = Leading b" "pcs s d = Leading b'" for c d b b'
      using inv_one [OF I(1), of c d] that by (auto simp: in_charge_def)
    show "waiting (queue s) = [] \<or> (\<exists>!c. in_charge s c)"
      using I(2) inv_busy [OF I(1)] inv_one [OF I(1)] unfolding inv_free_def by metis
    show "calls (queue s) = int (card (live s))" "listed s \<or> live s = {}"
      using inv_calls [OF I(1)] inv_listed [OF I(1)] by auto
  qed
qed

text \<open>
  C6. Calls take their turn: while a call leads its batch, every call that joined before it has its outcome or has left,
  and no call that joined after its batch has been taken. So a session's commit records every transaction queued before
  it and none queued after.
\<close>

theorem queue_in_turn:
  assumes "queue_reach tx ends s" "pcs s c = Leading b"
  shows "(\<forall>x < c. outcomes s x \<noteq> None \<or> results s x \<noteq> None) \<and> (\<forall>y > last b. \<not> taken s y)"
proof (intro conjI allI impI)
  have I: "queue_inv tx s" using reach_inv [OF assms(1)] by blast
  show "\<not> taken s y" if "last b < y" for y using that inv_last [OF I assms(2), of y] by force
  fix x
  assume x: "x < c"
  have "taken s c" using inv_taken [OF I, of c] assms(2) by blast
  then have nw: "x \<notin> set (waiting (queue s))" using inv_order [OF I, of x c] x by auto
  have nb: "x \<notin> set b" using inv_good [OF I assms(2)] x by (cases b) (auto simp: good_batch_def)
  have ni: "pcs s x \<noteq> Idle" using inv_idle [OF I, of x] inv_idle [OF I, of c] assms(2) x by auto
  have held: "outcomes s x \<noteq> None" if t: "taken s x"
  proof
    assume "outcomes s x = None"
    then obtain d b' where d: "pcs s d = Leading b'" "x \<in> set b'" using inv_pending [OF I t] by blast
    then have "d = c" using inv_one [OF I, of d c] assms(2) by (auto simp: in_charge_def)
    with d assms(2) nb show False by simp
  qed
  show "outcomes s x \<noteq> None \<or> results s x \<noteq> None"
    using held inv_mem [OF I, of x] nw ni inv_taken [OF I, of x] inv_result [OF I, of x] by (cases "pcs s x") auto
qed

section \<open>Every call is answered\<close>

primrec weight :: "pc \<Rightarrow> nat" where
  "weight Idle = 0" | "weight Selecting = 5" | "weight Told = 4" | "weight (Leading _) = 3" | "weight (Finished _) = 2"
| "weight Awaiting = 2" | "weight Returning = 1" | "weight Gone = 0"

definition rank :: "queue_state \<Rightarrow> nat" where
  "rank s = (\<Sum>c < joined s. weight (pcs s c))"

lemma rank_less:
  assumes "pcs s' = (pcs s)(c := p)" "joined s' = joined s" "weight p < weight (pcs s c)" "c < joined s"
  shows "rank s' < rank s"
  unfolding rank_def assms(2) by (rule sum_strict_mono_ex1) (use assms in auto)

lemma work_decreases:
  assumes "work tx ends s s'" "queue_inv tx s"
  shows "rank s' < rank s \<and> joined s' = joined s"
proof -
  have c: "c < joined s" if "pcs s c \<noteq> Idle" for c using that inv_idle [OF assms(2), of c] by simp
  show ?thesis
    using assms(1)
  proof cases
    case (told c)
    then show ?thesis using rank_less [of s' s c Told] c [of c] by (simp add: enqueue_told_def)
  next
    case (takes c)
    then show ?thesis using rank_less [of s' s c "Leading (next_batch tx (waiting (queue s)))"] c [of c]
      by (simp add: enqueue_take_def take_batch_def Let_def)
  next
    case (cancelled c err)
    then show ?thesis using rank_less [of s' s c "if taken s c then Awaiting else Returning"] c [of c]
      by (simp add: enqueue_cancel_def)
  next
    case (answered c)
    then show ?thesis using rank_less [of s' s c Returning] c [of c] by (auto simp: enqueue_done_def)
  next
    case (runs c batch errs)
    then show ?thesis using rank_less [of s' s c "Finished False"] c [of c] by (simp add: lead_run_def)
  next
    case (panics c batch errs)
    then show ?thesis using rank_less [of s' s c "Finished True"] c [of c] by (simp add: lead_panic_def)
  next
    case (releases c p)
    then show ?thesis using rank_less [of s' s c Returning] c [of c] by (simp add: lead_release_def)
  next
    case (leaves c)
    then show ?thesis using rank_less [of s' s c Gone] c [of c] by (simp add: leave_def)
  qed
qed

text \<open>A call in flight can always move, or another one can for it.\<close>

lemma work_progress:
  assumes I: "queue_inv tx s" and "inv_free s" "c \<in> live s"
  shows "\<exists>s'. work tx ends s s'"
proof (rule ccontr)
  assume stuck: "\<nexists>s'. work tx ends s s'"
  have no: "pcs s d \<noteq> Returning" "pcs s d \<noteq> Finished p" "pcs s d \<noteq> Leading b" "pcs s d \<noteq> Told" for d p b
    using stuck leaves [of s d tx ends] releases [of s d p tx ends] runs [of s d b "replicate (length b) None" tx ends]
      takes [of s d tx ends] by auto
  have nt: "\<not> token s d" if "pcs s d = Selecting" for d using stuck told [OF that] by blast
  have "\<not> in_charge s d" for d using no [of d] nt [of d] inv_token [OF I, of d] by (auto simp: in_charge_def)
  then have w: "waiting (queue s) = []" using inv_busy [OF I] assms(2) by (auto simp: inv_free_def)
  have "pcs s c = Selecting \<or> pcs s c = Awaiting" using assms(3) no [of c] by (cases "pcs s c") (auto simp: live_def)
  moreover from this have "taken s c" using inv_mem [OF I, of c] inv_taken [OF I, of c] w by auto
  then have "outcomes s c \<noteq> None" using inv_pending [OF I, of c] no(3) by blast
  ultimately show False using stuck answered [of s c] by blast
qed

lemma works_bounded:
  assumes "(work tx ends ^^ n) s s'" "queue_reach tx ends s"
  shows "n + rank s' \<le> rank s \<and> joined s' = joined s \<and> queue_reach tx ends s'"
  using assms
proof (induction n arbitrary: s')
  case (Suc n)
  then obtain t where t: "(work tx ends ^^ n) s t" "work tx ends t s'" by auto
  with Suc have i: "n + rank t \<le> rank s" "joined t = joined s" "queue_reach tx ends t" by auto
  from work_decreases [OF t(2)] reach_inv [OF i(3)] have "rank s' < rank t" "joined s' = joined t" by auto
  with i works [OF i(3) t(2)] show ?case by auto
qed simp

text \<open>
  C4. Every call is answered: from any state the calls can reach, whichever contexts end, the calls in flight take at most
  \<open>rank\<close> more steps however they are scheduled (until another call joins), and they stop only once every call that joined
  has returned to its caller with a result and the queue is empty and free. No call waits on a leader
  that is gone, also when a leader panics or leaves.
\<close>

theorem queue_drains:
  assumes "queue_reach tx ends s"
  shows "(\<forall>n s'. (work tx ends ^^ n) s s' \<longrightarrow> n \<le> rank s) \<and>
    (\<forall>s'. (work tx ends)\<^sup>*\<^sup>* s s' \<longrightarrow> (\<nexists>s''. work tx ends s' s'') \<longrightarrow>
      joined s' = joined s \<and> waiting (queue s') = [] \<and> \<not> busy (queue s') \<and>
      (\<forall>c < joined s. pcs s' c = Gone \<and> results s' c \<noteq> None))"
proof (intro conjI allI impI)
  show "n \<le> rank s" if "(work tx ends ^^ n) s s'" for n s' using works_bounded [OF that assms] by simp
  fix s'
  assume s: "(work tx ends)\<^sup>*\<^sup>* s s'" "\<nexists>s''. work tx ends s' s''"
  from s(1) obtain n where "(work tx ends ^^ n) s s'" by (auto dest: rtranclp_imp_relpowp)
  from works_bounded [OF this assms] have j: "joined s' = joined s" and r: "queue_reach tx ends s'" by auto
  have I: "queue_inv tx s'" "inv_free s'" using reach_inv [OF r] by auto
  have dead: "live s' = {}" using work_progress [OF I] s(2) by blast
  show "joined s' = joined s" by (rule j)
  have pc: "pcs s' c = Idle \<or> pcs s' c = Gone" for c using dead by (auto simp: live_def)
  then show "waiting (queue s') = []" using inv_mem [OF I(1)] by (metis list.set_sel(1) pc.distinct)
  show "\<not> busy (queue s')" using inv_busy [OF I(1)] pc unfolding in_charge_def by (metis pc.distinct)
  fix c
  assume "c < joined s"
  then show "pcs s' c = Gone" using pc [of c] inv_idle [OF I(1), of c] j by simp
  then show "results s' c \<noteq> None" using inv_result [OF I(1)] by blast
qed

section \<open>A queue at work\<close>

definition one_waits :: queue_state where
  "one_waits = enqueue_join new_queue"

definition one_leads :: queue_state where
  "one_leads = enqueue_take (\<lambda>_. True) 0 (enqueue_told 0 one_waits)"

lemma one_waits_pc: "pcs one_waits 0 = Selecting" "token one_waits 0" "joined one_waits = 1" "waiting (queue one_waits) = [0]"
  by (simp_all add: one_waits_def enqueue_join_def new_queue_def kick_def Let_def)

lemma one_leads_pc: "pcs one_leads 0 = Leading [0]"
proof -
  have "next_batch (\<lambda>_. True) [0] = [0]" by (simp add: next_batch_def batch_len.simps)
  then show ?thesis by (simp add: one_leads_def enqueue_take_def take_batch_def enqueue_told_def one_waits_pc Let_def)
qed

lemma one_waits_reach: "queue_reach tx ends one_waits"
  unfolding one_waits_def by (rule grows [OF starts joins]) (simp_all add: new_queue_def)

lemma one_leads_reach: "queue_reach (\<lambda>_. True) ends one_leads"
  unfolding one_leads_def
  by (rule works [OF works [OF one_waits_reach told] takes]) (simp_all add: one_waits_pc enqueue_told_def)

theorem queue_one_leader_witness: "calls (queue one_leads) = int (card (live one_leads)) \<and> length [0::call] \<le> 64"
  using queue_one_leader [OF one_leads_reach [of "\<lambda>_. False"]] one_leads_pc by simp

theorem queue_in_turn_witness: "\<not> taken one_leads 1"
  using queue_in_turn [OF one_leads_reach [of "\<lambda>_. False"] one_leads_pc] by simp

theorem queue_drains_witness: "\<nexists>s'. (work (\<lambda>_. True) (\<lambda>_. True) ^^ 6) one_waits s'"
proof -
  have "rank one_waits = 5" by (simp add: rank_def one_waits_pc)
  then show ?thesis using queue_drains [OF one_waits_reach, of "\<lambda>_. True" "\<lambda>_. True"] by fastforce
qed

end
