(* ===== verification/Engine_Grants.thy ===== *)
theory Engine_Grants
  imports Engine_Errors "HOL-Library.Finite_Map"
begin

text \<open>
  The grants (src/engine/grants.go): an authorizer of permissions held at scopes and of protected branches. The state is the
  record \<open>Grants\<close>, a permission set a word with a bit for each permission; the documented table of questions is its
  abstract specification.
\<close>

unbundle bit_operations_syntax

section \<open>Grants\<close>

datatype action = ActionRead | ActionWrite | ActionManage | ActionAdmin | ActionCommit | ActionMerge

type_synonym Permission = "8 word"

definition PermRead :: Permission where "PermRead = 1"
definition PermWrite :: Permission where "PermWrite = 2"
definition PermCommit :: Permission where "PermCommit = 3"
definition PermMerge :: Permission where "PermMerge = 4"
definition PermBranchAdmin :: Permission where "PermBranchAdmin = 5"
definition PermAdmin :: Permission where "PermAdmin = 6"

lemmas perm_defs = PermRead_def PermWrite_def PermCommit_def PermMerge_def PermBranchAdmin_def PermAdmin_def

record Scope =
  sc_branch :: string
  sc_object :: string

definition DatabaseScope :: Scope where "DatabaseScope = \<lparr>sc_branch = [], sc_object = []\<rparr>"
definition BranchScope :: "string \<Rightarrow> Scope" where "BranchScope b = \<lparr>sc_branch = b, sc_object = []\<rparr>"
definition ObjectScope :: "string \<Rightarrow> string \<Rightarrow> Scope" where "ObjectScope b p = \<lparr>sc_branch = b, sc_object = p\<rparr>"

lemmas scope_defs = DatabaseScope_def BranchScope_def ObjectScope_def

text \<open>A set of permissions, a bit each.\<close>

type_synonym permSet = "8 word"

text \<open>\<open>1 << p\<close>.\<close>

definition perm_bit :: "Permission \<Rightarrow> permSet" where
  "perm_bit p = push_bit (unat p) 1"

definition has_perm :: "permSet \<Rightarrow> Permission \<Rightarrow> bool" where
  "has_perm ps p \<longleftrightarrow> ps AND perm_bit p \<noteq> 0"

record Grants =
  g_grants :: "(string, (Scope, permSet) fmap) fmap"
  g_protected :: "string list"

definition new_Grants :: Grants where "new_Grants = \<lparr>g_grants = fmempty, g_protected = []\<rparr>"

text \<open>Reading a Go map: a key that is not there reads as the zero value.\<close>

definition at_scope :: "(Scope, permSet) fmap \<Rightarrow> Scope \<Rightarrow> permSet" where
  "at_scope m s = (case fmlookup m s of None \<Rightarrow> 0 | Some ps \<Rightarrow> ps)"

definition scopes_of :: "Grants \<Rightarrow> string \<Rightarrow> (Scope, permSet) fmap" where
  "scopes_of g who = (case fmlookup (g_grants g) who of None \<Rightarrow> fmempty | Some m \<Rightarrow> m)"

text \<open>\<open>valid_path\<close> is the storage core's \<open>object.ValidPath\<close>.\<close>

definition scope_validate :: "(string \<Rightarrow> bool) \<Rightarrow> Scope \<Rightarrow> bool" where
  "scope_validate valid_path s \<longleftrightarrow>
     \<not> (sc_branch s = [] \<and> sc_object s \<noteq> []) \<and> CHR '':'' \<notin> set (sc_branch s) \<and>
     (sc_object s \<noteq> [] \<longrightarrow> valid_path (sc_object s))"

definition perm_ok :: "Scope \<Rightarrow> Permission \<Rightarrow> bool" where
  "perm_ok s p \<longleftrightarrow> \<not> (p < PermRead \<or> p > PermAdmin) \<and> \<not> (sc_object s \<noteq> [] \<and> p \<noteq> PermRead \<and> p \<noteq> PermWrite) \<and>
     \<not> (p = PermAdmin \<and> s \<noteq> DatabaseScope)"

definition checkGrant :: "(string \<Rightarrow> bool) \<Rightarrow> string \<Rightarrow> Scope \<Rightarrow> Permission list \<Rightarrow> bool" where
  "checkGrant valid_path who s perms \<longleftrightarrow>
     who \<noteq> [] \<and> perms \<noteq> [] \<and> scope_validate valid_path s \<and> list_all (perm_ok s) perms"

text \<open>The operations return \<open>ErrInvalid\<close> and change nothing, or the grants they leave.\<close>

definition Grant :: "(string \<Rightarrow> bool) \<Rightarrow> Grants \<Rightarrow> string \<Rightarrow> Scope \<Rightarrow> Permission list \<Rightarrow> esentinel + Grants" where
  "Grant valid_path g who s perms =
     (if \<not> checkGrant valid_path who s perms then Inl ErrInvalid
      else Inr (g\<lparr>g_grants := fmupd who
        (fold (\<lambda>p m. fmupd s (at_scope m s OR perm_bit p) m) perms (scopes_of g who)) (g_grants g)\<rparr>))"

definition Revoke :: "(string \<Rightarrow> bool) \<Rightarrow> Grants \<Rightarrow> string \<Rightarrow> Scope \<Rightarrow> Permission list \<Rightarrow> esentinel + Grants" where
  "Revoke valid_path g who s perms =
     (if \<not> checkGrant valid_path who s perms then Inl ErrInvalid
      else case fmlookup (g_grants g) who of None \<Rightarrow> Inr g
      | Some scopes \<Rightarrow>
         (let m = fold (\<lambda>p m. fmupd s (at_scope m s AND NOT (perm_bit p)) m) perms scopes in
          Inr (g\<lparr>g_grants := fmupd who (if at_scope m s = 0 then fmdrop s m else m) (g_grants g)\<rparr>)))"

definition Protect :: "Grants \<Rightarrow> string \<Rightarrow> esentinel + Grants" where
  "Protect g branch =
     (if branch = [] \<or> CHR '':'' \<in> set branch then Inl ErrInvalid
      else Inr (g\<lparr>g_protected := List.insert branch (g_protected g)\<rparr>))"

definition Unprotect :: "Grants \<Rightarrow> string \<Rightarrow> Grants" where
  "Unprotect g branch = g\<lparr>g_protected := removeAll branch (g_protected g)\<rparr>"

section \<open>Answering a question\<close>

text \<open>\<open>strings.Cut\<close> at the first colon.\<close>

definition cut :: "string \<Rightarrow> (string \<times> string) option" where
  "cut s = (if CHR '':'' \<in> set s then Some (takeWhile ((\<noteq>) CHR '':'') s, tl (dropWhile ((\<noteq>) CHR '':'') s)) else None)"

definition split_resource :: "string \<Rightarrow> string \<times> string \<times> string" where
  "split_resource resource =
     (if resource = ''repo'' then (''repo'', [], [])
      else case cut resource of None \<Rightarrow> ([], [], [])
      | Some (k, rest) \<Rightarrow>
         if rest = [] then ([], [], [])
         else if k = ''tag'' then (''tag'', [], [])
         else if k = ''branch'' then (''branch'', rest, [])
         else if k = ''path'' then
           (case cut rest of None \<Rightarrow> ([], [], [])
            | Some (b, p) \<Rightarrow> if b = [] \<or> p = [] then ([], [], []) else (''path'', b, p))
         else ([], [], []))"

definition anywhere :: "(Scope, permSet) fmap \<Rightarrow> Permission \<Rightarrow> bool" where
  "anywhere scopes p \<longleftrightarrow> fBex (fmdom scopes) (\<lambda>s. has_perm (at_scope scopes s) p)"

definition onAnObject :: "(Scope, permSet) fmap \<Rightarrow> string \<Rightarrow> Permission \<Rightarrow> bool" where
  "onAnObject scopes branch p \<longleftrightarrow>
     fBex (fmdom scopes) (\<lambda>s. sc_branch s = branch \<and> sc_object s \<noteq> [] \<and> has_perm (at_scope scopes s) p)"

definition onBranch :: "(Scope, permSet) fmap \<Rightarrow> string \<Rightarrow> Permission \<Rightarrow> bool" where
  "onBranch scopes branch p \<longleftrightarrow>
     has_perm (at_scope scopes DatabaseScope) p \<or> has_perm (at_scope scopes \<lparr>sc_branch = branch, sc_object = []\<rparr>) p"

definition allows :: "Grants \<Rightarrow> (Scope, permSet) fmap \<Rightarrow> action \<Rightarrow> string \<Rightarrow> bool" where
  "allows g scopes a resource =
     (case split_resource resource of (kind, branch, path) \<Rightarrow>
        if kind = ''repo'' then
          (case a of ActionRead \<Rightarrow> anywhere scopes PermRead
           | ActionAdmin \<Rightarrow> has_perm (at_scope scopes DatabaseScope) PermAdmin | _ \<Rightarrow> False)
        else if kind = ''tag'' then
          (case a of ActionRead \<Rightarrow> anywhere scopes PermRead
           | ActionManage \<Rightarrow> has_perm (at_scope scopes DatabaseScope) PermBranchAdmin | _ \<Rightarrow> False)
        else if kind = ''branch'' then
          (case a of ActionRead \<Rightarrow> onBranch scopes branch PermRead \<or> onAnObject scopes branch PermRead
           | ActionWrite \<Rightarrow> branch \<notin> set (g_protected g) \<and> (onBranch scopes branch PermWrite \<or> onAnObject scopes branch PermWrite)
           | ActionCommit \<Rightarrow> onBranch scopes branch PermCommit
           | ActionMerge \<Rightarrow> onBranch scopes branch PermMerge
           | ActionManage \<Rightarrow> onBranch scopes branch PermBranchAdmin
           | _ \<Rightarrow> False)
        else if kind = ''path'' \<and> (a = ActionWrite \<or> a = ActionRead) then
          (let p = (if a = ActionRead then PermRead else PermWrite) in
           has_perm (at_scope scopes DatabaseScope) p \<or> has_perm (at_scope scopes \<lparr>sc_branch = branch, sc_object = []\<rparr>) p \<or>
           has_perm (at_scope scopes \<lparr>sc_branch = branch, sc_object = path\<rparr>) p)
        else False)"

text \<open>\<open>None\<close> is \<open>nil\<close>: the question is allowed.\<close>

definition Authorize :: "Grants \<Rightarrow> string \<Rightarrow> action \<Rightarrow> string \<Rightarrow> esentinel option" where
  "Authorize g who a resource =
     (if allows g (scopes_of g who) a resource then None else Some AuthDenied)"

section \<open>The documented table of questions\<close>

text \<open>
  What the grants are, abstractly: which principal holds which permission at which scope, and the protected branches.
\<close>

record spec_grants =
  sg_held :: "string \<Rightarrow> Scope \<Rightarrow> Permission \<Rightarrow> bool"
  sg_protected :: "string set"

datatype grant_op = OpGrant string Scope "Permission list" | OpRevoke string Scope "Permission list" | OpProtect string | OpUnprotect string

text \<open>A resource and the name the storage core gives it.\<close>

datatype resource = Repo | Tagged string | Branch string | Path string string

fun resource_name :: "resource \<Rightarrow> string" where
  "resource_name Repo = ''repo''"
| "resource_name (Tagged t) = ''tag:'' @ t"
| "resource_name (Branch b) = ''branch:'' @ b"
| "resource_name (Path b p) = ''path:'' @ b @ '':'' @ p"

fun well_named :: "resource \<Rightarrow> bool" where
  "well_named Repo \<longleftrightarrow> True"
| "well_named (Tagged t) \<longleftrightarrow> t \<noteq> []"
| "well_named (Branch b) \<longleftrightarrow> b \<noteq> []"
| "well_named (Path b p) \<longleftrightarrow> b \<noteq> [] \<and> CHR '':'' \<notin> set b \<and> p \<noteq> []"

text \<open>The table of the comment of \<open>Grants\<close>, over what a principal holds; every other question is denied.\<close>

definition on_branch :: "(Scope \<Rightarrow> Permission \<Rightarrow> bool) \<Rightarrow> string \<Rightarrow> Permission \<Rightarrow> bool" where
  "on_branch held b p \<longleftrightarrow> held DatabaseScope p \<or> held (BranchScope b) p"

fun may :: "(Scope \<Rightarrow> Permission \<Rightarrow> bool) \<Rightarrow> string set \<Rightarrow> action \<Rightarrow> resource \<Rightarrow> bool" where
  "may held prot ActionRead Repo \<longleftrightarrow> (\<exists>s. held s PermRead)"
| "may held prot ActionRead (Tagged t) \<longleftrightarrow> (\<exists>s. held s PermRead)"
| "may held prot ActionRead (Branch b) \<longleftrightarrow> on_branch held b PermRead \<or> (\<exists>q. q \<noteq> [] \<and> held (ObjectScope b q) PermRead)"
| "may held prot ActionRead (Path b q) \<longleftrightarrow> on_branch held b PermRead \<or> held (ObjectScope b q) PermRead"
| "may held prot ActionWrite (Branch b) \<longleftrightarrow>
     b \<notin> prot \<and> (on_branch held b PermWrite \<or> (\<exists>q. q \<noteq> [] \<and> held (ObjectScope b q) PermWrite))"
| "may held prot ActionWrite (Path b q) \<longleftrightarrow> on_branch held b PermWrite \<or> held (ObjectScope b q) PermWrite"
| "may held prot ActionCommit (Branch b) \<longleftrightarrow> on_branch held b PermCommit"
| "may held prot ActionMerge (Branch b) \<longleftrightarrow> on_branch held b PermMerge"
| "may held prot ActionManage (Branch b) \<longleftrightarrow> on_branch held b PermBranchAdmin"
| "may held prot ActionManage (Tagged t) \<longleftrightarrow> held DatabaseScope PermBranchAdmin"
| "may held prot ActionAdmin Repo \<longleftrightarrow> held DatabaseScope PermAdmin"
| "may held prot _ _ \<longleftrightarrow> False"

text \<open>The operations, on the abstract state and on the code's.\<close>

fun spec_op :: "(string \<Rightarrow> bool) \<Rightarrow> grant_op \<Rightarrow> spec_grants \<Rightarrow> spec_grants" where
  "spec_op vp (OpGrant who s perms) G =
     (if checkGrant vp who s perms
      then G\<lparr>sg_held := \<lambda>w t p. sg_held G w t p \<or> (w = who \<and> t = s \<and> p \<in> set perms)\<rparr> else G)"
| "spec_op vp (OpRevoke who s perms) G =
     (if checkGrant vp who s perms
      then G\<lparr>sg_held := \<lambda>w t p. sg_held G w t p \<and> \<not> (w = who \<and> t = s \<and> p \<in> set perms)\<rparr> else G)"
| "spec_op vp (OpProtect b) G = (if b = [] \<or> CHR '':'' \<in> set b then G else G\<lparr>sg_protected := insert b (sg_protected G)\<rparr>)"
| "spec_op vp (OpUnprotect b) G = G\<lparr>sg_protected := sg_protected G - {b}\<rparr>"

definition kept :: "Grants \<Rightarrow> esentinel + Grants \<Rightarrow> Grants" where
  "kept g r = (case r of Inl _ \<Rightarrow> g | Inr g' \<Rightarrow> g')"

fun grants_op :: "(string \<Rightarrow> bool) \<Rightarrow> grant_op \<Rightarrow> Grants \<Rightarrow> Grants" where
  "grants_op vp (OpGrant who s perms) g = kept g (Grant vp g who s perms)"
| "grants_op vp (OpRevoke who s perms) g = kept g (Revoke vp g who s perms)"
| "grants_op vp (OpProtect b) g = kept g (Protect g b)"
| "grants_op vp (OpUnprotect b) g = Unprotect g b"

section \<open>The grants implement it\<close>

definition grants_abs :: "Grants \<Rightarrow> spec_grants" where
  "grants_abs g = \<lparr>sg_held = (\<lambda>who s p. has_perm (at_scope (scopes_of g who) s) p), sg_protected = set (g_protected g)\<rparr>"

lemma has_perm_bit: "has_perm ps p \<longleftrightarrow> bit ps (unat p)"
  by (simp add: has_perm_def perm_bit_def push_bit_of_1 and_exp_eq_0_iff_not_bit)

lemma perm_ok_less: "perm_ok s p \<Longrightarrow> unat p < 8"
  by (simp add: perm_ok_def perm_defs word_less_nat_alt not_less)

lemma has_perm_0 [simp]: "\<not> has_perm 0 p"
  by (simp add: has_perm_def)

lemma perm_bit_iff: "unat q < 8 \<Longrightarrow> bit (perm_bit q) (unat p) \<longleftrightarrow> p = q"
  using unsigned_word_eqI [of p q] by (auto simp: perm_bit_def bit_exp_iff)

lemma has_perm_or: "perm_ok s q \<Longrightarrow> has_perm (ps OR perm_bit q) p \<longleftrightarrow> has_perm ps p \<or> p = q"
  by (simp add: has_perm_bit bit_or_iff perm_bit_iff [OF perm_ok_less])

lemma has_perm_and_not: "perm_ok s q \<Longrightarrow> has_perm (ps AND NOT (perm_bit q)) p \<longleftrightarrow> has_perm ps p \<and> p \<noteq> q"
  using bit_imp_le_length [of ps "unat p"] by (auto simp: has_perm_bit bit_and_iff bit_not_iff perm_bit_iff [OF perm_ok_less])

lemma at_scope_upd [simp]: "at_scope (fmupd s x m) t = (if t = s then x else at_scope m t)"
  by (simp add: at_scope_def)

lemma at_scope_drop [simp]: "at_scope (fmdrop s m) t = (if t = s then 0 else at_scope m t)"
  by (simp add: at_scope_def)

lemma at_scope_empty [simp]: "at_scope fmempty t = 0"
  by (simp add: at_scope_def)

lemma grant_fold:
  assumes "list_all (perm_ok s) perms"
  shows "has_perm (at_scope (fold (\<lambda>p m. fmupd s (at_scope m s OR perm_bit p) m) perms m) t) q \<longleftrightarrow>
    has_perm (at_scope m t) q \<or> (t = s \<and> q \<in> set perms)"
  using assms
proof (induction perms arbitrary: m)
  case (Cons p perms)
  then have "perm_ok s p" by simp
  from has_perm_or [OF this] Cons show ?case by (cases "t = s") simp_all
qed simp

lemma revoke_fold:
  assumes "list_all (perm_ok s) perms"
  shows "has_perm (at_scope (fold (\<lambda>p m. fmupd s (at_scope m s AND NOT (perm_bit p)) m) perms m) t) q \<longleftrightarrow>
    has_perm (at_scope m t) q \<and> \<not> (t = s \<and> q \<in> set perms)"
  using assms
proof (induction perms arbitrary: m)
  case (Cons p perms)
  then have "perm_ok s p" by simp
  from has_perm_and_not [OF this] Cons show ?case by (cases "t = s") simp_all
qed simp

lemma scopes_of_upd [simp]: "scopes_of (g\<lparr>g_grants := fmupd who m (g_grants g)\<rparr>) w = (if w = who then m else scopes_of g w)"
  by (simp add: scopes_of_def)

lemma scopes_of_protected [simp]: "scopes_of (g\<lparr>g_protected := x\<rparr>) w = scopes_of g w"
  by (simp add: scopes_of_def)

lemma grant_refines: "grants_abs (kept g (Grant vp g who s perms)) = spec_op vp (OpGrant who s perms) (grants_abs g)"
  by (auto simp: Grant_def kept_def grants_abs_def checkGrant_def grant_fold fun_eq_iff)

lemma revoke_refines: "grants_abs (kept g (Revoke vp g who s perms)) = spec_op vp (OpRevoke who s perms) (grants_abs g)"
proof (cases "checkGrant vp who s perms \<and> fmlookup (g_grants g) who \<noteq> None")
  case True
  then obtain m where m: "fmlookup (g_grants g) who = Some m" "scopes_of g who = m" and ok: "list_all (perm_ok s) perms"
    by (auto simp: scopes_of_def checkGrant_def)
  define m' where "m' = fold (\<lambda>p m. fmupd s (at_scope m s AND NOT (perm_bit p)) m) perms m"
  define m2 where "m2 = (if at_scope m' s = 0 then fmdrop s m' else m')"
  have zero: "at_scope m2 t = at_scope m' t" for t by (simp add: m2_def)
  have "has_perm (at_scope m2 t) q \<longleftrightarrow> has_perm (at_scope m t) q \<and> \<not> (t = s \<and> q \<in> set perms)" for t q
    unfolding zero unfolding m'_def by (rule revoke_fold [OF ok])
  moreover have "Revoke vp g who s perms = Inr (g\<lparr>g_grants := fmupd who m2 (g_grants g)\<rparr>)"
    using True m by (simp add: Revoke_def Let_def m2_def m'_def)
  ultimately show ?thesis using True m by (simp add: kept_def grants_abs_def fun_eq_iff)
next
  case False
  then show ?thesis by (auto simp: Revoke_def kept_def grants_abs_def fun_eq_iff scopes_of_def split: option.splits)
qed

lemma protect_refines:
  "grants_abs (kept g (Protect g b)) = spec_op vp (OpProtect b) (grants_abs g)"
  "grants_abs (Unprotect g b) = spec_op vp (OpUnprotect b) (grants_abs g)"
  by (auto simp: kept_def Protect_def Unprotect_def grants_abs_def)

lemma op_refines: "grants_abs (grants_op vp x g) = spec_op vp x (grants_abs g)"
  by (cases x) (simp_all only: grants_op.simps grant_refines revoke_refines protect_refines)

lemma ops_refine: "grants_abs (fold (grants_op vp) ops g) = fold (spec_op vp) ops (grants_abs g)"
  by (induction ops arbitrary: g) (simp_all add: op_refines)

section \<open>Every question is answered by the table\<close>

lemma cut_name: "CHR '':'' \<notin> set k \<Longrightarrow> cut (k @ '':'' @ rest) = Some (k, rest)"
  by (auto simp: cut_def takeWhile_append dropWhile_append)

lemma split_name: "well_named r \<Longrightarrow> split_resource (resource_name r) =
    (case r of Repo \<Rightarrow> (''repo'', [], []) | Tagged t \<Rightarrow> (''tag'', [], []) | Branch b \<Rightarrow> (''branch'', b, []) | Path b p \<Rightarrow> (''path'', b, p))"
proof (cases r)
  case (Tagged t)
  moreover assume "well_named r"
  ultimately show ?thesis using cut_name [of "''tag''" t] by (simp add: split_resource_def)
next
  case (Branch b)
  moreover assume "well_named r"
  ultimately show ?thesis using cut_name [of "''branch''" b] by (simp add: split_resource_def)
next
  case (Path b p)
  moreover assume "well_named r"
  ultimately show ?thesis using cut_name [of "''path''" "b @ '':'' @ p"] cut_name [of b p] by (simp add: split_resource_def)
qed (simp add: split_resource_def)

lemma held_in_dom: "has_perm (at_scope m s) p \<Longrightarrow> s |\<in>| fmdom m"
  by (rule ccontr) (simp add: at_scope_def fmdom_notD)

lemma anywhere_held: "anywhere m p \<longleftrightarrow> (\<exists>s. has_perm (at_scope m s) p)"
  by (auto simp: anywhere_def dest: held_in_dom)

lemma onAnObject_held: "onAnObject m b p \<longleftrightarrow> (\<exists>q. q \<noteq> [] \<and> has_perm (at_scope m (ObjectScope b q)) p)"
proof
  assume "onAnObject m b p"
  then obtain s where s: "sc_branch s = b" "sc_object s \<noteq> []" "has_perm (at_scope m s) p" by (auto simp: onAnObject_def)
  then have "s = ObjectScope b (sc_object s)" by (simp add: ObjectScope_def)
  then show "\<exists>q. q \<noteq> [] \<and> has_perm (at_scope m (ObjectScope b q)) p" using s by metis
next
  assume "\<exists>q. q \<noteq> [] \<and> has_perm (at_scope m (ObjectScope b q)) p"
  then obtain q where q: "q \<noteq> []" "has_perm (at_scope m (ObjectScope b q)) p" by blast
  then have "ObjectScope b q |\<in>| fmdom m" by (blast dest: held_in_dom)
  moreover have "sc_branch (ObjectScope b q) = b" "sc_object (ObjectScope b q) = q" by (simp_all add: ObjectScope_def)
  ultimately show "onAnObject m b p" using q unfolding onAnObject_def by (intro fBexI [of _ "ObjectScope b q"]) simp_all
qed

lemma allows_may:
  assumes "well_named r"
  shows "allows g m a (resource_name r) \<longleftrightarrow> may (\<lambda>s p. has_perm (at_scope m s) p) (set (g_protected g)) a r"
  unfolding allows_def split_name [OF assms]
  by (cases r; cases a)
    (simp_all add: anywhere_held onAnObject_held onBranch_def on_branch_def scope_defs)

text \<open>
  C11. The grants implement the documented table: after any run of grants, revocations, protections and their lifting, each
  refused one changing nothing, a question about a resource the storage core can name is allowed exactly when the table
  of the comment of \<open>Grants\<close> says so of what was granted and not revoked since, and of the branches protected. In particular a
  protected branch takes no direct write whatever is granted, and a grant on one object is a grant on that object only.
\<close>

theorem grants_implement_table:
  assumes "well_named r"
  shows "Authorize (fold (grants_op vp) ops new_Grants) who a (resource_name r) = None \<longleftrightarrow>
    (let G = fold (spec_op vp) ops \<lparr>sg_held = \<lambda>_ _ _. False, sg_protected = {}\<rparr> in may (sg_held G who) (sg_protected G) a r)"
proof -
  have "grants_abs new_Grants = \<lparr>sg_held = \<lambda>_ _ _. False, sg_protected = {}\<rparr>"
    by (simp add: grants_abs_def new_Grants_def scopes_of_def fun_eq_iff)
  then have "fold (spec_op vp) ops \<lparr>sg_held = \<lambda>_ _ _. False, sg_protected = {}\<rparr> = grants_abs (fold (grants_op vp) ops new_Grants)"
    by (simp add: ops_refine)
  then show ?thesis by (simp add: Authorize_def allows_may [OF assms] grants_abs_def Let_def)
qed

theorem grants_implement_table_witness:
  "Authorize (fold (grants_op (\<lambda>_. True)) [OpGrant ''ann'' (ObjectScope ''main'' ''t'') [PermWrite], OpProtect ''main''] new_Grants)
     ''ann'' ActionWrite (resource_name (Branch ''main'')) = Some AuthDenied"
proof -
  let ?g = "fold (grants_op (\<lambda>_. True)) [OpGrant ''ann'' (ObjectScope ''main'' ''t'') [PermWrite], OpProtect ''main''] new_Grants"
  have "Authorize ?g ''ann'' ActionWrite (resource_name (Branch ''main'')) \<noteq> None"
    by (subst grants_implement_table)
      (simp_all add: checkGrant_def scope_validate_def ObjectScope_def)
  then show ?thesis by (simp add: Authorize_def split: if_splits)
qed

end
