(* ===== verification/Publish.thy ===== *)
theory Publish
  imports Commit_Queue Engine_Grants
begin

text \<open>
  Publishing a batch (src/engine/queue.go: run, publish, attempt, mayWrite, granted, batchAuthorizer). The storage core's
  repository is the record \<open>repo_port\<close>, what the engine relies on of it the locale \<open>repo_laws\<close>; other processes are functions on
  the world between a batch's read and its swap. A batch lands one member after the other or not at all.
\<close>

section \<open>What a batch was granted\<close>

type_synonym principal_id = string
type_synonym authorizer = "principal_id \<Rightarrow> action \<Rightarrow> string \<Rightarrow> go_error option"

text \<open>\<open>granted\<close>: the questions a batch's members were each allowed.\<close>

type_synonym granted = "(action \<times> string) list"

definition allow :: "action \<Rightarrow> string \<Rightarrow> granted \<Rightarrow> granted" where
  "allow a resource g = List.insert (a, resource) g"

text \<open>
  \<open>batchAuthorizer\<close>: the authorizer the storage core is given; \<open>g\<close> is what the context carries, none outside a batch's own
  calls, and \<open>inner\<close> the database's authorizer, if it has one.
\<close>

definition batch_Authorize :: "authorizer option \<Rightarrow> granted option \<Rightarrow> authorizer" where
  "batch_Authorize inner g p a resource =
     (if (case g of None \<Rightarrow> False | Some g \<Rightarrow> (a, resource) \<in> set g) then None
      else case inner of None \<Rightarrow> Some (Sentinel AuthDenied) | Some f \<Rightarrow> f p a resource)"

section \<open>The repository\<close>

text \<open>
  The storage core's repository as the engine calls it. \<open>rp_check\<close> is \<open>auth.Check\<close>; a namespace's root names it; the calls
  that read and move a branch's working set take the world they run in, which other processes share, and the authorizer
  the core asks. \<open>rp_diff\<close> lists the paths at which two namespaces differ, up to an error that ends the walk.
\<close>

record 'h working_set =
  ws_working :: 'h
  ws_staged :: 'h
  ws_merge :: "'h option"

record ('w, 'h, 'n) repo_port =
  rp_check :: "authorizer option \<Rightarrow> authorizer"
  rp_working_set :: "'w \<Rightarrow> authorizer \<Rightarrow> principal_id \<Rightarrow> string \<Rightarrow> go_error + 'h working_set"
  rp_namespace :: "'h \<Rightarrow> go_error + 'n"
  rp_root :: "'n \<Rightarrow> 'h"
  rp_diff :: "'n \<Rightarrow> 'n \<Rightarrow> go_error + (string list \<times> go_error option)"
  rp_update :: "'w \<Rightarrow> authorizer \<Rightarrow> principal_id \<Rightarrow> string \<Rightarrow> 'h working_set \<Rightarrow> 'h working_set \<Rightarrow> go_error option \<times> 'w"

text \<open>A member of a batch: its principal, and the namespace its transaction makes of another (\<open>Txn.onto\<close>).\<close>

record 'n member_call =
  mc_principal :: principal_id
  mc_onto :: "'n \<Rightarrow> go_error + 'n"

text \<open>The database: its repository, its authorizer and the texts of errors.\<close>

record ('w, 'h, 'n) database =
  db_repo :: "('w, 'h, 'n) repo_port"
  db_authorizer :: "authorizer option"
  db_texts :: "esentinel \<Rightarrow> string"

definition auth_check :: "('w, 'h, 'n) database \<Rightarrow> authorizer" where
  "auth_check d = rp_check (db_repo d) (db_authorizer d)"

definition core_authorizer :: "('w, 'h, 'n) database \<Rightarrow> granted \<Rightarrow> authorizer" where
  "core_authorizer d g = batch_Authorize (db_authorizer d) (Some g)"

definition on_branch_named :: "string \<Rightarrow> string" where
  "on_branch_named branch = ''branch:'' @ branch"

definition on_path_named :: "string \<Rightarrow> string \<Rightarrow> string" where
  "on_path_named branch path = ''path:'' @ branch @ '':'' @ path"

section \<open>Publishing a batch\<close>

fun check_paths :: "('w, 'h, 'n) database \<Rightarrow> principal_id \<Rightarrow> string \<Rightarrow> string list \<Rightarrow> go_error option" where
  "check_paths d p branch [] = None"
| "check_paths d p branch (path # paths) =
     (case auth_check d p ActionWrite (on_path_named branch path) of
        Some e \<Rightarrow> Some e | None \<Rightarrow> check_paths d p branch paths)"

definition mayWrite :: "('w, 'h, 'n) database \<Rightarrow> principal_id \<Rightarrow> string \<Rightarrow> 'n \<Rightarrow> 'n \<Rightarrow> granted \<Rightarrow> go_error + granted" where
  "mayWrite d p branch from to g =
     (case auth_check d p ActionWrite (on_branch_named branch) of
        Some e \<Rightarrow> Inl (translate (db_texts d) e)
      | None \<Rightarrow>
         (case rp_diff (db_repo d) from to of
            Inl e \<Rightarrow> Inl (translate (db_texts d) e)
          | Inr (paths, stop) \<Rightarrow>
             (case check_paths d p branch paths of
                Some e \<Rightarrow> Inl (translate (db_texts d) e)
              | None \<Rightarrow>
                 (case stop of Some e \<Rightarrow> Inl (translate (db_texts d) e)
                  | None \<Rightarrow> Inr (fold (\<lambda>path. allow ActionWrite (on_path_named branch path)) paths
                      (allow ActionWrite (on_branch_named branch) g))))))"

text \<open>The first loop of \<open>attempt\<close>: who may read the branch, and the first of them, whom the core's calls are made as.\<close>

fun check_readers :: "('w, 'h, 'n) database \<Rightarrow> string \<Rightarrow> 'n member_call list \<Rightarrow> principal_id \<Rightarrow> granted \<Rightarrow> outcome list \<times> principal_id \<times> granted" where
  "check_readers d branch [] lead g = ([], lead, g)"
| "check_readers d branch (c # cs) lead g =
     (case map_option (translate (db_texts d)) (auth_check d (mc_principal c) ActionRead (on_branch_named branch)) of
        Some e \<Rightarrow> (case check_readers d branch cs lead g of (es, r) \<Rightarrow> (Some e # es, r))
      | None \<Rightarrow>
         (case (if lead = [] then check_readers d branch cs (mc_principal c) (allow ActionRead (on_branch_named branch) g)
                else check_readers d branch cs lead g) of (es, r) \<Rightarrow> (None # es, r)))"

text \<open>The second loop: each member applied to the namespace in order; one that fails leaves it as it was.\<close>

fun apply_members :: "('w, 'h, 'n) database \<Rightarrow> string \<Rightarrow> 'n member_call list \<Rightarrow> outcome list \<Rightarrow> 'n \<Rightarrow> granted \<Rightarrow> nat \<Rightarrow>
    outcome list \<times> 'n \<times> granted \<times> nat" where
  "apply_members d branch (c # cs) (Some e # es) w g n =
     (case apply_members d branch cs es w g n of (es', r) \<Rightarrow> (Some e # es', r))"
| "apply_members d branch (c # cs) (None # es) w g n =
     (case (case mc_onto c w of Inl e \<Rightarrow> Inl e
            | Inr next \<Rightarrow> (case mayWrite d (mc_principal c) branch w next g of Inl e \<Rightarrow> Inl e | Inr g' \<Rightarrow> Inr (next, g'))) of
        Inl e \<Rightarrow> (case apply_members d branch cs es w g n of (es', r) \<Rightarrow> (Some e # es', r))
      | Inr (next, g') \<Rightarrow> (case apply_members d branch cs es next g' (n + 1) of (es', r) \<Rightarrow> (None # es', r)))"
| "apply_members d branch _ es w g n = (es, w, g, n)"

definition failAll :: "go_error \<Rightarrow> outcome list \<Rightarrow> outcome list" where
  "failAll err = map (\<lambda>e. if e = None then Some err else e)"

text \<open>
  \<open>attempt\<close>: whether the swap was lost, the members' outcomes and the world it leaves. \<open>other\<close> is what other processes do
  between its read of the working set and its swap.
\<close>

definition attempt :: "('w, 'h, 'n) database \<Rightarrow> ('w \<Rightarrow> 'w) \<Rightarrow> string \<Rightarrow> 'n member_call list \<Rightarrow> 'w \<Rightarrow> bool \<times> outcome list \<times> 'w" where
  "attempt d other branch batch world =
     (case check_readers d branch batch [] [] of (errs, lead, g) \<Rightarrow>
        if lead = [] then (False, errs, other world)
        else case rp_working_set (db_repo d) world (core_authorizer d g) lead branch of
          Inl e \<Rightarrow> (False, failAll (translate (db_texts d) e) errs, other world)
        | Inr cur \<Rightarrow>
           if ws_merge cur \<noteq> None then (False, failAll (Sentinel ErrMergeInProgress) errs, other world)
           else case rp_namespace (db_repo d) (ws_working cur) of
             Inl e \<Rightarrow> (False, failAll (translate (db_texts d) e) errs, other world)
           | Inr w \<Rightarrow>
              (case apply_members d branch batch errs w g 0 of (errs, w, g, applied) \<Rightarrow>
                 if applied = 0 \<or> rp_root (db_repo d) w = ws_working cur then (False, errs, other world)
                 else
                   let next = cur\<lparr>ws_working := rp_root (db_repo d) w, ws_staged := rp_root (db_repo d) w\<rparr> in
                   (case rp_update (db_repo d) (other world) (core_authorizer d g) lead branch cur next of
                      (None, world') \<Rightarrow> (False, errs, world')
                    | (Some e, world') \<Rightarrow>
                       if is_err e VcsConflict then (True, errs, world')
                       else (False, failAll (translate (db_texts d) e) errs, world'))))"

definition maxCommitAttempts :: nat where "maxCommitAttempts = 5"

definition gave_up :: go_error where
  "gave_up = Noted ErrSerialization ''the working set moved under 5 attempts in a row''"

text \<open>\<open>publish\<close>, its loop over what the other processes do during each attempt.\<close>

fun publish_loop :: "('w, 'h, 'n) database \<Rightarrow> string \<Rightarrow> 'n member_call list \<Rightarrow> ('w \<Rightarrow> 'w) list \<Rightarrow> outcome list \<Rightarrow> 'w \<Rightarrow> outcome list \<times> 'w" where
  "publish_loop d branch batch [] errs world = (failAll gave_up errs, world)"
| "publish_loop d branch batch (other # others) errs world =
     (case attempt d other branch batch world of (lost, errs, world) \<Rightarrow>
        if \<not> lost then (errs, world) else publish_loop d branch batch others errs world)"

definition publish :: "('w, 'h, 'n) database \<Rightarrow> (nat \<Rightarrow> 'w \<Rightarrow> 'w) \<Rightarrow> string \<Rightarrow> 'n member_call list \<Rightarrow> 'w \<Rightarrow> outcome list \<times> 'w" where
  "publish d others branch batch world =
     publish_loop d branch batch (map others [0..<maxCommitAttempts]) (replicate (length batch) None) world"

text \<open>
  \<open>run\<close>: what waits in the queue is a transaction's commit or a session's commit or merge, which changes the world itself.
\<close>

datatype ('w, 'n) queued = Commit (queued_member: "'n member_call") | SessionOp "'w \<Rightarrow> outcome \<times> 'w"

definition run :: "('w, 'h, 'n) database \<Rightarrow> (nat \<Rightarrow> 'w \<Rightarrow> 'w) \<Rightarrow> string \<Rightarrow> ('w, 'n) queued list \<Rightarrow> 'w \<Rightarrow> outcome list \<times> 'w" where
  "run d others branch batch world =
     (case hd batch of
        SessionOp f \<Rightarrow> (case f world of (e, world) \<Rightarrow> ([e], world))
      | Commit _ \<Rightarrow> publish d others branch (map queued_member batch) world)"

section \<open>What the engine relies on of the repository\<close>

text \<open>
  A principal without an id is refused; the working set read is the branch's; a swap that succeeds found the working set
  it was to replace and replaced it, on that branch only; one that fails changed nothing; a walk over the differences of two
  namespaces that ends without an error lists the paths at which they differ.
\<close>

locale repo_laws =
  fixes d :: "('w, 'h, 'n) database" and working :: "'w \<Rightarrow> string \<Rightarrow> 'h working_set" and content :: "'n \<Rightarrow> string \<rightharpoonup> 'r"
  assumes no_id: "auth_check d [] a r \<noteq> None"
    and read: "rp_working_set (db_repo d) w az p b = Inr ws \<Longrightarrow> ws = working w b"
    and swap: "rp_update (db_repo d) w az p b cur next = (None, w') \<Longrightarrow> working w b = cur \<and> working w' = (working w)(b := next)"
    and lost: "rp_update (db_repo d) w az p b cur next = (Some e, w') \<Longrightarrow> w' = w"
    and diff: "rp_diff (db_repo d) m n = Inr (paths, None) \<Longrightarrow> set paths = {q. content m q \<noteq> content n q}"

text \<open>
  The members of a batch one after the other: each without an error makes its namespace of what the ones before it left, and
  was allowed to write the branch and every path it changed; each with an error changes nothing.
\<close>

inductive serial :: "('w, 'h, 'n) database \<Rightarrow> ('n \<Rightarrow> string \<rightharpoonup> 'r) \<Rightarrow> string \<Rightarrow> 'n member_call list \<Rightarrow> outcome list \<Rightarrow> 'n \<Rightarrow> 'n \<Rightarrow> bool"
  for d content branch where
  serial_nil: "serial d content branch [] [] w w"
| serial_fail: "serial d content branch cs es w w' \<Longrightarrow> serial d content branch (c # cs) (Some e # es) w w'"
| serial_ok: "mc_onto c w = Inr n \<Longrightarrow> auth_check d (mc_principal c) ActionWrite (on_branch_named branch) = None \<Longrightarrow>
    \<forall>q. content w q \<noteq> content n q \<longrightarrow> auth_check d (mc_principal c) ActionWrite (on_path_named branch q) = None \<Longrightarrow>
    serial d content branch cs es n w' \<Longrightarrow> serial d content branch (c # cs) (None # es) w w'"

inductive_cases serial_NilE: "serial d content branch [] es w w'"
inductive_cases serial_NoneE: "serial d content branch (c # cs) (None # es) w w'"
inductive_cases serial_SomeE: "serial d content branch (c # cs) (Some e # es) w w'"

lemma check_paths_None: "check_paths d p branch paths = None \<longleftrightarrow> (\<forall>q \<in> set paths. auth_check d p ActionWrite (on_path_named branch q) = None)"
  by (induction paths) (auto split: option.splits)

lemma mayWrite_Inr:
  assumes "mayWrite d p branch m n g = Inr g'"
  obtains paths where "auth_check d p ActionWrite (on_branch_named branch) = None" "rp_diff (db_repo d) m n = Inr (paths, None)"
    "\<forall>q \<in> set paths. auth_check d p ActionWrite (on_path_named branch q) = None"
    "g' = fold (\<lambda>path. allow ActionWrite (on_path_named branch path)) paths (allow ActionWrite (on_branch_named branch) g)"
  using assms by (auto simp: mayWrite_def check_paths_None split: option.splits sum.splits prod.splits)

lemma check_readers_facts:
  assumes "check_readers d branch cs lead g = (es, lead', g')" "\<And>a r. auth_check d [] a r \<noteq> None"
  shows "length es = length cs \<and> (lead' = [] \<longrightarrow> None \<notin> set es \<and> lead = [])"
  using assms(1)
proof (induction cs arbitrary: lead g es lead' g')
  case (Cons c cs)
  show ?case
  proof (cases "auth_check d (mc_principal c) ActionRead (on_branch_named branch)")
    case None
    then have id: "mc_principal c \<noteq> []" using assms(2) by metis
    define r where "r = (if lead = [] then check_readers d branch cs (mc_principal c) (allow ActionRead (on_branch_named branch) g)
      else check_readers d branch cs lead g)"
    obtain es2 where r: "r = (es2, lead', g')" "es = None # es2" using Cons.prems None by (auto simp: r_def [symmetric] split: prod.splits)
    then show ?thesis using Cons.IH [of "mc_principal c" _ es2 lead' g'] Cons.IH [of lead g es2 lead' g'] id unfolding r_def
      by (auto split: if_splits)
  next
    case (Some e)
    then obtain es2 where "check_readers d branch cs lead g = (es2, lead', g')" "\<exists>e. es = Some e # es2"
      using Cons.prems by (auto split: prod.splits)
    then show ?thesis using Cons.IH by auto
  qed
qed auto

lemma failAll_facts [simp]: "length (failAll e es) = length es" "None \<notin> set (failAll e es)"
  by (auto simp: failAll_def)

context repo_laws
begin

lemma apply_members_serial:
  assumes "apply_members d branch cs es w g n = (es', w', g', n')" "length es = length cs"
  shows "serial d content branch cs es' w w' \<and> length es' = length cs \<and> (n' = n \<longleftrightarrow> None \<notin> set es') \<and> n \<le> n'"
  using assms
proof (induction cs arbitrary: es w g n es' w' g' n')
  case Nil
  then show ?case by (auto intro: serial_nil)
next
  case (Cons c cs)
  then obtain e es2 where es: "es = e # es2" "length es2 = length cs" by (cases es) auto
  show ?case
  proof (cases "e = None \<and> (\<exists>nx g2. mc_onto c w = Inr nx \<and> mayWrite d (mc_principal c) branch w nx g = Inr g2)")
    case True
    then obtain nx g2 where m: "mc_onto c w = Inr nx" "mayWrite d (mc_principal c) branch w nx g = Inr g2" by blast
    with Cons.prems(1) True es(1) obtain es3 where r: "apply_members d branch cs es2 nx g2 (n + 1) = (es3, w', g', n')" "es' = None # es3"
      by (auto split: prod.splits)
    obtain paths where p: "auth_check d (mc_principal c) ActionWrite (on_branch_named branch) = None" "rp_diff (db_repo d) w nx = Inr (paths, None)"
        "\<forall>q \<in> set paths. auth_check d (mc_principal c) ActionWrite (on_path_named branch q) = None"
      using mayWrite_Inr [OF m(2)] by metis
    from Cons.IH [OF r(1) es(2)] have IH: "serial d content branch cs es3 nx w'" "length es3 = length cs" "n + 1 \<le> n'" by auto
    then have "serial d content branch (c # cs) es' w w'"
      unfolding r(2) using p diff [OF p(2)] m(1) by (intro serial_ok) auto
    with IH r(2) show ?thesis by auto
  next
    case False
    then obtain e' es3 where r: "apply_members d branch cs es2 w g n = (es3, w', g', n')" "es' = Some e' # es3"
      using Cons.prems(1) es(1) by (cases e) (auto split: prod.splits sum.splits)
    from Cons.IH [OF r(1) es(2)] r(2) show ?thesis by (auto intro: serial_fail)
  qed
qed

text \<open>
  What an attempt leaves: the world as the other processes left it, every member failed or nothing changed; or the batch,
  one member after the other, swapped in for the working set it was made of.
\<close>

definition "stands branch batch errs v w' \<longleftrightarrow> w' = v \<and> (None \<notin> set errs \<or>
  (\<exists>n0 n1 cur. serial d content branch batch errs n0 n1 \<and> rp_namespace (db_repo d) cur = Inr n0 \<and> rp_root (db_repo d) n1 = cur))"

definition "lands branch batch errs v w' \<longleftrightarrow> (\<exists>n0 n1. serial d content branch batch errs n0 n1 \<and>
  ws_merge (working v branch) = None \<and> rp_namespace (db_repo d) (ws_working (working v branch)) = Inr n0 \<and>
  working w' = (working v)(branch := (working v branch)\<lparr>ws_working := rp_root (db_repo d) n1, ws_staged := rp_root (db_repo d) n1\<rparr>))"

lemma attempt_leaves:
  assumes "attempt d other branch batch w = (l, errs, w')"
  shows "length errs = length batch \<and> (if l then w' = other w else stands branch batch errs (other w) w' \<or> lands branch batch errs (other w) w')"
proof -
  obtain es lead g where r: "check_readers d branch batch [] [] = (es, lead, g)" by (metis prod_cases3)
  note rd = check_readers_facts [OF r no_id]
  show ?thesis
  proof (cases "lead = [] \<or> (\<exists>e. rp_working_set (db_repo d) w (core_authorizer d g) lead branch = Inl e)")
    case True
    then have "\<not> l" "w' = other w" "length errs = length batch" "None \<notin> set errs"
      using assms r rd by (auto simp: attempt_def split: if_splits)
    then show ?thesis by (simp add: stands_def)
  next
    case False
    then obtain cur where cur: "rp_working_set (db_repo d) w (core_authorizer d g) lead branch = Inr cur" "lead \<noteq> []"
      by (cases "rp_working_set (db_repo d) w (core_authorizer d g) lead branch") auto
    show ?thesis
    proof (cases "ws_merge cur \<noteq> None \<or> (\<exists>e. rp_namespace (db_repo d) (ws_working cur) = Inl e)")
      case True
      then have "\<not> l" "w' = other w" "length errs = length batch" "None \<notin> set errs"
        using assms r rd cur by (auto simp: attempt_def split: if_splits)
      then show ?thesis by (simp add: stands_def)
    next
      case False
      then obtain n0 where n0: "rp_namespace (db_repo d) (ws_working cur) = Inr n0" "ws_merge cur = None"
        by (cases "rp_namespace (db_repo d) (ws_working cur)") auto
      obtain es2 n1 g2 k where a: "apply_members d branch batch es n0 g 0 = (es2, n1, g2, k)" by (metis prod_cases4)
      from apply_members_serial [OF a] rd have s: "serial d content branch batch es2 n0 n1" "length es2 = length batch"
        "k = 0 \<longleftrightarrow> None \<notin> set es2" by auto
      show ?thesis
      proof (cases "k = 0 \<or> rp_root (db_repo d) n1 = ws_working cur")
        case True
        then have e: "\<not> l" "w' = other w" "errs = es2" using assms r cur n0 a by (auto simp: attempt_def)
        have "stands branch batch es2 (other w) (other w)"
          using True s n0(1) unfolding stands_def by metis
        then show ?thesis using e s(2) by simp
      next
        case False
        define nx where "nx = cur\<lparr>ws_working := rp_root (db_repo d) n1, ws_staged := rp_root (db_repo d) n1\<rparr>"
        obtain e w2 where u: "rp_update (db_repo d) (other w) (core_authorizer d g2) lead branch cur nx = (e, w2)" by fastforce
        show ?thesis
        proof (cases e)
          case None
          with swap u have v: "working (other w) branch = cur" "working w2 = (working (other w))(branch := nx)" by blast+
          have "lands branch batch es2 (other w) w2" unfolding lands_def v using s(1) n0 by (auto simp: nx_def)
          then show ?thesis using assms r cur n0 a s False u None by (auto simp: attempt_def nx_def Let_def)
        next
          case (Some x)
          with lost u have "w2 = other w" by blast
          then show ?thesis using assms r cur n0 a s False u Some by (auto simp: attempt_def nx_def Let_def stands_def split: if_splits)
        qed
      qed
    qed
  qed
qed

lemma publish_loop_leaves:
  assumes "publish_loop d branch batch others errs0 w = (errs, w')" "length errs0 = length batch"
  shows "length errs = length batch \<and>
    (\<exists>k \<le> length others. let v = fold (\<lambda>f. f) (List.take k others) w in stands branch batch errs v w' \<or> lands branch batch errs v w')"
  using assms
proof (induction others arbitrary: errs0 w)
  case Nil
  then show ?case by (auto simp: stands_def)
next
  case (Cons other others)
  obtain l es w2 where a: "attempt d other branch batch w = (l, es, w2)" by (metis prod_cases3)
  note at = attempt_leaves [OF a]
  show ?case
  proof (cases l)
    case True
    then have "publish_loop d branch batch others es (other w) = (errs, w')" "length es = length batch"
      using Cons.prems(1) a at by auto
    from Cons.IH [OF this] obtain k where "length errs = length batch" "k \<le> length others"
        "let v = fold (\<lambda>f. f) (List.take k others) (other w) in stands branch batch errs v w' \<or> lands branch batch errs v w'" by blast
    then show ?thesis by (intro conjI exI [of _ "Suc k"]) (auto simp: Let_def)
  next
    case False
    then show ?thesis using Cons.prems(1) a at by (intro conjI exI [of _ 1]) (auto simp: Let_def)
  qed
qed

end

text \<open>
  C2. Publishing a batch is all or nothing, member by member, and loses no other process's commit: every member learns an
  outcome; and for some number of attempts, with the world as the other processes had left it by then, either the world
  stands so, every member having failed or the members applied having changed nothing; or the branch's working set, found
  as the batch was made of it, now is what the members without an error made of it one after the other, each allowed to
  write every path it changed, and nothing else of the world changed. A member that fails contributes nothing.
\<close>

theorem publish_lands_serially:
  assumes "repo_laws d working content" "publish d others branch batch w = (errs, w')"
  shows "length errs = length batch \<and> (\<exists>k \<le> 5. \<exists>v. v = fold others [0..<k] w \<and>
    (w' = v \<and> (None \<notin> set errs \<or>
       (\<exists>n0 n1 cur. serial d content branch batch errs n0 n1 \<and> rp_namespace (db_repo d) cur = Inr n0 \<and> rp_root (db_repo d) n1 = cur)) \<or>
     (\<exists>n0 n1. serial d content branch batch errs n0 n1 \<and>
       ws_merge (working v branch) = None \<and> rp_namespace (db_repo d) (ws_working (working v branch)) = Inr n0 \<and>
       working w' = (working v)(branch := (working v branch)\<lparr>ws_working := rp_root (db_repo d) n1, ws_staged := rp_root (db_repo d) n1\<rparr>))))"
proof -
  have fold: "fold (\<lambda>f. f) (List.take k (map others [0..<5])) w = fold others [0..<k] w" if "k \<le> 5" for k
    using that by (simp add: take_map fold_map take_upt comp_def)
  from repo_laws.publish_loop_leaves [OF assms(1) assms(2) [unfolded publish_def maxCommitAttempts_def]]
  obtain k where "length errs = length batch" "k \<le> 5"
    "repo_laws.stands d content branch batch errs (fold others [0..<k] w) w' \<or>
     repo_laws.lands d working content branch batch errs (fold others [0..<k] w) w'"
    using fold by (auto simp: Let_def)
  then show ?thesis unfolding repo_laws.stands_def [OF assms(1)] repo_laws.lands_def [OF assms(1)] by blast
qed

end
