(* ===== verification/Publish_Correct.thy ===== *)
theory Publish_Correct
  imports Publish
begin

text \<open>
  Group commit is the same as commits one at a time; a repository in memory satisfies the laws.
\<close>

section \<open>A batch is its members one at a time\<close>

text \<open>
  A repository nothing fails in: a working set is read by whoever may read the branch, namespaces are read back by their
  roots, walks over differences end, and a swap by whoever may write the branch and the paths it changes succeeds.
\<close>

locale healthy_repo = repo_laws d working content
  for d :: "('w, 'h, 'n) database" and working :: "'w \<Rightarrow> string \<Rightarrow> 'h working_set" and content :: "'n \<Rightarrow> string \<rightharpoonup> 'r" +
  assumes reads: "az p ActionRead (on_branch_named b) = None \<Longrightarrow> rp_working_set (db_repo d) w az p b = Inr (working w b)"
    and names: "rp_namespace (db_repo d) (rp_root (db_repo d) n) = Inr n"
    and walks: "\<exists>paths. rp_diff (db_repo d) m n = Inr (paths, None)"
    and swaps: "working w b = cur \<Longrightarrow> ws_working cur = rp_root (db_repo d) m \<Longrightarrow> ws_working nx = rp_root (db_repo d) n \<Longrightarrow>
      az p ActionWrite (on_branch_named b) = None \<Longrightarrow> (\<And>q. content m q \<noteq> content n q \<Longrightarrow> az p ActionWrite (on_path_named b q) = None) \<Longrightarrow>
      \<exists>w'. rp_update (db_repo d) w az p b cur nx = (None, w')"

text \<open>The members published each on its own, one call after the other.\<close>

fun publish_each :: "('w, 'h, 'n) database \<Rightarrow> string \<Rightarrow> 'n member_call list \<Rightarrow> 'w \<Rightarrow> outcome list \<times> 'w" where
  "publish_each d branch [] w = ([], w)"
| "publish_each d branch (c # cs) w =
     (case publish d (\<lambda>_ v. v) branch [c] w of (es, w) \<Rightarrow>
        (case publish_each d branch cs w of (es', w) \<Rightarrow> (es @ es', w)))"

text \<open>What one member makes of a namespace, its outcome first.\<close>

definition apply_one :: "('w, 'h, 'n) database \<Rightarrow> string \<Rightarrow> 'n member_call \<Rightarrow> 'n \<Rightarrow> outcome \<times> 'n" where
  "apply_one d branch c n =
     (case auth_check d (mc_principal c) ActionRead (on_branch_named branch) of
        Some e \<Rightarrow> (Some (translate (db_texts d) e), n)
      | None \<Rightarrow> (case mc_onto c n of Inl e \<Rightarrow> (Some e, n)
         | Inr n' \<Rightarrow> (case mayWrite d (mc_principal c) branch n n' [] of Inl e \<Rightarrow> (Some e, n) | Inr _ \<Rightarrow> (None, n'))))"

fun apply_all :: "('w, 'h, 'n) database \<Rightarrow> string \<Rightarrow> 'n member_call list \<Rightarrow> 'n \<Rightarrow> outcome list \<times> 'n" where
  "apply_all d branch [] n = ([], n)"
| "apply_all d branch (c # cs) n =
     (case apply_one d branch c n of (e, n) \<Rightarrow> (case apply_all d branch cs n of (es, n) \<Rightarrow> (e # es, n)))"

definition read_checks :: "('w, 'h, 'n) database \<Rightarrow> string \<Rightarrow> 'n member_call list \<Rightarrow> outcome list" where
  "read_checks d branch cs = map (\<lambda>c. map_option (translate (db_texts d)) (auth_check d (mc_principal c) ActionRead (on_branch_named branch))) cs"

lemma mayWrite_granted: "mayWrite d p branch m n g = Inl e \<longleftrightarrow> mayWrite d p branch m n [] = Inl e"
  by (auto simp: mayWrite_def split: option.splits sum.splits prod.splits)

lemma in_allowed: "x \<in> set (fold (\<lambda>path. allow ActionWrite (on_path_named b path)) paths g) \<longleftrightarrow>
    x \<in> set g \<or> (\<exists>q \<in> set paths. x = (ActionWrite, on_path_named b q))"
  by (induction paths arbitrary: g) (auto simp: allow_def)

lemma check_readers_is:
  assumes "check_readers d branch cs lead g = (es, lead', g')"
  shows "es = read_checks d branch cs \<and> set g \<subseteq> set g' \<and> (lead' \<noteq> [] \<longrightarrow> lead = [] \<longrightarrow> (ActionRead, on_branch_named branch) \<in> set g')"
  using assms
proof (induction cs arbitrary: lead g es lead' g')
  case (Cons c cs)
  show ?case
  proof (cases "auth_check d (mc_principal c) ActionRead (on_branch_named branch)")
    case None
    define r where "r = (if lead = [] then check_readers d branch cs (mc_principal c) (allow ActionRead (on_branch_named branch) g)
      else check_readers d branch cs lead g)"
    obtain es2 where r: "r = (es2, lead', g')" "es = None # es2" using Cons.prems None by (auto simp: r_def [symmetric] split: prod.splits)
    then show ?thesis using Cons.IH [of "mc_principal c" "allow ActionRead (on_branch_named branch) g" es2 lead' g'] Cons.IH [of lead g es2 lead' g'] None
      unfolding r_def by (auto simp: read_checks_def allow_def split: if_splits)
  next
    case (Some e)
    then obtain es2 where "check_readers d branch cs lead g = (es2, lead', g')" "es = Some (translate (db_texts d) e) # es2"
      using Cons.prems by (auto split: prod.splits)
    then show ?thesis using Cons.IH [of lead g es2 lead' g'] Some by (auto simp: read_checks_def)
  qed
qed (auto simp: read_checks_def)

context healthy_repo
begin

lemma apply_members_all:
  assumes "apply_members d branch cs (read_checks d branch cs) n0 g k = (es, n1, g', k')"
  shows "(es, n1) = apply_all d branch cs n0 \<and> set g \<subseteq> set g' \<and> k \<le> k' \<and> (k' = k \<longrightarrow> n1 = n0) \<and>
    (k < k' \<longrightarrow> (ActionWrite, on_branch_named branch) \<in> set g') \<and>
    (\<forall>q. content n0 q \<noteq> content n1 q \<longrightarrow> (ActionWrite, on_path_named branch q) \<in> set g')"
  using assms
proof (induction cs arbitrary: n0 g k es)
  case Nil
  then show ?case by (simp add: read_checks_def)
next
  case (Cons c cs)
  show ?case
  proof (cases "fst (apply_one d branch c n0)")
    case (Some e)
    then have one: "apply_one d branch c n0 = (Some e, n0)"
      by (auto simp: apply_one_def split: option.splits sum.splits)
    then obtain es2 where r: "apply_members d branch cs (read_checks d branch cs) n0 g k = (es2, n1, g', k')" "es = Some e # es2"
      using Cons.prems by (auto simp: read_checks_def apply_one_def split: option.splits sum.splits prod.splits dest: mayWrite_granted [THEN iffD2, of _ _ _ _ _ _ g])
    from Cons.IH [OF r(1)] r(2) one show ?thesis by (auto split: prod.splits)
  next
    case None
    then obtain n g0 where o: "auth_check d (mc_principal c) ActionRead (on_branch_named branch) = None" "mc_onto c n0 = Inr n"
        "mayWrite d (mc_principal c) branch n0 n [] = Inr g0" "apply_one d branch c n0 = (None, n)"
      by (auto simp: apply_one_def split: option.splits sum.splits)
    have "mayWrite d (mc_principal c) branch n0 n g \<noteq> Inl e" for e
      using mayWrite_granted [of d "mc_principal c" branch n0 n g e] o(3) by simp
    then obtain g2 where n: "mayWrite d (mc_principal c) branch n0 n g = Inr g2"
      by (cases "mayWrite d (mc_principal c) branch n0 n g") auto
    then obtain es2 where r: "apply_members d branch cs (read_checks d branch cs) n g2 (k + 1) = (es2, n1, g', k')" "es = None # es2"
      using Cons.prems o n by (auto simp: read_checks_def split: prod.splits)
    obtain paths where p: "rp_diff (db_repo d) n0 n = Inr (paths, None)"
        "g2 = fold (\<lambda>path. allow ActionWrite (on_path_named branch path)) paths (allow ActionWrite (on_branch_named branch) g)"
      using mayWrite_Inr [OF n] by metis
    have g2: "set g \<subseteq> set g2" "(ActionWrite, on_branch_named branch) \<in> set g2"
        "\<And>q. content n0 q \<noteq> content n q \<Longrightarrow> (ActionWrite, on_path_named branch q) \<in> set g2"
      using diff [OF p(1)] by (auto simp: p(2) in_allowed allow_def)
    note IH = Cons.IH [OF r(1)]
    have "(ActionWrite, on_path_named branch q) \<in> set g'" if "content n0 q \<noteq> content n1 q" for q
      using that IH g2(3) [of q] by (cases "content n0 q = content n q") auto
    moreover have "(es, n1) = apply_all d branch (c # cs) n0" using IH r(2) o(4) by (auto split: prod.splits)
    moreover have "set g \<subseteq> set g'" "k < k'" "(ActionWrite, on_branch_named branch) \<in> set g'" using IH g2(1,2) by auto
    ultimately show ?thesis by simp
  qed
qed

lemma names_inj: "rp_root (db_repo d) m = rp_root (db_repo d) n \<Longrightarrow> m = n"
  by (metis names sum.inject(2))

text \<open>An attempt no other process meets makes of the branch what its members make of it in turn.\<close>

lemma attempt_all:
  assumes "ws_merge (working w branch) = None" "ws_working (working w branch) = rp_root (db_repo d) n0"
    "apply_all d branch batch n0 = (es, n1)"
  shows "\<exists>w'. attempt d (\<lambda>v. v) branch batch w = (False, es, w') \<and> ws_merge (working w' branch) = None \<and>
    ws_working (working w' branch) = rp_root (db_repo d) n1"
proof -
  obtain rs lead g where r: "check_readers d branch batch [] [] = (rs, lead, g)" by (metis prod_cases3)
  from check_readers_is [OF r] have rs: "rs = read_checks d branch batch" and g: "lead \<noteq> [] \<Longrightarrow> (ActionRead, on_branch_named branch) \<in> set g" by auto
  obtain es2 n2 g2 k where a: "apply_members d branch batch rs n0 g 0 = (es2, n2, g2, k)" by (metis prod_cases4)
  from apply_members_all [OF a [unfolded rs]] assms(3)
  have all: "es2 = es" "n2 = n1" "set g \<subseteq> set g2" "k = 0 \<Longrightarrow> n1 = n0" "0 < k \<Longrightarrow> (ActionWrite, on_branch_named branch) \<in> set g2"
    "\<And>q. content n0 q \<noteq> content n1 q \<Longrightarrow> (ActionWrite, on_path_named branch q) \<in> set g2" by auto
  show ?thesis
  proof (cases "lead = []")
    case True
    have "None \<notin> set rs" using check_readers_facts [OF r no_id] True by auto
    then have "apply_members d branch batch rs n0 g 0 = (rs, n0, g, 0)"
    proof -
      have "None \<notin> set rs \<Longrightarrow> length rs = length cs \<Longrightarrow> apply_members d branch cs rs n0 g 0 = (rs, n0, g, 0)" for cs
      proof (induction rs arbitrary: cs)
        case (Cons e rs)
        then obtain c cs' where "cs = c # cs'" by (cases cs) auto
        with Cons show ?case by (cases e) auto
      qed simp
      then show ?thesis using \<open>None \<notin> set rs\<close> rs by (simp add: read_checks_def)
    qed
    then have "es = rs" "n1 = n0" using a all by auto
    then show ?thesis using True r assms by (simp add: attempt_def)
  next
    case False
    then have read: "rp_working_set (db_repo d) w (core_authorizer d g) lead branch = Inr (working w branch)"
      using reads g by (simp add: core_authorizer_def batch_Authorize_def)
    show ?thesis
    proof (cases "k = 0 \<or> rp_root (db_repo d) n1 = rp_root (db_repo d) n0")
      case True
      then have "n1 = n0" using all(4) names_inj by blast
      then show ?thesis using True r a read False assms names all(1,2) by (simp add: attempt_def)
    next
      case no: False
      define nx where "nx = (working w branch)\<lparr>ws_working := rp_root (db_repo d) n1, ws_staged := rp_root (db_repo d) n1\<rparr>"
      have "\<exists>w'. rp_update (db_repo d) w (core_authorizer d g2) lead branch (working w branch) nx = (None, w')"
        by (rule swaps [OF refl assms(2)]) (use no all in \<open>auto simp: nx_def core_authorizer_def batch_Authorize_def\<close>)
      then obtain w' where u: "rp_update (db_repo d) w (core_authorizer d g2) lead branch (working w branch) nx = (None, w')" by blast
      with swap have "working w' = (working w)(branch := nx)" by blast
      then have "ws_merge (working w' branch) = None" "ws_working (working w' branch) = rp_root (db_repo d) n1"
        using assms(1) by (simp_all add: nx_def)
      moreover have "attempt d (\<lambda>v. v) branch batch w = (False, es, w')"
        using r a read False no assms names all(1,2) u by (simp add: attempt_def nx_def Let_def)
      ultimately show ?thesis by blast
    qed
  qed
qed

lemma publish_all:
  assumes "ws_merge (working w branch) = None" "ws_working (working w branch) = rp_root (db_repo d) n0"
    "apply_all d branch batch n0 = (es, n1)"
  shows "\<exists>w'. publish d (\<lambda>_ v. v) branch batch w = (es, w') \<and> ws_merge (working w' branch) = None \<and>
    ws_working (working w' branch) = rp_root (db_repo d) n1"
proof -
  have "map (\<lambda>_ v. v) [0..<5] = (\<lambda>v. v) # map (\<lambda>_ v. v) [1..<5]" by (simp add: upt_conv_Cons)
  then show ?thesis using attempt_all [OF assms] by (auto simp: publish_def maxCommitAttempts_def upt_conv_Cons)
qed

lemma publish_each_all:
  assumes "ws_merge (working w branch) = None" "ws_working (working w branch) = rp_root (db_repo d) n0"
    "apply_all d branch batch n0 = (es, n1)"
  shows "\<exists>w'. publish_each d branch batch w = (es, w') \<and> ws_merge (working w' branch) = None \<and>
    ws_working (working w' branch) = rp_root (db_repo d) n1"
  using assms
proof (induction batch arbitrary: w n0 es)
  case (Cons c cs)
  obtain e n where one: "apply_one d branch c n0 = (e, n)" by fastforce
  then have single: "apply_all d branch [c] n0 = ([e], n)" by simp
  obtain es2 where rest: "apply_all d branch cs n = (es2, n1)" "es = e # es2" using Cons.prems(3) one by (auto split: prod.splits)
  from publish_all [OF Cons.prems(1,2) single] obtain v where v: "publish d (\<lambda>_ v. v) branch [c] w = ([e], v)"
      "ws_merge (working v branch) = None" "ws_working (working v branch) = rp_root (db_repo d) n" by blast
  from Cons.IH [OF v(2,3) rest(1)] v(1) rest(2) show ?case by auto
qed simp

end

text \<open>
  C3. Group commit changes nothing but the number of swaps: in a repository nothing fails in and no other process writes to,
  publishing a batch gives every member the outcome, and the branch the working namespace, that publishing the members each
  on its own, one after the other, gives. One member's failure or permissions never decide for another.
\<close>

theorem group_commit_is_sequential:
  assumes "healthy_repo d working content" "ws_merge (working w branch) = None" "ws_working (working w branch) = rp_root (db_repo d) n0"
  shows "fst (publish d (\<lambda>_ v. v) branch batch w) = fst (publish_each d branch batch w) \<and>
    ws_working (working (snd (publish d (\<lambda>_ v. v) branch batch w)) branch) =
    ws_working (working (snd (publish_each d branch batch w)) branch)"
proof -
  obtain es n1 where "apply_all d branch batch n0 = (es, n1)" by fastforce
  from healthy_repo.publish_all [OF assms this] healthy_repo.publish_each_all [OF assms this] show ?thesis by auto
qed

section \<open>A repository in memory\<close>

text \<open>
  The laws hold: a repository of one process, whose worlds are the working sets of its branches, whose namespaces are finite
  maps named by themselves, and which asks the authorizer it is given as the storage core's documentation says: to read
  a branch's working set, and to write the branch and every path a swap changes.
\<close>

type_synonym mem_namespace = "(string, nat) fmap"
type_synonym mem_world = "string \<Rightarrow> mem_namespace working_set"

definition changed_paths :: "mem_namespace \<Rightarrow> mem_namespace \<Rightarrow> string list" where
  "changed_paths m n = sorted_list_of_fset (ffilter (\<lambda>q. fmlookup m q \<noteq> fmlookup n q) (fmdom m |\<union>| fmdom n))"

definition mem_swap :: "mem_world \<Rightarrow> authorizer \<Rightarrow> principal_id \<Rightarrow> string \<Rightarrow> mem_namespace working_set \<Rightarrow> mem_namespace working_set \<Rightarrow>
    go_error option \<times> mem_world" where
  "mem_swap w az p b cur nx =
     (case az p ActionWrite (on_branch_named b) of Some e \<Rightarrow> (Some e, w)
      | None \<Rightarrow>
         if list_ex (\<lambda>q. az p ActionWrite (on_path_named b q) \<noteq> None) (changed_paths (ws_working cur) (ws_working nx))
         then (Some (Sentinel AuthDenied), w)
         else if w b = cur then (None, w(b := nx)) else (Some (Sentinel VcsConflict), w))"

definition mem_repo :: "(mem_world, mem_namespace, mem_namespace) repo_port" where
  "mem_repo = \<lparr>
     rp_check = (\<lambda>inner p a r. if p = [] then Some (Sentinel AuthInvalidPrincipal) else batch_Authorize inner None p a r),
     rp_working_set = (\<lambda>w az p b. case az p ActionRead (on_branch_named b) of Some e \<Rightarrow> Inl e | None \<Rightarrow> Inr (w b)),
     rp_namespace = Inr, rp_root = (\<lambda>n. n), rp_diff = (\<lambda>m n. Inr (changed_paths m n, None)), rp_update = mem_swap\<rparr>"

definition mem_database :: "authorizer \<Rightarrow> (mem_world, mem_namespace, mem_namespace) database" where
  "mem_database f = \<lparr>db_repo = mem_repo, db_authorizer = Some f, db_texts = (\<lambda>_. [])\<rparr>"

lemma changed_paths_set: "set (changed_paths m n) = {q. fmlookup m q \<noteq> fmlookup n q}"
proof -
  have "q |\<in>| fmdom m |\<union>| fmdom n" if "fmlookup m q \<noteq> fmlookup n q" for q
    using that by (metis fmdom_notD funionCI)
  then show ?thesis unfolding changed_paths_def by (auto simp: fset_of_list.rep_eq)
qed

interpretation mem: healthy_repo "mem_database f" "\<lambda>w. w" fmlookup
proof
  show "auth_check (mem_database f) [] a r \<noteq> None" for a r
    by (simp add: auth_check_def mem_database_def mem_repo_def)
  show "ws = w b" if "rp_working_set (db_repo (mem_database f)) w az p b = Inr ws" for w az p b ws
    using that by (auto simp: mem_database_def mem_repo_def split: option.splits)
  show "w b = cur \<and> w' = w(b := nx)" if "rp_update (db_repo (mem_database f)) w az p b cur nx = (None, w')" for w az p b cur nx w'
    using that by (auto simp: mem_database_def mem_repo_def mem_swap_def split: option.splits if_splits)
  show "w' = w" if "rp_update (db_repo (mem_database f)) w az p b cur nx = (Some e, w')" for w az p b cur nx e w'
    using that by (auto simp: mem_database_def mem_repo_def mem_swap_def split: option.splits if_splits)
  show "set paths = {q. fmlookup m q \<noteq> fmlookup n q}" if "rp_diff (db_repo (mem_database f)) m n = Inr (paths, None)" for m n paths
    using that by (auto simp: mem_database_def mem_repo_def changed_paths_set)
  show "rp_working_set (db_repo (mem_database f)) w az p b = Inr (w b)" if "az p ActionRead (on_branch_named b) = None" for w az p b
    using that by (simp add: mem_database_def mem_repo_def)
  show "rp_namespace (db_repo (mem_database f)) (rp_root (db_repo (mem_database f)) n) = Inr n" for n
    by (simp add: mem_database_def mem_repo_def)
  show "\<exists>paths. rp_diff (db_repo (mem_database f)) m n = Inr (paths, None)" for m n
    by (simp add: mem_database_def mem_repo_def)
  show "\<exists>w'. rp_update (db_repo (mem_database f)) w az p b cur nx = (None, w')"
    if "w b = cur" "ws_working cur = rp_root (db_repo (mem_database f)) m" "ws_working nx = rp_root (db_repo (mem_database f)) n"
      "az p ActionWrite (on_branch_named b) = None" "\<And>q. fmlookup m q \<noteq> fmlookup n q \<Longrightarrow> az p ActionWrite (on_path_named b q) = None"
    for w b cur m nx n az p
    using that by (auto simp: mem_database_def mem_repo_def mem_swap_def changed_paths_set list_ex_iff)
qed

text \<open>A member that puts a value, and one that finds its item taken.\<close>

definition puts :: "string \<Rightarrow> nat \<Rightarrow> mem_namespace member_call" where
  "puts q v = \<lparr>mc_principal = ''ann'', mc_onto = (\<lambda>n. Inr (fmupd q v n))\<rparr>"

definition collides :: "mem_namespace member_call" where
  "collides = \<lparr>mc_principal = ''bob'', mc_onto = (\<lambda>_. Inl (Sentinel ErrSerialization))\<rparr>"

definition empty_world :: mem_world where
  "empty_world = (\<lambda>_. \<lparr>ws_working = fmempty, ws_staged = fmempty, ws_merge = None\<rparr>)"

definition all_allowed :: "(mem_world, mem_namespace, mem_namespace) database" where
  "all_allowed = mem_database (\<lambda>_ _ _. None)"

theorem publish_lands_serially_witness:
  "\<exists>errs w'. publish all_allowed (\<lambda>_ v. v) ''main'' [puts ''a'' 1, collides] empty_world = (errs, w') \<and> length errs = 2"
proof -
  obtain errs w' where p: "publish all_allowed (\<lambda>_ v. v) ''main'' [puts ''a'' 1, collides] empty_world = (errs, w')" by fastforce
  from publish_lands_serially [OF mem.repo_laws_axioms p [unfolded all_allowed_def]] p show ?thesis by auto
qed

theorem group_commit_is_sequential_witness:
  "fst (publish all_allowed (\<lambda>_ v. v) ''main'' [puts ''a'' 1, collides, puts ''b'' 2] empty_world) =
   fst (publish_each all_allowed ''main'' [puts ''a'' 1, collides, puts ''b'' 2] empty_world)"
proof -
  have "rp_root (db_repo (mem_database (\<lambda>_ _ _. None))) fmempty = fmempty" by (simp add: mem_database_def mem_repo_def)
  then show ?thesis
    using group_commit_is_sequential [OF mem.healthy_repo_axioms, of empty_world "''main''" "\<lambda>_ _ _. None" fmempty]
    by (simp add: empty_world_def all_allowed_def)
qed

end
