(* ===== verification/Txn_Commit.thy ===== *)
theory Txn_Commit
  imports Publish_Correct Table_Model_Correct Doc_Model
begin

text \<open>
  A transaction's changes on what landed since its snapshot (src/engine/txn.go: onto, rebase, merged, writeWrite, items,
  counterDeltas, anyItem, eachItem). The storage core's object package is the record \<open>object_port\<close>, what a transaction relies
  on of it the locale \<open>object_laws\<close>; the models are called through \<open>model_calls\<close>, which \<open>engine_models\<close> builds of the models of
  this development.
\<close>

section \<open>Objects and namespaces\<close>

text \<open>
  The storage core's object package as a transaction calls it: a namespace maps paths to references, an object's model and
  its root; \<open>ob_diff\<close> walks the objects that differ, a reference being none on the side that has no object; \<open>ob_detail\<close> walks the
  changes inside one object, as its model reports them; \<open>ob_merge\<close> is the core's merge, with whether it found conflicts.
\<close>

record 'r object_ref =
  ref_model :: model_id
  ref_root :: 'r

record 'r object_change =
  oc_kind :: change_kind
  oc_path :: string
  oc_from :: "'r object_ref option"
  oc_to :: "'r object_ref option"

type_synonym 'a walk = "'a list \<times> go_error option"

record ('n, 'e, 'r, 'h) object_port =
  ob_root :: "'n \<Rightarrow> 'h"
  ob_get :: "'n \<Rightarrow> string \<Rightarrow> go_error + 'r object_ref option"
  ob_editor :: "'n \<Rightarrow> 'e"
  ob_put :: "'e \<Rightarrow> string \<Rightarrow> 'r object_ref \<Rightarrow> go_error + 'e"
  ob_delete :: "'e \<Rightarrow> string \<Rightarrow> go_error + 'e"
  ob_flush :: "'e \<Rightarrow> go_error + 'n"
  ob_diff :: "'n \<Rightarrow> 'n \<Rightarrow> go_error + 'r object_change walk"
  ob_detail :: "'r object_change \<Rightarrow> go_error + model_change walk"
  ob_merge :: "'n \<Rightarrow> 'n \<Rightarrow> 'n \<Rightarrow> go_error + 'n \<times> bool"

text \<open>
  The models a transaction calls: their \<open>Rebase\<close>, by the id of the model (\<open>models.rebaser\<close>), and the reading of a key-value map
  by its root.
\<close>

record 'r model_calls =
  md_rebase :: "model_id \<Rightarrow> ('r \<Rightarrow> 'r \<Rightarrow> 'r \<Rightarrow> go_error + 'r) option"
  md_kv_open :: "'r \<Rightarrow> go_error + (bytes \<Rightarrow> go_error + kv_value option)"

definition model_error :: "model_id \<Rightarrow> error \<Rightarrow> go_error" where
  "model_error i e = Wrapped [] (map (\<lambda>s. Sentinel (ModelErr i s)) e)"

definition of_model :: "model_id \<Rightarrow> 'a result \<Rightarrow> go_error + 'a" where
  "of_model i r = map_sum (model_error i) (\<lambda>x. x) r"

definition rebaser :: "wire \<Rightarrow> ('tm, 'te) table_port \<Rightarrow> ('m, 'e, model_root) map_port \<Rightarrow> ('dm, 'de, model_root) map_port \<Rightarrow>
    model_id \<Rightarrow> (model_root \<Rightarrow> model_root \<Rightarrow> model_root \<Rightarrow> go_error + model_root) option" where
  "rebaser W TP KP DP i =
     (case i of
        Tables \<Rightarrow> Some (\<lambda>base side onto. of_model Tables (table_Rebase W TP base side onto))
      | KVs \<Rightarrow> Some (\<lambda>base side onto. of_model KVs (kv_Rebase W KP base side onto))
      | Documents \<Rightarrow> Some (\<lambda>base side onto. of_model Documents (doc_Rebase DP base side onto))
      | _ \<Rightarrow> None)"

definition engine_models :: "wire \<Rightarrow> ('tm, 'te) table_port \<Rightarrow> ('m, 'e, model_root) map_port \<Rightarrow> ('dm, 'de, model_root) map_port \<Rightarrow>
    model_root model_calls" where
  "engine_models W TP KP DP = \<lparr>md_rebase = rebaser W TP KP DP,
     md_kv_open = (\<lambda>rt. case of_model KVs (mp_open KP rt) of Inl e \<Rightarrow> Inl e
       | Inr m \<Rightarrow> Inr (\<lambda>k. of_model KVs (kv_Get W KP m k)))\<rparr>"

section \<open>A transaction's changes on what landed since\<close>

text \<open>
  \<open>Txn.rebase\<close>: an error, nothing (a change it leaves to \<open>merged\<close>), or the namespace. \<open>T\<close> are the texts of errors.
\<close>

definition item_taken :: go_error where
  "item_taken = Noted ErrSerialization ''a transaction committed since this one began wrote an item this one writes''"

definition model_of_ref :: "'r object_ref option \<Rightarrow> model_id option" where
  "model_of_ref = map_option ref_model"

fun rebase_changes :: "(esentinel \<Rightarrow> string) \<Rightarrow> ('n, 'e, 'r, 'h) object_port \<Rightarrow> 'r model_calls \<Rightarrow> 'n \<Rightarrow> 'r object_change list \<Rightarrow>
    go_error option \<Rightarrow> 'e \<Rightarrow> go_error + 'e option" where
  "rebase_changes T B M cur [] stop ed = (case stop of None \<Rightarrow> Inr (Some ed) | Some e \<Rightarrow> Inl (translate T e))"
| "rebase_changes T B M cur (c # cs) stop ed =
     (case oc_to c of None \<Rightarrow> Inr None
      | Some to \<Rightarrow>
     (case md_rebase M (ref_model to) of None \<Rightarrow> Inr None
      | Some rb \<Rightarrow>
     (case oc_from c of None \<Rightarrow> Inr None
      | Some from \<Rightarrow>
     if ref_model from \<noteq> ref_model to then Inr None
     else
     (case ob_get B cur (oc_path c) of Inl e \<Rightarrow> Inl (translate T e)
      | Inr None \<Rightarrow> Inr None
      | Inr (Some now) \<Rightarrow>
     if ref_model now \<noteq> ref_model from then Inr None
     else
     (case (if now = from then Inr (Some to)
            else case rb (ref_root from) (ref_root to) (ref_root now) of
              Inr rt \<Rightarrow> Inr (Some \<lparr>ref_model = ref_model to, ref_root = rt\<rparr>)
            | Inl e \<Rightarrow>
               if is_err e (ModelErr Tables ErrChangedSince) \<or> is_err e (ModelErr Documents ErrChangedSince) then Inl item_taken
               else if is_err e (ModelErr KVs ErrChangedSince) \<or> is_err e (ModelErr Tables ErrSchema) then Inr None
               else Inl (translate T e)) of
        Inl e \<Rightarrow> Inl e
      | Inr None \<Rightarrow> Inr None
      | Inr (Some next) \<Rightarrow>
         (case ob_put B ed (oc_path c) next of Inl e \<Rightarrow> Inl e | Inr ed \<Rightarrow> rebase_changes T B M cur cs stop ed))))))"

definition txn_rebase :: "(esentinel \<Rightarrow> string) \<Rightarrow> ('n, 'e, 'r, 'h) object_port \<Rightarrow> 'r model_calls \<Rightarrow> 'n \<Rightarrow> 'n \<Rightarrow> 'n \<Rightarrow> go_error + 'n option" where
  "txn_rebase T B M base ours cur =
     (case ob_diff B base ours of Inl e \<Rightarrow> Inl (translate T e)
      | Inr (cs, stop) \<Rightarrow>
         (case rebase_changes T B M cur cs stop (ob_editor B cur) of
            Inl e \<Rightarrow> Inl e | Inr None \<Rightarrow> Inr None
          | Inr (Some ed) \<Rightarrow> (case ob_flush B ed of Inl e \<Rightarrow> Inl (translate T e) | Inr n \<Rightarrow> Inr (Some n))))"

section \<open>Items both wrote\<close>

text \<open>The item of a change inside an object: a table's changed cell is its row's, the column's tag cut off.\<close>

definition item_of :: "model_id \<Rightarrow> model_change \<Rightarrow> bytes" where
  "item_of i mc = (if i = Tables \<and> mch_kind mc = Modified \<and> 2 \<le> length (mch_location mc)
     then List.take (length (mch_location mc) - 2) (mch_location mc) else mch_location mc)"

text \<open>\<open>eachItem\<close>: the items an object's change wrote, up to an error, or (\<open>None\<close>) the object as a whole.\<close>

definition eachItem :: "(esentinel \<Rightarrow> string) \<Rightarrow> ('n, 'e, 'r, 'h) object_port \<Rightarrow> model_id \<Rightarrow> 'r object_change \<Rightarrow> go_error + bytes walk option" where
  "eachItem T B i c =
     (case ob_detail B c of
        Inl e \<Rightarrow> if is_err e (ModelErr Tables ErrSchema) then Inr None else Inl (translate T e)
      | Inr (mcs, stop) \<Rightarrow> Inr (Some (map (item_of i) mcs, map_option (translate T) stop)))"

definition items :: "(esentinel \<Rightarrow> string) \<Rightarrow> ('n, 'e, 'r, 'h) object_port \<Rightarrow> model_id \<Rightarrow> 'r object_change \<Rightarrow> go_error + bytes list option" where
  "items T B i c =
     (case eachItem T B i c of Inl e \<Rightarrow> Inl e | Inr None \<Rightarrow> Inr None
      | Inr (Some (xs, stop)) \<Rightarrow> (case stop of None \<Rightarrow> Inr (Some (remdups xs)) | Some e \<Rightarrow> Inl e))"

fun any_of :: "bytes list \<Rightarrow> bytes list \<Rightarrow> go_error option \<Rightarrow> go_error + bool" where
  "any_of written [] stop = (case stop of None \<Rightarrow> Inr False | Some e \<Rightarrow> Inl e)"
| "any_of written (x # xs) stop = (if x \<in> set written then Inr True else any_of written xs stop)"

definition anyItem :: "(esentinel \<Rightarrow> string) \<Rightarrow> ('n, 'e, 'r, 'h) object_port \<Rightarrow> model_id \<Rightarrow> 'r object_change \<Rightarrow> bytes list \<Rightarrow> go_error + bool" where
  "anyItem T B i c written =
     (case eachItem T B i c of Inl e \<Rightarrow> Inl e | Inr None \<Rightarrow> Inr True | Inr (Some (xs, stop)) \<Rightarrow> any_of written xs stop)"

text \<open>\<open>counterDeltas\<close>: the keys a change wrote from a counter to a counter are not items.\<close>

definition is_counter :: "kv_value option \<Rightarrow> bool" where
  "is_counter v = (case v of Some (VCounter _) \<Rightarrow> True | _ \<Rightarrow> False)"

fun drop_counters :: "(esentinel \<Rightarrow> string) \<Rightarrow> (bytes \<Rightarrow> go_error + kv_value option) \<Rightarrow> (bytes \<Rightarrow> go_error + kv_value option) \<Rightarrow>
    bytes list \<Rightarrow> go_error + bytes list" where
  "drop_counters T before after [] = Inr []"
| "drop_counters T before after (key # keys) =
     (case before key of Inl e \<Rightarrow> Inl (kvErr T e)
      | Inr v \<Rightarrow> (case after key of Inl e \<Rightarrow> Inl (kvErr T e)
      | Inr v' \<Rightarrow> (case drop_counters T before after keys of Inl e \<Rightarrow> Inl e
      | Inr rest \<Rightarrow> Inr (if is_counter v \<and> is_counter v' then rest else key # rest))))"

definition counterDeltas :: "(esentinel \<Rightarrow> string) \<Rightarrow> 'r model_calls \<Rightarrow> 'r \<Rightarrow> 'r \<Rightarrow> bytes list \<Rightarrow> go_error + bytes list" where
  "counterDeltas T M from to written =
     (case md_kv_open M from of Inl e \<Rightarrow> Inl (kvErr T e)
      | Inr before \<Rightarrow> (case md_kv_open M to of Inl e \<Rightarrow> Inl (kvErr T e)
      | Inr after \<Rightarrow> drop_counters T before after written))"

text \<open>\<open>writeWrite\<close>: the objects this side modified in place, then each the other side modified too.\<close>

definition modified_in_place :: "'r object_change \<Rightarrow> bool" where
  "modified_in_place c \<longleftrightarrow> oc_kind c = Modified \<and> model_of_ref (oc_from c) = model_of_ref (oc_to c)"

definition object_items :: "(esentinel \<Rightarrow> string) \<Rightarrow> ('n, 'e, 'r, 'h) object_port \<Rightarrow> 'r model_calls \<Rightarrow> 'r object_change \<Rightarrow> go_error + bytes list option" where
  "object_items T B M m =
     (case (oc_from m, oc_to m) of
        (Some from, Some to) \<Rightarrow>
          (case items T B (ref_model to) m of Inl e \<Rightarrow> Inl e | Inr None \<Rightarrow>
             (if ref_model to = KVs then (case counterDeltas T M (ref_root from) (ref_root to) [] of Inl e \<Rightarrow> Inl e | Inr _ \<Rightarrow> Inr None) else Inr None)
           | Inr (Some written) \<Rightarrow>
              if ref_model to = KVs then (case counterDeltas T M (ref_root from) (ref_root to) written of Inl e \<Rightarrow> Inl e | Inr written \<Rightarrow> Inr (Some written))
              else Inr (Some written))
      | _ \<Rightarrow> Inr (Some []))"

fun write_write_loop :: "(esentinel \<Rightarrow> string) \<Rightarrow> ('n, 'e, 'r, 'h) object_port \<Rightarrow> 'r model_calls \<Rightarrow> (string \<rightharpoonup> 'r object_change) \<Rightarrow>
    'r object_change list \<Rightarrow> go_error option \<Rightarrow> go_error + unit" where
  "write_write_loop T B M mine [] stop = (case stop of None \<Rightarrow> Inr () | Some e \<Rightarrow> Inl (translate T e))"
| "write_write_loop T B M mine (c # cs) stop =
     (case mine (oc_path c) of None \<Rightarrow> write_write_loop T B M mine cs stop
      | Some m \<Rightarrow>
         if oc_kind c \<noteq> Modified \<or> model_of_ref (oc_to c) \<noteq> model_of_ref (oc_to m) then write_write_loop T B M mine cs stop
         else
           (case object_items T B M m of Inl e \<Rightarrow> Inl e
            | Inr None \<Rightarrow> Inl item_taken
            | Inr (Some written) \<Rightarrow>
               (case anyItem T B (ref_model (the (oc_to c))) c written of Inl e \<Rightarrow> Inl e
                | Inr hit \<Rightarrow> if hit then Inl item_taken else write_write_loop T B M mine cs stop)))"

definition writeWrite :: "(esentinel \<Rightarrow> string) \<Rightarrow> ('n, 'e, 'r, 'h) object_port \<Rightarrow> 'r model_calls \<Rightarrow> 'n \<Rightarrow> 'n \<Rightarrow> 'n \<Rightarrow> go_error + unit" where
  "writeWrite T B M base ours theirs =
     (case ob_diff B base ours of Inl e \<Rightarrow> Inl (translate T e)
      | Inr (cs, Some e) \<Rightarrow> Inl (translate T e)
      | Inr (cs, None) \<Rightarrow>
         (let mine = map (\<lambda>c. (oc_path c, c)) (filter modified_in_place cs) in
          if mine = [] then Inr ()
          else case ob_diff B base theirs of Inl e \<Rightarrow> Inl (translate T e)
            | Inr (cs', stop) \<Rightarrow> write_write_loop T B M (map_of (rev mine)) cs' stop))"

definition merged :: "(esentinel \<Rightarrow> string) \<Rightarrow> ('n, 'e, 'r, 'h) object_port \<Rightarrow> 'r model_calls \<Rightarrow> 'n \<Rightarrow> 'n \<Rightarrow> 'n \<Rightarrow> go_error + 'n" where
  "merged T B M base ours cur =
     (case writeWrite T B M base ours cur of Inl e \<Rightarrow> Inl e
      | Inr _ \<Rightarrow>
         (case ob_merge B base cur ours of
            Inl e \<Rightarrow> if is_err e MergeTooManyConflicts then Inl (wrap T ErrSerialization e) else Inl (translate T e)
          | Inr (n, conflicts) \<Rightarrow> if conflicts then Inl (Sentinel ErrSerialization) else Inr n))"

definition onto :: "(esentinel \<Rightarrow> string) \<Rightarrow> ('n, 'e, 'r, 'h) object_port \<Rightarrow> 'r model_calls \<Rightarrow> 'n \<Rightarrow> 'n \<Rightarrow> 'n \<Rightarrow> go_error + 'n" where
  "onto T B M base ours cur =
     (if ob_root B cur = ob_root B base then Inr ours
      else case txn_rebase T B M base ours cur of
        Inl e \<Rightarrow> Inl e | Inr (Some n) \<Rightarrow> Inr n | Inr None \<Rightarrow> merged T B M base ours cur)"

section \<open>What a transaction relies on of namespaces\<close>

definition object_change_of :: "(string \<rightharpoonup> 'r object_ref) \<Rightarrow> (string \<rightharpoonup> 'r object_ref) \<Rightarrow> string \<Rightarrow> 'r object_change" where
  "object_change_of a b q = \<lparr>oc_kind = (if a q = None then Added else if b q = None then Removed else Modified),
     oc_path = q, oc_from = a q, oc_to = b q\<rparr>"

locale object_laws =
  fixes B :: "('n, 'e, 'r, 'h) object_port" and content :: "'n \<Rightarrow> string \<rightharpoonup> 'r object_ref" and pending :: "'e \<Rightarrow> string \<rightharpoonup> 'r object_ref"
  assumes roots: "ob_root B m = ob_root B n \<Longrightarrow> content m = content n"
    and get: "ob_get B n q = Inr held \<Longrightarrow> held = content n q"
    and editor: "pending (ob_editor B n) = content n"
    and put: "ob_put B e q r = Inr e' \<Longrightarrow> pending e' = (pending e)(q \<mapsto> r)"
    and delete: "ob_delete B e q = Inr e' \<Longrightarrow> pending e' = (pending e)(q := None)"
    and flush: "ob_flush B e = Inr n \<Longrightarrow> content n = pending e"
    and diff: "ob_diff B m n = Inr (cs, None) \<Longrightarrow> distinct (map oc_path cs) \<and>
      set cs = object_change_of (content m) (content n) ` {q. content m q \<noteq> content n q}"

text \<open>
  The transaction's changes rebased: an object it left alone is as \<open>cur\<close> has it, one only it changed is its own, one both
  changed in place is what the model's \<open>Rebase\<close> makes of it.
\<close>

definition rebased_object :: "'r model_calls \<Rightarrow> 'r object_ref option \<Rightarrow> 'r object_ref option \<Rightarrow> 'r object_ref option \<Rightarrow> 'r object_ref option \<Rightarrow> bool" where
  "rebased_object M b s c r \<longleftrightarrow>
     (\<exists>from to now. b = Some from \<and> s = Some to \<and> c = Some now \<and> ref_model from = ref_model to \<and> ref_model now = ref_model to \<and>
        (if now = from then r = Some to
         else \<exists>rb rt. md_rebase M (ref_model to) = Some rb \<and> rb (ref_root from) (ref_root to) (ref_root now) = Inr rt \<and>
           r = Some \<lparr>ref_model = ref_model to, ref_root = rt\<rparr>))"

definition rebased_onto :: "'r model_calls \<Rightarrow> (string \<rightharpoonup> 'r object_ref) \<Rightarrow> (string \<rightharpoonup> 'r object_ref) \<Rightarrow> (string \<rightharpoonup> 'r object_ref) \<Rightarrow>
    (string \<rightharpoonup> 'r object_ref) \<Rightarrow> bool" where
  "rebased_onto M b s c r \<longleftrightarrow> (\<forall>q. if s q = b q then r q = c q else rebased_object M (b q) (s q) (c q) (r q))"

text \<open>
  No object both changed in place has an item both wrote, a counter's delta aside: a key that held a counter before and
  after the transaction's write.
\<close>

definition counter_delta :: "'r model_calls \<Rightarrow> 'r \<Rightarrow> 'r \<Rightarrow> bytes \<Rightarrow> bool" where
  "counter_delta M from to x \<longleftrightarrow> (\<exists>before after v v'. md_kv_open M from = Inr before \<and> md_kv_open M to = Inr after \<and>
     before x = Inr v \<and> after x = Inr v' \<and> is_counter v \<and> is_counter v')"

definition items_disjoint :: "(esentinel \<Rightarrow> string) \<Rightarrow> ('n, 'e, 'r, 'h) object_port \<Rightarrow> 'r model_calls \<Rightarrow> (string \<rightharpoonup> 'r object_ref) \<Rightarrow>
    (string \<rightharpoonup> 'r object_ref) \<Rightarrow> (string \<rightharpoonup> 'r object_ref) \<Rightarrow> bool" where
  "items_disjoint T B M b s c \<longleftrightarrow>
     (\<forall>q from to now. b q = Some from \<longrightarrow> s q = Some to \<longrightarrow> c q = Some now \<longrightarrow> to \<noteq> from \<longrightarrow> now \<noteq> from \<longrightarrow>
        ref_model from = ref_model to \<longrightarrow> ref_model now = ref_model to \<longrightarrow>
        (\<exists>xs ys. eachItem T B (ref_model to) (object_change_of b s q) = Inr (Some (xs, None)) \<and>
           eachItem T B (ref_model to) (object_change_of b c q) = Inr (Some (ys, None)) \<and>
           (\<forall>x \<in> set xs \<inter> set ys. ref_model to = KVs \<and> counter_delta M (ref_root from) (ref_root to) x)))"

section \<open>The item rule\<close>

lemma any_of_False: "any_of written xs stop = Inr False \<longleftrightarrow> stop = None \<and> set xs \<inter> set written = {}"
  by (induction xs) (auto split: option.splits)

lemma anyItem_False:
  assumes "anyItem T B i c written = Inr False"
  obtains ys where "eachItem T B i c = Inr (Some (ys, None))" "set ys \<inter> set written = {}"
  using assms by (auto simp: anyItem_def any_of_False split: sum.splits option.splits prod.splits)

lemma drop_counters_keeps:
  assumes "drop_counters T before after keys = Inr written" "x \<in> set keys" "x \<notin> set written"
  shows "\<exists>v v'. before x = Inr v \<and> after x = Inr v' \<and> is_counter v \<and> is_counter v'"
  using assms
proof (induction keys arbitrary: written)
  case (Cons k keys)
  then obtain v v' rest where "before k = Inr v" "after k = Inr v'" "drop_counters T before after keys = Inr rest"
      "written = (if is_counter v \<and> is_counter v' then rest else k # rest)"
    by (auto split: sum.splits)
  with Cons show ?case by (cases "x = k") (auto split: if_splits)
qed simp

lemma object_items_wrote:
  assumes "object_items T B M m = Inr (Some written)" "oc_from m = Some from" "oc_to m = Some to"
  obtains xs where "eachItem T B (ref_model to) m = Inr (Some (xs, None))"
    "\<And>x. x \<in> set xs \<Longrightarrow> x \<notin> set written \<Longrightarrow> ref_model to = KVs \<and> counter_delta M (ref_root from) (ref_root to) x"
proof -
  from assms obtain xs where xs: "eachItem T B (ref_model to) m = Inr (Some (xs, None))"
      "if ref_model to = KVs then counterDeltas T M (ref_root from) (ref_root to) (remdups xs) = Inr written else written = remdups xs"
    by (auto simp: object_items_def items_def split: sum.splits option.splits if_splits)
  have "ref_model to = KVs \<and> counter_delta M (ref_root from) (ref_root to) x" if x: "x \<in> set xs" "x \<notin> set written" for x
  proof (cases "ref_model to = KVs")
    case True
    then obtain before after where o: "md_kv_open M (ref_root from) = Inr before" "md_kv_open M (ref_root to) = Inr after"
        "drop_counters T before after (remdups xs) = Inr written"
      using xs(2) by (auto simp: counterDeltas_def split: sum.splits)
    from drop_counters_keeps [OF o(3), of x] x o True show ?thesis by (auto simp: counter_delta_def)
  next
    case False
    with xs(2) x show ?thesis by simp
  qed
  with xs(1) show ?thesis using that by blast
qed

lemma write_write_loop_ok:
  assumes "write_write_loop T B M mine cs stop = Inr ()"
  shows "stop = None \<and> (\<forall>c \<in> set cs. \<forall>m. mine (oc_path c) = Some m \<longrightarrow> oc_kind c = Modified \<longrightarrow> model_of_ref (oc_to c) = model_of_ref (oc_to m) \<longrightarrow>
    (\<exists>written. object_items T B M m = Inr (Some written) \<and> anyItem T B (ref_model (the (oc_to c))) c written = Inr False))"
  using assms
proof (induction cs)
  case (Cons c cs)
  then show ?case by (auto split: option.splits sum.splits if_splits bool.splits)
qed (auto split: option.splits)

context object_laws
begin

lemma map_of_changes:
  assumes "distinct (map oc_path cs)" "c \<in> set cs" "P c"
  shows "map_of (rev (map (\<lambda>c. (oc_path c, c)) (filter P cs))) (oc_path c) = Some c"
proof -
  have "distinct (map fst (rev (map (\<lambda>c. (oc_path c, c)) (filter P cs))))"
    using assms(1) by (simp add: rev_map [symmetric] comp_def distinct_map_filter)
  then show ?thesis using assms(2,3) by (intro map_of_is_SomeI) auto
qed

lemma writeWrite_disjoint:
  assumes "writeWrite T B M base ours cur = Inr ()"
  shows "items_disjoint T B M (content base) (content ours) (content cur)"
proof (unfold items_disjoint_def, intro allI impI)
  fix q fr to now
  assume q: "content base q = Some fr" "content ours q = Some to" "content cur q = Some now" "to \<noteq> fr" "now \<noteq> fr"
    "ref_model fr = ref_model to" "ref_model now = ref_model to"
  let ?m = "object_change_of (content base) (content ours) q" and ?c = "object_change_of (content base) (content cur) q"
  obtain cs where cs: "ob_diff B base ours = Inr (cs, None)"
    using assms by (auto simp: writeWrite_def split: sum.splits prod.splits option.splits)
  define mine where "mine = map (\<lambda>c. (oc_path c, c)) (filter modified_in_place cs)"
  have "?m \<in> set cs" using diff [OF cs] q by simp
  moreover have "modified_in_place ?m" "oc_path ?m = q" using q by (simp_all add: object_change_of_def modified_in_place_def model_of_ref_def)
  ultimately have m: "?m \<in> set cs" "modified_in_place ?m" "oc_path ?m = q" by auto
  then have "mine \<noteq> []" by (auto simp: mine_def filter_empty_conv)
  then obtain cs' stop where t: "ob_diff B base cur = Inr (cs', stop)" "write_write_loop T B M (map_of (rev mine)) cs' stop = Inr ()"
    using assms cs by (auto simp: writeWrite_def Let_def mine_def split: sum.splits prod.splits)
  note w = write_write_loop_ok [OF t(2)]
  then have t': "ob_diff B base cur = Inr (cs', None)" using t(1) by simp
  have c: "?c \<in> set cs'" using diff [OF t'] q by simp
  have cf: "oc_path ?c = q" "oc_kind ?c = Modified" "oc_to ?c = Some now" using q by (simp_all add: object_change_of_def)
  have "map_of (rev mine) q = Some ?m" using map_of_changes [of cs ?m modified_in_place] diff [OF cs] m by (simp add: mine_def)
  moreover have mt: "oc_from ?m = Some fr" "oc_to ?m = Some to" using q by (simp_all add: object_change_of_def)
  ultimately obtain written where wr: "object_items T B M ?m = Inr (Some written)" "anyItem T B (ref_model to) ?c written = Inr False"
    using w [THEN conjunct2, rule_format, OF c, of ?m] cf q(7) by (auto simp: model_of_ref_def)
  obtain xs where xs: "eachItem T B (ref_model to) ?m = Inr (Some (xs, None))"
      "\<And>x. x \<in> set xs \<Longrightarrow> x \<notin> set written \<Longrightarrow> ref_model to = KVs \<and> counter_delta M (ref_root fr) (ref_root to) x"
    by (rule object_items_wrote [OF wr(1) mt]) blast
  obtain ys where ys: "eachItem T B (ref_model to) ?c = Inr (Some (ys, None))" "set ys \<inter> set written = {}"
    by (rule anyItem_False [OF wr(2)])
  have "ref_model to = KVs \<and> counter_delta M (ref_root fr) (ref_root to) x" if "x \<in> set xs \<inter> set ys" for x
    using that xs(2) ys(2) by blast
  with xs(1) ys(1) show "\<exists>xs ys. eachItem T B (ref_model to) ?m = Inr (Some (xs, None)) \<and>
      eachItem T B (ref_model to) ?c = Inr (Some (ys, None)) \<and>
      (\<forall>x \<in> set xs \<inter> set ys. ref_model to = KVs \<and> counter_delta M (ref_root fr) (ref_root to) x)" by blast
qed

section \<open>Rebasing\<close>

lemma rebase_changes_Cons:
  assumes "rebase_changes T B M cur (c # cs) stop ed = Inr (Some ed')"
  obtains r ed1 where "rebased_object M (oc_from c) (oc_to c) (content cur (oc_path c)) (Some r)"
    "pending ed1 = (pending ed)(oc_path c \<mapsto> r)" "rebase_changes T B M cur cs stop ed1 = Inr (Some ed')"
proof -
  from assms obtain to rb fr now where h: "oc_to c = Some to" "md_rebase M (ref_model to) = Some rb" "oc_from c = Some fr"
      "ref_model fr = ref_model to" "ob_get B cur (oc_path c) = Inr (Some now)" "ref_model now = ref_model fr"
    by (auto split: option.splits sum.splits if_splits)
  define r where "r = (if now = fr then Some to else case rb (ref_root fr) (ref_root to) (ref_root now) of
    Inr rt \<Rightarrow> Some \<lparr>ref_model = ref_model to, ref_root = rt\<rparr> | Inl e \<Rightarrow> None)"
  from assms h obtain r' ed1 where r: "r = Some r'" "ob_put B ed (oc_path c) r' = Inr ed1" "rebase_changes T B M cur cs stop ed1 = Inr (Some ed')"
    unfolding r_def by (auto split: option.splits sum.splits if_splits)
  have "content cur (oc_path c) = Some now" using get [OF h(5)] by simp
  then have "rebased_object M (oc_from c) (oc_to c) (content cur (oc_path c)) (Some r')"
    using h r(1) unfolding rebased_object_def r_def by (auto split: sum.splits if_splits)
  with put [OF r(2)] r(3) show ?thesis using that by blast
qed

lemma rebase_changes_content:
  assumes "rebase_changes T B M cur cs stop ed = Inr (Some ed')" "distinct (map oc_path cs)"
    "\<forall>c \<in> set cs. c = object_change_of a b (oc_path c)"
  shows "stop = None \<and> (\<forall>q. if q \<in> oc_path ` set cs then rebased_object M (a q) (b q) (content cur q) (pending ed' q)
    else pending ed' q = pending ed q)"
  using assms
proof (induction cs arbitrary: ed)
  case Nil
  then show ?case by (auto split: option.splits)
next
  case (Cons c cs)
  obtain r ed1 where r: "rebased_object M (oc_from c) (oc_to c) (content cur (oc_path c)) (Some r)"
      "pending ed1 = (pending ed)(oc_path c \<mapsto> r)" "rebase_changes T B M cur cs stop ed1 = Inr (Some ed')"
    by (rule rebase_changes_Cons [OF Cons.prems(1)])
  have c: "oc_from c = a (oc_path c)" "oc_to c = b (oc_path c)"
    using Cons.prems(3) by (metis list.set_intros(1) object_change.select_convs(3,4) object_change_of_def)+
  have IH: "stop = None \<and> (\<forall>q. if q \<in> oc_path ` set cs then rebased_object M (a q) (b q) (content cur q) (pending ed' q)
    else pending ed' q = pending ed1 q)" using Cons.IH [OF r(3)] Cons.prems(2,3) by simp
  show ?case
  proof (intro conjI allI)
    show "stop = None" using IH by simp
    show "if q \<in> oc_path ` set (c # cs) then rebased_object M (a q) (b q) (content cur q) (pending ed' q)
      else pending ed' q = pending ed q" for q
      using IH [THEN conjunct2, rule_format, of q] r(1,2) c Cons.prems(2) by (cases "q = oc_path c") auto
  qed
qed

lemma txn_rebase_content:
  assumes "txn_rebase T B M base ours cur = Inr (Some n)"
  shows "rebased_onto M (content base) (content ours) (content cur) (content n)"
proof -
  from assms obtain cs stop ed where cs: "ob_diff B base ours = Inr (cs, stop)"
      "rebase_changes T B M cur cs stop (ob_editor B cur) = Inr (Some ed)" "ob_flush B ed = Inr n"
    by (auto simp: txn_rebase_def split: sum.splits prod.splits option.splits)
  have stop: "stop = None"
  proof -
    have "rebase_changes T B M cur cs stop e = Inr (Some ed) \<Longrightarrow> stop = None" for e
      by (induction cs arbitrary: e) (auto elim!: rebase_changes_Cons simp del: rebase_changes.simps(2) split: option.splits)
    with cs(2) show ?thesis by blast
  qed
  then have d: "ob_diff B base ours = Inr (cs, None)" using cs(1) by simp
  have paths: "oc_path ` set cs = {q. content base q \<noteq> content ours q}"
    using diff [OF d] by (auto simp: object_change_of_def image_image)
  have "\<forall>c \<in> set cs. c = object_change_of (content base) (content ours) (oc_path c)"
    using diff [OF d] by (auto simp: object_change_of_def)
  from rebase_changes_content [OF cs(2) _ this] diff [OF d]
  have "if q \<in> oc_path ` set cs then rebased_object M (content base q) (content ours q) (content cur q) (pending ed q)
    else pending ed q = pending (ob_editor B cur) q" for q by blast
  then show ?thesis unfolding rebased_onto_def paths flush [OF cs(3)] editor by (auto simp: eq_commute split: if_splits)
qed

end

text \<open>
  C1. A commit loses no update: the namespace a transaction makes of what the branch now holds is its own, when nothing
  landed since its snapshot; or its changes rebased, every object it left alone as the branch now has it, every object only
  it changed its own, every object both changed in place what the model's rebase makes of it; or the storage core's merge
  without conflicts, and then no object both changed in place has an item both wrote, counters' deltas aside. Otherwise
  the commit fails.
\<close>

theorem commit_loses_no_update:
  assumes "object_laws B content pending" "onto T B M base ours cur = Inr n"
  shows "content cur = content base \<and> n = ours \<or>
    rebased_onto M (content base) (content ours) (content cur) (content n) \<or>
    items_disjoint T B M (content base) (content ours) (content cur) \<and> ob_merge B base cur ours = Inr (n, False)"
proof (cases "ob_root B cur = ob_root B base")
  case True
  then show ?thesis using assms object_laws.roots [OF assms(1), of cur base] by (simp add: onto_def)
next
  case False
  then consider "txn_rebase T B M base ours cur = Inr (Some n)" | "merged T B M base ours cur = Inr n"
    using assms(2) by (auto simp: onto_def split: sum.splits option.splits)
  then show ?thesis
  proof cases
    case 1
    with object_laws.txn_rebase_content [OF assms(1)] show ?thesis by blast
  next
    case 2
    then have "writeWrite T B M base ours cur = Inr ()" "ob_merge B base cur ours = Inr (n, False)"
      by (auto simp: merged_def split: sum.splits prod.splits if_splits)
    with object_laws.writeWrite_disjoint [OF assms(1)] show ?thesis by blast
  qed
qed

end
