(* ===== verification/Txn_State.thy ===== *)
theory Txn_State
  imports Txn_Commit "HOL-Library.AList"
begin

text \<open>
  Transactions (src/engine/txn.go: begin, lookup, creatable, opened, stored, the calls that create, open and drop objects,
  namespace, Commit, Rollback) and the handles they hold: the record \<open>txn\<close>, with the handles apart, as a caller may hold
  one to an object dropped since; its invariant, and the namespace it commits.
\<close>

section \<open>Handles\<close>

text \<open>
  An object open in a transaction: a table, a key-value map or a document collection, with the writes not yet flushed; and
  whether it was dropped. The environment of a transaction is the storage core's maps and namespaces and the texts of errors.
\<close>

datatype ('m, 'e) opened_object =
    TableObj "'m table" "'m editor option"
  | KVObj 'm "'e option"
  | CollectionObj 'm "'e option"

record ('m, 'e) handle =
  h_object :: "('m, 'e) opened_object"
  h_gone :: bool

record ('m, 'e, 'n, 'ne, 'h) txn_env =
  te_texts :: "esentinel \<Rightarrow> string"
  te_wire :: wire
  te_tables :: "('m, 'e) table_port"
  te_kvs :: "('m, 'e, model_root) map_port"
  te_documents :: "('m, 'e, model_root) map_port"
  te_objects :: "('n, 'ne, model_root, 'h) object_port"
  te_valid_path :: "string \<Rightarrow> go_error option"

definition ref_of :: "('m, 'e, 'n, 'ne, 'h) txn_env \<Rightarrow> ('m, 'e) opened_object \<Rightarrow> model_root object_ref" where
  "ref_of E ob = (case ob of
     TableObj t _ \<Rightarrow> \<lparr>ref_model = Tables, ref_root = tb_root t\<rparr>
   | KVObj m _ \<Rightarrow> \<lparr>ref_model = KVs, ref_root = mp_root (te_kvs E) m\<rparr>
   | CollectionObj m _ \<Rightarrow> \<lparr>ref_model = Documents, ref_root = mp_root (te_documents E) m\<rparr>)"

text \<open>
  \<open>flush\<close> of each kind. The table's returns the table model's error as it is; the other two say which engine error theirs is.
\<close>

definition flush_table :: "('m, 'e, 'n, 'ne, 'h) txn_env \<Rightarrow> 'm table \<Rightarrow> 'm editor option \<Rightarrow> go_error + 'm table" where
  "flush_table E t ed = (case ed of None \<Rightarrow> Inr t
     | Some ed \<Rightarrow> (case of_model Tables (table_Flush (te_wire E) (te_tables E) ed) of Inl e \<Rightarrow> Inl e | Inr (t, _) \<Rightarrow> Inr t))"

definition flush_kv :: "('m, 'e, 'n, 'ne, 'h) txn_env \<Rightarrow> 'm \<Rightarrow> 'e option \<Rightarrow> go_error + 'm" where
  "flush_kv E m ed = (case ed of None \<Rightarrow> Inr m
     | Some ed \<Rightarrow> map_sum (kvErr (te_texts E)) (\<lambda>m. m) (of_model KVs (kv_Flush (te_kvs E) ed)))"

definition flush_collection :: "('m, 'e, 'n, 'ne, 'h) txn_env \<Rightarrow> 'm \<Rightarrow> 'e option \<Rightarrow> go_error + 'm" where
  "flush_collection E m ed = (case ed of None \<Rightarrow> Inr m
     | Some ed \<Rightarrow> map_sum (docErr (te_texts E)) (\<lambda>m. m) (of_model Documents (doc_Flush (te_documents E) ed)))"

definition flush_object :: "('m, 'e, 'n, 'ne, 'h) txn_env \<Rightarrow> ('m, 'e) opened_object \<Rightarrow> go_error + ('m, 'e) opened_object" where
  "flush_object E ob = (case ob of
     TableObj t ed \<Rightarrow> map_sum (\<lambda>e. e) (\<lambda>t. TableObj t None) (flush_table E t ed)
   | KVObj m ed \<Rightarrow> map_sum (\<lambda>e. e) (\<lambda>m. KVObj m None) (flush_kv E m ed)
   | CollectionObj m ed \<Rightarrow> map_sum (\<lambda>e. e) (\<lambda>m. CollectionObj m None) (flush_collection E m ed))"

section \<open>Transactions\<close>

text \<open>
  The objects a transaction touched, by name, in the order a Go map gives: the number of the handle it holds, none when
  dropped. The handles live apart, as a caller may hold one to an object dropped since.
\<close>

record ('m, 'e, 'n) txn =
  tx_base :: 'n
  tx_objs :: "(string \<times> nat option) list"
  tx_handles :: "('m, 'e) handle list"
  tx_closed :: bool

definition begin_txn :: "'n \<Rightarrow> ('m, 'e, 'n) txn" where
  "begin_txn base = \<lparr>tx_base = base, tx_objs = [], tx_handles = [], tx_closed = False\<rparr>"

text \<open>\<open>begin\<close>: \<open>read\<close> is the working set of the session's branch, \<open>ns\<close> the repository's reading of a namespace.\<close>

definition txn_begin :: "(esentinel \<Rightarrow> string) \<Rightarrow> bool \<Rightarrow> go_error + 'h working_set \<Rightarrow> ('h \<Rightarrow> go_error + 'n) \<Rightarrow> go_error + ('m, 'e, 'n) txn" where
  "txn_begin T dbc read ns =
     (if dbc then Inl (Sentinel ErrClosed)
      else case read of Inl e \<Rightarrow> Inl (translate T e)
      | Inr ws \<Rightarrow>
         if ws_merge ws \<noteq> None then Inl (Sentinel ErrMergeInProgress)
         else (case ns (ws_working ws) of Inl e \<Rightarrow> Inl (translate T e) | Inr base \<Rightarrow> Inr (begin_txn base)))"

definition txn_check :: "bool \<Rightarrow> ('m, 'e, 'n) txn \<Rightarrow> go_error option" where
  "txn_check db_closed t = (if tx_closed t \<or> db_closed then Some (Sentinel ErrClosed) else None)"

definition txn_lookup :: "('m, 'e, 'n, 'ne, 'h) txn_env \<Rightarrow> ('m, 'e, 'n) txn \<Rightarrow> string \<Rightarrow> go_error + model_root object_ref option" where
  "txn_lookup E t name =
     (case map_of (tx_objs t) name of
        Some None \<Rightarrow> Inr None
      | Some (Some h) \<Rightarrow> Inr (Some (ref_of E (h_object (tx_handles t ! h))))
      | None \<Rightarrow> map_sum (translate (te_texts E)) (\<lambda>r. r) (ob_get (te_objects E) (tx_base t) name))"

definition creatable :: "('m, 'e, 'n, 'ne, 'h) txn_env \<Rightarrow> bool \<Rightarrow> ('m, 'e, 'n) txn \<Rightarrow> string \<Rightarrow> go_error option" where
  "creatable E dbc t name =
     (case txn_check dbc t of Some e \<Rightarrow> Some e
      | None \<Rightarrow> (case te_valid_path E name of Some e \<Rightarrow> Some (wrap (te_texts E) ErrInvalid e)
      | None \<Rightarrow> (case txn_lookup E t name of Inl e \<Rightarrow> Some e
      | Inr (Some _) \<Rightarrow> Some (Sentinel ErrExists) | Inr None \<Rightarrow> None)))"

text \<open>A new handle, held under its name.\<close>

definition hold :: "('m, 'e, 'n) txn \<Rightarrow> string \<Rightarrow> ('m, 'e) opened_object \<Rightarrow> nat \<times> ('m, 'e, 'n) txn" where
  "hold t name ob = (length (tx_handles t),
     t\<lparr>tx_objs := AList.update name (Some (length (tx_handles t))) (tx_objs t), tx_handles := tx_handles t @ [\<lparr>h_object = ob, h_gone = False\<rparr>]\<rparr>)"

definition create_object :: "('m, 'e, 'n, 'ne, 'h) txn_env \<Rightarrow> bool \<Rightarrow> ('m, 'e, 'n) txn \<Rightarrow> string \<Rightarrow> go_error + ('m, 'e) opened_object \<Rightarrow>
    go_error + nat \<times> ('m, 'e, 'n) txn" where
  "create_object E dbc t name made =
     (case creatable E dbc t name of Some e \<Rightarrow> Inl e
      | None \<Rightarrow> (case made of Inl e \<Rightarrow> Inl e | Inr ob \<Rightarrow> Inr (hold t name ob)))"

definition CreateTable :: "('m, 'e, 'n, 'ne, 'h) txn_env \<Rightarrow> bool \<Rightarrow> ('m, 'e, 'n) txn \<Rightarrow> string \<Rightarrow> schema \<Rightarrow> go_error + nat \<times> ('m, 'e, 'n) txn" where
  "CreateTable E dbc t name s = create_object E dbc t name
     (map_sum (tableErr (te_texts E)) (\<lambda>tb. TableObj tb None) (of_model Tables (Create (te_wire E) (te_tables E) s)))"

definition CreateKV :: "('m, 'e, 'n, 'ne, 'h) txn_env \<Rightarrow> bool \<Rightarrow> ('m, 'e, 'n) txn \<Rightarrow> string \<Rightarrow> go_error + nat \<times> ('m, 'e, 'n) txn" where
  "CreateKV E dbc t name = create_object E dbc t name
     (map_sum (translate (te_texts E)) (\<lambda>m. KVObj m None) (of_model KVs (mp_empty (te_kvs E))))"

definition CreateCollection :: "('m, 'e, 'n, 'ne, 'h) txn_env \<Rightarrow> bool \<Rightarrow> ('m, 'e, 'n) txn \<Rightarrow> string \<Rightarrow> go_error + nat \<times> ('m, 'e, 'n) txn" where
  "CreateCollection E dbc t name = create_object E dbc t name
     (map_sum (translate (te_texts E)) (\<lambda>m. CollectionObj m None) (of_model Documents (mp_empty (te_documents E))))"

definition txn_opened :: "('m, 'e, 'n) txn \<Rightarrow> string \<Rightarrow> go_error + nat option" where
  "txn_opened t name = (case map_of (tx_objs t) name of None \<Rightarrow> Inr None
     | Some None \<Rightarrow> Inl (Sentinel ErrNotFound) | Some (Some h) \<Rightarrow> Inr (Some h))"

definition stored :: "('m, 'e, 'n, 'ne, 'h) txn_env \<Rightarrow> ('m, 'e, 'n) txn \<Rightarrow> string \<Rightarrow> model_id \<Rightarrow> go_error + model_root object_ref" where
  "stored E t name i =
     (case txn_lookup E t name of Inl e \<Rightarrow> Inl e
      | Inr None \<Rightarrow> Inl (Sentinel ErrNotFound)
      | Inr (Some r) \<Rightarrow> if ref_model r \<noteq> i then Inl (Sentinel ErrWrongKind) else Inr r)"

text \<open>\<open>Table\<close>, \<open>KV\<close> and \<open>Collection\<close>; \<open>mayRead\<close> is the answer of the session's authorizer.\<close>

definition open_object :: "('m, 'e, 'n, 'ne, 'h) txn_env \<Rightarrow> bool \<Rightarrow> go_error option \<Rightarrow> ('m, 'e, 'n) txn \<Rightarrow> string \<Rightarrow> model_id \<Rightarrow>
    (model_root \<Rightarrow> go_error + ('m, 'e) opened_object) \<Rightarrow> go_error + nat \<times> ('m, 'e, 'n) txn" where
  "open_object E dbc mayRead t name i opens =
     (case txn_check dbc t of Some e \<Rightarrow> Inl e
      | None \<Rightarrow> (case mayRead of Some e \<Rightarrow> Inl e
      | None \<Rightarrow> (case txn_opened t name of Inl e \<Rightarrow> Inl e
      | Inr (Some h) \<Rightarrow> if ref_model (ref_of E (h_object (tx_handles t ! h))) = i then Inr (h, t) else Inl (Sentinel ErrWrongKind)
      | Inr None \<Rightarrow> (case stored E t name i of Inl e \<Rightarrow> Inl e
      | Inr r \<Rightarrow> (case opens (ref_root r) of Inl e \<Rightarrow> Inl e | Inr ob \<Rightarrow> Inr (hold t name ob))))))"

definition OpenTable :: "('m, 'e, 'n, 'ne, 'h) txn_env \<Rightarrow> bool \<Rightarrow> go_error option \<Rightarrow> ('m, 'e, 'n) txn \<Rightarrow> string \<Rightarrow> go_error + nat \<times> ('m, 'e, 'n) txn" where
  "OpenTable E dbc mayRead t name = open_object E dbc mayRead t name Tables
     (\<lambda>rt. map_sum (translate (te_texts E)) (\<lambda>tb. TableObj tb None) (of_model Tables (table_Open (te_wire E) (te_tables E) rt)))"

definition OpenKV :: "('m, 'e, 'n, 'ne, 'h) txn_env \<Rightarrow> bool \<Rightarrow> go_error option \<Rightarrow> ('m, 'e, 'n) txn \<Rightarrow> string \<Rightarrow> go_error + nat \<times> ('m, 'e, 'n) txn" where
  "OpenKV E dbc mayRead t name = open_object E dbc mayRead t name KVs
     (\<lambda>rt. map_sum (kvErr (te_texts E)) (\<lambda>m. KVObj m None) (of_model KVs (mp_open (te_kvs E) rt)))"

definition OpenCollection :: "('m, 'e, 'n, 'ne, 'h) txn_env \<Rightarrow> bool \<Rightarrow> go_error option \<Rightarrow> ('m, 'e, 'n) txn \<Rightarrow> string \<Rightarrow> go_error + nat \<times> ('m, 'e, 'n) txn" where
  "OpenCollection E dbc mayRead t name = open_object E dbc mayRead t name Documents
     (\<lambda>rt. map_sum (docErr (te_texts E)) (\<lambda>m. CollectionObj m None) (of_model Documents (mp_open (te_documents E) rt)))"

definition Drop :: "('m, 'e, 'n, 'ne, 'h) txn_env \<Rightarrow> bool \<Rightarrow> ('m, 'e, 'n) txn \<Rightarrow> string \<Rightarrow> go_error + ('m, 'e, 'n) txn" where
  "Drop E dbc t name =
     (case txn_check dbc t of Some e \<Rightarrow> Inl e
      | None \<Rightarrow> (case txn_lookup E t name of Inl e \<Rightarrow> Inl e
      | Inr None \<Rightarrow> Inl (Sentinel ErrNotFound)
      | Inr (Some _) \<Rightarrow>
         Inr (t\<lparr>tx_objs := AList.update name None (tx_objs t),
           tx_handles := (case map_of (tx_objs t) name of
              Some (Some h) \<Rightarrow> (tx_handles t)[h := (tx_handles t ! h)\<lparr>h_gone := True\<rparr>] | _ \<Rightarrow> tx_handles t)\<rparr>)))"

text \<open>\<open>namespace\<close>: the loop over the objects touched flushes each handle on its way; a failed flush leaves the handle as it was.\<close>

fun namespace_loop :: "('m, 'e, 'n, 'ne, 'h) txn_env \<Rightarrow> 'n \<Rightarrow> (string \<times> nat option) list \<Rightarrow> ('m, 'e) handle list \<Rightarrow> 'ne \<Rightarrow>
    (go_error + 'ne) \<times> ('m, 'e) handle list" where
  "namespace_loop E base [] hs ed = (Inr ed, hs)"
| "namespace_loop E base ((name, None) # objs) hs ed =
     (case ob_get (te_objects E) base name of Inl e \<Rightarrow> (Inl (translate (te_texts E) e), hs)
      | Inr None \<Rightarrow> namespace_loop E base objs hs ed
      | Inr (Some _) \<Rightarrow> (case ob_delete (te_objects E) ed name of Inl e \<Rightarrow> (Inl e, hs)
         | Inr ed \<Rightarrow> namespace_loop E base objs hs ed))"
| "namespace_loop E base ((name, Some h) # objs) hs ed =
     (case flush_object E (h_object (hs ! h)) of Inl e \<Rightarrow> (Inl e, hs)
      | Inr ob \<Rightarrow>
         (let hs = hs[h := (hs ! h)\<lparr>h_object := ob\<rparr>] in
          case ob_put (te_objects E) ed name (ref_of E ob) of Inl e \<Rightarrow> (Inl e, hs)
          | Inr ed \<Rightarrow> namespace_loop E base objs hs ed))"

definition txn_namespace :: "('m, 'e, 'n, 'ne, 'h) txn_env \<Rightarrow> ('m, 'e, 'n) txn \<Rightarrow> (go_error + 'n) \<times> ('m, 'e, 'n) txn" where
  "txn_namespace E t =
     (case namespace_loop E (tx_base t) (tx_objs t) (tx_handles t) (ob_editor (te_objects E) (tx_base t)) of
        (Inl e, hs) \<Rightarrow> (Inl e, t\<lparr>tx_handles := hs\<rparr>)
      | (Inr ed, hs) \<Rightarrow> (ob_flush (te_objects E) ed, t\<lparr>tx_handles := hs\<rparr>))"

text \<open>\<open>Commit\<close>: the outcome when there is nothing to publish, else the namespace to enqueue; the transaction is finished.\<close>

datatype 'n commit_step = Answered outcome | Enqueue 'n

definition txn_Commit :: "('m, 'e, 'n, 'ne, 'h) txn_env \<Rightarrow> bool \<Rightarrow> ('m, 'e, 'n) txn \<Rightarrow> 'n commit_step \<times> ('m, 'e, 'n) txn" where
  "txn_Commit E dbc t =
     (case txn_check dbc t of Some e \<Rightarrow> (Answered (Some e), t)
      | None \<Rightarrow>
         (case txn_namespace E (t\<lparr>tx_closed := True\<rparr>) of
            (Inl e, t) \<Rightarrow> (Answered (Some e), t)
          | (Inr ours, t) \<Rightarrow>
             if ob_root (te_objects E) ours = ob_root (te_objects E) (tx_base t) then (Answered None, t) else (Enqueue ours, t)))"

definition txn_Rollback :: "bool \<Rightarrow> ('m, 'e, 'n) txn \<Rightarrow> outcome \<times> ('m, 'e, 'n) txn" where
  "txn_Rollback dbc t = (case txn_check dbc t of Some e \<Rightarrow> (Some e, t) | None \<Rightarrow> (None, t\<lparr>tx_closed := True\<rparr>))"

text \<open>The member of a batch a transaction's commit is.\<close>

definition commit_member :: "('m, 'e, 'n, 'ne, 'h) txn_env \<Rightarrow> principal_id \<Rightarrow> 'n \<Rightarrow> 'n \<Rightarrow> 'n member_call" where
  "commit_member E p base ours = \<lparr>mc_principal = p, mc_onto = onto (te_texts E) (te_objects E)
     (engine_models (te_wire E) (te_tables E) (te_kvs E) (te_documents E)) base ours\<rparr>"

section \<open>The objects of a transaction\<close>

text \<open>
  The invariant: one entry a name, each entry's handle its own, and a handle is gone exactly when no name holds it.
\<close>

definition held_handles :: "(string \<times> nat option) list \<Rightarrow> nat set" where
  "held_handles objs = {h. Some h \<in> snd ` set objs}"

definition txn_inv :: "('m, 'e, 'n) txn \<Rightarrow> bool" where
  "txn_inv t \<longleftrightarrow> distinct (map fst (tx_objs t)) \<and>
     (\<forall>p q h. (p, Some h) \<in> set (tx_objs t) \<longrightarrow> (q, Some h) \<in> set (tx_objs t) \<longrightarrow> p = q) \<and>
     (\<forall>h < length (tx_handles t). h_gone (tx_handles t ! h) \<longleftrightarrow> h \<notin> held_handles (tx_objs t)) \<and>
     held_handles (tx_objs t) \<subseteq> {..<length (tx_handles t)}"

lemma in_update:
  assumes "distinct (map fst objs)"
  shows "(p, v) \<in> set (AList.update name w objs) \<longleftrightarrow> (if p = name then v = w else (p, v) \<in> set objs)"
proof -
  have d: "distinct (map fst (AList.update name w objs))" using assms by (rule distinct_update)
  have "(p, v) \<in> set (AList.update name w objs) \<longleftrightarrow> map_of (AList.update name w objs) p = Some v"
    using d by (simp add: map_of_eq_Some_iff)
  also have "\<dots> \<longleftrightarrow> (if p = name then v = w else map_of objs p = Some v)" by (auto simp: update_conv')
  finally show ?thesis using assms by (simp add: map_of_eq_Some_iff split: if_splits)
qed

lemma held_update:
  assumes "distinct (map fst objs)" "\<And>p q h. (p, Some h) \<in> set objs \<Longrightarrow> (q, Some h) \<in> set objs \<Longrightarrow> p = q"
  shows "held_handles (AList.update name w objs) =
    (held_handles objs - (case map_of objs name of Some (Some h) \<Rightarrow> {h} | _ \<Rightarrow> {})) \<union> (case w of None \<Rightarrow> {} | Some h \<Rightarrow> {h})"
proof -
  have held: "h \<in> held_handles objs' \<longleftrightarrow> (\<exists>p. (p, Some h) \<in> set objs')" for h objs' by (force simp: held_handles_def)
  have old: "map_of objs name = Some (Some h) \<longleftrightarrow> (name, Some h) \<in> set objs" for h using assms(1) by (simp add: map_of_eq_Some_iff)
  show ?thesis
  proof (rule set_eqI)
    fix h
    have new: "h \<in> held_handles (AList.update name w objs) \<longleftrightarrow> w = Some h \<or> (\<exists>p. p \<noteq> name \<and> (p, Some h) \<in> set objs)"
      unfolding held in_update [OF assms(1)] by auto
    have "(\<exists>p. p \<noteq> name \<and> (p, Some h) \<in> set objs) \<longleftrightarrow> h \<in> held_handles objs \<and> map_of objs name \<noteq> Some (Some h)"
      unfolding held old using assms(2) [of name] by metis
    moreover have "h \<in> (case w of None \<Rightarrow> {} | Some h \<Rightarrow> {h}) \<longleftrightarrow> w = Some h" by (cases w) auto
    moreover have "h \<in> (case map_of objs name of Some (Some h) \<Rightarrow> {h} | _ \<Rightarrow> {}) \<longleftrightarrow> map_of objs name = Some (Some h)"
      by (cases "map_of objs name") (auto split: option.splits)
    ultimately show "h \<in> held_handles (AList.update name w objs) \<longleftrightarrow>
      h \<in> (held_handles objs - (case map_of objs name of Some (Some h) \<Rightarrow> {h} | _ \<Rightarrow> {})) \<union> (case w of None \<Rightarrow> {} | Some h \<Rightarrow> {h})"
      unfolding new Un_iff Diff_iff by blast
  qed
qed

lemma hold_inv:
  assumes "txn_inv t" "\<nexists>h. map_of (tx_objs t) name = Some (Some h)"
  shows "txn_inv (snd (hold t name ob))"
proof -
  let ?n = "length (tx_handles t)"
  have d: "distinct (map fst (tx_objs t))" and one: "\<And>p q h. (p, Some h) \<in> set (tx_objs t) \<Longrightarrow> (q, Some h) \<in> set (tx_objs t) \<Longrightarrow> p = q"
    and gone: "\<And>h. h < ?n \<Longrightarrow> h_gone (tx_handles t ! h) \<longleftrightarrow> h \<notin> held_handles (tx_objs t)"
    and less: "held_handles (tx_objs t) \<subseteq> {..<?n}" using assms(1) unfolding txn_inv_def by blast+
  have held: "held_handles (AList.update name (Some ?n) (tx_objs t)) = insert ?n (held_handles (tx_objs t))"
    using held_update [OF d one, where name = name and w = "Some ?n"] assms(2) by (auto split: option.splits)
  have new: "(p, Some ?n) \<notin> set (tx_objs t)" for p using less by (force simp: held_handles_def)
  show ?thesis unfolding txn_inv_def hold_def
    using d one gone less new by (auto simp: held distinct_update in_update [OF d] nth_append less_Suc_eq split: if_splits)
qed

lemma create_inv:
  assumes "txn_inv t" "create_object E dbc t name made = Inr (h, t')"
  shows "txn_inv t' \<and> tx_closed t' = tx_closed t \<and> tx_base t' = tx_base t"
proof -
  from assms(2) obtain ob where o: "hold t name ob = (h, t')" "creatable E dbc t name = None"
    by (auto simp: create_object_def split: option.splits sum.splits)
  have "\<nexists>h. map_of (tx_objs t) name = Some (Some h)"
    using o(2) by (auto simp: creatable_def txn_lookup_def split: option.splits sum.splits)
  from hold_inv [OF assms(1) this, of ob] o(1) show ?thesis by (auto simp: hold_def)
qed

lemma open_inv:
  assumes "txn_inv t" "open_object E dbc mayRead t name i opens = Inr (h, t')"
  shows "txn_inv t' \<and> tx_closed t' = tx_closed t \<and> tx_base t' = tx_base t"
proof -
  from assms(2) consider "t' = t" | ob where "hold t name ob = (h, t')" "txn_opened t name = Inr None"
    by (auto simp: open_object_def split: option.splits sum.splits if_splits)
  then show ?thesis
  proof cases
    case 2
    then have "\<nexists>h. map_of (tx_objs t) name = Some (Some h)" by (auto simp: txn_opened_def split: option.splits)
    from hold_inv [OF assms(1) this, of ob] 2(1) show ?thesis by (auto simp: hold_def)
  qed (use assms(1) in simp)
qed

lemma nth_updated: "j < length xs \<Longrightarrow> xs[i := x] ! j = (if i = j then x else xs ! j)"
  by (cases "i = j") auto

lemma drop_inv:
  assumes "txn_inv t" "Drop E dbc t name = Inr t'"
  shows "txn_inv t' \<and> map_of (tx_objs t') name = Some None"
proof -
  let ?hs = "case map_of (tx_objs t) name of Some (Some h) \<Rightarrow> (tx_handles t)[h := (tx_handles t ! h)\<lparr>h_gone := True\<rparr>] | _ \<Rightarrow> tx_handles t"
  have t': "t' = t\<lparr>tx_objs := AList.update name None (tx_objs t), tx_handles := ?hs\<rparr>"
    using assms(2) by (auto simp: Drop_def split: option.splits sum.splits)
  have d: "distinct (map fst (tx_objs t))" and one: "\<And>p q h. (p, Some h) \<in> set (tx_objs t) \<Longrightarrow> (q, Some h) \<in> set (tx_objs t) \<Longrightarrow> p = q"
    and gone: "\<And>h. h < length (tx_handles t) \<Longrightarrow> h_gone (tx_handles t ! h) \<longleftrightarrow> h \<notin> held_handles (tx_objs t)"
    and less: "held_handles (tx_objs t) \<subseteq> {..<length (tx_handles t)}" using assms(1) unfolding txn_inv_def by blast+
  have held: "held_handles (AList.update name None (tx_objs t)) =
      held_handles (tx_objs t) - (case map_of (tx_objs t) name of Some (Some h) \<Rightarrow> {h} | _ \<Rightarrow> {})"
    using held_update [OF d one, where name = name and w = None] by simp
  have key: "(name, Some h) \<in> set (tx_objs t) \<Longrightarrow> map_of (tx_objs t) name = Some (Some h)" for h using d by simp
  have len: "length ?hs = length (tx_handles t)" by (simp split: option.splits)
  have g: "h_gone (?hs ! h) \<longleftrightarrow> h_gone (tx_handles t ! h) \<or> map_of (tx_objs t) name = Some (Some h)" if "h < length (tx_handles t)" for h
    using that by (auto simp: nth_updated split: option.splits)
  have "txn_inv t'" unfolding txn_inv_def t'
    using d one less
    by (auto simp: held len g gone distinct_update in_update [OF d] split: option.splits if_splits dest: key)
  then show ?thesis by (simp add: t' update_conv')
qed

section \<open>What a transaction commits\<close>

text \<open>What a name holds in the transaction's namespace.\<close>

definition committed :: "('m, 'e, 'n, 'ne, 'h) txn_env \<Rightarrow> ('m, 'e) handle list \<Rightarrow> nat option \<Rightarrow> model_root object_ref option \<Rightarrow> bool" where
  "committed E hs o' r \<longleftrightarrow> (case o' of None \<Rightarrow> r = None
     | Some h \<Rightarrow> (\<exists>ob. flush_object E (h_object (hs ! h)) = Inr ob \<and> r = Some (ref_of E ob)))"

lemma namespace_loop_content:
  assumes "object_laws (te_objects E) content pending" "namespace_loop E base objs hs ed = (Inr ed', hs')"
    "distinct (map fst objs)" "\<forall>p q h. (p, Some h) \<in> set objs \<longrightarrow> (q, Some h) \<in> set objs \<longrightarrow> p = q"
    "\<forall>q \<in> fst ` set objs. pending ed q = content base q"
  shows "case map_of objs q of None \<Rightarrow> pending ed' q = pending ed q | Some o' \<Rightarrow> committed E hs o' (pending ed' q)"
  using assms(2-5)
proof (induction objs arbitrary: hs ed)
  case Nil
  then show ?case by simp
next
  case (Cons x objs)
  obtain name o' where x: "x = (name, o')" by fastforce
  have d: "distinct (map fst objs)" "name \<notin> fst ` set objs" using Cons.prems(2) x by auto
  have nm: "map_of objs name = None" using d(2) by (simp add: map_of_eq_None_iff)
  have one: "\<forall>p q h. (p, Some h) \<in> set objs \<longrightarrow> (q, Some h) \<in> set objs \<longrightarrow> p = q" using Cons.prems(3) by (metis list.set_intros(2))
  show ?case
  proof (cases o')
    case None
    have "\<exists>ed1. namespace_loop E base objs hs ed1 = (Inr ed', hs') \<and> pending ed1 = (pending ed)(name := None)"
    proof (cases "ob_get (te_objects E) base name")
      case (Inr held)
      show ?thesis
      proof (cases held)
        case n: None
        have "pending ed name = None" using Cons.prems(4) object_laws.get [OF assms(1) Inr] x n by simp
        then show ?thesis using Cons.prems(1) x None Inr n by (intro exI [of _ ed]) (auto simp: fun_upd_idem)
      next
        case s: (Some r)
        with Cons.prems(1) x None Inr obtain ed1 where "ob_delete (te_objects E) ed name = Inr ed1" "namespace_loop E base objs hs ed1 = (Inr ed', hs')"
          by (auto split: sum.splits)
        then show ?thesis using object_laws.delete [OF assms(1)] by blast
      qed
    qed (use Cons.prems(1) x None in simp)
    then obtain ed1 where g: "namespace_loop E base objs hs ed1 = (Inr ed', hs')" "pending ed1 = (pending ed)(name := None)" by blast
    have "\<forall>q \<in> fst ` set objs. pending ed1 q = content base q" using Cons.prems(4) g(2) x d(2) by auto
    from Cons.IH [OF g(1) d(1) one this] show ?thesis using x None g(2) nm
      by (cases "q = name") (auto simp: committed_def split: option.splits)
  next
    case (Some h)
    then obtain ob ed1 where f: "flush_object E (h_object (hs ! h)) = Inr ob" "ob_put (te_objects E) ed name (ref_of E ob) = Inr ed1"
        "namespace_loop E base objs (hs[h := (hs ! h)\<lparr>h_object := ob\<rparr>]) ed1 = (Inr ed', hs')"
      using Cons.prems(1) x by (auto simp: Let_def split: sum.splits)
    note p = object_laws.put [OF assms(1) f(2)]
    have "\<forall>q \<in> fst ` set objs. pending ed1 q = content base q" using Cons.prems(4) p x d(2) by auto
    note IH = Cons.IH [OF f(3) d(1) one this]
    have other: "(hs[h := (hs ! h)\<lparr>h_object := ob\<rparr>]) ! k = hs ! k" if "map_of objs q = Some (Some k)" for k
    proof -
      have "(q, Some k) \<in> set objs" using that by (rule map_of_SomeD)
      then have "k \<noteq> h" using Cons.prems(3) x Some d(2) by force
      then show ?thesis by simp
    qed
    show ?thesis using IH x Some f(1) p nm other
      by (cases "q = name") (auto simp: committed_def split: option.splits)
  qed
qed

lemma txn_namespace_content:
  assumes "object_laws (te_objects E) content pending" "txn_inv t" "txn_namespace E t = (Inr n, t')"
  shows "case map_of (tx_objs t) q of None \<Rightarrow> content n q = content (tx_base t) q | Some o' \<Rightarrow> committed E (tx_handles t) o' (content n q)"
proof -
  from assms(3) obtain ed hs where l: "namespace_loop E (tx_base t) (tx_objs t) (tx_handles t) (ob_editor (te_objects E) (tx_base t)) = (Inr ed, hs)"
      "ob_flush (te_objects E) ed = Inr n"
    by (auto simp: txn_namespace_def split: prod.splits sum.splits)
  note e = object_laws.editor [OF assms(1), of "tx_base t"]
  have "distinct (map fst (tx_objs t))" "\<forall>p q h. (p, Some h) \<in> set (tx_objs t) \<longrightarrow> (q, Some h) \<in> set (tx_objs t) \<longrightarrow> p = q"
    using assms(2) unfolding txn_inv_def by blast+
  from namespace_loop_content [OF assms(1) l(1) this] show ?thesis
    unfolding object_laws.flush [OF assms(1) l(2)] e by simp
qed

end
