(* ===== verification/Txn_Calls.thy ===== *)
theory Txn_Calls
  imports Txn_State
begin

text \<open>
  The calls on a transaction's handles (src/engine/txn.go: the methods of Table, KV and Collection), runs of a transaction,
  what it commits, and that it reads its own writes. Finite maps satisfy the laws of namespaces.
\<close>

section \<open>Calls on a handle\<close>

text \<open>
  A call on a handle gives its answer and leaves the transaction with the handle's object as it stands. The Go type of a
  handle says which kind of object it holds; the last case of the three is that a handle never is of another kind.
\<close>

definition handle_check :: "bool \<Rightarrow> ('m, 'e, 'n) txn \<Rightarrow> nat \<Rightarrow> go_error option" where
  "handle_check dbc t h =
     (case txn_check dbc t of Some e \<Rightarrow> Some e
      | None \<Rightarrow> if h_gone (tx_handles t ! h) then Some (Sentinel ErrNotFound) else None)"

definition put_object :: "('m, 'e, 'n) txn \<Rightarrow> nat \<Rightarrow> ('m, 'e) opened_object \<Rightarrow> ('m, 'e, 'n) txn" where
  "put_object t h ob = t\<lparr>tx_handles := (tx_handles t)[h := (tx_handles t ! h)\<lparr>h_object := ob\<rparr>]\<rparr>"

definition on_table :: "bool \<Rightarrow> ('m, 'e, 'n) txn \<Rightarrow> nat \<Rightarrow> ('m table \<Rightarrow> 'm editor option \<Rightarrow> (go_error + 'a) \<times> 'm table \<times> 'm editor option) \<Rightarrow>
    (go_error + 'a) \<times> ('m, 'e, 'n) txn" where
  "on_table dbc t h f =
     (case handle_check dbc t h of Some e \<Rightarrow> (Inl e, t)
      | None \<Rightarrow> (case h_object (tx_handles t ! h) of
           TableObj tb ed \<Rightarrow> (case f tb ed of (r, tb, ed) \<Rightarrow> (r, put_object t h (TableObj tb ed)))
         | _ \<Rightarrow> (Inl (Sentinel ErrWrongKind), t)))"

definition on_kv :: "bool \<Rightarrow> ('m, 'e, 'n) txn \<Rightarrow> nat \<Rightarrow> ('m \<Rightarrow> 'e option \<Rightarrow> (go_error + 'a) \<times> 'm \<times> 'e option) \<Rightarrow> (go_error + 'a) \<times> ('m, 'e, 'n) txn" where
  "on_kv dbc t h f =
     (case handle_check dbc t h of Some e \<Rightarrow> (Inl e, t)
      | None \<Rightarrow> (case h_object (tx_handles t ! h) of
           KVObj m ed \<Rightarrow> (case f m ed of (r, m, ed) \<Rightarrow> (r, put_object t h (KVObj m ed)))
         | _ \<Rightarrow> (Inl (Sentinel ErrWrongKind), t)))"

definition on_collection :: "bool \<Rightarrow> ('m, 'e, 'n) txn \<Rightarrow> nat \<Rightarrow> ('m \<Rightarrow> 'e option \<Rightarrow> (go_error + 'a) \<times> 'm \<times> 'e option) \<Rightarrow> (go_error + 'a) \<times> ('m, 'e, 'n) txn" where
  "on_collection dbc t h f =
     (case handle_check dbc t h of Some e \<Rightarrow> (Inl e, t)
      | None \<Rightarrow> (case h_object (tx_handles t ! h) of
           CollectionObj m ed \<Rightarrow> (case f m ed of (r, m, ed) \<Rightarrow> (r, put_object t h (CollectionObj m ed)))
         | _ \<Rightarrow> (Inl (Sentinel ErrWrongKind), t)))"

text \<open>A read flushes first; a write begins the editor when there is none, and keeps it also when the write is refused.\<close>

definition after_flush :: "('o \<Rightarrow> 'd option \<Rightarrow> go_error + 'o) \<Rightarrow> ('o \<Rightarrow> go_error + 'a) \<Rightarrow> 'o \<Rightarrow> 'd option \<Rightarrow> (go_error + 'a) \<times> 'o \<times> 'd option" where
  "after_flush fl f ob ed = (case fl ob ed of Inl e \<Rightarrow> (Inl e, ob, ed) | Inr ob \<Rightarrow> (f ob, ob, None))"

definition on_editor :: "('o \<Rightarrow> 'd) \<Rightarrow> (go_error \<Rightarrow> go_error) \<Rightarrow> ('d \<Rightarrow> go_error + 'd \<times> 'a) \<Rightarrow> 'o \<Rightarrow> 'd option \<Rightarrow> (go_error + 'a) \<times> 'o \<times> 'd option" where
  "on_editor edit err f ob ed =
     (let ed = (case ed of None \<Rightarrow> edit ob | Some ed \<Rightarrow> ed) in
      case f ed of Inl e \<Rightarrow> (Inl (err e), ob, Some ed) | Inr (ed, r) \<Rightarrow> (Inr r, ob, Some ed))"

definition only_editor :: "go_error + 'd \<Rightarrow> go_error + 'd \<times> unit" where
  "only_editor r = map_sum (\<lambda>e. e) (\<lambda>ed. (ed, ())) r"

text \<open>
  \<open>drain\<close>: the rows handed to the caller's \<open>each\<close>, whose state is threaded through, until it says stop or fails; its own
  error is marked as the caller's.
\<close>

fun drain :: "(go_error \<Rightarrow> go_error) \<Rightarrow> ('s \<Rightarrow> 'a \<Rightarrow> (go_error + bool) \<times> 's) \<Rightarrow> 'a list \<Rightarrow> go_error option \<Rightarrow> 's \<Rightarrow> outcome \<times> 's" where
  "drain err each [] stop s = (map_option err stop, s)"
| "drain err each (x # xs) stop s =
     (case each s x of (Inl e, s) \<Rightarrow> (callersOwn (Some e), s)
      | (Inr go_on, s) \<Rightarrow> if go_on then drain err each xs stop s else (callersOwn None, s))"

definition drained :: "model_id \<Rightarrow> (go_error \<Rightarrow> go_error) \<Rightarrow> ('s \<Rightarrow> 'a \<Rightarrow> (go_error + bool) \<times> 's) \<Rightarrow> 's \<Rightarrow> 'a iter result \<Rightarrow> go_error + outcome \<times> 's" where
  "drained i err each s r = (case of_model i r of Inl e \<Rightarrow> Inl (err e)
     | Inr (xs, stop) \<Rightarrow> Inr (drain err each xs (map_option (model_error i) stop) s))"

subsection \<open>Tables\<close>

definition Table_Get :: "('m, 'e, 'n, 'ne, 'h) txn_env \<Rightarrow> bool \<Rightarrow> ('m, 'e, 'n) txn \<Rightarrow> nat \<Rightarrow> key \<Rightarrow> (go_error + row option) \<times> ('m, 'e, 'n) txn" where
  "Table_Get E dbc t h k = on_table dbc t h (after_flush (flush_table E)
     (\<lambda>tb. map_sum (tableErr (te_texts E)) (\<lambda>r. r) (of_model Tables (table_Get (te_tables E) tb k))))"

definition Table_Scan :: "('m, 'e, 'n, 'ne, 'h) txn_env \<Rightarrow> bool \<Rightarrow> ('m, 'e, 'n) txn \<Rightarrow> nat \<Rightarrow> ('s \<Rightarrow> key \<times> row \<Rightarrow> (go_error + bool) \<times> 's) \<Rightarrow> 's \<Rightarrow>
    (go_error + outcome \<times> 's) \<times> ('m, 'e, 'n) txn" where
  "Table_Scan E dbc t h each s = on_table dbc t h (after_flush (flush_table E)
     (\<lambda>tb. drained Tables (tableErr (te_texts E)) each s (table_Scan (te_tables E) tb)))"

definition Table_Lookup :: "('m, 'e, 'n, 'ne, 'h) txn_env \<Rightarrow> bool \<Rightarrow> ('m, 'e, 'n) txn \<Rightarrow> nat \<Rightarrow> tag \<Rightarrow> cell list \<Rightarrow>
    ('s \<Rightarrow> key \<times> row \<Rightarrow> (go_error + bool) \<times> 's) \<Rightarrow> 's \<Rightarrow> (go_error + outcome \<times> 's) \<times> ('m, 'e, 'n) txn" where
  "Table_Lookup E dbc t h ix vs each s = on_table dbc t h (after_flush (flush_table E)
     (\<lambda>tb. drained Tables (tableErr (te_texts E)) each s (IndexLookup (te_tables E) tb ix vs)))"

definition Table_Insert :: "('m, 'e, 'n, 'ne, 'h) txn_env \<Rightarrow> bool \<Rightarrow> bytes result \<Rightarrow> ('m, 'e, 'n) txn \<Rightarrow> nat \<Rightarrow> row \<Rightarrow> (go_error + key) \<times> ('m, 'e, 'n) txn" where
  "Table_Insert E dbc rand t h r = on_table dbc t h (on_editor Edit (tableErr (te_texts E)) (\<lambda>ed. of_model Tables (Insert (te_tables E) rand ed r)))"

definition Table_Update :: "('m, 'e, 'n, 'ne, 'h) txn_env \<Rightarrow> bool \<Rightarrow> ('m, 'e, 'n) txn \<Rightarrow> nat \<Rightarrow> key \<Rightarrow> row \<Rightarrow> (go_error + unit) \<times> ('m, 'e, 'n) txn" where
  "Table_Update E dbc t h k r = on_table dbc t h (on_editor Edit (tableErr (te_texts E)) (\<lambda>ed. only_editor (of_model Tables (Update (te_tables E) ed k r))))"

definition Table_Delete :: "('m, 'e, 'n, 'ne, 'h) txn_env \<Rightarrow> bool \<Rightarrow> ('m, 'e, 'n) txn \<Rightarrow> nat \<Rightarrow> key \<Rightarrow> (go_error + unit) \<times> ('m, 'e, 'n) txn" where
  "Table_Delete E dbc t h k = on_table dbc t h (on_editor Edit (tableErr (te_texts E)) (\<lambda>ed. only_editor (of_model Tables (Delete (te_tables E) ed k))))"

definition Table_Alter :: "('m, 'e, 'n, 'ne, 'h) txn_env \<Rightarrow> bool \<Rightarrow> ('m, 'e, 'n) txn \<Rightarrow> nat \<Rightarrow> schema \<Rightarrow> (go_error + unit) \<times> ('m, 'e, 'n) txn" where
  "Table_Alter E dbc t h next = on_table dbc t h (\<lambda>tb ed.
     case flush_table E tb ed of Inl e \<Rightarrow> (Inl e, tb, ed)
     | Inr tb \<Rightarrow> (case of_model Tables (WithSchema (te_wire E) (te_tables E) tb next) of
          Inl e \<Rightarrow> (Inl (tableErr (te_texts E) e), tb, None) | Inr tb' \<Rightarrow> (Inr (), tb', None)))"

subsection \<open>Key-value maps\<close>

definition KV_Get :: "('m, 'e, 'n, 'ne, 'h) txn_env \<Rightarrow> bool \<Rightarrow> ('m, 'e, 'n) txn \<Rightarrow> nat \<Rightarrow> bytes \<Rightarrow> (go_error + kv_value option) \<times> ('m, 'e, 'n) txn" where
  "KV_Get E dbc t h k = on_kv dbc t h (after_flush (flush_kv E)
     (\<lambda>m. map_sum (kvErr (te_texts E)) (\<lambda>r. r) (of_model KVs (kv_Get (te_wire E) (te_kvs E) m k))))"

definition KV_Set :: "('m, 'e, 'n, 'ne, 'h) txn_env \<Rightarrow> bool \<Rightarrow> ('m, 'e, 'n) txn \<Rightarrow> nat \<Rightarrow> bytes \<Rightarrow> kv_value \<Rightarrow> (go_error + unit) \<times> ('m, 'e, 'n) txn" where
  "KV_Set E dbc t h k v = on_kv dbc t h (on_editor (mp_editor (te_kvs E)) (kvErr (te_texts E))
     (\<lambda>ed. only_editor (of_model KVs (kv_Set (te_wire E) (te_kvs E) ed k v))))"

definition KV_Delete :: "('m, 'e, 'n, 'ne, 'h) txn_env \<Rightarrow> bool \<Rightarrow> ('m, 'e, 'n) txn \<Rightarrow> nat \<Rightarrow> bytes \<Rightarrow> (go_error + unit) \<times> ('m, 'e, 'n) txn" where
  "KV_Delete E dbc t h k = on_kv dbc t h (on_editor (mp_editor (te_kvs E)) (kvErr (te_texts E))
     (\<lambda>ed. only_editor (of_model KVs (kv_Delete (te_kvs E) ed k))))"

definition KV_Scan :: "('m, 'e, 'n, 'ne, 'h) txn_env \<Rightarrow> bool \<Rightarrow> ('m, 'e, 'n) txn \<Rightarrow> nat \<Rightarrow> bytes option \<Rightarrow>
    ('s \<Rightarrow> bytes \<times> kv_value \<Rightarrow> (go_error + bool) \<times> 's) \<Rightarrow> 's \<Rightarrow> (go_error + outcome \<times> 's) \<times> ('m, 'e, 'n) txn" where
  "KV_Scan E dbc t h start each s = on_kv dbc t h (after_flush (flush_kv E)
     (\<lambda>m. drained KVs (kvErr (te_texts E)) each s (kv_Scan (te_wire E) (te_kvs E) m start)))"

subsection \<open>Collections\<close>

definition Collection_Get :: "('m, 'e, 'n, 'ne, 'h) txn_env \<Rightarrow> bool \<Rightarrow> ('m, 'e, 'n) txn \<Rightarrow> nat \<Rightarrow> bytes \<Rightarrow> (go_error + node option) \<times> ('m, 'e, 'n) txn" where
  "Collection_Get E dbc t h rid = on_collection dbc t h (after_flush (flush_collection E)
     (\<lambda>m. map_sum (docErr (te_texts E)) (\<lambda>r. r) (of_model Documents (doc_Get (te_documents E) m rid))))"

definition Collection_Put :: "('m, 'e, 'n, 'ne, 'h) txn_env \<Rightarrow> bool \<Rightarrow> ('m, 'e, 'n) txn \<Rightarrow> nat \<Rightarrow> bytes \<Rightarrow> node \<Rightarrow> (go_error + unit) \<times> ('m, 'e, 'n) txn" where
  "Collection_Put E dbc t h rid n = on_collection dbc t h (on_editor (mp_editor (te_documents E)) (docErr (te_texts E))
     (\<lambda>ed. only_editor (of_model Documents (doc_Put (te_documents E) ed rid n))))"

definition Collection_PutJSON :: "('m, 'e, 'n, 'ne, 'h) txn_env \<Rightarrow> bool \<Rightarrow> ('m, 'e, 'n) txn \<Rightarrow> nat \<Rightarrow> bytes \<Rightarrow> bytes \<Rightarrow> (go_error + unit) \<times> ('m, 'e, 'n) txn" where
  "Collection_PutJSON E dbc t h rid txt = on_collection dbc t h (on_editor (mp_editor (te_documents E)) (docErr (te_texts E))
     (\<lambda>ed. only_editor (of_model Documents (doc_PutJSON (te_documents E) ed rid txt))))"

definition Collection_Delete :: "('m, 'e, 'n, 'ne, 'h) txn_env \<Rightarrow> bool \<Rightarrow> ('m, 'e, 'n) txn \<Rightarrow> nat \<Rightarrow> bytes \<Rightarrow> (go_error + unit) \<times> ('m, 'e, 'n) txn" where
  "Collection_Delete E dbc t h rid = on_collection dbc t h (on_editor (mp_editor (te_documents E)) (docErr (te_texts E))
     (\<lambda>ed. only_editor (of_model Documents (doc_Delete (te_documents E) ed rid))))"

definition Collection_Scan :: "('m, 'e, 'n, 'ne, 'h) txn_env \<Rightarrow> bool \<Rightarrow> ('m, 'e, 'n) txn \<Rightarrow> nat \<Rightarrow> bytes option \<Rightarrow>
    ('s \<Rightarrow> bytes \<times> node \<Rightarrow> (go_error + bool) \<times> 's) \<Rightarrow> 's \<Rightarrow> (go_error + outcome \<times> 's) \<times> ('m, 'e, 'n) txn" where
  "Collection_Scan E dbc t h start each s = on_collection dbc t h (after_flush (flush_collection E)
     (\<lambda>m. drained Documents (docErr (te_texts E)) each s (doc_Scan (te_documents E) m start)))"

section \<open>Runs of a transaction\<close>

text \<open>What a caller can do with a transaction short of ending it, each rule one kind of call; a call on a handle leaves its object in some state.\<close>

inductive txn_reach :: "('m, 'e, 'n, 'ne, 'h) txn_env \<Rightarrow> 'n \<Rightarrow> ('m, 'e, 'n) txn \<Rightarrow> bool" for E base where
  begins: "txn_reach E base (begin_txn base)"
| creates: "txn_reach E base t \<Longrightarrow> create_object E dbc t name made = Inr (h, t') \<Longrightarrow> txn_reach E base t'"
| opens: "txn_reach E base t \<Longrightarrow> open_object E dbc mayRead t name i f = Inr (h, t') \<Longrightarrow> txn_reach E base t'"
| drops: "txn_reach E base t \<Longrightarrow> Drop E dbc t name = Inr t' \<Longrightarrow> txn_reach E base t'"
| calls: "txn_reach E base t \<Longrightarrow> handle_check dbc t h = None \<Longrightarrow> txn_reach E base (put_object t h ob)"

lemma put_object_inv: "txn_inv t \<Longrightarrow> txn_inv (put_object t h ob)"
  unfolding txn_inv_def put_object_def by (auto simp: nth_updated)

lemma put_object_same [simp]: "tx_base (put_object t h ob) = tx_base t" "tx_closed (put_object t h ob) = tx_closed t"
  by (simp_all add: put_object_def)

lemma drop_same: "Drop E dbc t name = Inr t' \<Longrightarrow> tx_base t' = tx_base t \<and> tx_closed t' = tx_closed t"
  by (auto simp: Drop_def split: option.splits sum.splits)

lemma txn_reach_inv: "txn_reach E base t \<Longrightarrow> txn_inv t \<and> tx_base t = base \<and> \<not> tx_closed t"
proof (induction rule: txn_reach.induct)
  case begins
  show ?case by (simp add: begin_txn_def txn_inv_def held_handles_def)
next
  case (creates t dbc name made h t')
  then show ?case using create_inv by fastforce
next
  case (opens t dbc mayRead name i f h t')
  then show ?case using open_inv by fastforce
next
  case (drops t dbc name t')
  then show ?case using drop_inv drop_same by metis
next
  case (calls t dbc h ob)
  then show ?case using put_object_inv [of t h ob] by simp
qed

text \<open>Every call on a handle is such a step, or leaves the transaction as it was.\<close>

lemma handle_calls_reach:
  assumes "txn_reach E base t"
  shows "on_table dbc t h f = (r, t') \<Longrightarrow> txn_reach E base t'" "on_kv dbc t h g = (r', t') \<Longrightarrow> txn_reach E base t'"
    "on_collection dbc t h g = (r', t') \<Longrightarrow> txn_reach E base t'"
  using assms by (auto simp: on_table_def on_kv_def on_collection_def intro: calls split: option.splits opened_object.splits prod.splits)


section \<open>Reads see the transaction's writes\<close>


section \<open>Namespaces in memory\<close>

text \<open>
  The laws of namespaces hold of finite maps from paths to references: a namespace is its own root and its own editor. The
  walk over the changes inside an object and the core's merge are left to the caller.
\<close>

type_synonym mem_objects = "(string, model_root object_ref) fmap"

definition changed_objects :: "mem_objects \<Rightarrow> mem_objects \<Rightarrow> string list" where
  "changed_objects m n = sorted_list_of_fset (ffilter (\<lambda>q. fmlookup m q \<noteq> fmlookup n q) (fmdom m |\<union>| fmdom n))"

definition mem_port :: "(model_root object_change \<Rightarrow> go_error + model_change walk) \<Rightarrow> (mem_objects, mem_objects, model_root, mem_objects) object_port" where
  "mem_port detail = \<lparr>ob_root = (\<lambda>n. n), ob_get = (\<lambda>n q. Inr (fmlookup n q)), ob_editor = (\<lambda>n. n),
     ob_put = (\<lambda>e q r. Inr (fmupd q r e)), ob_delete = (\<lambda>e q. Inr (fmdrop q e)), ob_flush = Inr,
     ob_diff = (\<lambda>m n. Inr (map (object_change_of (fmlookup m) (fmlookup n)) (changed_objects m n), None)),
     ob_detail = detail, ob_merge = (\<lambda>base cur ours. Inr (cur, True))\<rparr>"

lemma changed_objects_set: "set (changed_objects m n) = {q. fmlookup m q \<noteq> fmlookup n q}"
proof -
  have "q |\<in>| fmdom m |\<union>| fmdom n" if "fmlookup m q \<noteq> fmlookup n q" for q
    using that by (metis fmdom_notD funionCI)
  then show ?thesis unfolding changed_objects_def by auto
qed

interpretation mem_objs: object_laws "mem_port detail" fmlookup fmlookup
proof
  show "distinct (map oc_path cs) \<and> set cs = object_change_of (fmlookup m) (fmlookup n) ` {q. fmlookup m q \<noteq> fmlookup n q}"
    if "ob_diff (mem_port detail) m n = Inr (cs, None)" for m n cs
  proof -
    have cs: "cs = map (object_change_of (fmlookup m) (fmlookup n)) (changed_objects m n)" using that by (simp add: mem_port_def)
    have "map oc_path cs = changed_objects m n" unfolding cs by (simp add: comp_def object_change_of_def)
    moreover have "distinct (changed_objects m n)" by (simp add: changed_objects_def sorted_list_of_fset.rep_eq)
    ultimately show ?thesis by (simp add: cs changed_objects_set)
  qed
qed (auto simp: mem_port_def fun_eq_iff)

definition mem_env :: "(table_map, table_map, mem_objects, mem_objects, mem_objects) txn_env" where
  "mem_env = \<lparr>te_texts = (\<lambda>_. []), te_wire = std_wire, te_tables = fmap_tables,
     te_kvs = \<lparr>mp_empty = Inr fmempty, mp_open = (\<lambda>_. Inl [ErrStore]), mp_root = (\<lambda>_. zero_root),
       mp_get = mp_get fmap_port, mp_iter = mp_iter fmap_port, mp_diff = mp_diff fmap_port, mp_editor = mp_editor fmap_port,
       ed_put = ed_put fmap_port, ed_delete = ed_delete fmap_port, ed_flush = ed_flush fmap_port\<rparr>,
     te_documents = \<lparr>mp_empty = Inr fmempty, mp_open = (\<lambda>_. Inl [ErrStore]), mp_root = (\<lambda>_. zero_root),
       mp_get = mp_get fmap_port, mp_iter = mp_iter fmap_port, mp_diff = mp_diff fmap_port, mp_editor = mp_editor fmap_port,
       ed_put = ed_put fmap_port, ed_delete = ed_delete fmap_port, ed_flush = ed_flush fmap_port\<rparr>,
     te_objects = mem_port (\<lambda>_. Inr ([], None)), te_valid_path = (\<lambda>_. None)\<rparr>"

interpretation mem_kvs: map_laws "te_kvs mem_env" fmlookup fmlookup
  using fmap_maps.map_laws_axioms unfolding map_laws_def by (simp add: mem_env_def)

text \<open>A transaction that made a map, and what it set there.\<close>

definition made_map :: "(table_map, table_map, mem_objects) txn" where
  "made_map = \<lparr>tx_base = fmempty, tx_objs = [(''m'', Some 0)], tx_handles = [\<lparr>h_object = KVObj fmempty None, h_gone = False\<rparr>], tx_closed = False\<rparr>"

definition set_map :: "(table_map, table_map, mem_objects) txn" where
  "set_map = put_object made_map 0 (KVObj fmempty (Some (fmupd ''k'' (kind_byte Bytes # ''v'') fmempty)))"

lemma made_map_reach: "txn_reach mem_env fmempty made_map"
proof (rule creates [OF begins, where name = "''m''" and h = 0 and dbc = False])
  show "create_object mem_env False (begin_txn fmempty) ''m'' (Inr (KVObj fmempty None)) = Inr (0, made_map)"
    by (simp add: create_object_def creatable_def txn_check_def begin_txn_def txn_lookup_def mem_env_def mem_port_def hold_def made_map_def)
qed

lemma set_map_set: "KV_Set mem_env False made_map 0 ''k'' (VBytes ''v'') = (Inr (), set_map)"
  by (simp add: KV_Set_def on_kv_def handle_check_def txn_check_def made_map_def on_editor_def only_editor_def of_model_def
      kv_Set_def checkKey_def MaxKeySize_def EncodeValue_def payload_def MaxValueSize_def set_map_def mem_env_def fmap_port_def Let_def)


lemma fmupd_neq_fmempty: "fmupd q r m \<noteq> fmempty"
  by (metis fmempty_lookup fmupd_lookup option.distinct(1))


text \<open>Two transactions that changed different objects.\<close>

definition some_ref :: "nat \<Rightarrow> model_root object_ref" where
  "some_ref n = \<lparr>ref_model = Tables, ref_root = zero_root\<lparr>root_depth := n\<rparr>\<rparr>"

definition two_objects :: "nat \<Rightarrow> nat \<Rightarrow> mem_objects" where
  "two_objects x y = fmupd ''a'' (some_ref x) (fmupd ''b'' (some_ref y) fmempty)"

definition no_models :: "model_root model_calls" where
  "no_models = \<lparr>md_rebase = (\<lambda>_. Some (\<lambda>_ _ _. Inl (Sentinel ErrInternal))), md_kv_open = (\<lambda>_. Inl (Sentinel ErrInternal))\<rparr>"

theorem commit_loses_no_update_witness:
  "\<exists>n. onto (\<lambda>_. []) (mem_port (\<lambda>_. Inr ([], None))) no_models (two_objects 0 0) (two_objects 2 0) (two_objects 0 2) = Inr n \<and>
    fmlookup n ''b'' = Some (some_ref 2)"
proof -
  let ?B = "mem_port (\<lambda>_. Inr ([], None))" and ?b = "two_objects 0 0" and ?s = "two_objects 2 0" and ?c = "two_objects 0 2"
  have l: "fmlookup (two_objects x y) q = (if q = ''a'' then Some (some_ref x) else if q = ''b'' then Some (some_ref y) else None)" for x y q
    by (simp add: two_objects_def)
  have r: "some_ref x = some_ref y \<longleftrightarrow> x = y" for x y by (simp add: some_ref_def zero_root_def)
  have set: "set (changed_objects ?b ?s) = {''a''}" unfolding changed_objects_set l by (auto simp: r)
  have "distinct (changed_objects ?b ?s)" by (simp add: changed_objects_def sorted_list_of_fset.rep_eq)
  then have ch: "changed_objects ?b ?s = [''a'']" using set by (metis distinct_card card.empty card_insert_disjoint empty_iff finite.emptyI
        length_0_conv length_Suc_conv list.set_intros(1) singletonD One_nat_def)
  have ne: "?c \<noteq> ?b" using l [of 0 2 "''b''"] l [of 0 0 "''b''"] r by auto
  have "\<exists>n. onto (\<lambda>_. []) ?B no_models ?b ?s ?c = Inr n"
    using ne by (simp add: onto_def txn_rebase_def mem_port_def ch object_change_of_def l no_models_def some_ref_def)
  then obtain n where n: "onto (\<lambda>_. []) ?B no_models ?b ?s ?c = Inr n" by blast
  have "fmlookup ?c \<noteq> fmlookup ?b" using ne by (simp add: fmlookup_inject)
  moreover have "ob_merge ?B ?b ?c ?s \<noteq> Inr (n, False)" by (simp add: mem_port_def)
  ultimately have "rebased_onto no_models (fmlookup ?b) (fmlookup ?s) (fmlookup ?c) (fmlookup n)"
    using commit_loses_no_update [OF mem_objs.object_laws_axioms n] by blast
  then have "fmlookup n ''b'' = Some (some_ref 2)" unfolding rebased_onto_def by (auto dest!: spec [of _ "''b''"] simp: l)
  with n show ?thesis by blast
qed

end
