(* ===== verification/Session.thy ===== *)
theory Session
  imports Txn_Calls
begin

text \<open>
  Sessions (src/engine/session.go): the version operations on a branch, the objects it holds, differences and history. The
  storage core's version operations are the record \<open>vcs_port\<close>, what a merge relies on of them the locale \<open>merge_laws\<close>. A call of a
  session is one sequence of the core's calls: what another process does between them is not modelled.
\<close>

section \<open>The storage core's version operations\<close>

text \<open>
  The storage core's repository as a session calls it, each call with the authorizer the core asks. A merge in progress
  is named by the commit merged in. \<open>vc_parse\<close> reads a hash spelled in full; \<open>vc_release\<close> gives up the hold on a branch.
\<close>

record 'h commit =
  cm_hash :: 'h
  cm_parents :: "'h list"
  cm_namespace :: 'h
  cm_author :: string
  cm_message :: string
  cm_time :: int

datatype conflict_kind = BothChanged | DeleteEdit | AddAdd | ModelChange | OtherConflict nat

record core_conflict =
  cc_path :: string
  cc_kind :: conflict_kind
  cc_model :: "(bytes \<times> string) list"

record ('w, 'h, 's) vcs_port =
  vc_parse :: "string \<Rightarrow> 'h option"
  vc_read_commit :: "'w \<Rightarrow> authorizer \<Rightarrow> principal_id \<Rightarrow> 'h \<Rightarrow> go_error + 'h commit"
  vc_head :: "'w \<Rightarrow> authorizer \<Rightarrow> principal_id \<Rightarrow> string \<Rightarrow> go_error + 'h commit"
  vc_tag :: "'w \<Rightarrow> authorizer \<Rightarrow> principal_id \<Rightarrow> string \<Rightarrow> go_error + 'h"
  vc_checkout :: "'w \<Rightarrow> authorizer \<Rightarrow> principal_id \<Rightarrow> string \<Rightarrow> (go_error + 's) \<times> 'w"
  vc_release :: "'s \<Rightarrow> 'w \<Rightarrow> 'w"
  vc_create_branch :: "'w \<Rightarrow> authorizer \<Rightarrow> principal_id \<Rightarrow> string \<Rightarrow> 'h \<Rightarrow> go_error option \<times> 'w"
  vc_delete_branch :: "'w \<Rightarrow> authorizer \<Rightarrow> principal_id \<Rightarrow> string \<Rightarrow> go_error option \<times> 'w"
  vc_branches :: "'w \<Rightarrow> authorizer \<Rightarrow> principal_id \<Rightarrow> go_error + string list"
  vc_commit_working_set :: "'w \<Rightarrow> authorizer \<Rightarrow> principal_id \<Rightarrow> string \<Rightarrow> string \<Rightarrow> (go_error + 'h commit) \<times> 'w"
  vc_merge :: "'w \<Rightarrow> authorizer \<Rightarrow> principal_id \<Rightarrow> string \<Rightarrow> 'h \<Rightarrow> (go_error + core_conflict list) \<times> 'w"
  vc_abort_merge :: "'w \<Rightarrow> authorizer \<Rightarrow> principal_id \<Rightarrow> string \<Rightarrow> go_error option \<times> 'w"
  vc_log :: "'w \<Rightarrow> authorizer \<Rightarrow> principal_id \<Rightarrow> 'h \<Rightarrow> int \<Rightarrow> go_error + 'h commit list"
  vc_max_message :: nat
  vc_max_log :: int

text \<open>
  What a session works with: the database, the storage core's calls and those of its object package, the models' \<open>Diff\<close> by
  model, and the empty objects and namespace a scratch store gives (\<open>scratch\<close>, \<open>object.New\<close>, \<open>prolly.Empty\<close>, \<open>blob.Write\<close>).
\<close>

record ('w, 'h, 'n, 'ne, 's, 'm, 'e) session_env =
  se_db :: "('w, 'h, 'n) database"
  se_vcs :: "('w, 'h, 's) vcs_port"
  se_txn :: "('m, 'e, 'n, 'ne, 'h) txn_env"
  se_empty_namespace :: "go_error + 'n"
  se_model_diff :: "model_id \<Rightarrow> model_root \<Rightarrow> model_root \<Rightarrow> go_error + model_change walk"
  se_empty_blob :: "go_error + model_root"
  se_empty_map :: "go_error + bytes"
  se_format :: "model_id \<Rightarrow> 16 word"
  se_isprint :: "nat \<Rightarrow> bool"

record 's session =
  ss_principal :: principal_id
  ss_branch :: string
  ss_hold :: 's
  ss_closed :: bool

abbreviation texts :: "('w, 'h, 'n, 'ne, 's, 'm, 'e) session_env \<Rightarrow> esentinel \<Rightarrow> string" where
  "texts E \<equiv> db_texts (se_db E)"

abbreviation asked :: "('w, 'h, 'n, 'ne, 's, 'm, 'e) session_env \<Rightarrow> authorizer" where
  "asked E \<equiv> batch_Authorize (db_authorizer (se_db E)) None"

section \<open>Sessions\<close>

text \<open>\<open>mayRead\<close> and \<open>ready\<close>; \<open>dbc\<close> says whether the database is closed.\<close>

definition mayRead :: "('w, 'h, 'n, 'ne, 's, 'm, 'e) session_env \<Rightarrow> 's session \<Rightarrow> string \<Rightarrow> go_error option" where
  "mayRead E s path = map_option (translate (texts E)) (auth_check (se_db E) (ss_principal s) ActionRead (on_path_named (ss_branch s) path))"

definition session_ready :: "bool \<Rightarrow> 's session \<Rightarrow> go_error option" where
  "session_ready dbc s = (if ss_closed s \<or> dbc then Some (Sentinel ErrClosed) else None)"

text \<open>\<open>resolve\<close>: a commit by its hash, else a branch's head, else a tag's commit.\<close>

definition resolve_tag :: "('w, 'h, 'n, 'ne, 's, 'm, 'e) session_env \<Rightarrow> 's session \<Rightarrow> string \<Rightarrow> 'w \<Rightarrow> go_error + 'h" where
  "resolve_tag E s name w =
     (case vc_tag (se_vcs E) w (asked E) (ss_principal s) name of Inr h \<Rightarrow> Inr h
      | Inl e \<Rightarrow>
         if \<not> is_err e VcsTagNotFound \<and> \<not> is_err e VcsInvalidName then Inl (translate (texts E) e)
         else Inl (Noted ErrNotFound (''no branch, tag or commit named '' @ Quote (se_isprint E) name)))"

definition resolve_branch :: "('w, 'h, 'n, 'ne, 's, 'm, 'e) session_env \<Rightarrow> 's session \<Rightarrow> string \<Rightarrow> 'w \<Rightarrow> go_error + 'h" where
  "resolve_branch E s name w =
     (case vc_head (se_vcs E) w (asked E) (ss_principal s) name of Inr c \<Rightarrow> Inr (cm_hash c)
      | Inl e \<Rightarrow>
         if \<not> is_err e VcsBranchNotFound \<and> \<not> is_err e VcsInvalidName then Inl (translate (texts E) e)
         else resolve_tag E s name w)"

definition resolve_ref :: "('w, 'h, 'n, 'ne, 's, 'm, 'e) session_env \<Rightarrow> 's session \<Rightarrow> string \<Rightarrow> 'w \<Rightarrow> go_error + 'h" where
  "resolve_ref E s name w =
     (case vc_parse (se_vcs E) name of None \<Rightarrow> resolve_branch E s name w
      | Some h \<Rightarrow>
         (case vc_read_commit (se_vcs E) w (asked E) (ss_principal s) h of Inr c \<Rightarrow> Inr (cm_hash c)
          | Inl e \<Rightarrow> if \<not> is_err e ChunkNotFound then Inl (translate (texts E) e) else resolve_branch E s name w))"

definition Checkout :: "('w, 'h, 'n, 'ne, 's, 'm, 'e) session_env \<Rightarrow> bool \<Rightarrow> 's session \<Rightarrow> string \<Rightarrow> 'w \<Rightarrow> go_error option \<times> 's session \<times> 'w" where
  "Checkout E dbc s branch w =
     (case session_ready dbc s of Some e \<Rightarrow> (Some e, s, w)
      | None \<Rightarrow>
         (case vc_checkout (se_vcs E) w (asked E) (ss_principal s) branch of
            (Inl e, w) \<Rightarrow> (Some (translate (texts E) e), s, w)
          | (Inr co, w) \<Rightarrow> (None, s\<lparr>ss_branch := branch, ss_hold := co\<rparr>, vc_release (se_vcs E) (ss_hold s) w)))"

definition CreateBranch :: "('w, 'h, 'n, 'ne, 's, 'm, 'e) session_env \<Rightarrow> bool \<Rightarrow> 's session \<Rightarrow> string \<Rightarrow> string \<Rightarrow> 'w \<Rightarrow> go_error option \<times> 'w" where
  "CreateBranch E dbc s name at_ref w =
     (case session_ready dbc s of Some e \<Rightarrow> (Some e, w)
      | None \<Rightarrow>
         (case resolve_ref E s (if at_ref = [] then ss_branch s else at_ref) w of
            Inl e \<Rightarrow> (Some e, w)
          | Inr h \<Rightarrow>
             (case vc_create_branch (se_vcs E) w (asked E) (ss_principal s) name h of
                (r, w) \<Rightarrow> (map_option (translate (texts E)) r, w))))"

definition DeleteBranch :: "('w, 'h, 'n, 'ne, 's, 'm, 'e) session_env \<Rightarrow> bool \<Rightarrow> 's session \<Rightarrow> string \<Rightarrow> 'w \<Rightarrow> go_error option \<times> 'w" where
  "DeleteBranch E dbc s name w =
     (case session_ready dbc s of Some e \<Rightarrow> (Some e, w)
      | None \<Rightarrow>
         if name = ss_branch s then (Some (Noted ErrInvalid ''a session cannot delete the branch it is on''), w)
         else (case vc_delete_branch (se_vcs E) w (asked E) (ss_principal s) name of
           (r, w) \<Rightarrow> (map_option (translate (texts E)) r, w)))"

definition Branches :: "('w, 'h, 'n, 'ne, 's, 'm, 'e) session_env \<Rightarrow> bool \<Rightarrow> 's session \<Rightarrow> 'w \<Rightarrow> go_error + string list" where
  "Branches E dbc s w =
     (case session_ready dbc s of Some e \<Rightarrow> Inl e
      | None \<Rightarrow> map_sum (translate (texts E)) (\<lambda>bs. bs) (vc_branches (se_vcs E) w (asked E) (ss_principal s)))"

section \<open>The objects on a branch\<close>

text \<open>\<open>NoKind\<close> is the zero kind.\<close>

datatype Kind = NoKind | KindTable | KindKV | KindDocuments | KindFile | KindFolder

definition kindOf :: "model_id \<Rightarrow> Kind" where
  "kindOf i = (case i of Tables \<Rightarrow> KindTable | KVs \<Rightarrow> KindKV | Documents \<Rightarrow> KindDocuments | Blobs \<Rightarrow> KindFile | Trees \<Rightarrow> KindFolder
     | OtherModel _ \<Rightarrow> NoKind)"

fun list_objects :: "('w, 'h, 'n, 'ne, 's, 'm, 'e) session_env \<Rightarrow> 's session \<Rightarrow> model_root object_change list \<Rightarrow> go_error option \<Rightarrow>
    (string \<rightharpoonup> Kind) \<Rightarrow> go_error + (string \<rightharpoonup> Kind)" where
  "list_objects E s [] stop out = (case stop of None \<Rightarrow> Inr out | Some e \<Rightarrow> Inl e)"
| "list_objects E s (c # cs) stop out =
     (case mayRead E s (oc_path c) of
        None \<Rightarrow> list_objects E s cs stop (out(oc_path c \<mapsto> kindOf (ref_model (the (oc_to c)))))
      | Some e \<Rightarrow> if is_err e ErrPermissionDenied then list_objects E s cs stop out else Inl e)"

definition Objects :: "('w, 'h, 'n, 'ne, 's, 'm, 'e) session_env \<Rightarrow> bool \<Rightarrow> 's session \<Rightarrow> 'w \<Rightarrow> go_error + (string \<rightharpoonup> Kind)" where
  "Objects E dbc s w =
     (case session_ready dbc s of Some e \<Rightarrow> Inl e
      | None \<Rightarrow> (case rp_working_set (db_repo (se_db E)) w (asked E) (ss_principal s) (ss_branch s) of Inl e \<Rightarrow> Inl (translate (texts E) e)
      | Inr ws \<Rightarrow> (case rp_namespace (db_repo (se_db E)) (ws_working ws) of Inl e \<Rightarrow> Inl e
      | Inr ns \<Rightarrow> (case se_empty_namespace E of Inl e \<Rightarrow> Inl e
      | Inr none \<Rightarrow> (case ob_diff (te_objects (se_txn E)) none ns of Inl e \<Rightarrow> Inl e
      | Inr (cs, stop) \<Rightarrow> list_objects E s cs stop Map.empty)))))"

section \<open>Commits and merges\<close>

definition message :: "('w, 'h, 'n, 'ne, 's, 'm, 'e) session_env \<Rightarrow> string \<Rightarrow> go_error option" where
  "message E m =
     (if length m > vc_max_message (se_vcs E) \<or> \<not> Valid m
      then Some (Noted ErrInvalid (''a commit message must be UTF-8 of at most '' @ itoa (vc_max_message (se_vcs E)) @ '' bytes''))
      else None)"

text \<open>
  \<open>Commit\<close> and \<open>Merge\<close>: what is refused at once, else the work done in its turn in the branch's queue, where it is a
  \<open>SessionOp\<close> (its answer apart).
\<close>

definition checked_call :: "('w, 'h, 'n, 'ne, 's, 'm, 'e) session_env \<Rightarrow> bool \<Rightarrow> 's session \<Rightarrow> string \<Rightarrow> ('w \<Rightarrow> (go_error + 'a) \<times> 'w) \<Rightarrow>
    go_error + ('w \<Rightarrow> (go_error + 'a) \<times> 'w)" where
  "checked_call E dbc s msg f =
     (case session_ready dbc s of Some e \<Rightarrow> Inl e | None \<Rightarrow> (case message E msg of Some e \<Rightarrow> Inl e | None \<Rightarrow> Inr f))"

definition session_op :: "('w \<Rightarrow> (go_error + 'a) \<times> 'w) \<Rightarrow> ('w, 'n) queued" where
  "session_op f = SessionOp (\<lambda>w. case f w of (r, w) \<Rightarrow> (case r of Inl e \<Rightarrow> Some e | Inr _ \<Rightarrow> None, w))"

definition session_commit :: "('w, 'h, 'n, 'ne, 's, 'm, 'e) session_env \<Rightarrow> 's session \<Rightarrow> string \<Rightarrow> 'w \<Rightarrow> (go_error + 'h) \<times> 'w" where
  "session_commit E s msg w =
     (case vc_commit_working_set (se_vcs E) w (asked E) (ss_principal s) (ss_branch s) msg of
        (r, w) \<Rightarrow> (map_sum (translate (texts E)) cm_hash r, w))"

definition session_Commit :: "('w, 'h, 'n, 'ne, 's, 'm, 'e) session_env \<Rightarrow> bool \<Rightarrow> 's session \<Rightarrow> string \<Rightarrow>
    go_error + ('w \<Rightarrow> (go_error + 'h) \<times> 'w)" where
  "session_Commit E dbc s msg = checked_call E dbc s msg (session_commit E s msg)"

record Conflict =
  cf_path :: string
  cf_why :: string
  cf_parts :: "(bytes \<times> string) list"

record 'h MergeResult =
  mr_commit :: "'h option"
  mr_conflicts :: "Conflict list"

definition why :: "conflict_kind \<Rightarrow> string" where
  "why k = (case k of
     BothChanged \<Rightarrow> ''changed on both sides in ways its model could not combine''
   | DeleteEdit \<Rightarrow> ''deleted on one side and changed on the other''
   | AddAdd \<Rightarrow> ''added differently on both sides''
   | ModelChange \<Rightarrow> ''the sides disagree about what kind of object it is''
   | OtherConflict _ \<Rightarrow> ''the sides could not be combined'')"

definition conflictOf :: "core_conflict \<Rightarrow> Conflict" where
  "conflictOf c = \<lparr>cf_path = cc_path c, cf_why = why (cc_kind c), cf_parts = cc_model c\<rparr>"

text \<open>\<open>errors.Join\<close>.\<close>

definition join_errors :: "(esentinel \<Rightarrow> string) \<Rightarrow> go_error \<Rightarrow> go_error \<Rightarrow> go_error" where
  "join_errors T e e' = Wrapped (Error_text T e @ [CHR 0x0A] @ Error_text T e') [e, e']"

text \<open>The end of \<open>merge\<close>: a clean merge is committed, or undone.\<close>

definition merge_commit :: "('w, 'h, 'n, 'ne, 's, 'm, 'e) session_env \<Rightarrow> 's session \<Rightarrow> string \<Rightarrow> 'w \<Rightarrow> (go_error + 'h MergeResult) \<times> 'w" where
  "merge_commit E s msg w =
     (case vc_commit_working_set (se_vcs E) w (asked E) (ss_principal s) (ss_branch s) msg of
        (Inr c, w) \<Rightarrow> (Inr \<lparr>mr_commit = Some (cm_hash c), mr_conflicts = []\<rparr>, w)
      | (Inl e, w) \<Rightarrow>
         (case vc_abort_merge (se_vcs E) w (asked E) (ss_principal s) (ss_branch s) of
            (Some e', w) \<Rightarrow> (Inl (join_errors (texts E) (translate (texts E) e) (translate (texts E) e')), w)
          | (None, w) \<Rightarrow> (Inl (translate (texts E) e), w)))"

text \<open>A merge without conflicts: there was nothing to merge, or it is committed.\<close>

definition merge_finish :: "('w, 'h, 'n, 'ne, 's, 'm, 'e) session_env \<Rightarrow> 's session \<Rightarrow> string \<Rightarrow> 'w \<Rightarrow> (go_error + 'h MergeResult) \<times> 'w" where
  "merge_finish E s msg w =
     (case rp_working_set (db_repo (se_db E)) w (asked E) (ss_principal s) (ss_branch s) of Inl e \<Rightarrow> (Inl (translate (texts E) e), w)
      | Inr ws \<Rightarrow>
         if ws_merge ws = None then
           (case vc_head (se_vcs E) w (asked E) (ss_principal s) (ss_branch s) of Inl e \<Rightarrow> (Inl (translate (texts E) e), w)
            | Inr c \<Rightarrow> (Inr \<lparr>mr_commit = Some (cm_hash c), mr_conflicts = []\<rparr>, w))
         else merge_commit E s msg w)"

definition session_merge :: "('w, 'h, 'n, 'ne, 's, 'm, 'e) session_env \<Rightarrow> 's session \<Rightarrow> string \<Rightarrow> string \<Rightarrow> 'w \<Rightarrow> (go_error + 'h MergeResult) \<times> 'w" where
  "session_merge E s ref msg w =
     (case rp_working_set (db_repo (se_db E)) w (asked E) (ss_principal s) (ss_branch s) of Inl e \<Rightarrow> (Inl (translate (texts E) e), w)
      | Inr ws \<Rightarrow>
     if ws_merge ws \<noteq> None then (Inl (Sentinel ErrMergeInProgress), w)
     else
     (case resolve_ref E s ref w of Inl e \<Rightarrow> (Inl e, w)
      | Inr theirs \<Rightarrow>
     (case vc_merge (se_vcs E) w (asked E) (ss_principal s) (ss_branch s) theirs of
        (Inl e, w) \<Rightarrow> (Inl (translate (texts E) e), w)
      | (Inr cs, w) \<Rightarrow>
     if cs \<noteq> [] then (Inr \<lparr>mr_commit = None, mr_conflicts = map conflictOf cs\<rparr>, w)
     else
     merge_finish E s msg w)))"

definition session_Merge :: "('w, 'h, 'n, 'ne, 's, 'm, 'e) session_env \<Rightarrow> bool \<Rightarrow> 's session \<Rightarrow> string \<Rightarrow> string \<Rightarrow>
    go_error + ('w \<Rightarrow> (go_error + 'h MergeResult) \<times> 'w)" where
  "session_Merge E dbc s ref msg = checked_call E dbc s msg (session_merge E s ref msg)"

definition AbortMerge :: "('w, 'h, 'n, 'ne, 's, 'm, 'e) session_env \<Rightarrow> bool \<Rightarrow> 's session \<Rightarrow> 'w \<Rightarrow> go_error option \<times> 'w" where
  "AbortMerge E dbc s w =
     (case session_ready dbc s of Some e \<Rightarrow> (Some e, w)
      | None \<Rightarrow>
         (case vc_abort_merge (se_vcs E) w (asked E) (ss_principal s) (ss_branch s) of
            (None, w) \<Rightarrow> (None, w)
          | (Some e, w) \<Rightarrow> (Some (if is_err e VcsNoMerge then Noted ErrNotFound ''no merge in progress'' else translate (texts E) e), w)))"

section \<open>Differences and history\<close>

text \<open>One side of \<open>Diff\<close>: the object at the path in the commit a ref names.\<close>

definition diff_side :: "('w, 'h, 'n, 'ne, 's, 'm, 'e) session_env \<Rightarrow> 's session \<Rightarrow> string \<Rightarrow> string \<Rightarrow> 'w \<Rightarrow> go_error + model_root object_ref option" where
  "diff_side E s path ref w =
     (case resolve_ref E s ref w of Inl e \<Rightarrow> Inl e
      | Inr h \<Rightarrow> (case vc_read_commit (se_vcs E) w (asked E) (ss_principal s) h of Inl e \<Rightarrow> Inl (translate (texts E) e)
      | Inr c \<Rightarrow> (case rp_namespace (db_repo (se_db E)) (cm_namespace c) of Inl e \<Rightarrow> Inl e
      | Inr ns \<Rightarrow> map_sum (translate (texts E)) (\<lambda>r. r) (ob_get (te_objects (se_txn E)) ns path))))"

text \<open>\<open>empty\<close>: an empty object of another's kind.\<close>

definition empty_object :: "('w, 'h, 'n, 'ne, 's, 'm, 'e) session_env \<Rightarrow> model_root object_ref \<Rightarrow> go_error + model_root" where
  "empty_object E like =
     (if ref_model like = Tables then
        of_model Tables (and_then (table_Open (te_wire (se_txn E)) (te_tables (se_txn E)) (ref_root like)) (\<lambda>t.
          and_then (Create (te_wire (se_txn E)) (te_tables (se_txn E)) (tb_schema t)) (\<lambda>t. Inr (tb_root t))))
      else if ref_model like = Blobs then se_empty_blob E
      else map_sum (\<lambda>e. e) (\<lambda>h. \<lparr>root_hash = h, root_size = 0, root_format = se_format E (ref_model like), root_depth = 0\<rparr>) (se_empty_map E))"

record diff_iter =
  di_walk :: "model_change walk"
  di_only :: "change_kind option"

definition session_Diff :: "('w, 'h, 'n, 'ne, 's, 'm, 'e) session_env \<Rightarrow> bool \<Rightarrow> 's session \<Rightarrow> string \<Rightarrow> string \<Rightarrow> string \<Rightarrow> 'w \<Rightarrow> go_error + diff_iter" where
  "session_Diff E dbc s from_ref to_ref path w =
     (case session_ready dbc s of Some e \<Rightarrow> Inl e
      | None \<Rightarrow> (case mayRead E s path of Some e \<Rightarrow> Inl e
      | None \<Rightarrow> (case diff_side E s path from_ref w of Inl e \<Rightarrow> Inl e
      | Inr old \<Rightarrow> (case diff_side E s path to_ref w of Inl e \<Rightarrow> Inl e
      | Inr now \<Rightarrow>
         let walk = (\<lambda>i a b only. case se_model_diff E i a b of Inl e \<Rightarrow> Inl e | Inr mcs \<Rightarrow> Inr \<lparr>di_walk = mcs, di_only = only\<rparr>) in
         (case (old, now) of
            (None, None) \<Rightarrow> Inl (Noted ErrNotFound (''no object '' @ Quote (se_isprint E) path @ '' on either side''))
          | (Some a, Some b) \<Rightarrow>
             if ref_model a \<noteq> ref_model b then Inl (Noted ErrWrongKind ''the object is of another kind on each side'')
             else walk (ref_model b) (ref_root a) (ref_root b) None
          | (None, Some b) \<Rightarrow> (case empty_object E b of Inl e \<Rightarrow> Inl e | Inr a \<Rightarrow> walk (ref_model b) a (ref_root b) (Some Added))
          | (Some a, None) \<Rightarrow> (case empty_object E a of Inl e \<Rightarrow> Inl e | Inr b \<Rightarrow> walk (ref_model a) (ref_root a) b (Some Removed)))))))"

definition diff_next :: "diff_iter \<Rightarrow> (go_error + (change_kind \<times> bytes) option) \<times> diff_iter" where
  "diff_next d = (case di_walk d of
     ([], None) \<Rightarrow> (Inr None, d)
   | ([], Some e) \<Rightarrow> (Inl e, d)
   | (mc # mcs, stop) \<Rightarrow>
      (Inr (Some (case di_only d of None \<Rightarrow> mch_kind mc | Some k \<Rightarrow> k, mch_location mc)), d\<lparr>di_walk := (mcs, stop)\<rparr>))"

record 'h CommitMeta =
  ci_hash :: 'h
  ci_parents :: "'h list"
  ci_author :: string
  ci_message :: string
  ci_time :: int

definition session_Log :: "('w, 'h, 'n, 'ne, 's, 'm, 'e) session_env \<Rightarrow> bool \<Rightarrow> 's session \<Rightarrow> string \<Rightarrow> int \<Rightarrow> 'w \<Rightarrow> go_error + 'h CommitMeta list" where
  "session_Log E dbc s ref limit w =
     (case session_ready dbc s of Some e \<Rightarrow> Inl e
      | None \<Rightarrow>
         if limit < 1 \<or> limit > vc_max_log (se_vcs E)
         then Inl (Noted ErrInvalid (''a log limit must be 1 to '' @ itoa (nat (vc_max_log (se_vcs E)))))
         else (case resolve_ref E s ref w of Inl e \<Rightarrow> Inl e
           | Inr h \<Rightarrow> map_sum (translate (texts E))
               (map (\<lambda>c. \<lparr>ci_hash = cm_hash c, ci_parents = cm_parents c, ci_author = cm_author c, ci_message = cm_message c, ci_time = cm_time c\<rparr>))
               (vc_log (se_vcs E) w (asked E) (ss_principal s) h limit)))"

definition Begin :: "('w, 'h, 'n, 'ne, 's, 'm, 'e) session_env \<Rightarrow> bool \<Rightarrow> 's session \<Rightarrow> 'w \<Rightarrow> go_error + ('m, 'e, 'n) txn" where
  "Begin E dbc s w =
     (case session_ready dbc s of Some e \<Rightarrow> Inl e
      | None \<Rightarrow> txn_begin (texts E) dbc (rp_working_set (db_repo (se_db E)) w (asked E) (ss_principal s) (ss_branch s)) (rp_namespace (db_repo (se_db E))))"

definition session_Close :: "('w, 'h, 'n, 'ne, 's, 'm, 'e) session_env \<Rightarrow> 's session \<Rightarrow> 'w \<Rightarrow> 's session \<times> 'w" where
  "session_Close E s w = (if ss_closed s then (s, w) else (s\<lparr>ss_closed := True\<rparr>, vc_release (se_vcs E) (ss_hold s) w))"

section \<open>The scratch store\<close>

text \<open>\<open>scratch\<close>: a store in memory over the database's chunks; what is put goes to memory alone.\<close>

definition scratch_Get :: "('h \<Rightarrow> go_error + bytes) \<Rightarrow> ('h \<Rightarrow> go_error + bytes) \<Rightarrow> 'h \<Rightarrow> go_error + bytes" where
  "scratch_Get mem base h = (case mem h of Inr b \<Rightarrow> Inr b | Inl e \<Rightarrow> if is_err e ChunkNotFound then base h else Inl e)"

definition scratch_Has :: "('h list \<Rightarrow> go_error + ('h \<rightharpoonup> bool)) \<Rightarrow> ('h list \<Rightarrow> go_error + ('h \<rightharpoonup> bool)) \<Rightarrow> 'h list \<Rightarrow> go_error + ('h \<rightharpoonup> bool)" where
  "scratch_Has mem base hs =
     (case base hs of Inl e \<Rightarrow> Inl e
      | Inr out \<Rightarrow> (case mem hs of Inl e \<Rightarrow> Inl e
      | Inr mine \<Rightarrow> Inr (\<lambda>h. case mine h of None \<Rightarrow> out h | Some ok \<Rightarrow> Some (out h = Some True \<or> ok))))"

section \<open>Only what the principal may read is listed\<close>

lemma list_objects_lists:
  assumes "list_objects E s cs None out = Inr out'" "distinct (map oc_path cs)" "\<forall>c \<in> set cs. out (oc_path c) = None"
  shows "out' q = (case find (\<lambda>c. oc_path c = q) cs of None \<Rightarrow> out q
    | Some c \<Rightarrow> if mayRead E s q = None then Some (kindOf (ref_model (the (oc_to c)))) else None)"
  using assms
proof (induction cs arbitrary: out)
  case (Cons c cs)
  have no: "find (\<lambda>d. oc_path d = oc_path c) cs = None" unfolding find_None_iff using Cons.prems(2) by (auto simp: image_iff)
  show ?case
  proof (cases "mayRead E s (oc_path c)")
    case None
    let ?out = "out(oc_path c \<mapsto> kindOf (ref_model (the (oc_to c))))"
    have "list_objects E s cs None ?out = Inr out'" using Cons.prems(1) None by simp
    moreover have "\<forall>d \<in> set cs. ?out (oc_path d) = None" using Cons.prems(2,3) by (auto simp: image_iff)
    ultimately have "out' q = (case find (\<lambda>c. oc_path c = q) cs of None \<Rightarrow> ?out q
        | Some c \<Rightarrow> if mayRead E s q = None then Some (kindOf (ref_model (the (oc_to c)))) else None)"
      using Cons.IH Cons.prems(2) by simp
    then show ?thesis using None no by (auto split: option.splits)
  next
    case (Some e)
    then have "list_objects E s cs None out = Inr out'" using Cons.prems(1) by (auto split: if_splits)
    then show ?thesis using Cons.IH [of out] Cons.prems Some no by (auto split: option.splits)
  qed
qed (simp split: option.splits)

lemma list_objects_complete: "list_objects E s cs stop out = Inr out' \<Longrightarrow> stop = None"
  by (induction cs arbitrary: out) (auto split: option.splits if_splits)

text \<open>
  C8. \<open>Objects\<close> lists exactly the objects of the branch's working set the principal may read, with their kinds: the name of an
  object it may not read does not appear, and none it may read is left out.
\<close>

theorem objects_lists_readable:
  assumes laws: "object_laws (te_objects (se_txn E)) content pending"
    and none: "\<And>n. se_empty_namespace E = Inr n \<Longrightarrow> content n = Map.empty"
    and objs: "Objects E dbc s w = Inr out"
  shows "\<exists>ws ns. rp_working_set (db_repo (se_db E)) w (asked E) (ss_principal s) (ss_branch s) = Inr ws \<and>
    rp_namespace (db_repo (se_db E)) (ws_working ws) = Inr ns \<and>
    out = (\<lambda>q. if mayRead E s q = None then map_option (\<lambda>r. kindOf (ref_model r)) (content ns q) else None)"
proof -
  from objs obtain ws ns n0 cs stop where r: "rp_working_set (db_repo (se_db E)) w (asked E) (ss_principal s) (ss_branch s) = Inr ws"
      "rp_namespace (db_repo (se_db E)) (ws_working ws) = Inr ns" "se_empty_namespace E = Inr n0"
      "ob_diff (te_objects (se_txn E)) n0 ns = Inr (cs, stop)" "list_objects E s cs stop Map.empty = Inr out"
    by (auto simp: Objects_def split: option.splits sum.splits)
  note stop = list_objects_complete [OF r(5)]
  have cs: "distinct (map oc_path cs)" "set cs = object_change_of Map.empty (content ns) ` {q. content ns q \<noteq> None}"
    using object_laws.diff [OF laws r(4) [unfolded stop]] none [OF r(3)] by (simp_all add: eq_commute [of None])
  have "out q = (if mayRead E s q = None then map_option (\<lambda>r. kindOf (ref_model r)) (content ns q) else None)" for q
  proof (cases "content ns q")
    case None
    then have "find (\<lambda>c. oc_path c = q) cs = None" unfolding find_None_iff cs(2) by (auto simp: object_change_of_def)
    then show ?thesis using list_objects_lists [OF r(5) [unfolded stop] cs(1), of q] None by simp
  next
    case (Some rf)
    then have m: "object_change_of Map.empty (content ns) q \<in> set cs" unfolding cs(2) by blast
    then obtain c where c: "find (\<lambda>c. oc_path c = q) cs = Some c"
      by (cases "find (\<lambda>c. oc_path c = q) cs") (auto simp: find_None_iff object_change_of_def)
    then have "c \<in> set cs" "oc_path c = q" by (auto simp: find_Some_iff)
    then have "oc_to c = Some rf" using Some unfolding cs(2) by (auto simp: object_change_of_def)
    then show ?thesis using list_objects_lists [OF r(5) [unfolded stop] cs(1), of q] c Some by simp
  qed
  with r(1,2) show ?thesis by blast
qed

section \<open>What a merge leaves of a branch\<close>

text \<open>What a merge may leave of a branch, given what it answers.\<close>

definition merge_outcome :: "('w, 'h, 'n, 'ne, 's, 'm, 'e) session_env \<Rightarrow> ('w \<Rightarrow> string \<rightharpoonup> 'h) \<Rightarrow> ('w \<Rightarrow> string \<Rightarrow> 'h working_set) \<Rightarrow>
    's session \<Rightarrow> string \<Rightarrow> 'w \<Rightarrow> go_error + 'h MergeResult \<Rightarrow> 'w \<Rightarrow> bool" where
  "merge_outcome E heads working s ref w r w' \<longleftrightarrow> (case r of
     Inl e \<Rightarrow> heads w' = heads w \<and> (working w' = working w \<or>
       ws_merge (working w (ss_branch s)) = None \<and> (\<exists>h ws. resolve_ref E s ref w = Inr h \<and> working w' = (working w)(ss_branch s := ws) \<and> ws_merge ws = Some h \<and>
         ((\<exists>e'. rp_working_set (db_repo (se_db E)) w' (asked E) (ss_principal s) (ss_branch s) = Inl e') \<or>
          (\<exists>e'. vc_abort_merge (se_vcs E) w' (asked E) (ss_principal s) (ss_branch s) = (Some e', w')))))
   | Inr m \<Rightarrow>
      ws_merge (working w (ss_branch s)) = None \<and> (\<exists>h. resolve_ref E s ref w = Inr h \<and>
      (case mr_commit m of
         None \<Rightarrow> mr_conflicts m \<noteq> [] \<and> heads w' = heads w \<and> (\<exists>ws. working w' = (working w)(ss_branch s := ws) \<and> ws_merge ws = Some h)
       | Some c \<Rightarrow> mr_conflicts m = [] \<and>
          (heads w (ss_branch s) = Some c \<and> heads w' = heads w \<and> working w' = working w \<or>
           (\<exists>base (ci :: 'h commit) ws. heads w (ss_branch s) = Some base \<and> cm_parents ci = [base, h] \<and> cm_hash ci = c \<and>
              heads w' = (heads w)(ss_branch s \<mapsto> c) \<and> working w' = (working w)(ss_branch s := ws) \<and> ws_merge ws = None)))))"

section \<open>What a merge relies on of the repository\<close>

text \<open>
  The head and the working set of each branch. Reads return them; a call that fails changes nothing; a merge changes its
  branch's working set alone: it leaves it mid-merge with the commit merged in, unless the branch held that commit, and then it
  leaves everything as it was and finds no conflict; undoing a merge puts the working set back as it was before; a commit
  moves its branch's head and ends the merge in progress, its parents the head it found and the commit merged in.
\<close>

locale merge_laws =
  fixes E :: "('w, 'h, 'n, 'ne, 's, 'm, 'e) session_env" and heads :: "'w \<Rightarrow> string \<rightharpoonup> 'h" and working :: "'w \<Rightarrow> string \<Rightarrow> 'h working_set"
  assumes ws_read: "rp_working_set (db_repo (se_db E)) w az p b = Inr ws \<Longrightarrow> ws = working w b"
    and head_read: "vc_head (se_vcs E) w az p b = Inr c \<Longrightarrow> heads w b = Some (cm_hash c)"
    and merge_fails: "vc_merge (se_vcs E) w az p b h = (Inl e, w') \<Longrightarrow> w' = w"
    and merge_heads: "vc_merge (se_vcs E) w az p b h = (Inr cs, w') \<Longrightarrow> heads w' = heads w"
    and merge_leaves: "vc_merge (se_vcs E) w az p b h = (Inr cs, w') \<Longrightarrow> ws_merge (working w b) = None \<Longrightarrow>
      cs = [] \<and> working w' = working w \<or> (\<exists>ws. working w' = (working w)(b := ws) \<and> ws_merge ws = Some h)"
    and abort_fails: "vc_abort_merge (se_vcs E) w az p b = (Some e, w') \<Longrightarrow> w' = w"
    and abort_restores: "vc_merge (se_vcs E) w az p b h = (Inr cs, w') \<Longrightarrow> ws_merge (working w b) = None \<Longrightarrow>
      vc_abort_merge (se_vcs E) w' az' p' b = (None, w'') \<Longrightarrow> heads w'' = heads w \<and> working w'' = working w"
    and commit_fails: "vc_commit_working_set (se_vcs E) w az p b m = (Inl e, w') \<Longrightarrow> w' = w"
    and commit_moves: "vc_commit_working_set (se_vcs E) w az p b m = (Inr c, w') \<Longrightarrow>
      (\<exists>base. heads w b = Some base \<and> cm_parents c = base # (case ws_merge (working w b) of None \<Rightarrow> [] | Some h \<Rightarrow> [h])) \<and>
      heads w' = (heads w)(b \<mapsto> cm_hash c) \<and> (\<exists>ws. working w' = (working w)(b := ws) \<and> ws_merge ws = None)"
begin

lemma merge_commit_outcome:
  assumes m: "vc_merge (se_vcs E) w az p (ss_branch s) h = (Inr [], w1)" "ws_merge (working w (ss_branch s)) = None"
    and ws: "working w1 = (working w)(ss_branch s := ws)" "ws_merge ws = Some h" and res: "resolve_ref E s ref w = Inr h"
    and c: "merge_commit E s msg w1 = (r, w')"
  shows "merge_outcome E heads working s ref w r w'"
proof (cases "vc_commit_working_set (se_vcs E) w1 (asked E) (ss_principal s) (ss_branch s) msg")
  case (Pair r1 w2)
  note hd = merge_heads [OF m(1)]
  show ?thesis
  proof (cases r1)
    case (Inr ci)
    from commit_moves [OF Pair [unfolded Inr]] obtain base ws2 where f: "heads w1 (ss_branch s) = Some base" "cm_parents ci = [base, h]"
        "heads w2 = (heads w1)(ss_branch s \<mapsto> cm_hash ci)" "working w2 = (working w1)(ss_branch s := ws2)" "ws_merge ws2 = None"
      by (auto simp: ws)
    have "r = Inr \<lparr>mr_commit = Some (cm_hash ci), mr_conflicts = []\<rparr>" "w' = w2" using c Pair Inr by (auto simp: merge_commit_def)
    then show ?thesis using f m(2) res by (auto simp: merge_outcome_def hd ws(1))
  next
    case (Inl e)
    then have w2: "w2 = w1" using commit_fails Pair by blast
    obtain a w3 where a: "vc_abort_merge (se_vcs E) w1 (asked E) (ss_principal s) (ss_branch s) = (a, w3)" by fastforce
    then have "(\<exists>e. r = Inl e) \<and> w' = w3" using c Pair Inl w2 by (auto simp: merge_commit_def split: option.splits)
    then show ?thesis using a abort_restores [OF m, of "asked E" "ss_principal s" w3] abort_fails [of w1 "asked E" "ss_principal s" "ss_branch s" _ w3] m(2) res hd ws
      by (cases a) (auto simp: merge_outcome_def)
  qed
qed

lemma merge_finish_outcome:
  assumes m: "vc_merge (se_vcs E) w az p (ss_branch s) h = (Inr [], w1)" "ws_merge (working w (ss_branch s)) = None"
    and res: "resolve_ref E s ref w = Inr h" and f: "merge_finish E s msg w1 = (r, w')"
  shows "merge_outcome E heads working s ref w r w'"
proof -
  note lv = merge_leaves [OF m] and hd = merge_heads [OF m(1)]
  show ?thesis
  proof (cases "rp_working_set (db_repo (se_db E)) w1 (asked E) (ss_principal s) (ss_branch s)")
    case (Inl e)
    then have "\<exists>e. r = Inl e" "w' = w1" using f by (auto simp: merge_finish_def)
    then show ?thesis using lv hd m(2) res Inl by (auto simp: merge_outcome_def)
  next
    case (Inr ws1)
    then have ws1: "ws1 = working w1 (ss_branch s)" by (rule ws_read)
    show ?thesis
    proof (cases "ws_merge ws1")
      case None
      then have same: "working w1 = working w" using lv ws1 by auto
      have "w' = w1 \<and> (case r of Inl e \<Rightarrow> True | Inr mr \<Rightarrow> \<exists>c. heads w1 (ss_branch s) = Some c \<and> mr = \<lparr>mr_commit = Some c, mr_conflicts = []\<rparr>)"
        using f Inr None head_read by (fastforce simp: merge_finish_def split: sum.splits)
      then show ?thesis using same hd m(2) res by (auto simp: merge_outcome_def split: sum.splits)
    next
      case (Some h')
      then have "merge_commit E s msg w1 = (r, w')" using f Inr by (simp add: merge_finish_def)
      moreover from lv Some ws1 m(2) obtain ws where "working w1 = (working w)(ss_branch s := ws)" "ws_merge ws = Some h" by auto
      ultimately show ?thesis using merge_commit_outcome m res by blast
    qed
  qed
qed

lemma session_merge_outcome:
  assumes "session_merge E s ref msg w = (r, w')"
  shows "merge_outcome E heads working s ref w r w'"
proof (cases "rp_working_set (db_repo (se_db E)) w (asked E) (ss_principal s) (ss_branch s)")
  case (Inl e)
  then show ?thesis using assms by (auto simp: session_merge_def merge_outcome_def)
next
  case ws0: (Inr ws0)
  then have eq: "ws0 = working w (ss_branch s)" by (rule ws_read)
  show ?thesis
  proof (cases "ws_merge ws0 = None \<and> (\<exists>h. resolve_ref E s ref w = Inr h)")
    case False
    then show ?thesis using assms ws0 by (auto simp: session_merge_def merge_outcome_def split: if_splits sum.splits)
  next
    case True
    then obtain h where h: "ws_merge (working w (ss_branch s)) = None" "resolve_ref E s ref w = Inr h" using eq by auto
    obtain m w1 where m: "vc_merge (se_vcs E) w (asked E) (ss_principal s) (ss_branch s) h = (m, w1)" by fastforce
    show ?thesis
    proof (cases m)
      case (Inl e)
      then have "w1 = w" using merge_fails m by blast
      then show ?thesis using assms ws0 True h m Inl by (auto simp: session_merge_def merge_outcome_def)
    next
      case (Inr cs)
      note lv = merge_leaves [OF m [unfolded Inr] h(1)] and hd = merge_heads [OF m [unfolded Inr]]
      show ?thesis
      proof (cases "cs = []")
        case False
        then have "r = Inr \<lparr>mr_commit = None, mr_conflicts = map conflictOf cs\<rparr>" "w' = w1"
          using assms ws0 True h m Inr by (auto simp: session_merge_def)
        then show ?thesis using False lv hd h by (auto simp: merge_outcome_def)
      next
        case nil: True
        then have "merge_finish E s msg w1 = (r, w')" using assms ws0 True h m Inr by (simp add: session_merge_def)
        then show ?thesis using merge_finish_outcome m [unfolded Inr nil] h by blast
      qed
    qed
  qed
qed

end

text \<open>
  C7. A merge is all or nothing: it starts only on a branch with no merge in progress, changes that branch alone, and
  answers a commit whose parents are the branch's head and the commit merged in, the branch's head now and no merge in
  progress; or the head, when there was nothing to merge and nothing changed; or conflicts, the branch left mid-merge and
  its head where it was; or an error, and then the branch is as it was, unless it could not be read again after the
  merge or the merge could not be undone.
\<close>

theorem merge_all_or_nothing:
  assumes "merge_laws E heads working" "session_merge E s ref msg w = (r, w')"
  shows "merge_outcome E heads working s ref w r w'"
  by (rule merge_laws.session_merge_outcome [OF assms])

section \<open>Branches in memory\<close>

text \<open>
  The laws hold: branches whose commits are named by the namespace they record, a merge taking the other side's objects
  over the branch's own, asking the authorizer for the right to merge and to commit.
\<close>

record branch_world =
  bw_head :: "string \<rightharpoonup> mem_objects"
  bw_working :: "string \<Rightarrow> mem_objects working_set"
  bw_before :: "string \<Rightarrow> mem_objects working_set"

definition commit_at :: "mem_objects \<Rightarrow> mem_objects list \<Rightarrow> mem_objects commit" where
  "commit_at n parents = \<lparr>cm_hash = n, cm_parents = parents, cm_namespace = n, cm_author = [], cm_message = [], cm_time = 0\<rparr>"

definition mem_merge :: "branch_world \<Rightarrow> authorizer \<Rightarrow> principal_id \<Rightarrow> string \<Rightarrow> mem_objects \<Rightarrow> (go_error + core_conflict list) \<times> branch_world" where
  "mem_merge w az p b h =
     (case az p ActionMerge (on_branch_named b) of Some e \<Rightarrow> (Inl e, w)
      | None \<Rightarrow>
         (let ws = bw_working w b in
          if ws_merge ws \<noteq> None then (Inl (Sentinel VcsMergeState), w)
          else if bw_head w b = Some h then (Inr [], w)
          else (Inr [], w\<lparr>bw_working := (bw_working w)(b := ws\<lparr>ws_working := ws_working ws ++\<^sub>f h, ws_merge := Some h\<rparr>),
                 bw_before := (bw_before w)(b := ws)\<rparr>)))"

definition mem_abort :: "branch_world \<Rightarrow> string \<Rightarrow> go_error option \<times> branch_world" where
  "mem_abort w b =
     (if ws_merge (bw_working w b) = None then (Some (Sentinel VcsNoMerge), w)
      else (None, w\<lparr>bw_working := (bw_working w)(b := bw_before w b)\<rparr>))"

definition mem_commit :: "branch_world \<Rightarrow> authorizer \<Rightarrow> principal_id \<Rightarrow> string \<Rightarrow> (go_error + mem_objects commit) \<times> branch_world" where
  "mem_commit w az p b =
     (case az p ActionCommit (on_branch_named b) of Some e \<Rightarrow> (Inl e, w)
      | None \<Rightarrow>
         (case bw_head w b of None \<Rightarrow> (Inl (Sentinel VcsBranchNotFound), w)
          | Some base \<Rightarrow>
             (let ws = bw_working w b; c = commit_at (ws_working ws) (base # (case ws_merge ws of None \<Rightarrow> [] | Some h \<Rightarrow> [h])) in
              (Inr c, w\<lparr>bw_head := (bw_head w)(b \<mapsto> ws_working ws), bw_working := (bw_working w)(b := ws\<lparr>ws_merge := None\<rparr>)\<rparr>))))"

definition mem_vcs :: "(branch_world, mem_objects, unit) vcs_port" where
  "mem_vcs = \<lparr>vc_parse = (\<lambda>_. None), vc_read_commit = (\<lambda>_ _ _ h. Inr (commit_at h [])),
     vc_head = (\<lambda>w _ _ b. case bw_head w b of None \<Rightarrow> Inl (Sentinel VcsBranchNotFound) | Some h \<Rightarrow> Inr (commit_at h [])),
     vc_tag = (\<lambda>_ _ _ _. Inl (Sentinel VcsTagNotFound)), vc_checkout = (\<lambda>w _ _ _. (Inr (), w)), vc_release = (\<lambda>_ w. w),
     vc_create_branch = (\<lambda>w _ _ b h. (None, w\<lparr>bw_head := (bw_head w)(b \<mapsto> h)\<rparr>)),
     vc_delete_branch = (\<lambda>w _ _ b. (None, w\<lparr>bw_head := (bw_head w)(b := None)\<rparr>)), vc_branches = (\<lambda>_ _ _. Inr []),
     vc_commit_working_set = (\<lambda>w az p b _. mem_commit w az p b), vc_merge = mem_merge, vc_abort_merge = (\<lambda>w _ _ b. mem_abort w b),
     vc_log = (\<lambda>_ _ _ h _. Inr [commit_at h []]), vc_max_message = 100, vc_max_log = 10\<rparr>"

definition mem_session_env :: "authorizer \<Rightarrow> (branch_world, mem_objects, mem_objects, mem_objects, unit, table_map, table_map) session_env" where
  "mem_session_env f = \<lparr>
     se_db = \<lparr>db_repo = \<lparr>
         rp_check = (\<lambda>inner p a r. if p = [] then Some (Sentinel AuthInvalidPrincipal) else batch_Authorize inner None p a r),
         rp_working_set = (\<lambda>w az p b. case az p ActionRead (on_branch_named b) of Some e \<Rightarrow> Inl e | None \<Rightarrow> Inr (bw_working w b)),
         rp_namespace = Inr, rp_root = (\<lambda>n. n), rp_diff = (\<lambda>m n. Inr (changed_objects m n, None)),
         rp_update = (\<lambda>w _ _ _ _ _. (Some (Sentinel VcsConflict), w))\<rparr>,
       db_authorizer = Some f, db_texts = (\<lambda>_. [])\<rparr>,
     se_vcs = mem_vcs, se_txn = mem_env, se_empty_namespace = Inr fmempty,
     se_model_diff = (\<lambda>_ _ _. Inr ([], None)), se_empty_blob = Inr zero_root, se_empty_map = Inr [], se_format = (\<lambda>_. 1),
     se_isprint = (\<lambda>_. True)\<rparr>"

lemmas mem_session_defs = mem_session_env_def mem_vcs_def mem_merge_def mem_abort_def mem_commit_def commit_at_def

interpretation mem_branches: merge_laws "mem_session_env f" bw_head bw_working
proof
  show "ws = bw_working w b" if "rp_working_set (db_repo (se_db (mem_session_env f))) w az p b = Inr ws" for w az p b ws
    using that by (auto simp: mem_session_defs split: option.splits)
  show "bw_head w b = Some (cm_hash c)" if "vc_head (se_vcs (mem_session_env f)) w az p b = Inr c" for w az p b c
    using that by (auto simp: mem_session_defs split: option.splits)
  show "w' = w" if "vc_merge (se_vcs (mem_session_env f)) w az p b h = (Inl e, w')" for w az p b h e w'
    using that by (auto simp: mem_session_defs Let_def split: option.splits if_splits)
  show "bw_head w' = bw_head w" if "vc_merge (se_vcs (mem_session_env f)) w az p b h = (Inr cs, w')" for w az p b h cs w'
    using that by (auto simp: mem_session_defs Let_def split: option.splits if_splits)
  show "cs = [] \<and> bw_working w' = bw_working w \<or> (\<exists>ws. bw_working w' = (bw_working w)(b := ws) \<and> ws_merge ws = Some h)"
    if "vc_merge (se_vcs (mem_session_env f)) w az p b h = (Inr cs, w')" "ws_merge (bw_working w b) = None" for w az p b h cs w'
    using that by (auto simp: mem_session_defs Let_def split: option.splits if_splits)
  show "w' = w" if "vc_abort_merge (se_vcs (mem_session_env f)) w az p b = (Some e, w')" for w az p b e w'
    using that by (auto simp: mem_session_defs split: if_splits)
  show "bw_head w'' = bw_head w \<and> bw_working w'' = bw_working w"
    if "vc_merge (se_vcs (mem_session_env f)) w az p b h = (Inr cs, w')" "ws_merge (bw_working w b) = None"
      "vc_abort_merge (se_vcs (mem_session_env f)) w' az' p' b = (None, w'')" for w az p b h cs w' az' p' w''
    using that by (auto simp: mem_session_defs Let_def split: option.splits if_splits)
  show "w' = w" if "vc_commit_working_set (se_vcs (mem_session_env f)) w az p b m = (Inl e, w')" for w az p b m e w'
    using that by (auto simp: mem_session_defs Let_def split: option.splits)
  show "(\<exists>base. bw_head w b = Some base \<and> cm_parents c = base # (case ws_merge (bw_working w b) of None \<Rightarrow> [] | Some h \<Rightarrow> [h])) \<and>
      bw_head w' = (bw_head w)(b \<mapsto> cm_hash c) \<and> (\<exists>ws. bw_working w' = (bw_working w)(b := ws) \<and> ws_merge ws = None)"
    if "vc_commit_working_set (se_vcs (mem_session_env f)) w az p b m = (Inr c, w')" for w az p b m c w'
    using that by (auto simp: mem_session_defs Let_def split: option.splits)
qed

definition ann :: "unit session" where
  "ann = \<lparr>ss_principal = ''ann'', ss_branch = ''main'', ss_hold = (), ss_closed = False\<rparr>"

definition two_branches :: branch_world where
  "two_branches = \<lparr>bw_head = [''main'' \<mapsto> two_objects 0 0, ''dev'' \<mapsto> two_objects 2 0],
     bw_working = (\<lambda>_. \<lparr>ws_working = two_objects 0 0, ws_staged = two_objects 0 0, ws_merge = None\<rparr>),
     bw_before = (\<lambda>_. \<lparr>ws_working = two_objects 0 0, ws_staged = two_objects 0 0, ws_merge = None\<rparr>)\<rparr>"

text \<open>An authorizer that grants everything but commits, and one that grants reads of all but one object.\<close>

definition no_commits :: authorizer where
  "no_commits p a r = (if a = ActionCommit then Some (Sentinel AuthDenied) else None)"

definition hides_b :: authorizer where
  "hides_b p a r = (if r = on_path_named ''main'' ''b'' then Some (Sentinel AuthDenied) else None)"

theorem merge_all_or_nothing_witness:
  "bw_working (snd (session_merge (mem_session_env no_commits) ann ''dev'' ''m'' two_branches)) = bw_working two_branches \<and>
   bw_head (snd (session_merge (mem_session_env no_commits) ann ''dev'' ''m'' two_branches)) = bw_head two_branches"
proof -
  let ?E = "mem_session_env no_commits"
  obtain r w' where m: "session_merge ?E ann ''dev'' ''m'' two_branches = (r, w')" by fastforce
  have "fmlookup (two_objects 0 0) ''a'' \<noteq> fmlookup (two_objects 2 0) ''a''" by (simp add: two_objects_def some_ref_def zero_root_def)
  then have "two_objects 0 0 \<noteq> two_objects 2 0" by metis
  then have r: "\<exists>e. r = Inl e"
    using m by (auto simp: session_merge_def merge_finish_def merge_commit_def resolve_ref_def resolve_branch_def mem_session_defs ann_def two_branches_def
        batch_Authorize_def no_commits_def Let_def split: if_splits option.splits prod.splits)
  have "\<And>w e'. rp_working_set (db_repo (se_db ?E)) w (asked ?E) (ss_principal ann) (ss_branch ann) \<noteq> Inl e'"
    by (simp add: mem_session_env_def batch_Authorize_def no_commits_def)
  moreover have "\<not> (ws_merge ws = Some h \<and> vc_abort_merge (se_vcs ?E) w' (asked ?E) (ss_principal ann) (ss_branch ann) = (Some e', w') \<and>
      bw_working w' = (bw_working two_branches)(ss_branch ann := ws))" for ws h e'
    by (auto simp: mem_session_defs split: if_splits)
  moreover have "merge_outcome ?E bw_head bw_working ann ''dev'' two_branches r w'"
    by (rule merge_all_or_nothing [OF mem_branches.merge_laws_axioms m])
  ultimately have "bw_head w' = bw_head two_branches \<and> bw_working w' = bw_working two_branches"
    using r unfolding merge_outcome_def by (elim exE) (simp, blast)
  then show ?thesis using m by simp
qed

theorem objects_lists_readable_witness:
  "\<exists>out. Objects (mem_session_env hides_b) False ann two_branches = Inr out \<and> out ''a'' = Some KindTable \<and> out ''b'' = None"
proof -
  let ?E = "mem_session_env hides_b"
  have a: "mayRead ?E ann ''a'' = None" and b: "mayRead ?E ann ''b'' \<noteq> None"
    by (simp_all add: mayRead_def auth_check_def mem_session_env_def ann_def batch_Authorize_def hides_b_def on_path_named_def)
  have "\<exists>out. list_objects ?E ann cs None m = Inr out" for cs m
    by (induction cs arbitrary: m) (auto simp: mayRead_def auth_check_def mem_session_env_def ann_def batch_Authorize_def hides_b_def translate_def translate_to_def wrap_def
        split: option.splits)
  then obtain out where o: "Objects ?E False ann two_branches = Inr out"
    by (fastforce simp: Objects_def session_ready_def mem_session_env_def mem_env_def mem_port_def ann_def batch_Authorize_def hides_b_def on_path_named_def on_branch_named_def)
  have laws: "object_laws (te_objects (se_txn ?E)) fmlookup fmlookup"
    using mem_objs.object_laws_axioms by (simp add: mem_session_env_def mem_env_def)
  have "\<exists>ws ns. rp_working_set (db_repo (se_db ?E)) two_branches (asked ?E) (ss_principal ann) (ss_branch ann) = Inr ws \<and>
    rp_namespace (db_repo (se_db ?E)) (ws_working ws) = Inr ns \<and>
    out = (\<lambda>q. if mayRead ?E ann q = None then map_option (\<lambda>r. kindOf (ref_model r)) (fmlookup ns q) else None)"
    by (rule objects_lists_readable [OF laws _ o]) (simp add: mem_session_env_def fun_eq_iff)
  then show ?thesis using o a b by (auto simp: mem_session_env_def two_branches_def two_objects_def some_ref_def kindOf_def batch_Authorize_def split: option.splits)
qed

end
