(* ===== verification/Engine_Database.thy ===== *)
theory Engine_Database
  imports Session
begin

text \<open>
  Databases (src/engine/database.go, maintenance.go, backends.go): creating, opening and closing one, opening a session,
  collection, the directory backend, parsing a document. What opening relies on of repositories is the locale \<open>open_laws\<close>.
\<close>

section \<open>Opening and closing\<close>

text \<open>
  The storage core's repositories as a database opens them, in a world of what the backend holds and which repositories
  are open on it. \<open>rc_models\<close> is the core's registry of the models configured for a geometry, without which there is none.
\<close>

record ('w, 'r, 'g, 'mo) repo_calls =
  rc_default :: 'g
  rc_models :: "'g \<Rightarrow> go_error + 'mo"
  rc_init :: "principal_id \<Rightarrow> 'mo \<Rightarrow> 'w \<Rightarrow> (go_error + 'r) \<times> 'w"
  rc_open :: "'mo \<Rightarrow> 'w \<Rightarrow> (go_error + 'r) \<times> 'w"
  rc_geometry :: "'r \<Rightarrow> 'g"
  rc_close :: "'r \<Rightarrow> 'w \<Rightarrow> go_error option \<times> 'w"

record ('g, 'mo) models =
  md_geometry :: 'g
  md_registry :: 'mo

definition modelsFor :: "('w, 'r, 'g, 'mo) repo_calls \<Rightarrow> 'g \<Rightarrow> go_error + ('g, 'mo) models" where
  "modelsFor R g = map_sum (\<lambda>e. e) (\<lambda>reg. \<lparr>md_geometry = g, md_registry = reg\<rparr>) (rc_models R g)"

record ('r, 'g, 'mo) opened =
  od_repo :: 'r
  od_models :: "('g, 'mo) models"
  od_closed :: bool

definition opened_with :: "'r \<Rightarrow> ('g, 'mo) models \<Rightarrow> ('r, 'g, 'mo) opened" where
  "opened_with r m = \<lparr>od_repo = r, od_models = m, od_closed = False\<rparr>"

definition db_Create :: "(esentinel \<Rightarrow> string) \<Rightarrow> ('w, 'r, 'g, 'mo) repo_calls \<Rightarrow> principal_id \<Rightarrow> 'w \<Rightarrow> (go_error + ('r, 'g, 'mo) opened) \<times> 'w" where
  "db_Create T R p w =
     (case modelsFor R (rc_default R) of Inl e \<Rightarrow> (Inl e, w)
      | Inr m \<Rightarrow> (case rc_init R p (md_registry m) w of (r, w) \<Rightarrow> (map_sum (translate T) (\<lambda>r. opened_with r m) r, w)))"

text \<open>The end of \<open>Open\<close> on a repository written at another geometry.\<close>

definition db_reopen :: "(esentinel \<Rightarrow> string) \<Rightarrow> ('w, 'r, 'g, 'mo) repo_calls \<Rightarrow> 'r \<Rightarrow> 'w \<Rightarrow> (go_error + ('r, 'g, 'mo) opened) \<times> 'w" where
  "db_reopen T R r w =
     (case rc_close R r w of
        (Some e, w) \<Rightarrow> (Inl e, w)
      | (None, w) \<Rightarrow>
         (case modelsFor R (rc_geometry R r) of Inl e \<Rightarrow> (Inl e, w)
          | Inr m \<Rightarrow> (case rc_open R (md_registry m) w of (r, w) \<Rightarrow> (map_sum (translate T) (\<lambda>r. opened_with r m) r, w))))"

definition db_Open :: "(esentinel \<Rightarrow> string) \<Rightarrow> ('w, 'r, 'g, 'mo) repo_calls \<Rightarrow> 'w \<Rightarrow> (go_error + ('r, 'g, 'mo) opened) \<times> 'w" where
  "db_Open T R w =
     (case modelsFor R (rc_default R) of Inl e \<Rightarrow> (Inl e, w)
      | Inr m \<Rightarrow>
         (case rc_open R (md_registry m) w of
            (Inl e, w) \<Rightarrow> (Inl (translate T e), w)
          | (Inr r, w) \<Rightarrow> if rc_geometry R r \<noteq> md_geometry m then db_reopen T R r w else (Inr (opened_with r m), w)))"

definition db_Close :: "('w, 'r, 'g, 'mo) repo_calls \<Rightarrow> ('r, 'g, 'mo) opened \<Rightarrow> 'w \<Rightarrow> go_error option \<times> ('r, 'g, 'mo) opened \<times> 'w" where
  "db_Close R d w =
     (if od_closed d then (None, d, w)
      else case rc_close R (od_repo d) w of (e, w) \<Rightarrow> (e, d\<lparr>od_closed := True\<rparr>, w))"

definition db_Session :: "('w, 'h, 'n, 'ne, 's, 'm, 'e) session_env \<Rightarrow> bool \<Rightarrow> principal_id \<Rightarrow> string \<Rightarrow> 'w \<Rightarrow> (go_error + 's session) \<times> 'w" where
  "db_Session E dbc p branch w =
     (if dbc then (Inl (Sentinel ErrClosed), w)
      else case vc_checkout (se_vcs E) w (asked E) p branch of
        (Inl e, w) \<Rightarrow> (Inl (translate (texts E) e), w)
      | (Inr co, w) \<Rightarrow> (Inr \<lparr>ss_principal = p, ss_branch = branch, ss_hold = co, ss_closed = False\<rparr>, w))"

section \<open>Collection and backends\<close>

record gc_report =
  gc_rounds :: int
  gc_live :: int
  gc_condemned :: int
  gc_reprieved :: int
  gc_repacked :: int
  gc_copied :: int
  gc_deleted :: "string list"

record CollectReport =
  cr_rounds :: int
  cr_live :: int
  cr_condemned :: int
  cr_reprieved :: int
  cr_deleted_packs :: int
  cr_deleted_indexes :: int
  cr_repacked :: int
  cr_copied :: int

text \<open>A grace window is a number of nanoseconds; \<open>show_grace\<close> prints one.\<close>

definition DefaultGrace :: int where
  "DefaultGrace = 7 * 24 * 3600 * 1000000000"

fun count_deleted :: "string list \<Rightarrow> CollectReport \<Rightarrow> CollectReport" where
  "count_deleted [] out = out"
| "count_deleted (name # names) out = count_deleted names
     (if prefix ''packs/'' name then out\<lparr>cr_deleted_packs := cr_deleted_packs out + 1\<rparr>
      else if prefix ''index/'' name then out\<lparr>cr_deleted_indexes := cr_deleted_indexes out + 1\<rparr> else out)"

definition Collect :: "(esentinel \<Rightarrow> string) \<Rightarrow> (int \<Rightarrow> string) \<Rightarrow> (principal_id \<Rightarrow> int \<Rightarrow> 'w \<Rightarrow> (go_error + gc_report) \<times> 'w) \<Rightarrow>
    bool \<Rightarrow> principal_id \<Rightarrow> int \<Rightarrow> 'w \<Rightarrow> (go_error + CollectReport) \<times> 'w" where
  "Collect T show_grace gc dbc p grace w =
     (if dbc then (Inl (Sentinel ErrClosed), w)
      else if grace < 0 then (Inl (Noted ErrInvalid (''a grace window of '' @ show_grace grace)), w)
      else case gc p (if grace = 0 then DefaultGrace else grace) w of
        (Inl e, w) \<Rightarrow> (Inl (translate T e), w)
      | (Inr rep, w) \<Rightarrow> (Inr (count_deleted (gc_deleted rep) \<lparr>cr_rounds = gc_rounds rep, cr_live = gc_live rep, cr_condemned = gc_condemned rep,
          cr_reprieved = gc_reprieved rep, cr_deleted_packs = 0, cr_deleted_indexes = 0, cr_repacked = gc_repacked rep, cr_copied = gc_copied rep\<rparr>), w))"

text \<open>\<open>DiskBlobs\<close>: the store in a directory, opened, or made when there is none (\<open>not_a_store\<close> is the core's answer then).\<close>

definition DiskBlobs :: "(esentinel \<Rightarrow> string) \<Rightarrow> (string \<Rightarrow> 'w \<Rightarrow> (go_error + 'b) \<times> 'w) \<Rightarrow> (string \<Rightarrow> 'w \<Rightarrow> (go_error + 'b) \<times> 'w) \<Rightarrow> (go_error \<Rightarrow> bool) \<Rightarrow>
    string \<Rightarrow> 'w \<Rightarrow> (go_error + 'b) \<times> 'w" where
  "DiskBlobs T open_store make_store not_a_store dir w =
     (case (case open_store dir w of
              (Inl e, w) \<Rightarrow> if not_a_store e then make_store dir w else (Inl e, w)
            | r \<Rightarrow> r) of
        (Inl e, w) \<Rightarrow> (Inl (wrap T ErrInvalid e), w)
      | (Inr b, w) \<Rightarrow> (Inr b, w))"

definition ParseDocument :: "(esentinel \<Rightarrow> string) \<Rightarrow> bytes \<Rightarrow> go_error + node" where
  "ParseDocument T text = map_sum (\<lambda>_. wrap T ErrInvalid (model_error Documents [ErrDocument])) (\<lambda>n. n) (Parse text)"

section \<open>The models fit the repository\<close>

text \<open>
  A backend has one geometry, which opening and closing keep and an opened repository reports; opening holds a repository
  more and closing one fewer, failing neither.
\<close>

lemma map_sum_Inr: "map_sum f g r = Inr y \<longleftrightarrow> (\<exists>x. r = Inr x \<and> y = g x)"
  by (cases r) auto

locale open_laws =
  fixes R :: "('w, 'r, 'g, 'mo) repo_calls" and stored_geometry :: "'w \<Rightarrow> 'g" and held :: "'w \<Rightarrow> nat"
  assumes opens: "rc_open R m w = (Inr r, w') \<Longrightarrow> rc_geometry R r = stored_geometry w \<and> stored_geometry w' = stored_geometry w \<and> held w' = held w + 1"
    and open_fails: "rc_open R m w = (Inl e, w') \<Longrightarrow> held w' = held w"
    and closes: "rc_close R r w = (None, w') \<Longrightarrow> stored_geometry w' = stored_geometry w \<and> held w = held w' + 1"
begin

lemma reopen_fits:
  assumes "rc_open R m w0 = (Inr r, w)" "db_reopen T R r w = (Inr d, w')"
  shows "md_geometry (od_models d) = rc_geometry R (od_repo d) \<and> rc_models R (md_geometry (od_models d)) = Inr (md_registry (od_models d)) \<and>
    rc_geometry R (od_repo d) = stored_geometry w0 \<and> \<not> od_closed d \<and> held w' = held w0 + 1"
proof -
  from assms(2) obtain w1 reg r' where s: "rc_close R r w = (None, w1)" "rc_models R (rc_geometry R r) = Inr reg"
      "rc_open R reg w1 = (Inr r', w')" "d = opened_with r' \<lparr>md_geometry = rc_geometry R r, md_registry = reg\<rparr>"
    by (auto simp: db_reopen_def modelsFor_def map_sum_Inr split: prod.splits option.splits sum.splits)
  then show ?thesis using opens [OF assms(1)] closes [OF s(1)] opens [OF s(3)] by (auto simp: opened_with_def)
qed

lemma reopen_fails:
  assumes "rc_open R m w0 = (Inr r, w)" "db_reopen T R r w = (Inl e, w')"
  shows "held w' = held w0 \<or> rc_close R r w = (Some e, w')"
proof (cases "rc_close R r w")
  case (Pair c w1)
  show ?thesis
  proof (cases c)
    case None
    then have h: "held w1 = held w0" using closes [OF Pair [unfolded None]] opens [OF assms(1)] by simp
    show ?thesis
    proof (cases "rc_models R (rc_geometry R r)")
      case (Inl e1)
      then show ?thesis using assms(2) Pair None h by (simp add: db_reopen_def modelsFor_def)
    next
      case (Inr reg)
      obtain r2 w2 where o: "rc_open R reg w1 = (r2, w2)" by fastforce
      then have "\<exists>e. r2 = Inl e" "w' = w2" using assms(2) Pair None Inr by (cases r2; simp add: db_reopen_def modelsFor_def)+
      then show ?thesis using o open_fails h by auto
    qed
  next
    case (Some e1)
    then show ?thesis using assms(2) Pair by (simp add: db_reopen_def)
  qed
qed

end

text \<open>
  C13. Opening a database gives one whose models are configured for the geometry its repository was written at, whatever
  the default is, open, and holds just that repository: the one opened to learn the geometry is closed again, also when
  opening fails, unless closing it is what failed.
\<close>

theorem open_models_fit:
  assumes laws: "open_laws R stored_geometry held" and op: "db_Open T R w = (r, w')"
  shows "case r of
      Inr d \<Rightarrow> md_geometry (od_models d) = stored_geometry w \<and> rc_geometry R (od_repo d) = stored_geometry w \<and>
        rc_models R (stored_geometry w) = Inr (md_registry (od_models d)) \<and> \<not> od_closed d \<and> held w' = held w + 1
    | Inl e \<Rightarrow> held w' = held w \<or> (\<exists>r1 w1. rc_close R r1 w1 = (Some e, w'))"
proof (cases "rc_models R (rc_default R)")
  case (Inl e)
  then show ?thesis using op by (auto simp: db_Open_def modelsFor_def)
next
  case (Inr reg)
  obtain r1 w1 where o: "rc_open R reg w = (r1, w1)" by fastforce
  show ?thesis
  proof (cases r1)
    case (Inl e)
    then show ?thesis using op Inr o open_laws.open_fails [OF laws] by (auto simp: db_Open_def modelsFor_def)
  next
    case r1: (Inr r0)
    note f = open_laws.opens [OF laws o [unfolded r1]]
    show ?thesis
    proof (cases "rc_geometry R r0 = rc_default R")
      case True
      then show ?thesis using op Inr o r1 f by (auto simp: db_Open_def modelsFor_def opened_with_def)
    next
      case False
      then have re: "db_reopen T R r0 w1 = (r, w')" using op Inr o r1 by (simp add: db_Open_def modelsFor_def)
      show ?thesis
      proof (cases r)
        case (Inl e)
        then show ?thesis using open_laws.reopen_fails [OF laws o [unfolded r1] re [unfolded Inl]] by auto
      next
        case (Inr d)
        then show ?thesis using open_laws.reopen_fits [OF laws o [unfolded r1] re [unfolded Inr]] Inr by simp metis
      qed
    qed
  qed
qed

section \<open>A backend in memory\<close>

text \<open>A backend of one geometry, with the number of repositories open on it.\<close>

definition mem_backend :: "(nat \<times> nat, nat, nat, nat) repo_calls" where
  "mem_backend = \<lparr>rc_default = 0, rc_models = Inr, rc_init = (\<lambda>_ m (g, n). (Inr m, (m, n + 1))),
     rc_open = (\<lambda>_ (g, n). (Inr g, (g, n + 1))), rc_geometry = (\<lambda>g. g),
     rc_close = (\<lambda>_ (g, n). if n = 0 then (Some (Sentinel ErrClosed), (g, n)) else (None, (g, n - 1)))\<rparr>"

interpretation mem_open: open_laws mem_backend fst snd
  by unfold_locales (auto simp: mem_backend_def split: if_splits)

theorem open_models_fit_witness:
  "\<exists>d. db_Open (\<lambda>_. []) mem_backend (4, 0) = (Inr d, (4, 1)) \<and> md_geometry (od_models d) = 4"
proof -
  have o: "db_Open (\<lambda>_. []) mem_backend (4, 0) = (Inr (opened_with 4 \<lparr>md_geometry = 4, md_registry = 4\<rparr>), (4, 1))"
    by (simp add: db_Open_def db_reopen_def modelsFor_def mem_backend_def)
  from open_models_fit [OF mem_open.open_laws_axioms o] o show ?thesis by simp
qed

end
