(* ===== verification/Spec2Isabelle.thy ===== *)
theory Spec2Isabelle
  imports Prelude Merge_Basic Merge_Sequence Merge_Tree_Correct KV_Resolve KV_Map Doc_Model Table_Model_Correct Queue_Correct Engine_Database
begin

text \<open>
  \<^bold>\<open>A verification development of snapshot-engine.\<close>

  The program is a versioned database over a storage core that lives in a repository of its own. Its parts, from the bottom:
  a merge library (src/merge) of three-way policies; three models that store objects in the core's ordered maps and merge
  them through those policies (src/model/kv, src/model/document, src/model/table); and the engine (src/engine), which runs
  transactions over the models, publishes them through a queue on each branch, offers the version operations to sessions,
  asks an authorizer about every call and scrubs every error before a caller sees it.

  \<^bold>\<open>Theories and sources.\<close> Every theory opens with what it holds; a theory ending in \<open>_Correct\<close> has proofs about the one it is
  named after.

  \<^item> \<open>Prelude\<close>: bytes, words, results, generic lemmas, collections of rules. \<open>Go_Text\<close>: what is used of Go's \<open>utf8\<close> and \<open>strconv\<close>.
    \<open>Wire\<close>: the core's wire format.
  \<^item> \<open>Merge_Basic\<close> (merge.go, set.go), \<open>Align\<close>, \<open>Align_Correct\<close>, \<open>Merge_Sequence\<close> (sequence.go), \<open>Merge_Tree\<close>,
    \<open>Merge_Tree_Correct\<close> (tree.go): the merge library.
  \<^item> \<open>KV_Value\<close>, \<open>KV_Value_Correct\<close> (value.go, location.go), \<open>KV_Resolve\<close> (resolve.go), \<open>Map_Object\<close>, \<open>KV_Map\<close> (kv.go, handle.go,
    rebase.go): the key-value model. \<open>Map_Object\<close> holds what it shares with documents: maps of checked records and their rebase.
  \<^item> \<open>Doc_Json\<close>, \<open>Doc_Number\<close>, \<open>Doc_Parser\<close>, \<open>Doc_Canonical\<close> (json.go), \<open>Doc_Record\<close> (record.go), \<open>Doc_Model\<close> (document.go, handle.go,
    rebase.go): the document model.
  \<^item> \<open>Table_Catalog\<close> (table.go), \<open>Table_Cell\<close>, \<open>Cell_Order\<close>, \<open>Table_Cell_Correct\<close> (cell.go), \<open>Table_Schema\<close>, \<open>Schema_Merge\<close>,
    \<open>Table_Widen\<close> (alter.go, schemamerge.go), \<open>Table_Store\<close>, \<open>Table_Rows\<close>, \<open>Table_Flush\<close>, \<open>Table_Correct\<close> (store.go), \<open>Table_Model\<close>,
    \<open>Table_Model_Correct\<close> (model.go, rebase.go): the table model.
  \<^item> \<open>Engine_Errors\<close> (errors.go), \<open>Engine_Grants\<close> (grants.go), \<open>Commit_Queue\<close>, \<open>Queue_Steps\<close>, \<open>Queue_Correct\<close>, \<open>Publish\<close>,
    \<open>Publish_Correct\<close> (queue.go), \<open>Txn_Commit\<close>, \<open>Txn_State\<close>, \<open>Txn_Calls\<close> (txn.go), \<open>Session\<close> (session.go), \<open>Engine_Database\<close> (database.go,
    maintenance.go, backends.go): the engine.

  \<^bold>\<open>State and operations.\<close> A Go struct is a record, an enum or an interface with known implementations a datatype, a string or
  byte slice a list of characters, a fixed-width integer a word, a float its IEEE bit pattern. An operation is a function of the
  same name where HOL allows it; what changes state returns the state. The models' errors are lists of the sentinels they
  wrap; the engine's are the trees Go's wrapping builds, so that \<open>errors.Is\<close> is a function on them. A transaction is the record
  \<open>txn\<close> with its handles apart, as a caller may hold a handle to an object dropped since. The commit queue is a step relation over
  the calls that joined it (\<open>work\<close>, \<open>join\<close>): a step is what a call does between two points at which others can run, so every
  interleaving the mutex and the channels allow is a run. Publishing takes what other processes do during each attempt as functions
  on the world.

  \<^bold>\<open>The storage core\<close> is a parameter: records of the functions the code calls, and locales of what it relies on of them. Each
  locale is interpreted, on finite maps or worlds in memory where the functions are the core's.

  \<^item> \<open>wire_laws\<close>: what is written reads back (\<open>std_wire\<close>: little-endian numbers, LEB128 lengths).
  \<^item> \<open>merge_policy\<close>: a policy does not depend on the side and a side that changed nothing yields (scalars, counters, sets, sequences).
  \<^item> \<open>map_laws\<close> and \<open>record_model\<close>: ordered maps with editors, and a model of checked records over them (the key-value and document
    models).
  \<^item> \<open>table_laws\<close>: the maps of a table and the store of its root record.
  \<^item> \<open>repo_laws\<close>, \<open>healthy_repo\<close>: reading and swapping a branch's working set; \<open>object_laws\<close>: namespaces; \<open>merge_laws\<close>: merges, their
    undoing and commits; \<open>open_laws\<close>: opening and closing repositories.

  \<^bold>\<open>What is shown.\<close>

  \<^item> Commits: a commit onto a branch that moved overwrites no update, publishing is all or nothing member by member, a batch is
    its members one at a time, a transaction commits exactly its changes and reads its own writes.
  \<^item> The queue: one leader, calls in turn, and every call answered after a bounded number of steps.
  \<^item> Sessions and databases: a merge is all or nothing, listings show only what may be read, a database's models fit its
    repository.
  \<^item> Authorization and errors: grants answer as their documented table, callers see engine errors alone.
  \<^item> Tables: byte order of cells is the order of values, a table refines a map from keys to rows, index lookups are exact, schema
    merges and rebases are three-way, widening keeps values, catalogs and cells have one encoding.
  \<^item> Key-value maps and documents: canonical encodings, symmetric merges, disjoint rebases, a total parser, and a merge of
    documents that is a document.
  \<^item> The merge library: the alignment always returns a matching, merges do not depend on the side and lose nothing, the canonical
    text tells values apart, merging fields straight away is merging after a comparison.

  \<^bold>\<open>Bounds and fuel.\<close> Recursion is structural or has a measure, but for two recursions with fuel. The JSON parser takes
  twice the length of the text, of which every second call reads a byte (theory \<open>Doc_Canonical\<close>); the alignment takes the length of both
  lists and one more, as every call of \<open>diff\<close> splits its rectangle (theory \<open>Align_Correct\<close>), and gives up at
  \<open>MaxSequenceEdits\<close> edits as the code does. A batch holds
  at most \<open>maxBatch\<close> calls and is tried \<open>maxCommitAttempts\<close> times, the constants of the source.

  \<^bold>\<open>Not modelled.\<close> The storage core. \<open>Walk\<close>, \<open>Diff\<close> and \<open>Merge\<close> of the key-value and document models and \<open>Walk\<close> of tables, which pass
  their arguments to the core. The deadline of a batch (\<open>batchContext\<close>) and the hooks tests install before a swap. Random row ids
  and correlation ids are arguments. Other processes between two calls of a session's operation. The texts of the models'
  errors. The re-exported names of port.go. The benchmarks under src/tools, which measure the engine and are no part of it.
\<close>

end
